(* ===== verification/RtPrelude.thy ===== *)
theory RtPrelude
  imports Main "HOL-Library.Word"
begin

text \<open>
  Shared vocabulary of the development: the machine types of rtdef.h on the 32-bit
  target, the kernel's error codes, the alignment macros, the block copy that models
  rt_memcpy into a buffer held as a list, and the generic lemmas on lists and words
  that the component theories use.  The collections declared here (\<open>rt_defs\<close>,
  \<open>rt_simps\<close>) are filled by the components.
\<close>

unbundle bit_operations_syntax

named_theorems rt_simps \<open>rewrite rules of the kernel state projections\<close>
named_theorems rt_defs \<open>definitions the component proofs unfold\<close>

section \<open>Machine types and error codes (rtdef.h)\<close>

type_synonym u8 = "8 word"
type_synonym u16 = "16 word"
type_synonym u32 = "32 word"
type_synonym rt_err_t = int

text \<open>The error codes are positive; functions return them negated, as the source does.\<close>

definition RT_EOK :: rt_err_t where "RT_EOK = 0"
definition RT_ERROR :: rt_err_t where "RT_ERROR = 1"
definition RT_ETIMEOUT :: rt_err_t where "RT_ETIMEOUT = 2"
definition RT_EFULL :: rt_err_t where "RT_EFULL = 3"
definition RT_EINTR :: rt_err_t where "RT_EINTR = 9"

lemmas rt_err_defs = RT_EOK_def RT_ERROR_def RT_ETIMEOUT_def RT_EFULL_def RT_EINTR_def

section \<open>Alignment macros\<close>

text \<open>
  \<open>RT_ALIGN(size, 8)\<close> and \<open>RT_ALIGN_DOWN(size, 8)\<close> on the unsigned 32-bit type, with
  \<open>RT_ALIGN_SIZE = 8\<close> as rtconfig.h sets it.  The addition wraps, as in C.
\<close>

definition RT_ALIGN :: "u32 \<Rightarrow> u32 \<Rightarrow> u32" where
  "RT_ALIGN sz align = (sz + align - 1) AND NOT (align - 1)"

definition RT_ALIGN_DOWN :: "u32 \<Rightarrow> u32 \<Rightarrow> u32" where
  "RT_ALIGN_DOWN sz align = sz AND NOT (align - 1)"

section \<open>Copying into a buffer\<close>

text \<open>
  \<open>blit dst off src\<close> is the buffer after \<open>rt_memcpy(&dst[off], src, length src)\<close>.
\<close>

definition blit :: "'a list \<Rightarrow> nat \<Rightarrow> 'a list \<Rightarrow> 'a list" where
  "blit dst off src = take off dst @ src @ drop (off + length src) dst"

lemma length_blit [simp]:
  "off + length src \<le> length dst \<Longrightarrow> length (blit dst off src) = length dst"
  by (simp add: blit_def)

lemma nth_blit:
  "off + length src \<le> length dst \<Longrightarrow> i < length dst \<Longrightarrow>
   blit dst off src ! i = (if off \<le> i \<and> i < off + length src then src ! (i - off) else dst ! i)"
  by (auto simp: blit_def nth_append min_def)

lemma blit_Nil [simp]: "blit dst off [] = dst"
  by (simp add: blit_def)

section \<open>Words\<close>

lemma xor_cancel_right [simp]: "(a XOR c = b XOR c) = (a = b)" for a b c :: "'a::len word"
  by (metis xor.assoc xor_self_eq xor.right_neutral)

lemma xor_cancel_left [simp]: "(c XOR a = c XOR b) = (a = b)" for a b c :: "'a::len word"
  by (metis xor.commute xor_cancel_right)

lemma ucast_u8_u32_inj [simp]: "((ucast b :: u32) = ucast c) = (b = (c :: u8))"
proof
  assume eq: "(ucast b :: u32) = ucast c"
  show "b = c"
  proof (rule bit_word_eqI)
    fix n assume n: "n < LENGTH(8)"
    from eq have "bit (ucast b :: u32) n = bit (ucast c :: u32) n" by simp
    with n show "bit b n = bit c n" by (simp add: bit_ucast_iff)
  qed
qed simp

text \<open>Counting up below a bound does not wrap.\<close>

lemma unat_inc: "(a :: 'a :: len word) < b \<Longrightarrow> unat (a + 1) = unat a + 1"
proof -
  assume "a < b"
  then have "unat a + 1 \<le> unat b" "unat b < 2 ^ LENGTH('a)" by (simp_all add: word_less_nat_alt)
  then have "unat a + 1 < 2 ^ LENGTH('a)" by (rule le_less_trans)
  then show ?thesis by (simp add: unat_word_ariths(1))
qed

end
