(* ===== verification/Crc32.thy ===== *)
theory Crc32
  imports RtPrelude
begin

text \<open>
  The checksum of common/libs/crc32/crc32.c: the nibble-table loop, a bit-at-a-time
  reference for the reflected polynomial \<open>0xEDB88320\<close>, their equivalence, and what the
  loader relies on: the checksum can be continued over a second block, and a change
  confined to one byte always changes it.
\<close>

section \<open>The code\<close>

definition crc32tab :: "u32 list" where
  "crc32tab = [
   0x00000000, 0x1db71064, 0x3b6e20c8, 0x26d930ac, 0x76dc4190,
   0x6b6b51f4, 0x4db26158, 0x5005713c, 0xedb88320, 0xf00f9344,
   0xd6d6a3e8, 0xcb61b38c, 0x9b64c2b0, 0x86d3d2d4, 0xa00ae278,
   0xbdbdf21c]"

text \<open>One table step: \<open>crc = crc32tab[crc & 0x0f] ^ (crc >> 4)\<close>.\<close>

definition crc32_nibble :: "u32 \<Rightarrow> u32" where
  "crc32_nibble crc = (crc32tab ! unat (crc AND 0x0f)) XOR drop_bit 4 crc"

text \<open>The body of the loop: xor the byte in, then two table steps.\<close>

definition crc32_byte :: "u32 \<Rightarrow> u8 \<Rightarrow> u32" where
  "crc32_byte crc b = crc32_nibble (crc32_nibble (crc XOR ucast b))"

text \<open>
  \<open>crc32(crc, data, length)\<close>, with \<open>buf\<close> the \<open>length\<close> bytes at \<open>data\<close>.
\<close>

definition crc32 :: "u32 \<Rightarrow> u8 list \<Rightarrow> u32" where
  "crc32 crc buf =
     (if buf = [] then 0
      else foldl crc32_byte (crc XOR 0xffffffff) buf XOR 0xffffffff)"

section \<open>The reference: one bit at a time\<close>

definition crc32_poly :: u32 where "crc32_poly = 0xedb88320"

definition crc_bit :: "u32 \<Rightarrow> u32" where
  "crc_bit crc = (if bit crc 0 then drop_bit 1 crc XOR crc32_poly else drop_bit 1 crc)"

definition crc_byte_ref :: "u32 \<Rightarrow> u8 \<Rightarrow> u32" where
  "crc_byte_ref crc b = (crc_bit ^^ 8) (crc XOR ucast b)"

definition crc32_ref :: "u32 \<Rightarrow> u8 list \<Rightarrow> u32" where
  "crc32_ref crc buf = NOT (foldl crc_byte_ref (NOT crc) buf)"

section \<open>Equivalence with the reference\<close>

lemma crc_bit_xor: "crc_bit (a XOR b) = crc_bit a XOR crc_bit b"
  by (auto simp: crc_bit_def bit_xor_iff drop_bit_xor ac_simps xor.assoc)

lemma crc_bit4: "(crc_bit ^^ 4) x = crc_bit (crc_bit (crc_bit (crc_bit x)))"
  by (simp add: numeral_eq_Suc)

lemma crc_bit4_xor: "(crc_bit ^^ 4) (a XOR b) = (crc_bit ^^ 4) a XOR (crc_bit ^^ 4) b"
  by (simp only: crc_bit4 crc_bit_xor)

lemma crc_bit4_table:
  "\<forall>n\<in>set [0..<16]. crc_bit (crc_bit (crc_bit (crc_bit (of_nat n)))) = crc32tab ! n"
  by code_simp

lemma crc_bit4_low: "n < 16 \<Longrightarrow> (crc_bit ^^ 4) (of_nat n) = crc32tab ! n"
  using crc_bit4_table by (simp add: crc_bit4)

text \<open>A word whose low nibble is clear is only shifted.\<close>

lemma crc_bit_even: "\<not> bit x 0 \<Longrightarrow> crc_bit x = drop_bit 1 x"
  by (simp add: crc_bit_def)

lemma nibble_mask: "(0x0f :: u32) = mask 4"
  by (simp add: mask_eq_exp_minus_1)

lemma crc_bit4_high:
  fixes x :: u32
  assumes "x AND 0x0f = 0"
  shows "(crc_bit ^^ 4) x = drop_bit 4 x"
proof -
  have b: "\<not> bit x i" if "i < 4" for i
  proof -
    have "bit (0x0f :: u32) i"
      using that by (auto simp: less_Suc_eq numeral_eq_Suc bit_simps)
    moreover have "\<not> bit (x AND 0x0f) i" using assms by simp
    ultimately show ?thesis by (simp add: bit_and_iff)
  qed
  have "\<not> bit x 0" "\<not> bit (drop_bit 1 x) 0"
       "\<not> bit (drop_bit 2 x) 0" "\<not> bit (drop_bit 3 x) 0"
    using b[of 0] b[of 1] b[of 2] b[of 3] by (simp_all add: bit_drop_bit_eq)
  then have "crc_bit x = drop_bit 1 x" "crc_bit (drop_bit 1 x) = drop_bit 2 x"
       "crc_bit (drop_bit 2 x) = drop_bit 3 x" "crc_bit (drop_bit 3 x) = drop_bit 4 x"
    by (simp_all add: crc_bit_def eval_nat_numeral)
  then show ?thesis by (simp only: crc_bit4)
qed

lemma crc32_nibble_eq: "crc32_nibble x = (crc_bit ^^ 4) x"
proof -
  let ?lo = "x AND 0x0f" and ?hi = "x AND NOT 0x0f"
  have split: "x = ?lo XOR ?hi"
    by (rule bit_word_eqI) (auto simp: bit_simps)
  have lt: "unat ?lo < 16"
    using word_and_le1 [of x "0x0f", THEN word_le_nat_alt [THEN iffD1]] by simp
  have "(crc_bit ^^ 4) x = (crc_bit ^^ 4) ?lo XOR (crc_bit ^^ 4) ?hi"
    using split crc_bit4_xor by metis
  also have "(crc_bit ^^ 4) ?lo = crc32tab ! unat ?lo"
    using crc_bit4_low[OF lt] by simp
  also have "(crc_bit ^^ 4) ?hi = drop_bit 4 ?hi"
    by (rule crc_bit4_high) (rule bit_word_eqI, simp add: bit_simps)
  also have "drop_bit 4 ?hi = drop_bit 4 x"
    by (rule bit_word_eqI) (auto simp: nibble_mask bit_simps dest: bit_imp_le_length)
  finally show ?thesis by (simp add: crc32_nibble_def)
qed

lemma crc32_byte_eq: "crc32_byte c b = crc_byte_ref c b"
proof -
  have "(8::nat) = 4 + 4" by simp
  then show ?thesis
    unfolding crc32_byte_def crc_byte_ref_def crc32_nibble_eq by (simp only: funpow_add comp_apply)
qed

lemma crc32_ones: "x XOR 0xffffffff = NOT (x :: u32)"
proof -
  have "(0xffffffff :: u32) = - 1" by simp
  then show ?thesis by (simp only: word_log_esimps)
qed

lemma crc32_ref_aux: "buf \<noteq> [] \<Longrightarrow> crc32 c buf = crc32_ref c buf"
proof -
  have "foldl crc32_byte s buf = foldl crc_byte_ref s buf" for s
    by (rule foldl_cong) (simp_all add: crc32_byte_eq)
  then show "buf \<noteq> [] \<Longrightarrow> ?thesis" by (simp add: crc32_def crc32_ref_def crc32_ones)
qed

section \<open>Continuation and error detection\<close>

text \<open>
  The shift register is a bijection: the polynomial has its top bit set, so the top bit
  of the result tells which branch was taken.
\<close>

lemma crc_bit_top: "bit (crc_bit x) 31 = bit x 0"
  by (auto simp: crc_bit_def crc32_poly_def bit_simps dest: bit_imp_le_length)

lemma crc_bit_inj: "crc_bit x = crc_bit y \<Longrightarrow> x = y"
proof -
  assume eq: "crc_bit x = crc_bit y"
  then have b0: "bit x 0 = bit y 0" by (metis crc_bit_top)
  with eq have d: "drop_bit 1 x = drop_bit 1 y"
    by (auto simp: crc_bit_def split: if_splits)
  show "x = y"
  proof (rule bit_word_eqI)
    fix n
    show "bit x n = bit y n"
    proof (cases n)
      case 0 with b0 show ?thesis by simp
    next
      case (Suc m)
      from d have "bit (drop_bit 1 x) m = bit (drop_bit 1 y) m" by simp
      with Suc show ?thesis by (simp add: bit_drop_bit_eq)
    qed
  qed
qed

lemma crc_bits_inj: "(crc_bit ^^ n) x = (crc_bit ^^ n) y \<Longrightarrow> x = y"
  by (induction n) (auto dest: crc_bit_inj)

lemma crc32_byte_inj_state: "crc32_byte x b = crc32_byte y b \<Longrightarrow> x = y"
  by (auto simp: crc32_byte_eq crc_byte_ref_def dest: crc_bits_inj)

lemma crc32_byte_inj_byte: "crc32_byte x b = crc32_byte x c \<Longrightarrow> b = c"
  by (auto simp: crc32_byte_eq crc_byte_ref_def dest: crc_bits_inj)

lemma crc32_fold_inj: "foldl crc32_byte x buf = foldl crc32_byte y buf \<Longrightarrow> x = y"
  by (induction buf arbitrary: x y) (auto dest: crc32_byte_inj_state)

text \<open>A second call that is given the first result continues it.\<close>

lemma crc32_append_aux:
  assumes "xs \<noteq> []" "ys \<noteq> []"
  shows "crc32 c (xs @ ys) = crc32 (crc32 c xs) ys"
  using assms by (simp add: crc32_def xor.assoc)

text \<open>A change confined to one byte always changes the checksum.\<close>

lemma crc32_detects_byte_aux:
  assumes "b \<noteq> b'"
  shows "crc32 c (xs @ b # ys) \<noteq> crc32 c (xs @ b' # ys)"
proof
  let ?s = "foldl crc32_byte (c XOR 0xffffffff) xs"
  assume "crc32 c (xs @ b # ys) = crc32 c (xs @ b' # ys)"
  then have "foldl crc32_byte (crc32_byte ?s b) ys = foldl crc32_byte (crc32_byte ?s b') ys"
    by (simp add: crc32_def)
  then have "crc32_byte ?s b = crc32_byte ?s b'" by (rule crc32_fold_inj)
  then show False using assms crc32_byte_inj_byte by blast
qed

section \<open>Properties\<close>

text \<open>
  C40: On every non-empty buffer the nibble-table loop of crc32.c computes the
  bit-at-a-time CRC-32 of the reflected polynomial 0xEDB88320, from any starting value.
\<close>

theorem crc32_matches_reference: "buf \<noteq> [] \<Longrightarrow> crc32 c buf = crc32_ref c buf"
  by (rule crc32_ref_aux)

text \<open>The check value of CRC-32: the ASCII digits 1 to 9 give 0xCBF43926.\<close>

theorem crc32_matches_reference_witness:
  "crc32 0 [0x31, 0x32, 0x33, 0x34, 0x35, 0x36, 0x37, 0x38, 0x39] = 0xCBF43926 \<and>
   crc32_ref 0 [0x31, 0x32, 0x33, 0x34, 0x35, 0x36, 0x37, 0x38, 0x39] = 0xCBF43926"
proof -
  have v: "crc32 0 [0x31, 0x32, 0x33, 0x34, 0x35, 0x36, 0x37, 0x38, 0x39] = 0xCBF43926"
    by code_simp
  with crc32_matches_reference [of "[0x31, 0x32, 0x33, 0x34, 0x35, 0x36, 0x37, 0x38, 0x39]" 0]
  show ?thesis by simp
qed

text \<open>
  A change confined to a single byte of the data, at any position and of any bits of
  that byte, always changes the checksum.
\<close>

theorem crc32_detects_byte:
  assumes "b \<noteq> b'"
  shows "crc32 c (xs @ b # ys) \<noteq> crc32 c (xs @ b' # ys)"
  using assms by (rule crc32_detects_byte_aux)

theorem crc32_detects_byte_witness:
  "(7 :: u8) \<noteq> 8 \<and> crc32 0 [1, 7, 2] \<noteq> crc32 0 [1, 8, 2]"
  using crc32_detects_byte [of 7 8 0 "[1]" "[2]"] by simp

text \<open>
  A second call that is given the result of the first continues the checksum, as
  zlib's crc32 does; but a call on an empty buffer returns 0 and not the value it was
  given, so the two must be non-empty.
\<close>

theorem crc32_append:
  assumes "xs \<noteq> []" "ys \<noteq> []"
  shows "crc32 c (xs @ ys) = crc32 (crc32 c xs) ys \<and> crc32 c [] = 0"
  using crc32_append_aux [OF assms] by (simp add: crc32_def)

theorem crc32_append_witness:
  "crc32 0 ([1, 2] @ [3]) = crc32 (crc32 0 [1, 2]) [3] \<and> crc32 5 [] \<noteq> 5"
  using crc32_append [of "[1, 2]" "[3]" 0] crc32_append [of "[1]" "[3]" 5] by simp

end
