(* ===== verification/KState.thy ===== *)
theory KState
  imports RtPrelude
begin

text \<open>
  The state of the RT-Thread kernel, uniprocessor configuration of rtconfig.h: the thread
  control blocks, the timers, the IPC objects and memory pools, the object containers, and
  the global variables of scheduler.c, clock.c, irq.c and timer.c.

  Control blocks are reached through identifiers (natural numbers) in place of pointers.
  A thread's list node \<open>tlist\<close> is on at most one queue: a queue is the list of the threads
  on it, from the head's successor on (theory RtList shows that the pointer operations act
  on such lists), and unlinking a thread takes it off whatever queue it is on.  Sections
  between \<open>rt_hw_interrupt_disable\<close> and \<open>rt_hw_interrupt_enable\<close> are atomic.  A context
  switch is the change of \<open>rt_current_thread\<close>; the saved registers are not part of the state.
\<close>

section \<open>Identifiers\<close>

type_synonym tid = nat

datatype qhead =
    ReadyQ nat          \<comment> \<open>rt_thread_priority_table[prio]\<close>
  | Defunct             \<comment> \<open>rt_thread_defunct\<close>
  | SemQ nat            \<comment> \<open>sem->parent.suspend_thread\<close>
  | MutexQ nat
  | EventQ nat
  | MbQ nat             \<comment> \<open>mb->parent.suspend_thread: receivers\<close>
  | MbSendQ nat         \<comment> \<open>mb->suspend_sender_thread\<close>
  | MqQ nat
  | MpQ nat

datatype timer_ref = ThreadTimer tid | UserTimer nat

text \<open>The timeout function of a timer with its parameter.\<close>

datatype timeout_fn = Thread_timeout tid | User_timeout nat

datatype object_ref =
  OThread tid | OTimer timer_ref | OSem nat | OMutex nat | OEvent nat | OMailbox nat
| OMq nat | OMp nat | ODevice nat

section \<open>Control blocks\<close>

record rt_thread =
  entry :: nat
  parameter :: nat
  stack_addr :: nat
  stack_size :: u32
  thread_error :: rt_err_t
  stat :: u8
  current_priority :: nat
  init_priority :: nat
  number_mask :: u32
  event_set :: u32
  event_info :: u8
  thread_init_tick :: u32
  remaining_tick :: u32
  cleanup :: "nat option"
  user_data :: u32

record rt_timer =
  timer_flag :: u8
  timeout_func :: timeout_fn
  init_tick :: u32
  timeout_tick :: u32

record rt_object =
  obj_name :: string
  obj_type :: u8

record rt_semaphore =
  sem_flag :: u8
  sem_value :: u16

record rt_mutex =
  mutex_flag :: u8
  mutex_value :: u16
  original_priority :: nat
  hold :: u8
  owner :: "tid option"

record rt_event =
  event_flag :: u8
  event_bits :: u32

text \<open>The pool of a mailbox holds \<open>mb_size\<close> words.\<close>

record rt_mailbox =
  mb_flag :: u8
  mb_pool :: "u32 list"
  mb_size :: nat
  mb_entry :: nat
  mb_in_offset :: nat
  mb_out_offset :: nat

text \<open>
  The pool of a message queue is an array of slots, each with the link \<open>next\<close> of
  \<open>struct rt_mq_message\<close> and the message bytes behind it; a slot is named by its index.
\<close>

record rt_messagequeue =
  mq_flag :: u8
  mq_msg_size :: nat
  mq_max_msgs :: nat
  mq_entry :: nat
  mq_next :: "nat \<Rightarrow> nat option"
  mq_data :: "nat \<Rightarrow> u8 list"
  mq_head :: "nat option"
  mq_tail :: "nat option"
  mq_free :: "nat option"

text \<open>
  A memory pool.  The first word of a block holds the link to the next free block while the
  block is free, and the pool it belongs to while it is allocated.
\<close>

datatype mp_word = MpNext "u32 option" | MpPool nat

record rt_mempool =
  mp_start_address :: u32
  mp_size :: u32
  mp_block_size :: u32
  mp_block_list :: "u32 option"
  mp_block_total_count :: u32
  mp_block_free_count :: u32
  mp_suspend_thread_count :: u32
  mp_word :: "u32 \<Rightarrow> mp_word"

record kernel =
  threads :: "tid \<Rightarrow> rt_thread"
  queue :: "qhead \<Rightarrow> tid list"
  rt_thread_ready_priority_group :: u32
  rt_current_thread :: "tid option"
  rt_current_priority :: nat
  rt_scheduler_lock_nest :: int
  rt_interrupt_nest :: u8
  rt_tick :: u32
  timers :: "timer_ref \<Rightarrow> rt_timer"
  rt_timer_list :: "timer_ref list"
  rt_soft_timer_list :: "timer_ref list"
  objects :: "object_ref \<Rightarrow> rt_object"
  object_list :: "nat \<Rightarrow> object_ref list"
  sems :: "nat \<Rightarrow> rt_semaphore"
  mutexes :: "nat \<Rightarrow> rt_mutex"
  events :: "nat \<Rightarrow> rt_event"
  mailboxes :: "nat \<Rightarrow> rt_mailbox"
  mqs :: "nat \<Rightarrow> rt_messagequeue"
  mempools :: "nat \<Rightarrow> rt_mempool"
  rt_errno :: rt_err_t

text \<open>The two static thread objects of timer.c and idle.c.\<close>

definition timer_thread :: tid where "timer_thread = 0"
definition idle_thread :: tid where "idle_thread = 1"

section \<open>Constants of rtdef.h\<close>

definition RT_THREAD_PRIORITY_MAX :: nat where "RT_THREAD_PRIORITY_MAX = 32"
definition RT_NAME_MAX :: nat where "RT_NAME_MAX = 32"

definition RT_THREAD_INIT :: u8 where "RT_THREAD_INIT = 0x00"
definition RT_THREAD_READY :: u8 where "RT_THREAD_READY = 0x01"
definition RT_THREAD_SUSPEND :: u8 where "RT_THREAD_SUSPEND = 0x02"
definition RT_THREAD_RUNNING :: u8 where "RT_THREAD_RUNNING = 0x03"
definition RT_THREAD_CLOSE :: u8 where "RT_THREAD_CLOSE = 0x04"
definition RT_THREAD_STAT_MASK :: u8 where "RT_THREAD_STAT_MASK = 0x0f"

definition RT_IPC_FLAG_FIFO :: u8 where "RT_IPC_FLAG_FIFO = 0"
definition RT_IPC_FLAG_PRIO :: u8 where "RT_IPC_FLAG_PRIO = 1"

definition RT_TIMER_FLAG_ACTIVATED :: u8 where "RT_TIMER_FLAG_ACTIVATED = 1"
definition RT_TIMER_FLAG_PERIODIC :: u8 where "RT_TIMER_FLAG_PERIODIC = 2"
definition RT_TIMER_FLAG_SOFT_TIMER :: u8 where "RT_TIMER_FLAG_SOFT_TIMER = 4"

definition RT_TICK_MAX :: u32 where "RT_TICK_MAX = 0xffffffff"

lemmas rt_stat_defs = RT_THREAD_INIT_def RT_THREAD_READY_def RT_THREAD_SUSPEND_def
  RT_THREAD_RUNNING_def RT_THREAD_CLOSE_def RT_THREAD_STAT_MASK_def

section \<open>Access\<close>

text \<open>\<open>thread->stat & RT_THREAD_STAT_MASK\<close>, and the assignment that keeps the other bits.\<close>

definition thread_stat :: "kernel \<Rightarrow> tid \<Rightarrow> u8" where
  "thread_stat k t = stat (threads k t) AND RT_THREAD_STAT_MASK"

definition upd_thread :: "tid \<Rightarrow> (rt_thread \<Rightarrow> rt_thread) \<Rightarrow> kernel \<Rightarrow> kernel" where
  "upd_thread t f k = k\<lparr>threads := (threads k)(t := f (threads k t))\<rparr>"

definition set_stat :: "tid \<Rightarrow> u8 \<Rightarrow> kernel \<Rightarrow> kernel" where
  "set_stat t c = upd_thread t (\<lambda>th. th\<lparr>stat := c OR (stat th AND NOT RT_THREAD_STAT_MASK)\<rparr>)"

definition upd_timer :: "timer_ref \<Rightarrow> (rt_timer \<Rightarrow> rt_timer) \<Rightarrow> kernel \<Rightarrow> kernel" where
  "upd_timer t f k = k\<lparr>timers := (timers k)(t := f (timers k t))\<rparr>"

text \<open>\<open>rt_list_remove(&(thread->tlist))\<close>.\<close>

definition tlist_remove :: "tid \<Rightarrow> kernel \<Rightarrow> kernel" where
  "tlist_remove t k = k\<lparr>queue := (\<lambda>h. filter (\<lambda>u. u \<noteq> t) (queue k h))\<rparr>"

text \<open>\<open>rt_list_insert_before(head, &(thread->tlist))\<close> and \<open>rt_list_insert_after\<close>.\<close>

definition tlist_insert_before :: "qhead \<Rightarrow> tid \<Rightarrow> kernel \<Rightarrow> kernel" where
  "tlist_insert_before h t k = k\<lparr>queue := (queue k)(h := queue k h @ [t])\<rparr>"

definition tlist_insert_after :: "qhead \<Rightarrow> tid \<Rightarrow> kernel \<Rightarrow> kernel" where
  "tlist_insert_after h t k = k\<lparr>queue := (queue k)(h := t # queue k h)\<rparr>"

section \<open>The state before start-up\<close>

text \<open>Static objects are zero before the kernel initialises them.\<close>

definition thread_zero :: rt_thread where
  "thread_zero = \<lparr>entry = 0, parameter = 0, stack_addr = 0, stack_size = 0, thread_error = 0, stat = 0,
     current_priority = 0, init_priority = 0, number_mask = 0, event_set = 0, event_info = 0,
     thread_init_tick = 0, remaining_tick = 0, cleanup = None, user_data = 0\<rparr>"

definition kernel_zero :: kernel where
  "kernel_zero = \<lparr>threads = (\<lambda>_. thread_zero), queue = (\<lambda>_. []), rt_thread_ready_priority_group = 0,
     rt_current_thread = None, rt_current_priority = 0, rt_scheduler_lock_nest = 0,
     rt_interrupt_nest = 0, rt_tick = 0,
     timers = (\<lambda>_. \<lparr>timer_flag = 0, timeout_func = User_timeout 0, init_tick = 0, timeout_tick = 0\<rparr>),
     rt_timer_list = [], rt_soft_timer_list = [],
     objects = (\<lambda>_. \<lparr>obj_name = [], obj_type = 0\<rparr>), object_list = (\<lambda>_. []),
     sems = (\<lambda>_. \<lparr>sem_flag = 0, sem_value = 0\<rparr>),
     mutexes = (\<lambda>_. \<lparr>mutex_flag = 0, mutex_value = 0, original_priority = 0, hold = 0, owner = None\<rparr>),
     events = (\<lambda>_. \<lparr>event_flag = 0, event_bits = 0\<rparr>),
     mailboxes = (\<lambda>_. \<lparr>mb_flag = 0, mb_pool = [], mb_size = 0, mb_entry = 0, mb_in_offset = 0, mb_out_offset = 0\<rparr>),
     mqs = (\<lambda>_. \<lparr>mq_flag = 0, mq_msg_size = 0, mq_max_msgs = 0, mq_entry = 0, mq_next = (\<lambda>_. None),
       mq_data = (\<lambda>_. []), mq_head = None, mq_tail = None, mq_free = None\<rparr>),
     mempools = (\<lambda>_. \<lparr>mp_start_address = 0, mp_size = 0, mp_block_size = 0, mp_block_list = None,
       mp_block_total_count = 0, mp_block_free_count = 0, mp_suspend_thread_count = 0, mp_word = (\<lambda>_. MpNext None)\<rparr>),
     rt_errno = 0\<rparr>"

end
