(* ===== verification/Ffs.thy ===== *)
theory Ffs
  imports RtPrelude
begin

text \<open>
  Find first set.  The scheduler turns the bitmap of ready priorities into the highest
  ready priority with \<open>__rt_ffs\<close>: the board's build uses the compiler's builtin
  (arch/mips/stack/stack.c), a build without it the table of kernel/kservice.c.  The
  builtin is modelled by its documented meaning, a search from bit 0 up; the table
  version is translated and shown equal to it.
\<close>

section \<open>Definitions\<close>

definition rt_ffs :: "u32 \<Rightarrow> nat" where
  "rt_ffs v = (case find (\<lambda>i. bit v i) [0..<32] of None \<Rightarrow> 0 | Some i \<Rightarrow> i + 1)"

definition lowest_bit_bitmap :: "nat list" where
  "lowest_bit_bitmap =
    [0, 0, 1, 0, 2, 0, 1, 0, 3, 0, 1, 0, 2, 0, 1, 0,
     4, 0, 1, 0, 2, 0, 1, 0, 3, 0, 1, 0, 2, 0, 1, 0,
     5, 0, 1, 0, 2, 0, 1, 0, 3, 0, 1, 0, 2, 0, 1, 0,
     4, 0, 1, 0, 2, 0, 1, 0, 3, 0, 1, 0, 2, 0, 1, 0,
     6, 0, 1, 0, 2, 0, 1, 0, 3, 0, 1, 0, 2, 0, 1, 0,
     4, 0, 1, 0, 2, 0, 1, 0, 3, 0, 1, 0, 2, 0, 1, 0,
     5, 0, 1, 0, 2, 0, 1, 0, 3, 0, 1, 0, 2, 0, 1, 0,
     4, 0, 1, 0, 2, 0, 1, 0, 3, 0, 1, 0, 2, 0, 1, 0,
     7, 0, 1, 0, 2, 0, 1, 0, 3, 0, 1, 0, 2, 0, 1, 0,
     4, 0, 1, 0, 2, 0, 1, 0, 3, 0, 1, 0, 2, 0, 1, 0,
     5, 0, 1, 0, 2, 0, 1, 0, 3, 0, 1, 0, 2, 0, 1, 0,
     4, 0, 1, 0, 2, 0, 1, 0, 3, 0, 1, 0, 2, 0, 1, 0,
     6, 0, 1, 0, 2, 0, 1, 0, 3, 0, 1, 0, 2, 0, 1, 0,
     4, 0, 1, 0, 2, 0, 1, 0, 3, 0, 1, 0, 2, 0, 1, 0,
     5, 0, 1, 0, 2, 0, 1, 0, 3, 0, 1, 0, 2, 0, 1, 0,
     4, 0, 1, 0, 2, 0, 1, 0, 3, 0, 1, 0, 2, 0, 1, 0]"

definition rt_ffs_table :: "u32 \<Rightarrow> nat" where
  "rt_ffs_table value =
     (if value = 0 then 0
      else if value AND 0xff \<noteq> 0 then lowest_bit_bitmap ! unat (value AND 0xff) + 1
      else if value AND 0xff00 \<noteq> 0
      then lowest_bit_bitmap ! unat (drop_bit 8 (value AND 0xff00)) + 9
      else if value AND 0xff0000 \<noteq> 0
      then lowest_bit_bitmap ! unat (drop_bit 16 (value AND 0xff0000)) + 17
      else lowest_bit_bitmap ! unat (drop_bit 24 (value AND 0xff000000)) + 25)"

section \<open>Lemmas\<close>

text \<open>What the scheduler uses: the position of the lowest set bit.\<close>

lemma rt_ffs_0 [simp]: "rt_ffs 0 = 0"
proof -
  have "find (\<lambda>i. bit (0::u32) i) [0..<32] = None" by (simp add: find_None_iff)
  then show ?thesis by (simp add: rt_ffs_def)
qed

lemma rt_ffs_eqI:
  assumes "bit v n" "\<And>i. i < n \<Longrightarrow> \<not> bit v i"
  shows "rt_ffs v = n + 1"
proof -
  have n: "n < 32" using assms(1) by (auto dest: bit_imp_le_length)
  have "find (\<lambda>i. bit v i) [0..<32] = Some n"
    using assms n by (auto simp: find_Some_iff intro!: exI [of _ n])
  then show ?thesis by (simp add: rt_ffs_def)
qed

lemma rt_ffs_lowest:
  assumes "v \<noteq> 0"
  shows "0 < rt_ffs v" "rt_ffs v \<le> 32" "bit v (rt_ffs v - 1)" "\<And>i. bit v i \<Longrightarrow> rt_ffs v - 1 \<le> i"
proof -
  obtain m where m: "bit v m" using assms by (metis bit_0_eq bit_eq_iff bot_apply bot_bool_def)
  define n where "n = (LEAST i. bit v i)"
  have n: "bit v n" "\<And>i. i < n \<Longrightarrow> \<not> bit v i"
    unfolding n_def using m by (auto intro: LeastI dest: not_less_Least)
  have e: "rt_ffs v = n + 1" using n by (rule rt_ffs_eqI)
  have "n < 32" using n(1) by (auto dest: bit_imp_le_length)
  then show "0 < rt_ffs v" "rt_ffs v \<le> 32" by (simp_all add: e)
  show "bit v (rt_ffs v - 1)" using n(1) by (simp add: e)
  show "\<And>i. bit v i \<Longrightarrow> rt_ffs v - 1 \<le> i" using n(2) by (simp add: e) (meson not_le)
qed

text \<open>The table entry of a non-zero byte is its lowest set bit.\<close>

lemma lowest_bit_bitmap_all:
  "list_all (\<lambda>(e, b). b = 0 \<or> odd (b div 2 ^ e) \<and> b mod 2 ^ e = 0) (zip lowest_bit_bitmap [0..255])"
  by code_simp

lemma lowest_bit_bitmap_ok:
  assumes "0 < b" "b < 256"
  shows "bit b (lowest_bit_bitmap ! b)" "i < lowest_bit_bitmap ! b \<Longrightarrow> \<not> bit b i"
proof -
  let ?e = "lowest_bit_bitmap ! b"
  have len: "length lowest_bit_bitmap = 256" by (simp add: lowest_bit_bitmap_def)
  have "(?e, int b) \<in> set (zip lowest_bit_bitmap [0..255])"
    using assms len by (auto simp: in_set_zip intro!: exI [of _ b])
  then have e: "odd (int b div 2 ^ ?e)" "int b mod 2 ^ ?e = 0"
    using lowest_bit_bitmap_all assms by (auto simp: list_all_iff)
  then show "bit b ?e" by (simp add: bit_iff_odd flip: of_nat_div of_nat_power) (metis even_of_nat of_nat_numeral of_nat_power zdiv_int)
  show "\<not> bit b i" if "i < ?e"
  proof -
    have "take_bit ?e (int b) = 0" using e(2) by (simp add: take_bit_eq_mod)
    then have "\<not> bit (take_bit ?e (int b)) i" by simp
    with that show ?thesis by (simp add: bit_take_bit_iff bit_of_nat_iff)
  qed
qed

lemma byte_masks:
  "(0xff :: u32) = push_bit 0 (mask 8)" "(0xff00 :: u32) = push_bit 8 (mask 8)"
  "(0xff0000 :: u32) = push_bit 16 (mask 8)" "(0xff000000 :: u32) = push_bit 24 (mask 8)"
  by (simp_all add: mask_eq_exp_minus_1)

lemma byte_of_word:
  fixes v :: u32
  assumes "k \<le> 24"
  shows "drop_bit k (v AND push_bit k (mask 8)) = take_bit 8 (drop_bit k v)"
    "(v AND push_bit k (mask 8) = 0) = (take_bit 8 (drop_bit k v) = 0)"
proof -
  show e: "drop_bit k (v AND push_bit k (mask 8)) = take_bit 8 (drop_bit k v)"
    by (rule bit_eqI) (auto simp: bit_simps dest: bit_imp_le_length)
  show "(v AND push_bit k (mask 8) = 0) = (take_bit 8 (drop_bit k v) = 0)"
  proof
    assume "take_bit 8 (drop_bit k v) = 0"
    then have "push_bit k (take_bit 8 (drop_bit k v)) = 0" by simp
    moreover have "push_bit k (take_bit 8 (drop_bit k v)) = v AND push_bit k (mask 8)"
      using assms by (intro bit_eqI) (auto simp: bit_simps)
    ultimately show "v AND push_bit k (mask 8) = 0" by simp
  qed (use e in simp)
qed

lemma ffs_byte:
  fixes v :: u32
  assumes k: "k \<le> 24" and nz: "take_bit 8 (drop_bit k v) \<noteq> 0" and low: "\<And>i. i < k \<Longrightarrow> \<not> bit v i"
  shows "rt_ffs v = lowest_bit_bitmap ! unat (take_bit 8 (drop_bit k v)) + (k + 1)"
proof -
  let ?w = "take_bit 8 (drop_bit k v)"
  let ?b = "unat ?w"
  have "?w = ?w AND mask 8" by (simp add: take_bit_eq_mask)
  then have "?w \<le> mask 8" by (metis and.commute word_and_le1)
  then have b: "0 < ?b" "?b < 256"
    using nz by (auto simp: unat_gt_0 word_le_nat_alt mask_eq_exp_minus_1)
  have bits: "bit ?b i \<longleftrightarrow> i < 8 \<and> bit v (i + k)" for i
    by (auto simp: bit_unsigned_iff bit_simps add.commute)
  note e = lowest_bit_bitmap_ok [OF b]
  have "rt_ffs v = (lowest_bit_bitmap ! ?b + k) + 1"
  proof (rule rt_ffs_eqI)
    show "bit v (lowest_bit_bitmap ! ?b + k)" using e(1) bits by simp
    show "\<not> bit v i" if "i < lowest_bit_bitmap ! ?b + k" for i
    proof (cases "i < k")
      case False
      then have "\<not> bit ?b (i - k)" using that by (intro e(2)) simp
      moreover have "i - k < 8" using e(1) that bits False by (meson less_diff_conv2 less_trans not_le)
      ultimately show ?thesis using False bits by simp
    qed (use low in auto)
  qed
  then show ?thesis by simp
qed

lemma rt_ffs_table_aux: "rt_ffs_table v = rt_ffs v"
proof -
  let ?byte = "\<lambda>k. take_bit 8 (drop_bit k v)"
  have clear: "\<not> bit v i" if "?byte k = 0" "k \<le> i" "i < k + 8" for k i
  proof -
    have "\<not> bit (?byte k) (i - k)" using that(1) by simp
    moreover have "bit (?byte k) (i - k) = bit v i" using that(2,3) by (auto simp: bit_simps)
    ultimately show ?thesis by simp
  qed
  have simps: "rt_ffs_table v =
      (if v = 0 then 0 else if ?byte 0 \<noteq> 0 then lowest_bit_bitmap ! unat (?byte 0) + 1
       else if ?byte 8 \<noteq> 0 then lowest_bit_bitmap ! unat (?byte 8) + 9
       else if ?byte 16 \<noteq> 0 then lowest_bit_bitmap ! unat (?byte 16) + 17
       else lowest_bit_bitmap ! unat (?byte 24) + 25)"
    unfolding rt_ffs_table_def byte_masks
    using byte_of_word [of 0 v] byte_of_word [of 8 v] byte_of_word [of 16 v] byte_of_word [of 24 v]
    by simp
  consider "v = 0" | "?byte 0 \<noteq> 0" | "?byte 0 = 0" "?byte 8 \<noteq> 0"
    | "?byte 0 = 0" "?byte 8 = 0" "?byte 16 \<noteq> 0"
    | "v \<noteq> 0" "?byte 0 = 0" "?byte 8 = 0" "?byte 16 = 0" by blast
  then show ?thesis
  proof cases
    case 2
    then show ?thesis using ffs_byte [of 0 v] unfolding simps by auto
  next
    case 3
    have "\<not> bit v i" if "i < 8" for i using clear [of 0 i] that 3 by auto
    with 3 show ?thesis using ffs_byte [of 8 v] unfolding simps by auto
  next
    case 4
    have "\<not> bit v i" if "i < 16" for i
      using clear [of 0 i] clear [of 8 i] that 4 by (cases "i < 8") auto
    with 4 show ?thesis using ffs_byte [of 16 v] unfolding simps by auto
  next
    case 5
    have low: "\<not> bit v i" if "i < 24" for i
      using clear [of 0 i] clear [of 8 i] clear [of 16 i] that 5 by (cases "i < 8"; cases "i < 16") auto
    have "?byte 24 \<noteq> 0"
    proof
      assume "?byte 24 = 0"
      then have "\<not> bit v i" for i
        using low clear [of 24 i] bit_imp_le_length [of v i] by (cases "i < 24") auto
      with 5 show False by (simp add: bit_eq_iff)
    qed
    with 5 low show ?thesis using ffs_byte [of 24 v] unfolding simps by auto
  qed (simp add: rt_ffs_table_def)
qed

section \<open>Properties\<close>

text \<open>
  C38: The table version of find-first-set agrees with the builtin on all 32-bit values:
  zero gives zero, anything else one more than the position of its lowest set bit.
\<close>

theorem rt_ffs_table_correct:
  "rt_ffs_table v = rt_ffs v \<and> rt_ffs_table 0 = 0 \<and>
   (v \<noteq> 0 \<longrightarrow> bit v (rt_ffs_table v - 1) \<and> (\<forall>i < rt_ffs_table v - 1. \<not> bit v i))"
  using rt_ffs_lowest(3,4) [of v] by (fastforce simp: rt_ffs_table_aux)

theorem rt_ffs_table_correct_witness:
  "rt_ffs_table 0x28000 = 16 \<and> bit (0x28000 :: u32) 15"
proof -
  have "rt_ffs_table 0x28000 = 16" by code_simp
  with rt_ffs_table_correct [of "0x28000"] show ?thesis by simp
qed

end
