(* ===== verification/Scheduler.thy ===== *)
theory Scheduler
  imports KState Ffs
begin

text \<open>
  The scheduler of kernel/scheduler.c (uniprocessor build, at most 32 priorities) and the
  interrupt nesting counters of kernel/irq.c: the ready table with its bitmap, the choice
  of the next thread, the scheduler lock.  The invariant \<open>sched_inv\<close> ties the three views
  of a thread together, its state, its place in the ready table and the bitmap; every
  kernel theory above proves that its operations keep it.
\<close>

section \<open>Operations\<close>

definition get_highest_priority_thread :: "kernel \<Rightarrow> tid \<times> nat" where
  "get_highest_priority_thread k =
     (let highest_ready_priority = rt_ffs (rt_thread_ready_priority_group k) - 1
      in (hd (queue k (ReadyQ highest_ready_priority)), highest_ready_priority))"

definition rt_system_scheduler_init :: "kernel \<Rightarrow> kernel" where
  "rt_system_scheduler_init k =
     k\<lparr>rt_scheduler_lock_nest := 0,
       queue := (\<lambda>h. case h of ReadyQ p \<Rightarrow> if p < RT_THREAD_PRIORITY_MAX then [] else queue k h
                             | Defunct \<Rightarrow> [] | _ \<Rightarrow> queue k h),
       rt_thread_ready_priority_group := 0\<rparr>"

definition rt_schedule_insert_thread :: "tid \<Rightarrow> kernel \<Rightarrow> kernel" where
  "rt_schedule_insert_thread t k =
     (if Some t = rt_current_thread k then set_stat t RT_THREAD_RUNNING k
      else
        let k1 = set_stat t RT_THREAD_READY k;
            k2 = tlist_insert_before (ReadyQ (current_priority (threads k1 t))) t k1
        in k2\<lparr>rt_thread_ready_priority_group :=
                rt_thread_ready_priority_group k2 OR number_mask (threads k2 t)\<rparr>)"

definition rt_schedule_remove_thread :: "tid \<Rightarrow> kernel \<Rightarrow> kernel" where
  "rt_schedule_remove_thread t k =
     (let k1 = tlist_remove t k
      in if queue k1 (ReadyQ (current_priority (threads k1 t))) = []
         then k1\<lparr>rt_thread_ready_priority_group :=
                   rt_thread_ready_priority_group k1 AND NOT (number_mask (threads k1 t))\<rparr>
         else k1)"

text \<open>
  The start of the first thread: \<open>to_thread->stat = RT_THREAD_RUNNING\<close> is a plain store.
\<close>

definition rt_system_scheduler_start :: "kernel \<Rightarrow> kernel" where
  "rt_system_scheduler_start k =
     (let to = fst (get_highest_priority_thread k);
          k1 = k\<lparr>rt_current_thread := Some to\<rparr>;
          k2 = rt_schedule_remove_thread to k1
      in upd_thread to (\<lambda>th. th\<lparr>stat := RT_THREAD_RUNNING\<rparr>) k2)"

text \<open>
  \<open>rt_schedule\<close>.  Before the first thread is started the source would read through a null
  \<open>rt_current_thread\<close>; its callers check for that, and the model leaves the state alone.
\<close>

definition rt_schedule :: "kernel \<Rightarrow> kernel" where
  "rt_schedule k =
     (case rt_current_thread k of
        None \<Rightarrow> k
      | Some cur \<Rightarrow>
          if rt_scheduler_lock_nest k = 0 \<and> rt_thread_ready_priority_group k \<noteq> 0 then
            let (highest, highest_ready_priority) = get_highest_priority_thread k;
                running = (thread_stat k cur = RT_THREAD_RUNNING);
                stay = (running \<and> current_priority (threads k cur) < highest_ready_priority);
                need_insert_from_thread = (running \<and> \<not> stay);
                to = (if stay then cur else highest)
            in if to \<noteq> cur then
                 let k1 = k\<lparr>rt_current_priority := highest_ready_priority mod 256,
                            rt_current_thread := Some to\<rparr>;
                     k2 = (if need_insert_from_thread then rt_schedule_insert_thread cur k1 else k1);
                     k3 = rt_schedule_remove_thread to k2
                 in set_stat to RT_THREAD_RUNNING k3
               else set_stat cur RT_THREAD_RUNNING (rt_schedule_remove_thread cur k)
          else k)"

text \<open>The lock counter is a 16-bit signed integer.\<close>

definition rt_enter_critical :: "kernel \<Rightarrow> kernel" where
  "rt_enter_critical k =
     k\<lparr>rt_scheduler_lock_nest := signed_take_bit 15 (rt_scheduler_lock_nest k + 1)\<rparr>"

definition rt_exit_critical :: "kernel \<Rightarrow> kernel" where
  "rt_exit_critical k =
     (let k1 = k\<lparr>rt_scheduler_lock_nest := signed_take_bit 15 (rt_scheduler_lock_nest k - 1)\<rparr>
      in if rt_scheduler_lock_nest k1 \<le> 0
         then let k2 = k1\<lparr>rt_scheduler_lock_nest := 0\<rparr>
              in if rt_current_thread k2 \<noteq> None then rt_schedule k2 else k2
         else k1)"

text \<open>The level is returned as an unsigned 16-bit value.\<close>

definition rt_critical_level :: "kernel \<Rightarrow> nat" where
  "rt_critical_level k = nat (rt_scheduler_lock_nest k mod 2 ^ 16)"

definition rt_interrupt_enter :: "kernel \<Rightarrow> kernel" where
  "rt_interrupt_enter k = k\<lparr>rt_interrupt_nest := rt_interrupt_nest k + 1\<rparr>"

definition rt_interrupt_leave :: "kernel \<Rightarrow> kernel" where
  "rt_interrupt_leave k = k\<lparr>rt_interrupt_nest := rt_interrupt_nest k - 1\<rparr>"

definition rt_interrupt_get_nest :: "kernel \<Rightarrow> u8" where
  "rt_interrupt_get_nest k = rt_interrupt_nest k"

section \<open>The invariant\<close>

text \<open>A thread that has been started has the bit of its priority as its mask.\<close>

definition mask_ok :: "kernel \<Rightarrow> tid \<Rightarrow> bool" where
  "mask_ok k t \<longleftrightarrow> current_priority (threads k t) < RT_THREAD_PRIORITY_MAX \<and>
     number_mask (threads k t) = push_bit (current_priority (threads k t)) 1"

text \<open>The state of a thread that is on queue \<open>h\<close>.\<close>

definition queue_stat :: "kernel \<Rightarrow> qhead \<Rightarrow> tid \<Rightarrow> bool" where
  "queue_stat k h t \<longleftrightarrow>
     (case h of
        ReadyQ p \<Rightarrow> thread_stat k t = RT_THREAD_READY \<and> current_priority (threads k t) = p
      | Defunct \<Rightarrow> thread_stat k t = RT_THREAD_CLOSE
      | _ \<Rightarrow> thread_stat k t = RT_THREAD_SUSPEND)"

definition thread_ok :: "kernel \<Rightarrow> tid \<Rightarrow> bool" where
  "thread_ok k t \<longleftrightarrow>
     (\<forall>h. t \<in> set (queue k h) \<longrightarrow> queue_stat k h t) \<and>
     (thread_stat k t = RT_THREAD_READY \<longrightarrow>
        t \<in> set (queue k (ReadyQ (current_priority (threads k t)))) \<and> rt_current_thread k \<noteq> Some t) \<and>
     (thread_stat k t = RT_THREAD_RUNNING \<longrightarrow> rt_current_thread k = Some t) \<and>
     (thread_stat k t \<in> {RT_THREAD_READY, RT_THREAD_SUSPEND, RT_THREAD_RUNNING} \<longrightarrow> mask_ok k t)"

text \<open>No thread is on two queues or twice on one; the bitmap marks the non-empty queues.\<close>

definition queues_ok :: "kernel \<Rightarrow> bool" where
  "queues_ok k \<longleftrightarrow>
     (\<forall>h. distinct (queue k h)) \<and>
     (\<forall>h h' t. t \<in> set (queue k h) \<longrightarrow> t \<in> set (queue k h') \<longrightarrow> h = h')"

definition group_ok :: "kernel \<Rightarrow> bool" where
  "group_ok k \<longleftrightarrow> (\<forall>p. bit (rt_thread_ready_priority_group k) p \<longleftrightarrow> queue k (ReadyQ p) \<noteq> [])"

text \<open>
  The invariant with a set \<open>T\<close> of threads an operation is in the middle of changing; the
  invariant between operations has none.
\<close>

definition sched_inv_but :: "tid set \<Rightarrow> kernel \<Rightarrow> bool" where
  "sched_inv_but T k \<longleftrightarrow> queues_ok k \<and> group_ok k \<and> (\<forall>t. t \<notin> T \<longrightarrow> thread_ok k t)"

definition sched_inv :: "kernel \<Rightarrow> bool" where
  "sched_inv k \<longleftrightarrow> sched_inv_but {} k"

definition unqueued :: "tid \<Rightarrow> kernel \<Rightarrow> bool" where
  "unqueued t k \<longleftrightarrow> (\<forall>h. t \<notin> set (queue k h))"

section \<open>Projections\<close>

lemma stat_mask [simp]:
  "c AND NOT RT_THREAD_STAT_MASK = 0 \<Longrightarrow>
   (c OR (s AND NOT RT_THREAD_STAT_MASK)) AND RT_THREAD_STAT_MASK = c"
  for c s :: u8
  by (rule bit_eqI) (auto simp: bit_simps bit_eq_iff [where b = "0 :: u8"])

lemma stat_codes [simp]:
  "RT_THREAD_INIT AND NOT RT_THREAD_STAT_MASK = 0" "RT_THREAD_READY AND NOT RT_THREAD_STAT_MASK = 0"
  "RT_THREAD_SUSPEND AND NOT RT_THREAD_STAT_MASK = 0" "RT_THREAD_RUNNING AND NOT RT_THREAD_STAT_MASK = 0"
  "RT_THREAD_CLOSE AND NOT RT_THREAD_STAT_MASK = 0"
  by (simp_all add: rt_stat_defs)

lemma stat_distinct [simp]:
  "RT_THREAD_READY \<noteq> RT_THREAD_INIT" "RT_THREAD_READY \<noteq> RT_THREAD_SUSPEND"
  "RT_THREAD_READY \<noteq> RT_THREAD_RUNNING" "RT_THREAD_READY \<noteq> RT_THREAD_CLOSE"
  "RT_THREAD_SUSPEND \<noteq> RT_THREAD_INIT" "RT_THREAD_SUSPEND \<noteq> RT_THREAD_READY"
  "RT_THREAD_SUSPEND \<noteq> RT_THREAD_RUNNING" "RT_THREAD_SUSPEND \<noteq> RT_THREAD_CLOSE"
  "RT_THREAD_RUNNING \<noteq> RT_THREAD_INIT" "RT_THREAD_RUNNING \<noteq> RT_THREAD_READY"
  "RT_THREAD_RUNNING \<noteq> RT_THREAD_SUSPEND" "RT_THREAD_RUNNING \<noteq> RT_THREAD_CLOSE"
  "RT_THREAD_CLOSE \<noteq> RT_THREAD_INIT" "RT_THREAD_CLOSE \<noteq> RT_THREAD_READY"
  "RT_THREAD_CLOSE \<noteq> RT_THREAD_SUSPEND" "RT_THREAD_CLOSE \<noteq> RT_THREAD_RUNNING"
  "RT_THREAD_INIT \<noteq> RT_THREAD_READY" "RT_THREAD_INIT \<noteq> RT_THREAD_SUSPEND"
  "RT_THREAD_INIT \<noteq> RT_THREAD_RUNNING" "RT_THREAD_INIT \<noteq> RT_THREAD_CLOSE"
  by (simp_all add: rt_stat_defs)

lemma upd_thread_simps [simp]:
  "threads (upd_thread t f k) = (threads k)(t := f (threads k t))"
  "queue (upd_thread t f k) = queue k"
  "rt_thread_ready_priority_group (upd_thread t f k) = rt_thread_ready_priority_group k"
  "rt_current_thread (upd_thread t f k) = rt_current_thread k"
  "rt_current_priority (upd_thread t f k) = rt_current_priority k"
  "rt_scheduler_lock_nest (upd_thread t f k) = rt_scheduler_lock_nest k"
  "rt_interrupt_nest (upd_thread t f k) = rt_interrupt_nest k"
  "rt_tick (upd_thread t f k) = rt_tick k" "timers (upd_thread t f k) = timers k"
  "rt_timer_list (upd_thread t f k) = rt_timer_list k"
  "rt_soft_timer_list (upd_thread t f k) = rt_soft_timer_list k"
  "objects (upd_thread t f k) = objects k" "object_list (upd_thread t f k) = object_list k"
  "sems (upd_thread t f k) = sems k" "mutexes (upd_thread t f k) = mutexes k"
  "events (upd_thread t f k) = events k" "mailboxes (upd_thread t f k) = mailboxes k"
  "mqs (upd_thread t f k) = mqs k" "mempools (upd_thread t f k) = mempools k"
  by (simp_all add: upd_thread_def)

lemma tlist_queue [simp]:
  "queue (tlist_remove t k) = (\<lambda>h. filter (\<lambda>u. u \<noteq> t) (queue k h))"
  "queue (tlist_insert_before h t k) = (queue k)(h := queue k h @ [t])"
  "queue (tlist_insert_after h t k) = (queue k)(h := t # queue k h)"
  by (simp_all add: tlist_remove_def tlist_insert_before_def tlist_insert_after_def)

lemma thread_stat_simps [simp]:
  "thread_stat (upd_thread t f k) u =
     (if u = t then stat (f (threads k t)) AND RT_THREAD_STAT_MASK else thread_stat k u)"
  "thread_stat (k\<lparr>queue := q\<rparr>) u = thread_stat k u"
  "thread_stat (k\<lparr>rt_thread_ready_priority_group := g\<rparr>) u = thread_stat k u"
  "thread_stat (k\<lparr>rt_current_thread := c\<rparr>) u = thread_stat k u"
  "thread_stat (k\<lparr>rt_current_priority := cp\<rparr>) u = thread_stat k u"
  "thread_stat (k\<lparr>rt_scheduler_lock_nest := n\<rparr>) u = thread_stat k u"
  "thread_stat (k\<lparr>rt_interrupt_nest := i\<rparr>) u = thread_stat k u"
  "thread_stat (k\<lparr>rt_tick := tk\<rparr>) u = thread_stat k u"
  "thread_stat (k\<lparr>timers := ts\<rparr>) u = thread_stat k u"
  "thread_stat (k\<lparr>rt_timer_list := l\<rparr>) u = thread_stat k u"
  "thread_stat (k\<lparr>rt_soft_timer_list := l\<rparr>) u = thread_stat k u"
  by (simp_all add: thread_stat_def)

lemma thread_stat_set_stat [simp]:
  "c AND NOT RT_THREAD_STAT_MASK = 0 \<Longrightarrow>
   thread_stat (set_stat t c k) u = (if u = t then c else thread_stat k u)"
  by (simp add: set_stat_def)

lemma set_stat_simps [simp]:
  "queue (set_stat t c k) = queue k"
  "rt_thread_ready_priority_group (set_stat t c k) = rt_thread_ready_priority_group k"
  "rt_current_thread (set_stat t c k) = rt_current_thread k"
  "rt_scheduler_lock_nest (set_stat t c k) = rt_scheduler_lock_nest k"
  "current_priority (threads (set_stat t c k) u) = current_priority (threads k u)"
  "number_mask (threads (set_stat t c k) u) = number_mask (threads k u)"
  by (simp_all add: set_stat_def)

lemma mask_ok_set_stat [simp]: "mask_ok (set_stat t c k) u = mask_ok k u"
  by (simp add: mask_ok_def)

text \<open>Removing a thread from the ready table.\<close>

lemma remove_thread_simps [simp]:
  "queue (rt_schedule_remove_thread t k) = (\<lambda>h. filter (\<lambda>u. u \<noteq> t) (queue k h))"
  "threads (rt_schedule_remove_thread t k) = threads k"
  "rt_current_thread (rt_schedule_remove_thread t k) = rt_current_thread k"
  "rt_scheduler_lock_nest (rt_schedule_remove_thread t k) = rt_scheduler_lock_nest k"
  "thread_stat (rt_schedule_remove_thread t k) u = thread_stat k u"
  "mask_ok (rt_schedule_remove_thread t k) u = mask_ok k u"
  by (simp_all add: rt_schedule_remove_thread_def tlist_remove_def Let_def mask_ok_def)

lemma bit_mask: "bit (2 ^ p :: u32) i \<longleftrightarrow> i = p \<and> p < 32"
  by (auto simp: bit_exp_iff)

lemma queue_stat_cong:
  "thread_stat k' u = thread_stat k u \<Longrightarrow>
   current_priority (threads k' u) = current_priority (threads k u) \<Longrightarrow>
   queue_stat k' h u = queue_stat k h u"
  by (cases h) (simp_all add: queue_stat_def)

text \<open>A thread nothing is changed about.\<close>

lemma thread_ok_frame:
  assumes "thread_ok k u" "\<And>h. u \<in> set (queue k' h) \<longleftrightarrow> u \<in> set (queue k h)"
    "thread_stat k' u = thread_stat k u"
    "current_priority (threads k' u) = current_priority (threads k u)"
    "mask_ok k' u = mask_ok k u"
    "(rt_current_thread k' = Some u) = (rt_current_thread k = Some u)"
  shows "thread_ok k' u"
  using assms queue_stat_cong [OF assms(3,4)] by (simp add: thread_ok_def)

lemma remove_thread_group:
  "bit (rt_thread_ready_priority_group (rt_schedule_remove_thread t k)) i \<longleftrightarrow>
   bit (rt_thread_ready_priority_group k) i \<and>
   \<not> (filter (\<lambda>u. u \<noteq> t) (queue k (ReadyQ (current_priority (threads k t)))) = [] \<and>
      bit (number_mask (threads k t)) i)"
  by (auto simp: rt_schedule_remove_thread_def tlist_remove_def Let_def bit_and_iff bit_not_iff
      dest: bit_imp_le_length)

lemma mask_ok_bit:
  "mask_ok k t \<Longrightarrow> bit (number_mask (threads k t)) i \<longleftrightarrow> i = current_priority (threads k t)"
  by (auto simp: mask_ok_def bit_mask RT_THREAD_PRIORITY_MAX_def)

lemma remove_thread_inv:
  assumes inv: "sched_inv_but T k" and m: "mask_ok k t"
    and p: "\<And>p. t \<in> set (queue k (ReadyQ p)) \<Longrightarrow> p = current_priority (threads k t)"
  shows "sched_inv_but (insert t T) (rt_schedule_remove_thread t k)"
    and "unqueued t (rt_schedule_remove_thread t k)"
proof -
  let ?k = "rt_schedule_remove_thread t k" and ?p = "current_priority (threads k t)"
  show "unqueued t ?k" by (simp add: unqueued_def)
  have q: "queues_ok k" "group_ok k" using inv by (simp_all add: sched_inv_but_def)
  have "queues_ok ?k" using q(1) unfolding queues_ok_def by (simp add: distinct_filter) blast
  moreover have "group_ok ?k"
  proof -
    have e: "filter (\<lambda>u. u \<noteq> t) (queue k (ReadyQ p')) = queue k (ReadyQ p')" if "p' \<noteq> ?p" for p'
      using p that by (auto simp: filter_id_conv)
    show ?thesis
      unfolding group_ok_def
    proof
      fix p'
      show "bit (rt_thread_ready_priority_group ?k) p' = (queue ?k (ReadyQ p') \<noteq> [])"
        using q(2) e [of p'] unfolding group_ok_def remove_thread_group mask_ok_bit [OF m]
        by (cases "p' = ?p") (simp, metis filter.simps(1), simp)
    qed
  qed
  moreover have "thread_ok ?k u" if "u \<notin> insert t T" for u
  proof -
    from inv that have "thread_ok k u" by (simp add: sched_inv_but_def)
    then show ?thesis by (rule thread_ok_frame) (use that in auto)
  qed
  ultimately show "sched_inv_but (insert t T) ?k" by (simp add: sched_inv_but_def)
qed

text \<open>Putting a thread into the ready table.\<close>

lemma insert_thread_simps [simp]:
  "rt_current_thread (rt_schedule_insert_thread t k) = rt_current_thread k"
  "rt_scheduler_lock_nest (rt_schedule_insert_thread t k) = rt_scheduler_lock_nest k"
  "current_priority (threads (rt_schedule_insert_thread t k) u) = current_priority (threads k u)"
  "mask_ok (rt_schedule_insert_thread t k) u = mask_ok k u"
  "thread_stat (rt_schedule_insert_thread t k) u =
     (if u = t then (if rt_current_thread k = Some t then RT_THREAD_RUNNING else RT_THREAD_READY)
      else thread_stat k u)"
  "queue (rt_schedule_insert_thread t k) =
     (if rt_current_thread k = Some t then queue k
      else (queue k)(ReadyQ (current_priority (threads k t)) :=
             queue k (ReadyQ (current_priority (threads k t))) @ [t]))"
  by (auto simp: rt_schedule_insert_thread_def tlist_insert_before_def Let_def mask_ok_def)

lemma insert_thread_group:
  "bit (rt_thread_ready_priority_group (rt_schedule_insert_thread t k)) i \<longleftrightarrow>
   bit (rt_thread_ready_priority_group k) i \<or>
   (rt_current_thread k \<noteq> Some t \<and> bit (number_mask (threads k t)) i)"
  by (simp add: rt_schedule_insert_thread_def tlist_insert_before_def Let_def bit_or_iff)

lemma insert_thread_inv:
  assumes inv: "sched_inv_but T k" and m: "mask_ok k t" and un: "unqueued t k"
  shows "sched_inv_but (T - {t}) (rt_schedule_insert_thread t k)"
proof -
  let ?k = "rt_schedule_insert_thread t k" and ?p = "current_priority (threads k t)"
  have q: "queues_ok k" "group_ok k" using inv by (simp_all add: sched_inv_but_def)
  have "queues_ok ?k" using q(1) un by (auto simp: queues_ok_def unqueued_def)
  moreover have "group_ok ?k"
    using q(2) by (auto simp: group_ok_def insert_thread_group mask_ok_bit [OF m])
  moreover have "thread_ok ?k u" if "u \<notin> T - {t}" for u
  proof (cases "u = t")
    case True
    with m un show ?thesis by (auto simp: thread_ok_def queue_stat_def unqueued_def)
  next
    case False
    with inv that have "thread_ok k u" by (simp add: sched_inv_but_def)
    then show ?thesis by (rule thread_ok_frame) (use False in auto)
  qed
  ultimately show ?thesis by (simp add: sched_inv_but_def)
qed

text \<open>Changing the state of a thread that is on no queue.\<close>

lemma set_stat_inv:
  assumes inv: "sched_inv_but T k" and un: "unqueued t k" and c: "c AND NOT RT_THREAD_STAT_MASK = 0"
    and ready: "c \<noteq> RT_THREAD_READY" and run: "c = RT_THREAD_RUNNING \<Longrightarrow> rt_current_thread k = Some t"
    and m: "c \<in> {RT_THREAD_SUSPEND, RT_THREAD_RUNNING} \<Longrightarrow> mask_ok k t"
  shows "sched_inv_but (T - {t}) (set_stat t c k)"
proof -
  have "queues_ok (set_stat t c k)" "group_ok (set_stat t c k)"
    using inv by (simp_all add: sched_inv_but_def queues_ok_def group_ok_def)
  moreover have "thread_ok (set_stat t c k) u" if "u \<notin> T - {t}" for u
  proof (cases "u = t")
    case True
    with assms show ?thesis by (auto simp: thread_ok_def unqueued_def)
  next
    case False
    with inv that have "thread_ok k u" by (simp add: sched_inv_but_def)
    then show ?thesis by (rule thread_ok_frame) (use False c in auto)
  qed
  ultimately show ?thesis by (simp add: sched_inv_but_def)
qed

text \<open>The thread the bitmap and the ready table give.\<close>

lemma highest_aux:
  assumes inv: "queues_ok k" "group_ok k" and g: "rt_thread_ready_priority_group k \<noteq> 0"
    and h: "get_highest_priority_thread k = (t, p)"
  shows "p < 32" "queue k (ReadyQ p) \<noteq> []" "t = hd (queue k (ReadyQ p))"
    "t \<in> set (queue k (ReadyQ p))" "\<And>p' u. u \<in> set (queue k (ReadyQ p')) \<Longrightarrow> p \<le> p'"
proof -
  let ?g = "rt_thread_ready_priority_group k"
  have p: "p = rt_ffs ?g - 1" and t: "t = hd (queue k (ReadyQ p))"
    using h unfolding get_highest_priority_thread_def Let_def by blast+
  have bits: "bit ?g i \<longleftrightarrow> queue k (ReadyQ i) \<noteq> []" for i
    using inv(2) unfolding group_ok_def by blast
  note f = rt_ffs_lowest [OF g]
  show "p < 32" using f(1,2) p by linarith
  show ne: "queue k (ReadyQ p) \<noteq> []" using f(3) unfolding bits p .
  show "t = hd (queue k (ReadyQ p))" by (rule t)
  show "t \<in> set (queue k (ReadyQ p))" unfolding t using ne by (rule hd_in_set)
  show "p \<le> p'" if "u \<in> set (queue k (ReadyQ p'))" for p' u
  proof -
    from that have "queue k (ReadyQ p') \<noteq> []" by auto
    then show ?thesis unfolding p by (intro f(4)) (simp add: bits)
  qed
qed

text \<open>
  Switching to a ready thread \<open>to\<close>: the current thread, if still running, goes to the back
  of its queue.
\<close>

definition switch_to :: "tid \<Rightarrow> nat \<Rightarrow> tid \<Rightarrow> kernel \<Rightarrow> kernel" where
  "switch_to to p cur k =
     (let k1 = k\<lparr>rt_current_priority := p mod 256, rt_current_thread := Some to\<rparr>;
          k2 = (if thread_stat k cur = RT_THREAD_RUNNING then rt_schedule_insert_thread cur k1 else k1)
      in set_stat to RT_THREAD_RUNNING (rt_schedule_remove_thread to k2))"


text \<open>What the invariant says about a thread.\<close>

lemma queue_stat_simps [simp]:
  "queue_stat k (ReadyQ p) t \<longleftrightarrow> thread_stat k t = RT_THREAD_READY \<and> current_priority (threads k t) = p"
  "queue_stat k Defunct t \<longleftrightarrow> thread_stat k t = RT_THREAD_CLOSE"
  "h \<noteq> Defunct \<Longrightarrow> (\<And>p. h \<noteq> ReadyQ p) \<Longrightarrow> queue_stat k h t \<longleftrightarrow> thread_stat k t = RT_THREAD_SUSPEND"
  by (simp_all add: queue_stat_def split: qhead.split)

lemma thread_okD:
  assumes "thread_ok k t"
  shows "t \<in> set (queue k h) \<Longrightarrow> queue_stat k h t"
    "thread_stat k t = RT_THREAD_READY \<Longrightarrow> t \<in> set (queue k (ReadyQ (current_priority (threads k t))))"
    "thread_stat k t = RT_THREAD_READY \<Longrightarrow> rt_current_thread k \<noteq> Some t"
    "thread_stat k t = RT_THREAD_RUNNING \<Longrightarrow> rt_current_thread k = Some t"
    "thread_stat k t \<in> {RT_THREAD_READY, RT_THREAD_SUSPEND, RT_THREAD_RUNNING} \<Longrightarrow> mask_ok k t"
  using assms unfolding thread_ok_def by blast+

lemma queue_stat_queued:
  "queue_stat k h t \<Longrightarrow> thread_stat k t \<in> {RT_THREAD_READY, RT_THREAD_SUSPEND, RT_THREAD_CLOSE}"
  by (cases h) (simp_all add: queue_stat_def)

lemma running_unqueued:
  assumes "thread_ok k t" "thread_stat k t \<notin> {RT_THREAD_READY, RT_THREAD_SUSPEND, RT_THREAD_CLOSE}"
  shows "unqueued t k"
  unfolding unqueued_def using thread_okD(1) [OF assms(1)] queue_stat_queued assms(2) by blast

lemma sched_invD:
  assumes "sched_inv k"
  shows "thread_ok k t" "queues_ok k" "group_ok k"
  using assms unfolding sched_inv_def sched_inv_but_def by blast+

lemma queues_ok_same:
  "queues_ok k \<Longrightarrow> t \<in> set (queue k h) \<Longrightarrow> t \<in> set (queue k h') \<Longrightarrow> h = h'"
  unfolding queues_ok_def by blast

lemma switch_to_inv:
  assumes inv: "sched_inv k" and cur: "rt_current_thread k = Some cur"
    and to: "to \<in> set (queue k (ReadyQ p))"
  shows "sched_inv (switch_to to p cur k)"
proof -
  let ?k1 = "k\<lparr>rt_current_priority := p mod 256, rt_current_thread := Some to\<rparr>"
  let ?k2 = "if thread_stat k cur = RT_THREAD_RUNNING then rt_schedule_insert_thread cur ?k1 else ?k1"
  note ok = sched_invD(1) [OF inv] and q = sched_invD(2,3) [OF inv]
  have st: "thread_stat k to = RT_THREAD_READY" "current_priority (threads k to) = p"
    using thread_okD(1) [OF ok to] by simp_all
  have ne: "to \<noteq> cur" using thread_okD(3) [OF ok st(1)] cur by auto
  have m: "mask_ok ?k1 u = mask_ok k u" for u by (simp add: mask_ok_def)
  have q1: "queues_ok ?k1" "group_ok ?k1" using q by (simp_all add: queues_ok_def group_ok_def)
  have ok1: "thread_ok ?k1 u" if "u \<noteq> cur" "u \<noteq> to" for u
    by (rule thread_ok_frame [OF ok]) (use that cur m in simp_all)
  have inv2: "sched_inv_but {to} ?k2"
  proof (cases "thread_stat k cur = RT_THREAD_RUNNING")
    case True
    have "unqueued cur ?k1" using running_unqueued [OF ok] True by (simp add: unqueued_def)
    moreover have "mask_ok ?k1 cur" using thread_okD(5) [OF ok] True by (simp add: m)
    moreover have "sched_inv_but {cur, to} ?k1" using q1 ok1 by (simp add: sched_inv_but_def)
    ultimately have "sched_inv_but ({cur, to} - {cur}) (rt_schedule_insert_thread cur ?k1)"
      by (intro insert_thread_inv)
    moreover have "{cur, to} - {cur} = {to}" using ne by auto
    ultimately show ?thesis using True by simp
  next
    case False
    have "thread_stat k cur \<noteq> RT_THREAD_READY" using thread_okD(3) [OF ok] cur by blast
    then have "thread_ok ?k1 cur"
      using ok [of cur] False ne queue_stat_cong [of ?k1 cur k] by (simp add: thread_ok_def m)
    then have "thread_ok ?k1 u" if "u \<noteq> to" for u
      using ok1 [of u] that by (cases "u = cur") simp_all
    with q1 show ?thesis using False by (simp add: sched_inv_but_def)
  qed
  have qto: "p' = p" if "to \<in> set (queue ?k2 (ReadyQ p'))" for p'
  proof -
    have "to \<in> set (queue k (ReadyQ p'))" using that ne by (auto split: if_splits)
    then show ?thesis using queues_ok_same [OF q(1) _ to] by blast
  qed
  have mto: "mask_ok ?k2 to" using thread_okD(5) [OF ok] st m by simp
  have pto: "current_priority (threads ?k2 to) = p" using st by simp
  have r: "sched_inv_but (insert to {to}) (rt_schedule_remove_thread to ?k2)"
    "unqueued to (rt_schedule_remove_thread to ?k2)"
    using remove_thread_inv [OF inv2 mto] qto unfolding pto by blast+
  have "rt_current_thread ?k2 = Some to" by simp
  then have "sched_inv_but (insert to {to} - {to}) (set_stat to RT_THREAD_RUNNING (rt_schedule_remove_thread to ?k2))"
    using mto by (intro set_stat_inv r) simp_all
  then show ?thesis unfolding switch_to_def Let_def sched_inv_def by simp
qed

text \<open>The three ways through \<open>rt_schedule\<close>.\<close>

lemma rt_schedule_cases:
  assumes inv: "sched_inv k" and cur: "rt_current_thread k = Some cur"
  obtains
    (off) "rt_schedule k = k" "rt_scheduler_lock_nest k \<noteq> 0 \<or> (\<forall>p. queue k (ReadyQ p) = [])"
  | (stay) "rt_schedule k = k" "rt_scheduler_lock_nest k = 0" "thread_stat k cur = RT_THREAD_RUNNING"
      "\<And>p u. u \<in> set (queue k (ReadyQ p)) \<Longrightarrow> current_priority (threads k cur) < p"
  | (switch) to p where "rt_schedule k = switch_to to p cur k" "rt_scheduler_lock_nest k = 0"
      "queue k (ReadyQ p) \<noteq> []" "to = hd (queue k (ReadyQ p))" "p < 32" "to \<noteq> cur"
      "\<And>p' u. u \<in> set (queue k (ReadyQ p')) \<Longrightarrow> p \<le> p'"
      "thread_stat k cur = RT_THREAD_RUNNING \<Longrightarrow> p \<le> current_priority (threads k cur)"
proof (cases "rt_scheduler_lock_nest k = 0 \<and> rt_thread_ready_priority_group k \<noteq> 0")
  case False
  then have "rt_schedule k = k" unfolding rt_schedule_def cur by (simp only: option.case if_False)
  moreover have "queue k (ReadyQ p) = []" if "rt_thread_ready_priority_group k = 0" for p
    using sched_invD(3) [OF inv] that unfolding group_ok_def by simp
  ultimately show ?thesis using False off by blast
next
  case True
  note ok = sched_invD(1) [OF inv]
  obtain t p where h: "get_highest_priority_thread k = (t, p)" by fastforce
  note hi = highest_aux [OF sched_invD(2,3) [OF inv] _ h]
  have g: "rt_thread_ready_priority_group k \<noteq> 0" using True by simp
  have tq: "t \<in> set (queue k (ReadyQ p))" by (rule hi(4) [OF g])
  have ne: "t \<noteq> cur" using thread_okD(1) [OF ok tq] thread_okD(3) [OF ok, of t] cur by auto
  show ?thesis
  proof (cases "thread_stat k cur = RT_THREAD_RUNNING \<and> current_priority (threads k cur) < p")
    case stay': True
    let ?c = "current_priority (threads k cur)"
    have un: "unqueued cur k" using running_unqueued [OF ok] stay' by simp
    have e: "queue k (ReadyQ ?c) = []"
    proof (rule ccontr)
      assume "queue k (ReadyQ ?c) \<noteq> []"
      then have "hd (queue k (ReadyQ ?c)) \<in> set (queue k (ReadyQ ?c))" by (rule hd_in_set)
      then have "p \<le> ?c" by (rule hi(5) [OF g])
      with stay' show False by simp
    qed
    have fil: "filter (\<lambda>u. u \<noteq> cur) (queue k h) = queue k h" for h
      using un by (auto simp: unqueued_def filter_id_conv)
    have grp: "rt_thread_ready_priority_group k AND NOT (number_mask (threads k cur)) =
        rt_thread_ready_priority_group k"
      using e sched_invD(3) [OF inv] mask_ok_bit [OF thread_okD(5) [OF ok]] stay'
      by (intro bit_eqI) (auto simp: bit_simps group_ok_def)
    have rem: "rt_schedule_remove_thread cur k = k"
      by (simp add: rt_schedule_remove_thread_def tlist_remove_def Let_def fil e grp)
    have "set_stat cur RT_THREAD_RUNNING k = k"
    proof -
      have "RT_THREAD_RUNNING OR (stat (threads k cur) AND NOT RT_THREAD_STAT_MASK) = stat (threads k cur)"
      proof -
        have r: "RT_THREAD_RUNNING = stat (threads k cur) AND RT_THREAD_STAT_MASK"
          using stay' by (simp add: thread_stat_def)
        show ?thesis unfolding r by (rule bit_eqI) (auto simp: bit_simps)
      qed
      then show ?thesis by (simp add: set_stat_def upd_thread_def)
    qed
    then have "rt_schedule k = k"
      unfolding rt_schedule_def cur using True h stay' rem by simp
    then show ?thesis
      using stay True stay' hi(5) [OF g] by (meson order_less_le_trans)
  next
    case False
    then have "rt_schedule k = switch_to t p cur k"
      unfolding rt_schedule_def cur switch_to_def using True h ne by (auto simp: Let_def)
    then show ?thesis
      using switch [of t p] True hi(1-3) [OF g] hi(5) [OF g] ne False by (meson not_le)
  qed
qed

section \<open>What the scheduler leaves alone\<close>

lemma set_stat_frame [simp]:
  "rt_interrupt_nest (set_stat t c k) = rt_interrupt_nest k"
  "rt_tick (set_stat t c k) = rt_tick k"
  "timers (set_stat t c k) = timers k"
  "rt_timer_list (set_stat t c k) = rt_timer_list k"
  "rt_soft_timer_list (set_stat t c k) = rt_soft_timer_list k"
  "objects (set_stat t c k) = objects k"
  "object_list (set_stat t c k) = object_list k"
  "sems (set_stat t c k) = sems k"
  "mutexes (set_stat t c k) = mutexes k"
  "events (set_stat t c k) = events k"
  "mailboxes (set_stat t c k) = mailboxes k"
  "mqs (set_stat t c k) = mqs k"
  "mempools (set_stat t c k) = mempools k"
  "rt_current_priority (set_stat t c k) = rt_current_priority k"
  "thread_error (threads (set_stat t c k) u) = thread_error (threads k u)"
  "current_priority (threads (set_stat t c k) u) = current_priority (threads k u)"
  "init_priority (threads (set_stat t c k) u) = init_priority (threads k u)"
  "number_mask (threads (set_stat t c k) u) = number_mask (threads k u)"
  "event_set (threads (set_stat t c k) u) = event_set (threads k u)"
  "event_info (threads (set_stat t c k) u) = event_info (threads k u)"
  "thread_init_tick (threads (set_stat t c k) u) = thread_init_tick (threads k u)"
  "remaining_tick (threads (set_stat t c k) u) = remaining_tick (threads k u)"
  "cleanup (threads (set_stat t c k) u) = cleanup (threads k u)"
  by (simp_all add: set_stat_def)

lemma tlist_remove_frame [simp]:
  "rt_interrupt_nest (tlist_remove t k) = rt_interrupt_nest k"
  "rt_tick (tlist_remove t k) = rt_tick k"
  "timers (tlist_remove t k) = timers k"
  "rt_timer_list (tlist_remove t k) = rt_timer_list k"
  "rt_soft_timer_list (tlist_remove t k) = rt_soft_timer_list k"
  "objects (tlist_remove t k) = objects k"
  "object_list (tlist_remove t k) = object_list k"
  "sems (tlist_remove t k) = sems k"
  "mutexes (tlist_remove t k) = mutexes k"
  "events (tlist_remove t k) = events k"
  "mailboxes (tlist_remove t k) = mailboxes k"
  "mqs (tlist_remove t k) = mqs k"
  "mempools (tlist_remove t k) = mempools k"
  "rt_current_priority (tlist_remove t k) = rt_current_priority k"
  "rt_current_thread (tlist_remove t k) = rt_current_thread k"
  "rt_scheduler_lock_nest (tlist_remove t k) = rt_scheduler_lock_nest k"
  "rt_thread_ready_priority_group (tlist_remove t k) = rt_thread_ready_priority_group k"
  "threads (tlist_remove t k) = threads k"
  "thread_error (threads (tlist_remove t k) u) = thread_error (threads k u)"
  "current_priority (threads (tlist_remove t k) u) = current_priority (threads k u)"
  "init_priority (threads (tlist_remove t k) u) = init_priority (threads k u)"
  "number_mask (threads (tlist_remove t k) u) = number_mask (threads k u)"
  "event_set (threads (tlist_remove t k) u) = event_set (threads k u)"
  "event_info (threads (tlist_remove t k) u) = event_info (threads k u)"
  "thread_init_tick (threads (tlist_remove t k) u) = thread_init_tick (threads k u)"
  "remaining_tick (threads (tlist_remove t k) u) = remaining_tick (threads k u)"
  "cleanup (threads (tlist_remove t k) u) = cleanup (threads k u)"
  by (simp_all add: tlist_remove_def)

lemma tlist_insert_before_frame [simp]:
  "rt_interrupt_nest (tlist_insert_before h t k) = rt_interrupt_nest k"
  "rt_tick (tlist_insert_before h t k) = rt_tick k"
  "timers (tlist_insert_before h t k) = timers k"
  "rt_timer_list (tlist_insert_before h t k) = rt_timer_list k"
  "rt_soft_timer_list (tlist_insert_before h t k) = rt_soft_timer_list k"
  "objects (tlist_insert_before h t k) = objects k"
  "object_list (tlist_insert_before h t k) = object_list k"
  "sems (tlist_insert_before h t k) = sems k"
  "mutexes (tlist_insert_before h t k) = mutexes k"
  "events (tlist_insert_before h t k) = events k"
  "mailboxes (tlist_insert_before h t k) = mailboxes k"
  "mqs (tlist_insert_before h t k) = mqs k"
  "mempools (tlist_insert_before h t k) = mempools k"
  "rt_current_priority (tlist_insert_before h t k) = rt_current_priority k"
  "rt_current_thread (tlist_insert_before h t k) = rt_current_thread k"
  "rt_scheduler_lock_nest (tlist_insert_before h t k) = rt_scheduler_lock_nest k"
  "rt_thread_ready_priority_group (tlist_insert_before h t k) = rt_thread_ready_priority_group k"
  "threads (tlist_insert_before h t k) = threads k"
  "thread_error (threads (tlist_insert_before h t k) u) = thread_error (threads k u)"
  "current_priority (threads (tlist_insert_before h t k) u) = current_priority (threads k u)"
  "init_priority (threads (tlist_insert_before h t k) u) = init_priority (threads k u)"
  "number_mask (threads (tlist_insert_before h t k) u) = number_mask (threads k u)"
  "event_set (threads (tlist_insert_before h t k) u) = event_set (threads k u)"
  "event_info (threads (tlist_insert_before h t k) u) = event_info (threads k u)"
  "thread_init_tick (threads (tlist_insert_before h t k) u) = thread_init_tick (threads k u)"
  "remaining_tick (threads (tlist_insert_before h t k) u) = remaining_tick (threads k u)"
  "cleanup (threads (tlist_insert_before h t k) u) = cleanup (threads k u)"
  by (simp_all add: tlist_insert_before_def)

lemma tlist_insert_after_frame [simp]:
  "rt_interrupt_nest (tlist_insert_after h t k) = rt_interrupt_nest k"
  "rt_tick (tlist_insert_after h t k) = rt_tick k"
  "timers (tlist_insert_after h t k) = timers k"
  "rt_timer_list (tlist_insert_after h t k) = rt_timer_list k"
  "rt_soft_timer_list (tlist_insert_after h t k) = rt_soft_timer_list k"
  "objects (tlist_insert_after h t k) = objects k"
  "object_list (tlist_insert_after h t k) = object_list k"
  "sems (tlist_insert_after h t k) = sems k"
  "mutexes (tlist_insert_after h t k) = mutexes k"
  "events (tlist_insert_after h t k) = events k"
  "mailboxes (tlist_insert_after h t k) = mailboxes k"
  "mqs (tlist_insert_after h t k) = mqs k"
  "mempools (tlist_insert_after h t k) = mempools k"
  "rt_current_priority (tlist_insert_after h t k) = rt_current_priority k"
  "rt_current_thread (tlist_insert_after h t k) = rt_current_thread k"
  "rt_scheduler_lock_nest (tlist_insert_after h t k) = rt_scheduler_lock_nest k"
  "rt_thread_ready_priority_group (tlist_insert_after h t k) = rt_thread_ready_priority_group k"
  "threads (tlist_insert_after h t k) = threads k"
  "thread_error (threads (tlist_insert_after h t k) u) = thread_error (threads k u)"
  "current_priority (threads (tlist_insert_after h t k) u) = current_priority (threads k u)"
  "init_priority (threads (tlist_insert_after h t k) u) = init_priority (threads k u)"
  "number_mask (threads (tlist_insert_after h t k) u) = number_mask (threads k u)"
  "event_set (threads (tlist_insert_after h t k) u) = event_set (threads k u)"
  "event_info (threads (tlist_insert_after h t k) u) = event_info (threads k u)"
  "thread_init_tick (threads (tlist_insert_after h t k) u) = thread_init_tick (threads k u)"
  "remaining_tick (threads (tlist_insert_after h t k) u) = remaining_tick (threads k u)"
  "cleanup (threads (tlist_insert_after h t k) u) = cleanup (threads k u)"
  by (simp_all add: tlist_insert_after_def)

lemma insert_thread_frame [simp]:
  "rt_interrupt_nest (rt_schedule_insert_thread t k) = rt_interrupt_nest k"
  "rt_tick (rt_schedule_insert_thread t k) = rt_tick k"
  "timers (rt_schedule_insert_thread t k) = timers k"
  "rt_timer_list (rt_schedule_insert_thread t k) = rt_timer_list k"
  "rt_soft_timer_list (rt_schedule_insert_thread t k) = rt_soft_timer_list k"
  "objects (rt_schedule_insert_thread t k) = objects k"
  "object_list (rt_schedule_insert_thread t k) = object_list k"
  "sems (rt_schedule_insert_thread t k) = sems k"
  "mutexes (rt_schedule_insert_thread t k) = mutexes k"
  "events (rt_schedule_insert_thread t k) = events k"
  "mailboxes (rt_schedule_insert_thread t k) = mailboxes k"
  "mqs (rt_schedule_insert_thread t k) = mqs k"
  "mempools (rt_schedule_insert_thread t k) = mempools k"
  "rt_current_priority (rt_schedule_insert_thread t k) = rt_current_priority k"
  "thread_error (threads (rt_schedule_insert_thread t k) u) = thread_error (threads k u)"
  "current_priority (threads (rt_schedule_insert_thread t k) u) = current_priority (threads k u)"
  "init_priority (threads (rt_schedule_insert_thread t k) u) = init_priority (threads k u)"
  "number_mask (threads (rt_schedule_insert_thread t k) u) = number_mask (threads k u)"
  "event_set (threads (rt_schedule_insert_thread t k) u) = event_set (threads k u)"
  "event_info (threads (rt_schedule_insert_thread t k) u) = event_info (threads k u)"
  "thread_init_tick (threads (rt_schedule_insert_thread t k) u) = thread_init_tick (threads k u)"
  "remaining_tick (threads (rt_schedule_insert_thread t k) u) = remaining_tick (threads k u)"
  "cleanup (threads (rt_schedule_insert_thread t k) u) = cleanup (threads k u)"
  by (simp_all add: rt_schedule_insert_thread_def Let_def)

lemma remove_thread_frame [simp]:
  "rt_interrupt_nest (rt_schedule_remove_thread t k) = rt_interrupt_nest k"
  "rt_tick (rt_schedule_remove_thread t k) = rt_tick k"
  "timers (rt_schedule_remove_thread t k) = timers k"
  "rt_timer_list (rt_schedule_remove_thread t k) = rt_timer_list k"
  "rt_soft_timer_list (rt_schedule_remove_thread t k) = rt_soft_timer_list k"
  "objects (rt_schedule_remove_thread t k) = objects k"
  "object_list (rt_schedule_remove_thread t k) = object_list k"
  "sems (rt_schedule_remove_thread t k) = sems k"
  "mutexes (rt_schedule_remove_thread t k) = mutexes k"
  "events (rt_schedule_remove_thread t k) = events k"
  "mailboxes (rt_schedule_remove_thread t k) = mailboxes k"
  "mqs (rt_schedule_remove_thread t k) = mqs k"
  "mempools (rt_schedule_remove_thread t k) = mempools k"
  "rt_current_priority (rt_schedule_remove_thread t k) = rt_current_priority k"
  "thread_error (threads (rt_schedule_remove_thread t k) u) = thread_error (threads k u)"
  "current_priority (threads (rt_schedule_remove_thread t k) u) = current_priority (threads k u)"
  "init_priority (threads (rt_schedule_remove_thread t k) u) = init_priority (threads k u)"
  "number_mask (threads (rt_schedule_remove_thread t k) u) = number_mask (threads k u)"
  "event_set (threads (rt_schedule_remove_thread t k) u) = event_set (threads k u)"
  "event_info (threads (rt_schedule_remove_thread t k) u) = event_info (threads k u)"
  "thread_init_tick (threads (rt_schedule_remove_thread t k) u) = thread_init_tick (threads k u)"
  "remaining_tick (threads (rt_schedule_remove_thread t k) u) = remaining_tick (threads k u)"
  "cleanup (threads (rt_schedule_remove_thread t k) u) = cleanup (threads k u)"
  by (simp_all add: rt_schedule_remove_thread_def Let_def)

lemma rt_schedule_frame [simp]:
  "rt_interrupt_nest (rt_schedule k) = rt_interrupt_nest k"
  "rt_tick (rt_schedule k) = rt_tick k"
  "timers (rt_schedule k) = timers k"
  "rt_timer_list (rt_schedule k) = rt_timer_list k"
  "rt_soft_timer_list (rt_schedule k) = rt_soft_timer_list k"
  "objects (rt_schedule k) = objects k"
  "object_list (rt_schedule k) = object_list k"
  "sems (rt_schedule k) = sems k"
  "mutexes (rt_schedule k) = mutexes k"
  "events (rt_schedule k) = events k"
  "mailboxes (rt_schedule k) = mailboxes k"
  "mqs (rt_schedule k) = mqs k"
  "mempools (rt_schedule k) = mempools k"
  "rt_scheduler_lock_nest (rt_schedule k) = rt_scheduler_lock_nest k"
  "thread_error (threads (rt_schedule k) u) = thread_error (threads k u)"
  "current_priority (threads (rt_schedule k) u) = current_priority (threads k u)"
  "init_priority (threads (rt_schedule k) u) = init_priority (threads k u)"
  "number_mask (threads (rt_schedule k) u) = number_mask (threads k u)"
  "event_set (threads (rt_schedule k) u) = event_set (threads k u)"
  "event_info (threads (rt_schedule k) u) = event_info (threads k u)"
  "thread_init_tick (threads (rt_schedule k) u) = thread_init_tick (threads k u)"
  "remaining_tick (threads (rt_schedule k) u) = remaining_tick (threads k u)"
  "cleanup (threads (rt_schedule k) u) = cleanup (threads k u)"
  by (simp_all add: rt_schedule_def Let_def split: option.split prod.split)

lemma enter_critical_frame [simp]:
  "rt_interrupt_nest (rt_enter_critical k) = rt_interrupt_nest k"
  "rt_tick (rt_enter_critical k) = rt_tick k"
  "timers (rt_enter_critical k) = timers k"
  "rt_timer_list (rt_enter_critical k) = rt_timer_list k"
  "rt_soft_timer_list (rt_enter_critical k) = rt_soft_timer_list k"
  "objects (rt_enter_critical k) = objects k"
  "object_list (rt_enter_critical k) = object_list k"
  "sems (rt_enter_critical k) = sems k"
  "mutexes (rt_enter_critical k) = mutexes k"
  "events (rt_enter_critical k) = events k"
  "mailboxes (rt_enter_critical k) = mailboxes k"
  "mqs (rt_enter_critical k) = mqs k"
  "mempools (rt_enter_critical k) = mempools k"
  "queue (rt_enter_critical k) = queue k"
  "threads (rt_enter_critical k) = threads k"
  "rt_thread_ready_priority_group (rt_enter_critical k) = rt_thread_ready_priority_group k"
  "rt_current_thread (rt_enter_critical k) = rt_current_thread k"
  "rt_current_priority (rt_enter_critical k) = rt_current_priority k"
  "thread_error (threads (rt_enter_critical k) u) = thread_error (threads k u)"
  "current_priority (threads (rt_enter_critical k) u) = current_priority (threads k u)"
  "init_priority (threads (rt_enter_critical k) u) = init_priority (threads k u)"
  "number_mask (threads (rt_enter_critical k) u) = number_mask (threads k u)"
  "event_set (threads (rt_enter_critical k) u) = event_set (threads k u)"
  "event_info (threads (rt_enter_critical k) u) = event_info (threads k u)"
  "thread_init_tick (threads (rt_enter_critical k) u) = thread_init_tick (threads k u)"
  "remaining_tick (threads (rt_enter_critical k) u) = remaining_tick (threads k u)"
  "cleanup (threads (rt_enter_critical k) u) = cleanup (threads k u)"
  by (simp_all add: rt_enter_critical_def)

lemma exit_critical_frame [simp]:
  "rt_interrupt_nest (rt_exit_critical k) = rt_interrupt_nest k"
  "rt_tick (rt_exit_critical k) = rt_tick k"
  "timers (rt_exit_critical k) = timers k"
  "rt_timer_list (rt_exit_critical k) = rt_timer_list k"
  "rt_soft_timer_list (rt_exit_critical k) = rt_soft_timer_list k"
  "objects (rt_exit_critical k) = objects k"
  "object_list (rt_exit_critical k) = object_list k"
  "sems (rt_exit_critical k) = sems k"
  "mutexes (rt_exit_critical k) = mutexes k"
  "events (rt_exit_critical k) = events k"
  "mailboxes (rt_exit_critical k) = mailboxes k"
  "mqs (rt_exit_critical k) = mqs k"
  "mempools (rt_exit_critical k) = mempools k"
  "thread_error (threads (rt_exit_critical k) u) = thread_error (threads k u)"
  "current_priority (threads (rt_exit_critical k) u) = current_priority (threads k u)"
  "init_priority (threads (rt_exit_critical k) u) = init_priority (threads k u)"
  "number_mask (threads (rt_exit_critical k) u) = number_mask (threads k u)"
  "event_set (threads (rt_exit_critical k) u) = event_set (threads k u)"
  "event_info (threads (rt_exit_critical k) u) = event_info (threads k u)"
  "thread_init_tick (threads (rt_exit_critical k) u) = thread_init_tick (threads k u)"
  "remaining_tick (threads (rt_exit_critical k) u) = remaining_tick (threads k u)"
  "cleanup (threads (rt_exit_critical k) u) = cleanup (threads k u)"
  by (simp_all add: rt_exit_critical_def Let_def)

section \<open>The effect of a switch\<close>

lemma switch_to_simps:
  assumes "to \<noteq> cur"
  shows "rt_current_thread (switch_to to p cur k) = Some to"
    "thread_stat (switch_to to p cur k) u =
       (if u = to then RT_THREAD_RUNNING
        else if u = cur \<and> thread_stat k cur = RT_THREAD_RUNNING then RT_THREAD_READY
        else thread_stat k u)"
    "current_priority (threads (switch_to to p cur k) u) = current_priority (threads k u)"
    "queue (switch_to to p cur k) h =
       filter (\<lambda>u. u \<noteq> to) (if thread_stat k cur = RT_THREAD_RUNNING \<and> h = ReadyQ (current_priority (threads k cur))
                           then queue k h @ [cur] else queue k h)"
  using assms by (auto simp: switch_to_def Let_def)

lemma rt_schedule_inv: "sched_inv k \<Longrightarrow> sched_inv (rt_schedule k)"
proof (cases "rt_current_thread k")
  case None
  moreover assume "sched_inv k"
  ultimately show ?thesis by (simp add: rt_schedule_def)
next
  case (Some cur)
  assume inv: "sched_inv k"
  from inv Some show ?thesis
  proof (cases rule: rt_schedule_cases)
    case (switch to p)
    then show ?thesis using switch_to_inv [OF inv Some] hd_in_set by metis
  qed (use inv in simp_all)
qed

text \<open>Only the ready queues change, and only between ready and running.\<close>

lemma rt_schedule_other:
  assumes inv: "sched_inv k"
  shows "h \<notin> range ReadyQ \<Longrightarrow> queue (rt_schedule k) h = queue k h"
    and "thread_stat k t \<notin> {RT_THREAD_READY, RT_THREAD_RUNNING} \<Longrightarrow>
      thread_stat (rt_schedule k) t = thread_stat k t"
    and "thread_stat k t \<in> {RT_THREAD_READY, RT_THREAD_RUNNING} \<Longrightarrow>
      thread_stat (rt_schedule k) t \<in> {RT_THREAD_READY, RT_THREAD_RUNNING}"
proof -
  have "(h \<notin> range ReadyQ \<longrightarrow> queue (rt_schedule k) h = queue k h) \<and>
      (thread_stat k t \<notin> {RT_THREAD_READY, RT_THREAD_RUNNING} \<longrightarrow>
        thread_stat (rt_schedule k) t = thread_stat k t) \<and>
      (thread_stat k t \<in> {RT_THREAD_READY, RT_THREAD_RUNNING} \<longrightarrow>
        thread_stat (rt_schedule k) t \<in> {RT_THREAD_READY, RT_THREAD_RUNNING})"
  proof (cases "rt_current_thread k")
    case (Some cur)
    from inv Some show ?thesis
    proof (cases rule: rt_schedule_cases)
      case (switch to p)
      have tq: "to \<in> set (queue k (ReadyQ p))" using switch(3,4) by simp
      have st: "thread_stat k to = RT_THREAD_READY" using thread_okD(1) [OF sched_invD(1) [OF inv] tq] by simp
      have "to \<notin> set (queue k h)" if "h \<notin> range ReadyQ"
        using queues_ok_same [OF sched_invD(2) [OF inv] tq] that by blast
      then have "filter (\<lambda>u. u \<noteq> to) (queue k h) = queue k h" if "h \<notin> range ReadyQ"
        using that by (auto simp: filter_id_conv)
      with st show ?thesis
        unfolding switch(1) switch_to_simps [OF switch(6)] by auto
    qed simp_all
  qed (simp add: rt_schedule_def)
  then show "h \<notin> range ReadyQ \<Longrightarrow> queue (rt_schedule k) h = queue k h"
    and "thread_stat k t \<notin> {RT_THREAD_READY, RT_THREAD_RUNNING} \<Longrightarrow>
      thread_stat (rt_schedule k) t = thread_stat k t"
    and "thread_stat k t \<in> {RT_THREAD_READY, RT_THREAD_RUNNING} \<Longrightarrow>
      thread_stat (rt_schedule k) t \<in> {RT_THREAD_READY, RT_THREAD_RUNNING}" by blast+
qed

text \<open>The invariant depends on the scheduling fields only.\<close>

lemma sched_inv_cong:
  assumes "\<And>t. thread_stat k' t = thread_stat k t"
    "\<And>t. current_priority (threads k' t) = current_priority (threads k t)"
    "\<And>t. number_mask (threads k' t) = number_mask (threads k t)"
    "queue k' = queue k" "rt_thread_ready_priority_group k' = rt_thread_ready_priority_group k"
    "rt_current_thread k' = rt_current_thread k"
  shows "sched_inv_but T k' = sched_inv_but T k" "sched_inv k' = sched_inv k"
proof -
  have m: "mask_ok k' t = mask_ok k t" for t using assms by (simp add: mask_ok_def)
  have qs: "queue_stat k' h t = queue_stat k h t" for h t
    using assms by (intro queue_stat_cong) simp_all
  show e: "sched_inv_but T k' = sched_inv_but T k" for T
    unfolding sched_inv_but_def queues_ok_def group_ok_def thread_ok_def m qs assms ..
  show "sched_inv k' = sched_inv k" unfolding sched_inv_def by (rule e)
qed

lemma enter_critical_inv: "sched_inv k \<Longrightarrow> sched_inv (rt_enter_critical k)"
  by (subst sched_inv_cong(2) [of _ k]) (simp_all add: rt_enter_critical_def)

lemma exit_critical_inv: "sched_inv k \<Longrightarrow> sched_inv (rt_exit_critical k)"
proof -
  assume inv: "sched_inv k"
  have "sched_inv (k\<lparr>rt_scheduler_lock_nest := n\<rparr>)" for n
    by (subst sched_inv_cong(2) [of _ k]) (simp_all add: inv)
  then show ?thesis by (auto simp: rt_exit_critical_def Let_def intro: rt_schedule_inv)
qed

lemma interrupt_inv:
  "sched_inv (rt_interrupt_enter k) = sched_inv k" "sched_inv (rt_interrupt_leave k) = sched_inv k"
  by (rule sched_inv_cong, simp_all add: rt_interrupt_enter_def rt_interrupt_leave_def)+

text \<open>After initialisation there is no ready thread.\<close>

lemma scheduler_init_inv:
  assumes "\<And>t. thread_stat k t = RT_THREAD_INIT" "\<And>h. queue k h = []"
  shows "sched_inv (rt_system_scheduler_init k)"
proof -
  let ?k = "rt_system_scheduler_init k"
  have q: "queue ?k h = []" for h
    using assms(2) by (auto simp: rt_system_scheduler_init_def split: qhead.splits)
  have "thread_stat ?k t = RT_THREAD_INIT" for t
    using assms(1) by (simp add: rt_system_scheduler_init_def thread_stat_def)
  moreover have "rt_thread_ready_priority_group ?k = 0" by (simp add: rt_system_scheduler_init_def)
  ultimately show ?thesis
    using q by (simp add: sched_inv_def sched_inv_but_def queues_ok_def group_ok_def thread_ok_def)
qed

lemma ready_iff:
  "sched_inv k \<Longrightarrow> t \<in> set (queue k (ReadyQ p)) \<longleftrightarrow>
     thread_stat k t = RT_THREAD_READY \<and> current_priority (threads k t) = p"
  using thread_okD(1,2) [OF sched_invD(1)] by (metis queue_stat_simps(1))

lemma scheduler_start_aux:
  assumes inv: "sched_inv k" and none: "rt_current_thread k = None"
    and ready: "thread_stat k t0 = RT_THREAD_READY"
  defines "k' \<equiv> rt_system_scheduler_start k"
  shows "sched_inv k'"
    "\<exists>run. rt_current_thread k' = Some run \<and> thread_stat k' run = RT_THREAD_RUNNING \<and>
       thread_stat k run = RT_THREAD_READY \<and>
       (\<forall>t. thread_stat k t = RT_THREAD_READY \<longrightarrow>
         current_priority (threads k run) \<le> current_priority (threads k t)) \<and>
       (\<forall>t. t \<noteq> run \<longrightarrow> thread_stat k' t = thread_stat k t) \<and>
       (\<forall>t. current_priority (threads k' t) = current_priority (threads k t))"
proof -
  obtain to p where h: "get_highest_priority_thread k = (to, p)" by fastforce
  have "bit (rt_thread_ready_priority_group k) (current_priority (threads k t0))"
    using ready_iff [OF inv, of t0] ready sched_invD(3) [OF inv] unfolding group_ok_def
    by (metis empty_iff list.set(1))
  then have g: "rt_thread_ready_priority_group k \<noteq> 0" by auto
  note hi = highest_aux [OF sched_invD(2,3) [OF inv] g h]
  let ?k1 = "k\<lparr>rt_current_thread := Some to\<rparr>"
  note ok = sched_invD(1) [OF inv]
  have st: "thread_stat k to = RT_THREAD_READY" "current_priority (threads k to) = p"
    using ready_iff [OF inv] hi(4) by auto
  have m: "mask_ok ?k1 u = mask_ok k u" for u by (simp add: mask_ok_def)
  have "thread_ok ?k1 u" if "u \<noteq> to" for u
    by (rule thread_ok_frame [OF ok]) (use that none m in simp_all)
  then have inv1: "sched_inv_but {to} ?k1"
    using sched_invD(2,3) [OF inv] by (simp add: sched_inv_but_def queues_ok_def group_ok_def)
  have mto: "mask_ok ?k1 to" using thread_okD(5) [OF ok] st m by simp
  have pto: "p' = current_priority (threads ?k1 to)" if "to \<in> set (queue ?k1 (ReadyQ p'))" for p'
    using that ready_iff [OF inv] by simp
  note r = remove_thread_inv [OF inv1 mto pto]
  let ?k2 = "rt_schedule_remove_thread to ?k1"
  have "sched_inv_but (insert to {to} - {to}) (set_stat to RT_THREAD_RUNNING ?k2)"
    using r mto by (intro set_stat_inv) simp_all
  then have inv2: "sched_inv (set_stat to RT_THREAD_RUNNING ?k2)" by (simp add: sched_inv_def)
  have k': "k' = upd_thread to (\<lambda>th. th\<lparr>stat := RT_THREAD_RUNNING\<rparr>) ?k2"
    by (simp add: k'_def rt_system_scheduler_start_def Let_def h)
  have run: "RT_THREAD_RUNNING AND RT_THREAD_STAT_MASK = RT_THREAD_RUNNING" by (simp add: rt_stat_defs)
  have "sched_inv k' = sched_inv (set_stat to RT_THREAD_RUNNING ?k2)"
    unfolding k' by (rule sched_inv_cong) (simp_all add: run)
  with inv2 show "sched_inv k'" by simp
  show "\<exists>run. rt_current_thread k' = Some run \<and> thread_stat k' run = RT_THREAD_RUNNING \<and>
       thread_stat k run = RT_THREAD_READY \<and>
       (\<forall>t. thread_stat k t = RT_THREAD_READY \<longrightarrow>
         current_priority (threads k run) \<le> current_priority (threads k t)) \<and>
       (\<forall>t. t \<noteq> run \<longrightarrow> thread_stat k' t = thread_stat k t) \<and>
       (\<forall>t. current_priority (threads k' t) = current_priority (threads k t))"
    using hi(5) ready_iff [OF inv] st by (intro exI [of _ to]) (auto simp: k' run)
qed

lemma rt_schedule_highest_aux:
  assumes inv: "sched_inv k" and lock: "rt_scheduler_lock_nest k = 0"
    and cur: "rt_current_thread k = Some cur"
    and some: "thread_stat k cur = RT_THREAD_RUNNING \<or> thread_stat k t0 = RT_THREAD_READY"
  shows "\<exists>run. rt_current_thread (rt_schedule k) = Some run \<and>
    thread_stat (rt_schedule k) run = RT_THREAD_RUNNING \<and>
    (\<forall>t. thread_stat (rt_schedule k) t = RT_THREAD_READY \<longrightarrow>
      current_priority (threads k run) \<le> current_priority (threads k t))"
  using inv cur
proof (cases rule: rt_schedule_cases)
  case off
  then have none: "thread_stat k t \<noteq> RT_THREAD_READY" for t
    using lock ready_iff [OF inv, of t] by (metis emptyE set_empty2)
  then show ?thesis using off(1) some cur by simp
next
  case stay
  then show ?thesis using cur ready_iff [OF inv] by (auto intro: less_imp_le)
next
  case (switch to p)
  have to: "to \<in> set (queue k (ReadyQ p))" using switch(3,4) by simp
  then have st: "thread_stat k to = RT_THREAD_READY" "current_priority (threads k to) = p"
    using ready_iff [OF inv] by auto
  have "p \<le> current_priority (threads k t)" if "thread_stat (rt_schedule k) t = RT_THREAD_READY" for t
    using that switch(7) [of t] switch(8) ready_iff [OF inv, of t]
    unfolding switch(1) switch_to_simps [OF switch(6)] by (auto split: if_splits)
  then show ?thesis using st switch(1) switch_to_simps [OF switch(6)] by simp
qed

text \<open>A small system: thread 2 running, threads 3 and 4 ready behind it at the same priority.\<close>

definition three_threads :: kernel where
  "three_threads =
     kernel_zero\<lparr>threads := (\<lambda>t. thread_zero\<lparr>stat := (if t = 2 then 3 else if t = 3 \<or> t = 4 then 1 else 0),
                       current_priority := 10, number_mask := 2 ^ 10\<rparr>),
       queue := (\<lambda>_. [])(ReadyQ 10 := [3, 4]), rt_thread_ready_priority_group := 2 ^ 10,
       rt_current_thread := Some 2\<rparr>"

lemma three_threads_simps:
  "thread_stat three_threads t =
     (if t = 2 then RT_THREAD_RUNNING else if t = 3 \<or> t = 4 then RT_THREAD_READY else RT_THREAD_INIT)"
  "current_priority (threads three_threads t) = 10"
  "queue three_threads h = (if h = ReadyQ 10 then [3, 4] else [])"
  "rt_current_thread three_threads = Some 2" "rt_scheduler_lock_nest three_threads = 0"
  by (simp_all add: three_threads_def thread_stat_def rt_stat_defs kernel_zero_def)

lemma three_threads_inv: "sched_inv three_threads"
proof -
  have "mask_ok three_threads t" for t by (simp add: mask_ok_def three_threads_def RT_THREAD_PRIORITY_MAX_def)
  then have "thread_ok three_threads t" for t
    by (auto simp: thread_ok_def three_threads_simps split: if_splits)
  moreover have "group_ok three_threads"
  proof -
    have "rt_thread_ready_priority_group three_threads = 2 ^ 10" by (simp add: three_threads_def)
    then show ?thesis by (simp only: group_ok_def bit_mask three_threads_simps) auto
  qed
  moreover have "queues_ok three_threads" by (auto simp: queues_ok_def three_threads_simps)
  ultimately show ?thesis by (simp add: sched_inv_def sched_inv_but_def)
qed

section \<open>Properties\<close>

text \<open>
  C1: The scheduler picks correctly.  With the scheduler unlocked and some thread able to
  run, after \<open>rt_schedule\<close> the current thread is running, no ready thread has a higher
  priority (a smaller number), and the ready table, its bitmap and the thread states still
  agree.
\<close>

theorem rt_schedule_runs_highest:
  assumes "sched_inv k" "rt_scheduler_lock_nest k = 0" "rt_current_thread k = Some cur"
    and "thread_stat k cur = RT_THREAD_RUNNING \<or> thread_stat k t0 = RT_THREAD_READY"
  shows "sched_inv (rt_schedule k) \<and>
    (\<exists>run. rt_current_thread (rt_schedule k) = Some run \<and>
      thread_stat (rt_schedule k) run = RT_THREAD_RUNNING \<and>
      (\<forall>t. thread_stat (rt_schedule k) t = RT_THREAD_READY \<longrightarrow>
        current_priority (threads (rt_schedule k) run) \<le> current_priority (threads (rt_schedule k) t)))"
  using rt_schedule_highest_aux [OF assms] rt_schedule_inv [OF assms(1)] by simp

theorem rt_schedule_runs_highest_witness:
  "sched_inv (rt_schedule three_threads) \<and>
   (\<exists>run. rt_current_thread (rt_schedule three_threads) = Some run \<and>
      thread_stat (rt_schedule three_threads) run = RT_THREAD_RUNNING)"
  using rt_schedule_runs_highest [of three_threads 2 3] three_threads_inv
  by (auto simp: three_threads_simps)

text \<open>
  C3: Threads of the same priority take turns.  When the running thread gives way and the
  first ready thread \<open>to\<close> has its priority, with none ready above, the switch goes to \<open>to\<close>
  and the thread that gave way goes to the back of their queue.
\<close>

theorem rt_schedule_round_robin:
  assumes "sched_inv k" "rt_scheduler_lock_nest k = 0" "rt_current_thread k = Some cur"
    and "thread_stat k cur = RT_THREAD_RUNNING" "current_priority (threads k cur) = p"
    and "queue k (ReadyQ p) = to # rest" "\<And>p'. p' < p \<Longrightarrow> queue k (ReadyQ p') = []"
  shows "rt_current_thread (rt_schedule k) = Some to \<and>
    queue (rt_schedule k) (ReadyQ p) = rest @ [cur]"
  using assms(1,3)
proof (cases rule: rt_schedule_cases)
  case off
  then show ?thesis using assms(2,6) by simp
next
  case stay
  then have "p < p" using assms(5,6) by (metis list.set_intros(1))
  then show ?thesis by simp
next
  case (switch to' p')
  have "p' \<le> p" using switch(7) [of to p] assms(6) by simp
  moreover have "\<not> p' < p" using switch(3) assms(7) by blast
  ultimately have p': "p' = p" by simp
  then have to': "to' = to" using switch(4) assms(6) by simp
  have d: "distinct (to # rest)" using sched_invD(2) [OF assms(1)] assms(6) unfolding queues_ok_def by metis
  have ne: "to \<noteq> cur" using switch(6) to' by simp
  have "filter (\<lambda>u. u \<noteq> to) rest = rest" using d by (auto simp: filter_id_conv)
  then show ?thesis
    unfolding switch(1) p' to' switch_to_simps [OF ne] using assms(4-6) ne by simp
qed

theorem rt_schedule_round_robin_witness:
  "rt_current_thread (rt_schedule three_threads) = Some 3 \<and>
   queue (rt_schedule three_threads) (ReadyQ 10) = [4, 2]"
  using rt_schedule_round_robin [of three_threads 2 10 3 "[4]"] three_threads_inv
  by (simp add: three_threads_simps)

text \<open>
  While the scheduler is locked nothing is switched; leaving the outermost critical
  section schedules, leaving a nested one only restores the nesting level.
\<close>

theorem scheduler_lock:
  assumes "0 \<le> rt_scheduler_lock_nest k" "rt_scheduler_lock_nest k < 2 ^ 15 - 1"
    and "rt_current_thread k \<noteq> None"
  shows "rt_schedule (rt_enter_critical k) = rt_enter_critical k \<and>
    rt_exit_critical (rt_enter_critical k) = (if rt_scheduler_lock_nest k = 0 then rt_schedule k else k) \<and>
    rt_critical_level (rt_enter_critical k) = rt_critical_level k + 1"
proof -
  let ?n = "rt_scheduler_lock_nest k"
  have n: "signed_take_bit 15 (?n + 1) = ?n + 1" "signed_take_bit 15 ?n = ?n"
    using assms(1,2) by (simp_all add: signed_take_bit_int_eq_self)
  have l: "rt_critical_level (rt_enter_critical k) = rt_critical_level k + 1"
    using assms(1,2) n by (simp add: rt_critical_level_def rt_enter_critical_def nat_add_distrib)
  have "rt_schedule (rt_enter_critical k) = rt_enter_critical k"
    using assms n by (simp add: rt_schedule_def rt_enter_critical_def split: option.splits)
  moreover have "rt_exit_critical (rt_enter_critical k) = (if ?n = 0 then rt_schedule k else k)"
  proof (cases "?n = 0")
    case True
    then have "k\<lparr>rt_scheduler_lock_nest := 0\<rparr> = k" by simp
    moreover have "rt_exit_critical (rt_enter_critical k) = rt_schedule (k\<lparr>rt_scheduler_lock_nest := 0\<rparr>)"
      using assms n True by (auto simp: rt_exit_critical_def rt_enter_critical_def Let_def)
    ultimately show ?thesis using True by metis
  next
    case False
    then show ?thesis using assms n by (simp add: rt_exit_critical_def rt_enter_critical_def Let_def)
  qed
  ultimately show ?thesis using l by blast
qed

theorem scheduler_lock_witness:
  "rt_exit_critical (rt_enter_critical three_threads) = rt_schedule three_threads \<and>
   rt_schedule (rt_enter_critical three_threads) = rt_enter_critical three_threads"
  using scheduler_lock [of three_threads] by (simp add: three_threads_simps)

end
