(* ===== verification/KObject.thy ===== *)
theory KObject
  imports Scheduler
begin

text \<open>
  The object containers of kernel/object.c: every thread, timer, IPC object, pool and device
  is on the list of its class under a name of at most 32 characters.  A name is the list of
  its characters before the terminating zero.  The memory an allocated object lives in is
  given by the caller as what \<open>rt_malloc\<close> returned (\<open>None\<close> for no memory).
\<close>

section \<open>Operations\<close>

definition RT_Object_Class_Thread :: nat where "RT_Object_Class_Thread = 1"
definition RT_Object_Class_Semaphore :: nat where "RT_Object_Class_Semaphore = 2"
definition RT_Object_Class_Mutex :: nat where "RT_Object_Class_Mutex = 3"
definition RT_Object_Class_Event :: nat where "RT_Object_Class_Event = 4"
definition RT_Object_Class_MailBox :: nat where "RT_Object_Class_MailBox = 5"
definition RT_Object_Class_MessageQueue :: nat where "RT_Object_Class_MessageQueue = 6"
definition RT_Object_Class_MemHeap :: nat where "RT_Object_Class_MemHeap = 7"
definition RT_Object_Class_MemPool :: nat where "RT_Object_Class_MemPool = 8"
definition RT_Object_Class_Device :: nat where "RT_Object_Class_Device = 9"
definition RT_Object_Class_Timer :: nat where "RT_Object_Class_Timer = 10"
definition RT_Object_Class_Unknown :: nat where "RT_Object_Class_Unknown = 12"
definition RT_Object_Class_Static :: u8 where "RT_Object_Class_Static = 0x80"

text \<open>
  \<open>rt_object_container\<close>: the classes that have a container in this configuration, in the
  order of the array; \<open>rt_object_get_information\<close> searches it for the class.
\<close>

definition rt_object_container :: "nat list" where
  "rt_object_container =
     [RT_Object_Class_Thread, RT_Object_Class_Semaphore, RT_Object_Class_Mutex,
      RT_Object_Class_Event, RT_Object_Class_MailBox, RT_Object_Class_MessageQueue,
      RT_Object_Class_MemHeap, RT_Object_Class_MemPool, RT_Object_Class_Device,
      RT_Object_Class_Timer]"

definition rt_object_get_information :: "nat \<Rightarrow> nat option" where
  "rt_object_get_information ty = find (\<lambda>c. c = ty) rt_object_container"

definition object_attach :: "object_ref \<Rightarrow> nat \<Rightarrow> u8 \<Rightarrow> string \<Rightarrow> kernel \<Rightarrow> kernel" where
  "object_attach r c ty name k =
     k\<lparr>objects := (objects k)(r := \<lparr>obj_name = take RT_NAME_MAX name, obj_type = ty\<rparr>),
       object_list := (object_list k)(c := r # object_list k c)\<rparr>"

text \<open>The search for a duplicate only feeds an assertion; the lock around it may reschedule.\<close>

definition rt_object_init :: "object_ref \<Rightarrow> nat \<Rightarrow> string \<Rightarrow> kernel \<Rightarrow> kernel" where
  "rt_object_init r ty name k =
     (case rt_object_get_information ty of
        None \<Rightarrow> k
      | Some c \<Rightarrow>
          let k1 = rt_exit_critical (rt_enter_critical k)
          in object_attach r c (of_nat ty OR RT_Object_Class_Static) name k1)"

definition object_unlink :: "object_ref \<Rightarrow> kernel \<Rightarrow> kernel" where
  "object_unlink r k = k\<lparr>object_list := (\<lambda>c. filter (\<lambda>q. q \<noteq> r) (object_list k c))\<rparr>"

definition rt_object_detach :: "object_ref \<Rightarrow> kernel \<Rightarrow> kernel" where
  "rt_object_detach r k =
     object_unlink r (k\<lparr>objects := (objects k)(r := (objects k r)\<lparr>obj_type := 0\<rparr>)\<rparr>)"

text \<open>\<open>rt_memset(object, 0, information->object_size)\<close>: the control block is all zero.\<close>

definition object_clear :: "object_ref \<Rightarrow> kernel \<Rightarrow> kernel" where
  "object_clear r k =
     (case r of
        OThread t \<Rightarrow> k\<lparr>threads := (threads k)(t := thread_zero)\<rparr>
      | OTimer t \<Rightarrow> k\<lparr>timers := (timers k)(t := timers kernel_zero t)\<rparr>
      | OSem i \<Rightarrow> k\<lparr>sems := (sems k)(i := sems kernel_zero i)\<rparr>
      | OMutex i \<Rightarrow> k\<lparr>mutexes := (mutexes k)(i := mutexes kernel_zero i)\<rparr>
      | OEvent i \<Rightarrow> k\<lparr>events := (events k)(i := events kernel_zero i)\<rparr>
      | OMailbox i \<Rightarrow> k\<lparr>mailboxes := (mailboxes k)(i := mailboxes kernel_zero i)\<rparr>
      | OMq i \<Rightarrow> k\<lparr>mqs := (mqs k)(i := mqs kernel_zero i)\<rparr>
      | OMp i \<Rightarrow> k\<lparr>mempools := (mempools k)(i := mempools kernel_zero i)\<rparr>
      | ODevice i \<Rightarrow> k)"

definition rt_object_allocate ::
  "object_ref option \<Rightarrow> nat \<Rightarrow> string \<Rightarrow> kernel \<Rightarrow> object_ref option \<times> kernel" where
  "rt_object_allocate mem ty name k =
     (case rt_object_get_information ty of
        None \<Rightarrow> (None, k)
      | Some c \<Rightarrow>
          (case mem of
             None \<Rightarrow> (None, k)
           | Some r \<Rightarrow> (Some r, object_attach r c (of_nat ty) name (object_clear r k))))"

definition rt_object_delete :: "object_ref \<Rightarrow> kernel \<Rightarrow> kernel" where
  "rt_object_delete r k =
     object_unlink r (k\<lparr>objects := (objects k)(r := (objects k r)\<lparr>obj_type := 0\<rparr>)\<rparr>)"

definition rt_object_is_systemobject :: "object_ref \<Rightarrow> kernel \<Rightarrow> bool" where
  "rt_object_is_systemobject r k \<longleftrightarrow> obj_type (objects k r) AND RT_Object_Class_Static \<noteq> 0"

definition rt_object_get_type :: "object_ref \<Rightarrow> kernel \<Rightarrow> u8" where
  "rt_object_get_type r k = obj_type (objects k r) AND NOT RT_Object_Class_Static"

text \<open>Comparison of two names by \<open>rt_strncmp(_, _, RT_NAME_MAX)\<close>.\<close>

definition name_eq :: "string \<Rightarrow> string \<Rightarrow> bool" where
  "name_eq a b \<longleftrightarrow> take RT_NAME_MAX a = take RT_NAME_MAX b"

definition rt_object_find :: "string \<Rightarrow> nat \<Rightarrow> kernel \<Rightarrow> object_ref option \<times> kernel" where
  "rt_object_find name ty k =
     (if ty > RT_Object_Class_Unknown then (None, k)
      else
        (case rt_object_get_information ty of
           None \<Rightarrow> (None, k)
         | Some c \<Rightarrow>
             (find (\<lambda>r. name_eq (obj_name (objects k r)) name) (object_list k c),
              rt_exit_critical (rt_enter_critical k))))"

section \<open>The invariant of the containers\<close>

definition objects_inv :: "kernel \<Rightarrow> bool" where
  "objects_inv k \<longleftrightarrow>
     (\<forall>c. distinct (object_list k c)) \<and>
     (\<forall>c r. r \<in> set (object_list k c) \<longrightarrow>
        c \<in> set rt_object_container \<and> rt_object_get_type r k = of_nat c)"

section \<open>Lemmas\<close>

lemmas object_class_defs = RT_Object_Class_Thread_def RT_Object_Class_Semaphore_def
  RT_Object_Class_Mutex_def RT_Object_Class_Event_def RT_Object_Class_MailBox_def
  RT_Object_Class_MessageQueue_def RT_Object_Class_MemHeap_def RT_Object_Class_MemPool_def
  RT_Object_Class_Device_def RT_Object_Class_Timer_def

lemma get_information_iff:
  "rt_object_get_information ty = Some c \<longleftrightarrow> c = ty \<and> ty \<in> set rt_object_container"
proof -
  have "find (\<lambda>c. c = ty) xs = (if ty \<in> set xs then Some ty else None)" for xs
    by (induction xs) auto
  then show ?thesis by (auto simp: rt_object_get_information_def)
qed

lemma container_range: "c \<in> set rt_object_container \<Longrightarrow> 1 \<le> c \<and> c \<le> 10"
  by (auto simp: rt_object_container_def object_class_defs)

lemma class_type:
  assumes "c \<in> set rt_object_container"
  shows "(of_nat c OR RT_Object_Class_Static) AND NOT RT_Object_Class_Static = (of_nat c :: u8)"
    "(of_nat c :: u8) AND NOT RT_Object_Class_Static = of_nat c"
    "(of_nat c OR RT_Object_Class_Static) AND RT_Object_Class_Static \<noteq> 0"
    "(of_nat c :: u8) AND RT_Object_Class_Static = 0"
  using assms
  by (auto simp: rt_object_container_def object_class_defs RT_Object_Class_Static_def)

lemma class_inj:
  assumes "(of_nat c :: u8) = of_nat d" "c \<in> set rt_object_container" "d \<in> set rt_object_container"
  shows "c = d"
  using assms by (auto simp: rt_object_container_def object_class_defs)

text \<open>No object is in two containers.\<close>

lemma objects_inv_unique:
  "objects_inv k \<Longrightarrow> r \<in> set (object_list k c) \<Longrightarrow> r \<in> set (object_list k d) \<Longrightarrow> c = d"
  unfolding objects_inv_def using class_inj by metis

lemma object_attach_inv:
  assumes "objects_inv k" "c \<in> set rt_object_container" "\<And>d. r \<notin> set (object_list k d)"
    "ty AND NOT RT_Object_Class_Static = of_nat c"
  shows "objects_inv (object_attach r c ty name k)"
  using assms by (auto simp: objects_inv_def object_attach_def rt_object_get_type_def)

lemma object_unlink_inv:
  assumes "objects_inv k"
  shows "objects_inv (object_unlink r (k\<lparr>objects := (objects k)(r := ob)\<rparr>))"
  using assms by (auto simp: objects_inv_def object_unlink_def rt_object_get_type_def)

lemma objects_inv_cong:
  "objects k' = objects k \<Longrightarrow> object_list k' = object_list k \<Longrightarrow> objects_inv k' = objects_inv k"
  by (simp add: objects_inv_def rt_object_get_type_def)

lemma object_attach_frame [simp]:
  "threads (object_attach r c ty name k) = threads k"
  "queue (object_attach r c ty name k) = queue k"
  "rt_thread_ready_priority_group (object_attach r c ty name k) = rt_thread_ready_priority_group k"
  "rt_current_thread (object_attach r c ty name k) = rt_current_thread k"
  "rt_current_priority (object_attach r c ty name k) = rt_current_priority k"
  "rt_scheduler_lock_nest (object_attach r c ty name k) = rt_scheduler_lock_nest k"
  "rt_interrupt_nest (object_attach r c ty name k) = rt_interrupt_nest k"
  "rt_tick (object_attach r c ty name k) = rt_tick k"
  "timers (object_attach r c ty name k) = timers k"
  "rt_timer_list (object_attach r c ty name k) = rt_timer_list k"
  "rt_soft_timer_list (object_attach r c ty name k) = rt_soft_timer_list k"
  "sems (object_attach r c ty name k) = sems k"
  "mutexes (object_attach r c ty name k) = mutexes k"
  "events (object_attach r c ty name k) = events k"
  "mailboxes (object_attach r c ty name k) = mailboxes k"
  "mqs (object_attach r c ty name k) = mqs k"
  "mempools (object_attach r c ty name k) = mempools k"
  by (simp_all add: object_attach_def)

lemma object_unlink_frame [simp]:
  "threads (object_unlink r k) = threads k"
  "queue (object_unlink r k) = queue k"
  "rt_thread_ready_priority_group (object_unlink r k) = rt_thread_ready_priority_group k"
  "rt_current_thread (object_unlink r k) = rt_current_thread k"
  "rt_current_priority (object_unlink r k) = rt_current_priority k"
  "rt_scheduler_lock_nest (object_unlink r k) = rt_scheduler_lock_nest k"
  "rt_interrupt_nest (object_unlink r k) = rt_interrupt_nest k"
  "rt_tick (object_unlink r k) = rt_tick k"
  "timers (object_unlink r k) = timers k"
  "rt_timer_list (object_unlink r k) = rt_timer_list k"
  "rt_soft_timer_list (object_unlink r k) = rt_soft_timer_list k"
  "sems (object_unlink r k) = sems k"
  "mutexes (object_unlink r k) = mutexes k"
  "events (object_unlink r k) = events k"
  "mailboxes (object_unlink r k) = mailboxes k"
  "mqs (object_unlink r k) = mqs k"
  "mempools (object_unlink r k) = mempools k"
  "objects (object_unlink r k) = objects k"
  by (simp_all add: object_unlink_def)

lemma object_detach_frame [simp]:
  "threads (rt_object_detach r k) = threads k"
  "queue (rt_object_detach r k) = queue k"
  "rt_thread_ready_priority_group (rt_object_detach r k) = rt_thread_ready_priority_group k"
  "rt_current_thread (rt_object_detach r k) = rt_current_thread k"
  "rt_current_priority (rt_object_detach r k) = rt_current_priority k"
  "rt_scheduler_lock_nest (rt_object_detach r k) = rt_scheduler_lock_nest k"
  "rt_interrupt_nest (rt_object_detach r k) = rt_interrupt_nest k"
  "rt_tick (rt_object_detach r k) = rt_tick k"
  "timers (rt_object_detach r k) = timers k"
  "rt_timer_list (rt_object_detach r k) = rt_timer_list k"
  "rt_soft_timer_list (rt_object_detach r k) = rt_soft_timer_list k"
  "sems (rt_object_detach r k) = sems k"
  "mutexes (rt_object_detach r k) = mutexes k"
  "events (rt_object_detach r k) = events k"
  "mailboxes (rt_object_detach r k) = mailboxes k"
  "mqs (rt_object_detach r k) = mqs k"
  "mempools (rt_object_detach r k) = mempools k"
  by (simp_all add: rt_object_detach_def)

lemma object_delete_frame [simp]:
  "threads (rt_object_delete r k) = threads k"
  "queue (rt_object_delete r k) = queue k"
  "rt_thread_ready_priority_group (rt_object_delete r k) = rt_thread_ready_priority_group k"
  "rt_current_thread (rt_object_delete r k) = rt_current_thread k"
  "rt_current_priority (rt_object_delete r k) = rt_current_priority k"
  "rt_scheduler_lock_nest (rt_object_delete r k) = rt_scheduler_lock_nest k"
  "rt_interrupt_nest (rt_object_delete r k) = rt_interrupt_nest k"
  "rt_tick (rt_object_delete r k) = rt_tick k"
  "timers (rt_object_delete r k) = timers k"
  "rt_timer_list (rt_object_delete r k) = rt_timer_list k"
  "rt_soft_timer_list (rt_object_delete r k) = rt_soft_timer_list k"
  "sems (rt_object_delete r k) = sems k"
  "mutexes (rt_object_delete r k) = mutexes k"
  "events (rt_object_delete r k) = events k"
  "mailboxes (rt_object_delete r k) = mailboxes k"
  "mqs (rt_object_delete r k) = mqs k"
  "mempools (rt_object_delete r k) = mempools k"
  by (simp_all add: rt_object_delete_def)

lemma object_init_frame [simp]:
  "rt_interrupt_nest (rt_object_init r ty name k) = rt_interrupt_nest k"
  "rt_tick (rt_object_init r ty name k) = rt_tick k"
  "timers (rt_object_init r ty name k) = timers k"
  "rt_timer_list (rt_object_init r ty name k) = rt_timer_list k"
  "rt_soft_timer_list (rt_object_init r ty name k) = rt_soft_timer_list k"
  "sems (rt_object_init r ty name k) = sems k"
  "mutexes (rt_object_init r ty name k) = mutexes k"
  "events (rt_object_init r ty name k) = events k"
  "mailboxes (rt_object_init r ty name k) = mailboxes k"
  "mqs (rt_object_init r ty name k) = mqs k"
  "mempools (rt_object_init r ty name k) = mempools k"
  "thread_error (threads (rt_object_init r ty name k) u) = thread_error (threads k u)"
  "current_priority (threads (rt_object_init r ty name k) u) = current_priority (threads k u)"
  "init_priority (threads (rt_object_init r ty name k) u) = init_priority (threads k u)"
  "number_mask (threads (rt_object_init r ty name k) u) = number_mask (threads k u)"
  "event_set (threads (rt_object_init r ty name k) u) = event_set (threads k u)"
  "event_info (threads (rt_object_init r ty name k) u) = event_info (threads k u)"
  "thread_init_tick (threads (rt_object_init r ty name k) u) = thread_init_tick (threads k u)"
  "remaining_tick (threads (rt_object_init r ty name k) u) = remaining_tick (threads k u)"
  "cleanup (threads (rt_object_init r ty name k) u) = cleanup (threads k u)"
  by (simp_all add: rt_object_init_def Let_def split: option.split)

lemma thread_stat_object [simp]:
  "thread_stat (object_attach r c ty name k) u = thread_stat k u"
  "thread_stat (object_unlink r k) u = thread_stat k u"
  "thread_stat (rt_object_detach r k) u = thread_stat k u"
  "thread_stat (rt_object_delete r k) u = thread_stat k u"
  by (simp_all add: thread_stat_def)

text \<open>The scheduler's invariant under the object operations.\<close>

lemma object_sched_inv:
  "sched_inv (object_attach r c ty name k) = sched_inv k"
  "sched_inv (rt_object_detach r k) = sched_inv k" "sched_inv (rt_object_delete r k) = sched_inv k"
  by (rule sched_inv_cong; simp)+

lemma object_init_sched_inv: "sched_inv k \<Longrightarrow> sched_inv (rt_object_init r ty name k)"
  by (simp add: rt_object_init_def Let_def object_sched_inv enter_critical_inv exit_critical_inv
      split: option.split)

lemma object_init_inv:
  assumes "objects_inv k" "\<And>c. r \<notin> set (object_list k c)"
  shows "objects_inv (rt_object_init r ty name k)"
proof (cases "rt_object_get_information ty")
  case (Some c)
  then have c: "c = ty" "ty \<in> set rt_object_container" by (auto simp: get_information_iff)
  let ?k = "rt_exit_critical (rt_enter_critical k)"
  have "objects_inv ?k" using assms(1) objects_inv_cong [of ?k k] by simp
  then show ?thesis
    using assms(2) c Some class_type(1) by (simp add: rt_object_init_def Let_def object_attach_inv)
qed (use assms in \<open>simp add: rt_object_init_def\<close>)

lemma object_detach_inv: "objects_inv k \<Longrightarrow> objects_inv (rt_object_detach r k)"
  unfolding rt_object_detach_def by (rule object_unlink_inv)

section \<open>Properties\<close>

text \<open>
  C7: Object registration.  From a state in which every container holds distinct objects of
  its own class, initialising an object keeps that, makes it a system object of its class,
  and a search for its name finds it (the newest of that name); after it is detached it is
  in no container and no longer has a class.
\<close>

theorem rt_object_registration:
  assumes "objects_inv k" "\<And>c. r \<notin> set (object_list k c)" "ty \<in> set rt_object_container"
  shows "let k1 = rt_object_init r ty name k; k2 = rt_object_detach r k1 in
    objects_inv k1 \<and> rt_object_is_systemobject r k1 \<and> rt_object_get_type r k1 = of_nat ty \<and>
    fst (rt_object_find name ty k1) = Some r \<and>
    objects_inv k2 \<and> (\<forall>c. r \<notin> set (object_list k2 c)) \<and> rt_object_get_type r k2 = 0"
proof -
  let ?k1 = "rt_object_init r ty name k"
  let ?k0 = "rt_exit_critical (rt_enter_critical k)"
  have inf: "rt_object_get_information ty = Some ty" using assms(3) by (simp add: get_information_iff)
  have k1: "?k1 = object_attach r ty (of_nat ty OR RT_Object_Class_Static) name ?k0"
    by (simp add: rt_object_init_def inf Let_def)
  have inv: "objects_inv ?k1" using assms(1,2) by (rule object_init_inv)
  have ty: "\<not> ty > RT_Object_Class_Unknown"
    using container_range [OF assms(3)] by (simp add: RT_Object_Class_Unknown_def)
  have "rt_object_is_systemobject r ?k1"
    using class_type(3) [OF assms(3)] by (simp add: k1 rt_object_is_systemobject_def object_attach_def)
  moreover have "rt_object_get_type r ?k1 = of_nat ty"
    using class_type(1) [OF assms(3)] by (simp add: k1 rt_object_get_type_def object_attach_def)
  moreover have "fst (rt_object_find name ty ?k1) = Some r"
    using ty by (simp add: rt_object_find_def inf k1 object_attach_def name_eq_def)
  moreover have "objects_inv (rt_object_detach r ?k1)" using inv by (rule object_detach_inv)
  ultimately show ?thesis
    using inv by (simp add: rt_object_detach_def object_unlink_def rt_object_get_type_def Let_def)
qed

theorem rt_object_registration_witness:
  "let k1 = rt_object_init (OSem 0) RT_Object_Class_Semaphore ''lock'' kernel_zero in
   fst (rt_object_find ''lock'' RT_Object_Class_Semaphore k1) = Some (OSem 0)"
proof -
  have "objects_inv kernel_zero" by (simp add: objects_inv_def kernel_zero_def)
  moreover have "OSem 0 \<notin> set (object_list kernel_zero c)" for c by (simp add: kernel_zero_def)
  moreover have "RT_Object_Class_Semaphore \<in> set rt_object_container" by (simp add: rt_object_container_def)
  ultimately show ?thesis
    using rt_object_registration [of kernel_zero "OSem 0" RT_Object_Class_Semaphore "''lock''"]
    by (simp add: Let_def)
qed

end
