(* ===== verification/Timer.thy ===== *)
theory Timer
  imports KObject
begin

text \<open>
  The timer lists of kernel/timer.c with one skip-list level, as rtconfig.h has it: the
  operations on one timer that do not wake a thread.  Ticks are 32-bit words and wrap
  around; a timer is later than another when the difference of their timeouts is less than
  half the range.  Starting a timer and running the expired ones is in the theories
  ThreadCore and TimerCheck, since both wake threads.
\<close>

section \<open>Operations\<close>

definition RT_TIMER_CTRL_SET_TIME :: nat where "RT_TIMER_CTRL_SET_TIME = 0"
definition RT_TIMER_CTRL_GET_TIME :: nat where "RT_TIMER_CTRL_GET_TIME = 1"
definition RT_TIMER_CTRL_SET_ONESHOT :: nat where "RT_TIMER_CTRL_SET_ONESHOT = 2"
definition RT_TIMER_CTRL_SET_PERIODIC :: nat where "RT_TIMER_CTRL_SET_PERIODIC = 3"

definition RT_TICK_HALF :: u32 where "RT_TICK_HALF = RT_TICK_MAX div 2"

definition timer_init_fields :: "timer_ref \<Rightarrow> timeout_fn \<Rightarrow> u32 \<Rightarrow> u8 \<Rightarrow> kernel \<Rightarrow> kernel" where
  "timer_init_fields tr timeout time flag =
     upd_timer tr (\<lambda>_. \<lparr>timer_flag = flag AND NOT RT_TIMER_FLAG_ACTIVATED, timeout_func = timeout,
                       init_tick = time, timeout_tick = 0\<rparr>)"

definition rt_timer_list_next_timeout :: "kernel \<Rightarrow> timer_ref list \<Rightarrow> u32" where
  "rt_timer_list_next_timeout k l =
     (case l of [] \<Rightarrow> RT_TICK_MAX | tr # _ \<Rightarrow> timeout_tick (timers k tr))"

text \<open>\<open>_rt_timer_remove\<close>: the timer is on one of the two lists or on none.\<close>

definition timer_remove :: "timer_ref \<Rightarrow> kernel \<Rightarrow> kernel" where
  "timer_remove tr k =
     k\<lparr>rt_timer_list := filter (\<lambda>u. u \<noteq> tr) (rt_timer_list k),
       rt_soft_timer_list := filter (\<lambda>u. u \<noteq> tr) (rt_soft_timer_list k)\<rparr>"

definition rt_timer_init ::
  "timer_ref \<Rightarrow> string \<Rightarrow> timeout_fn \<Rightarrow> u32 \<Rightarrow> u8 \<Rightarrow> kernel \<Rightarrow> kernel" where
  "rt_timer_init tr name timeout time flag k =
     timer_init_fields tr timeout time flag (rt_object_init (OTimer tr) RT_Object_Class_Timer name k)"

definition rt_timer_detach :: "timer_ref \<Rightarrow> kernel \<Rightarrow> rt_err_t \<times> kernel" where
  "rt_timer_detach tr k = (RT_EOK, rt_object_detach (OTimer tr) (timer_remove tr k))"

definition rt_timer_create ::
  "object_ref option \<Rightarrow> string \<Rightarrow> timeout_fn \<Rightarrow> u32 \<Rightarrow> u8 \<Rightarrow> kernel \<Rightarrow> timer_ref option \<times> kernel" where
  "rt_timer_create mem name timeout time flag k =
     (case rt_object_allocate mem RT_Object_Class_Timer name k of
        (Some (OTimer tr), k1) \<Rightarrow> (Some tr, timer_init_fields tr timeout time flag k1)
      | (_, k1) \<Rightarrow> (None, k1))"

definition rt_timer_delete :: "timer_ref \<Rightarrow> kernel \<Rightarrow> rt_err_t \<times> kernel" where
  "rt_timer_delete tr k = (RT_EOK, rt_object_delete (OTimer tr) (timer_remove tr k))"

definition rt_timer_stop :: "timer_ref \<Rightarrow> kernel \<Rightarrow> rt_err_t \<times> kernel" where
  "rt_timer_stop tr k =
     (if timer_flag (timers k tr) AND RT_TIMER_FLAG_ACTIVATED = 0 then (- RT_ERROR, k)
      else
        (RT_EOK,
         upd_timer tr (\<lambda>t. t\<lparr>timer_flag := timer_flag t AND NOT RT_TIMER_FLAG_ACTIVATED\<rparr>)
           (timer_remove tr k)))"

text \<open>The value behind \<open>arg\<close> is an input of one command and an output of another.\<close>

definition rt_timer_control :: "timer_ref \<Rightarrow> nat \<Rightarrow> u32 \<Rightarrow> kernel \<Rightarrow> rt_err_t \<times> u32 \<times> kernel" where
  "rt_timer_control tr cmd arg k =
     (if cmd = RT_TIMER_CTRL_GET_TIME then (RT_EOK, init_tick (timers k tr), k)
      else if cmd = RT_TIMER_CTRL_SET_TIME
      then (RT_EOK, arg, upd_timer tr (\<lambda>t. t\<lparr>init_tick := arg\<rparr>) k)
      else if cmd = RT_TIMER_CTRL_SET_ONESHOT
      then (RT_EOK, arg, upd_timer tr (\<lambda>t. t\<lparr>timer_flag := timer_flag t AND NOT RT_TIMER_FLAG_PERIODIC\<rparr>) k)
      else if cmd = RT_TIMER_CTRL_SET_PERIODIC
      then (RT_EOK, arg, upd_timer tr (\<lambda>t. t\<lparr>timer_flag := timer_flag t OR RT_TIMER_FLAG_PERIODIC\<rparr>) k)
      else (RT_EOK, arg, k))"

text \<open>
  The search loop of \<open>rt_timer_start\<close>: \<open>timer\<close> goes behind every timer of the list that is
  due no later, in front of the first that is due later.
\<close>

fun timer_insert :: "(timer_ref \<Rightarrow> u32) \<Rightarrow> u32 \<Rightarrow> timer_ref \<Rightarrow> timer_ref list \<Rightarrow> timer_ref list" where
  "timer_insert due time tr [] = [tr]"
| "timer_insert due time tr (u # us) =
     (if due u - time = 0 then u # timer_insert due time tr us
      else if due u - time < RT_TICK_HALF then tr # u # us
      else u # timer_insert due time tr us)"

text \<open>\<open>rt_timer_start\<close> up to the point where the timer thread may have to be woken.\<close>

definition timer_start_link :: "timer_ref \<Rightarrow> kernel \<Rightarrow> kernel" where
  "timer_start_link tr k =
     (let k1 = timer_remove tr k;
          k2 = upd_timer tr (\<lambda>t. t\<lparr>timer_flag := timer_flag t AND NOT RT_TIMER_FLAG_ACTIVATED,
                                 timeout_tick := rt_tick k1 + init_tick t\<rparr>) k1;
          due = (\<lambda>u. timeout_tick (timers k2 u));
          k3 = (if timer_flag (timers k2 tr) AND RT_TIMER_FLAG_SOFT_TIMER \<noteq> 0
                then k2\<lparr>rt_soft_timer_list := timer_insert due (due tr) tr (rt_soft_timer_list k2)\<rparr>
                else k2\<lparr>rt_timer_list := timer_insert due (due tr) tr (rt_timer_list k2)\<rparr>)
      in upd_timer tr (\<lambda>t. t\<lparr>timer_flag := timer_flag t OR RT_TIMER_FLAG_ACTIVATED\<rparr>) k3)"

definition rt_timer_next_timeout_tick :: "kernel \<Rightarrow> u32" where
  "rt_timer_next_timeout_tick k = rt_timer_list_next_timeout k (rt_timer_list k)"

definition rt_system_timer_init :: "kernel \<Rightarrow> kernel" where
  "rt_system_timer_init k = k\<lparr>rt_timer_list := []\<rparr>"

section \<open>Invariants\<close>

text \<open>
  The lists hold active timers of their own kind, each once, and a thread's timer only while
  the thread is suspended.
\<close>

definition timer_ok :: "kernel \<Rightarrow> timer_ref \<Rightarrow> bool" where
  "timer_ok k tr \<longleftrightarrow>
     timer_flag (timers k tr) AND RT_TIMER_FLAG_ACTIVATED \<noteq> 0 \<and>
     (\<forall>t. tr = ThreadTimer t \<longrightarrow>
        thread_stat k t = RT_THREAD_SUSPEND \<and> timeout_func (timers k tr) = Thread_timeout t)"

definition timer_inv :: "kernel \<Rightarrow> bool" where
  "timer_inv k \<longleftrightarrow>
     distinct (rt_timer_list k) \<and> distinct (rt_soft_timer_list k) \<and>
     (\<forall>tr \<in> set (rt_timer_list k). timer_ok k tr \<and> timer_flag (timers k tr) AND RT_TIMER_FLAG_SOFT_TIMER = 0) \<and>
     (\<forall>tr \<in> set (rt_soft_timer_list k). timer_ok k tr \<and> timer_flag (timers k tr) AND RT_TIMER_FLAG_SOFT_TIMER \<noteq> 0)"

text \<open>
  Order of a list: seen from a base tick \<open>b\<close> every timer is due within half the range, and
  the list is sorted by the time left.
\<close>

definition due_in :: "u32 \<Rightarrow> kernel \<Rightarrow> timer_ref \<Rightarrow> nat" where
  "due_in b k tr = unat (timeout_tick (timers k tr) - b)"

definition timers_sorted :: "u32 \<Rightarrow> kernel \<Rightarrow> timer_ref list \<Rightarrow> bool" where
  "timers_sorted b k l \<longleftrightarrow>
     (\<forall>tr \<in> set l. due_in b k tr < unat RT_TICK_HALF) \<and> sorted (map (due_in b k) l)"

section \<open>Lemmas: order under wrap-around\<close>

lemma tick_half: "RT_TICK_HALF = 0x7fffffff" "unat RT_TICK_HALF = 2147483647"
  by (simp_all add: RT_TICK_HALF_def RT_TICK_MAX_def)

text \<open>Within half the range of a common base, the wrapped difference decides the order.\<close>

lemma wrap_later:
  fixes a x b :: u32
  assumes "unat (a - b) < unat RT_TICK_HALF" "unat (x - b) < unat RT_TICK_HALF"
  shows "a - x = 0 \<longleftrightarrow> unat (a - b) = unat (x - b)"
    and "a \<noteq> x \<Longrightarrow> a - x < RT_TICK_HALF \<longleftrightarrow> unat (x - b) < unat (a - b)"
proof -
  let ?A = "unat (a - b)" and ?X = "unat (x - b)"
  show "a - x = 0 \<longleftrightarrow> ?A = ?X" by (auto simp: word_unat_eq_iff [symmetric])
  assume ne: "a \<noteq> x"
  then have neq: "?A \<noteq> ?X" by (auto simp: word_unat_eq_iff [symmetric])
  have d: "a - x = (a - b) - (x - b)" by simp
  show "a - x < RT_TICK_HALF \<longleftrightarrow> ?X < ?A"
  proof (cases "?X < ?A")
    case True
    then have "unat ((a - b) - (x - b)) = ?A - ?X" by (intro unat_sub) (simp add: word_le_nat_alt)
    with True assms show ?thesis unfolding d by (simp add: word_less_nat_alt)
  next
    case False
    then have lt: "?A < ?X" using neq by simp
    have "unat ((x - b) - (a - b)) = ?X - ?A" using lt by (intro unat_sub) (simp add: word_le_nat_alt)
    then have xa: "unat (x - a) = ?X - ?A" by simp
    have "uint (- (x - a)) = (- uint (x - a)) mod 2 ^ 32" 
      using uint_word_ariths(4) [of "x - a"] by (simp only: len_num1 len_bit0 mult_1_right) simp
    moreover obtain n where n: "n = ?X - ?A" "0 < n" "n < 2147483647"
      using lt assms(2) by (auto simp: tick_half)
    have "uint (x - a) = int n" using xa n by (metis uint_nat)
    ultimately have "uint (a - x) = (- int n) mod 2 ^ 32" by simp
    then have "uint (a - x) = 2 ^ 32 - int n" using n(2,3) by (simp add: zmod_zminus1_eq_if)
    then have "unat (a - x) = 2 ^ 32 - n" by (simp add: unat_eq_nat_uint nat_diff_distrib)
    then have "\<not> unat (a - x) < unat RT_TICK_HALF" using n(3) by (simp add: tick_half)
    with lt show ?thesis by (simp add: word_less_nat_alt)
  qed
qed

lemma set_timer_insert [simp]: "set (timer_insert due time tr l) = insert tr (set l)"
  by (induction l) auto

lemma distinct_timer_insert [simp]:
  "distinct (timer_insert due time tr l) \<longleftrightarrow> tr \<notin> set l \<and> distinct l"
  by (induction l) auto

lemma timer_insert_eq:
  assumes "\<forall>u \<in> set l. unat (due u - b) < unat RT_TICK_HALF" "unat (time - b) < unat RT_TICK_HALF"
    "sorted (map (\<lambda>u. unat (due u - b)) l)"
  shows "timer_insert due time tr l =
    filter (\<lambda>u. unat (due u - b) \<le> unat (time - b)) l @ tr #
    filter (\<lambda>u. unat (time - b) < unat (due u - b)) l"
  using assms(1,3)
proof (induction l)
  case (Cons u us)
  note w = wrap_later [of "due u" b time]
  have u: "unat (due u - b) < unat RT_TICK_HALF" using Cons.prems(1) by simp
  show ?case
  proof (cases "unat (due u - b) \<le> unat (time - b)")
    case True
    then have "due u - time = 0 \<or> \<not> due u - time < RT_TICK_HALF"
      using w [OF u assms(2)] by auto
    then show ?thesis using Cons True by auto
  next
    case False
    then have "due u - time \<noteq> 0 \<and> due u - time < RT_TICK_HALF" using w [OF u assms(2)] by auto
    moreover have "\<forall>v \<in> set us. unat (time - b) < unat (due v - b)"
      using Cons.prems(2) False by auto
    then have "filter (\<lambda>u. unat (due u - b) \<le> unat (time - b)) us = []"
      "filter (\<lambda>u. unat (time - b) < unat (due u - b)) us = us"
      by (auto simp: filter_empty_conv filter_id_conv)
    ultimately show ?thesis using False by simp
  qed
qed simp

lemma sorted_split:
  assumes "sorted (map f l)"
  shows "sorted (map f (filter (\<lambda>u. f u \<le> f x) l @ x # filter (\<lambda>u. f x < f u) l))"
  using assms by (auto simp: sorted_append sorted_map sorted_wrt_filter intro: order_trans less_imp_le)

text \<open>Inserting a timer that is due within half the range keeps a list in order.\<close>

lemma timers_sorted_insert:
  assumes "timers_sorted b k l" "due_in b k tr < unat RT_TICK_HALF"
  shows "timers_sorted b k
    (timer_insert (\<lambda>u. timeout_tick (timers k u)) (timeout_tick (timers k tr)) tr l)"
proof -
  have "timer_insert (\<lambda>u. timeout_tick (timers k u)) (timeout_tick (timers k tr)) tr l =
      filter (\<lambda>u. due_in b k u \<le> due_in b k tr) l @ tr # filter (\<lambda>u. due_in b k tr < due_in b k u) l"
    using assms unfolding due_in_def timers_sorted_def by (intro timer_insert_eq) auto
  then show ?thesis
    using assms sorted_split [of "due_in b k" l tr] by (auto simp: timers_sorted_def)
qed

lemma timers_sorted_filter: "timers_sorted b k l \<Longrightarrow> timers_sorted b k (filter P l)"
  by (auto simp: timers_sorted_def sorted_map sorted_wrt_filter)

lemma timers_sorted_cong:
  "(\<And>tr. tr \<in> set l \<Longrightarrow> timeout_tick (timers k' tr) = timeout_tick (timers k tr)) \<Longrightarrow>
   timers_sorted b k' l = timers_sorted b k l"
  by (auto simp: timers_sorted_def due_in_def cong: map_cong)

section \<open>Lemmas: what the operations change\<close>

lemma upd_timer_frame [simp]:
  "threads (upd_timer tr f k) = threads k"
  "queue (upd_timer tr f k) = queue k"
  "rt_thread_ready_priority_group (upd_timer tr f k) = rt_thread_ready_priority_group k"
  "rt_current_thread (upd_timer tr f k) = rt_current_thread k"
  "rt_current_priority (upd_timer tr f k) = rt_current_priority k"
  "rt_scheduler_lock_nest (upd_timer tr f k) = rt_scheduler_lock_nest k"
  "objects (upd_timer tr f k) = objects k"
  "object_list (upd_timer tr f k) = object_list k"
  "rt_interrupt_nest (upd_timer tr f k) = rt_interrupt_nest k"
  "rt_tick (upd_timer tr f k) = rt_tick k"
  "sems (upd_timer tr f k) = sems k"
  "mutexes (upd_timer tr f k) = mutexes k"
  "events (upd_timer tr f k) = events k"
  "mailboxes (upd_timer tr f k) = mailboxes k"
  "mqs (upd_timer tr f k) = mqs k"
  "mempools (upd_timer tr f k) = mempools k"
  "rt_timer_list (upd_timer tr f k) = rt_timer_list k"
  "rt_soft_timer_list (upd_timer tr f k) = rt_soft_timer_list k"
  by (simp_all add: upd_timer_def)

lemma timer_remove_frame [simp]:
  "threads (timer_remove tr k) = threads k"
  "queue (timer_remove tr k) = queue k"
  "rt_thread_ready_priority_group (timer_remove tr k) = rt_thread_ready_priority_group k"
  "rt_current_thread (timer_remove tr k) = rt_current_thread k"
  "rt_current_priority (timer_remove tr k) = rt_current_priority k"
  "rt_scheduler_lock_nest (timer_remove tr k) = rt_scheduler_lock_nest k"
  "objects (timer_remove tr k) = objects k"
  "object_list (timer_remove tr k) = object_list k"
  "rt_interrupt_nest (timer_remove tr k) = rt_interrupt_nest k"
  "rt_tick (timer_remove tr k) = rt_tick k"
  "sems (timer_remove tr k) = sems k"
  "mutexes (timer_remove tr k) = mutexes k"
  "events (timer_remove tr k) = events k"
  "mailboxes (timer_remove tr k) = mailboxes k"
  "mqs (timer_remove tr k) = mqs k"
  "mempools (timer_remove tr k) = mempools k"
  "timers (timer_remove tr k) = timers k"
  by (simp_all add: timer_remove_def)

lemma timer_stop_frame [simp]:
  "threads (snd (rt_timer_stop tr k)) = threads k"
  "queue (snd (rt_timer_stop tr k)) = queue k"
  "rt_thread_ready_priority_group (snd (rt_timer_stop tr k)) = rt_thread_ready_priority_group k"
  "rt_current_thread (snd (rt_timer_stop tr k)) = rt_current_thread k"
  "rt_current_priority (snd (rt_timer_stop tr k)) = rt_current_priority k"
  "rt_scheduler_lock_nest (snd (rt_timer_stop tr k)) = rt_scheduler_lock_nest k"
  "objects (snd (rt_timer_stop tr k)) = objects k"
  "object_list (snd (rt_timer_stop tr k)) = object_list k"
  "rt_interrupt_nest (snd (rt_timer_stop tr k)) = rt_interrupt_nest k"
  "rt_tick (snd (rt_timer_stop tr k)) = rt_tick k"
  "sems (snd (rt_timer_stop tr k)) = sems k"
  "mutexes (snd (rt_timer_stop tr k)) = mutexes k"
  "events (snd (rt_timer_stop tr k)) = events k"
  "mailboxes (snd (rt_timer_stop tr k)) = mailboxes k"
  "mqs (snd (rt_timer_stop tr k)) = mqs k"
  "mempools (snd (rt_timer_stop tr k)) = mempools k"
  by (simp_all add: rt_timer_stop_def)

lemma timer_start_link_frame [simp]:
  "threads (timer_start_link tr k) = threads k"
  "queue (timer_start_link tr k) = queue k"
  "rt_thread_ready_priority_group (timer_start_link tr k) = rt_thread_ready_priority_group k"
  "rt_current_thread (timer_start_link tr k) = rt_current_thread k"
  "rt_current_priority (timer_start_link tr k) = rt_current_priority k"
  "rt_scheduler_lock_nest (timer_start_link tr k) = rt_scheduler_lock_nest k"
  "objects (timer_start_link tr k) = objects k"
  "object_list (timer_start_link tr k) = object_list k"
  "rt_interrupt_nest (timer_start_link tr k) = rt_interrupt_nest k"
  "rt_tick (timer_start_link tr k) = rt_tick k"
  "sems (timer_start_link tr k) = sems k"
  "mutexes (timer_start_link tr k) = mutexes k"
  "events (timer_start_link tr k) = events k"
  "mailboxes (timer_start_link tr k) = mailboxes k"
  "mqs (timer_start_link tr k) = mqs k"
  "mempools (timer_start_link tr k) = mempools k"
  by (simp_all add: timer_start_link_def Let_def)

lemma timer_init_fields_frame [simp]:
  "threads (timer_init_fields tr fn time flag k) = threads k"
  "queue (timer_init_fields tr fn time flag k) = queue k"
  "rt_thread_ready_priority_group (timer_init_fields tr fn time flag k) = rt_thread_ready_priority_group k"
  "rt_current_thread (timer_init_fields tr fn time flag k) = rt_current_thread k"
  "rt_current_priority (timer_init_fields tr fn time flag k) = rt_current_priority k"
  "rt_scheduler_lock_nest (timer_init_fields tr fn time flag k) = rt_scheduler_lock_nest k"
  "objects (timer_init_fields tr fn time flag k) = objects k"
  "object_list (timer_init_fields tr fn time flag k) = object_list k"
  "rt_interrupt_nest (timer_init_fields tr fn time flag k) = rt_interrupt_nest k"
  "rt_tick (timer_init_fields tr fn time flag k) = rt_tick k"
  "sems (timer_init_fields tr fn time flag k) = sems k"
  "mutexes (timer_init_fields tr fn time flag k) = mutexes k"
  "events (timer_init_fields tr fn time flag k) = events k"
  "mailboxes (timer_init_fields tr fn time flag k) = mailboxes k"
  "mqs (timer_init_fields tr fn time flag k) = mqs k"
  "mempools (timer_init_fields tr fn time flag k) = mempools k"
  "rt_timer_list (timer_init_fields tr fn time flag k) = rt_timer_list k"
  "rt_soft_timer_list (timer_init_fields tr fn time flag k) = rt_soft_timer_list k"
  by (simp_all add: timer_init_fields_def)

lemma timer_control_frame [simp]:
  "threads (snd (snd (rt_timer_control tr cmd arg k))) = threads k"
  "queue (snd (snd (rt_timer_control tr cmd arg k))) = queue k"
  "rt_thread_ready_priority_group (snd (snd (rt_timer_control tr cmd arg k))) = rt_thread_ready_priority_group k"
  "rt_current_thread (snd (snd (rt_timer_control tr cmd arg k))) = rt_current_thread k"
  "rt_current_priority (snd (snd (rt_timer_control tr cmd arg k))) = rt_current_priority k"
  "rt_scheduler_lock_nest (snd (snd (rt_timer_control tr cmd arg k))) = rt_scheduler_lock_nest k"
  "objects (snd (snd (rt_timer_control tr cmd arg k))) = objects k"
  "object_list (snd (snd (rt_timer_control tr cmd arg k))) = object_list k"
  "rt_interrupt_nest (snd (snd (rt_timer_control tr cmd arg k))) = rt_interrupt_nest k"
  "rt_tick (snd (snd (rt_timer_control tr cmd arg k))) = rt_tick k"
  "sems (snd (snd (rt_timer_control tr cmd arg k))) = sems k"
  "mutexes (snd (snd (rt_timer_control tr cmd arg k))) = mutexes k"
  "events (snd (snd (rt_timer_control tr cmd arg k))) = events k"
  "mailboxes (snd (snd (rt_timer_control tr cmd arg k))) = mailboxes k"
  "mqs (snd (snd (rt_timer_control tr cmd arg k))) = mqs k"
  "mempools (snd (snd (rt_timer_control tr cmd arg k))) = mempools k"
  "rt_timer_list (snd (snd (rt_timer_control tr cmd arg k))) = rt_timer_list k"
  "rt_soft_timer_list (snd (snd (rt_timer_control tr cmd arg k))) = rt_soft_timer_list k"
  by (simp_all add: rt_timer_control_def)

lemma timers_upd [simp]: "timers (upd_timer tr f k) = (timers k)(tr := f (timers k tr))"
  by (simp add: upd_timer_def)

lemma timer_remove_lists [simp]:
  "rt_timer_list (timer_remove tr k) = filter (\<lambda>u. u \<noteq> tr) (rt_timer_list k)"
  "rt_soft_timer_list (timer_remove tr k) = filter (\<lambda>u. u \<noteq> tr) (rt_soft_timer_list k)"
  by (simp_all add: timer_remove_def)

lemma thread_stat_timer [simp]:
  "thread_stat (upd_timer tr f k) u = thread_stat k u"
  "thread_stat (timer_remove tr k) u = thread_stat k u"
  "thread_stat (snd (rt_timer_stop tr k)) u = thread_stat k u"
  "thread_stat (timer_start_link tr k) u = thread_stat k u"
  "thread_stat (timer_init_fields tr fn time flag k) u = thread_stat k u"
  by (simp_all add: thread_stat_def)

lemma timer_sched_inv_but [simp]:
  "sched_inv_but T (upd_timer tr f k) = sched_inv_but T k"
  "sched_inv_but T (timer_remove tr k) = sched_inv_but T k"
  "sched_inv_but T (snd (rt_timer_stop tr k)) = sched_inv_but T k"
  "sched_inv_but T (timer_start_link tr k) = sched_inv_but T k"
  "sched_inv_but T (timer_init_fields tr fn time flag k) = sched_inv_but T k"
  by (rule sched_inv_cong; simp)+

lemma timer_sched_inv [simp]:
  "sched_inv (upd_timer tr f k) = sched_inv k" "sched_inv (timer_remove tr k) = sched_inv k"
  "sched_inv (snd (rt_timer_stop tr k)) = sched_inv k"
  "sched_inv (timer_start_link tr k) = sched_inv k"
  "sched_inv (timer_init_fields tr fn time flag k) = sched_inv k"
  by (simp_all add: sched_inv_def)

lemma timer_mask_ok [simp]:
  "mask_ok (timer_remove tr k) t = mask_ok k t" "mask_ok (snd (rt_timer_stop tr k)) t = mask_ok k t"
  "mask_ok (timer_start_link tr k) t = mask_ok k t"
  by (simp_all add: mask_ok_def)

lemma timer_unqueued [simp]:
  "unqueued t (timer_remove tr k) = unqueued t k" "unqueued t (snd (rt_timer_stop tr k)) = unqueued t k"
  "unqueued t (timer_start_link tr k) = unqueued t k"
  by (simp_all add: unqueued_def)

lemma act_flag [simp]:
  "(f OR RT_TIMER_FLAG_ACTIVATED) AND RT_TIMER_FLAG_ACTIVATED \<noteq> 0"
  "(f AND NOT RT_TIMER_FLAG_ACTIVATED) AND RT_TIMER_FLAG_ACTIVATED = 0"
  "(f OR RT_TIMER_FLAG_ACTIVATED) AND RT_TIMER_FLAG_SOFT_TIMER = f AND RT_TIMER_FLAG_SOFT_TIMER"
  "(f AND NOT RT_TIMER_FLAG_ACTIVATED) AND RT_TIMER_FLAG_SOFT_TIMER = f AND RT_TIMER_FLAG_SOFT_TIMER"
  "(f OR RT_TIMER_FLAG_ACTIVATED) AND RT_TIMER_FLAG_PERIODIC = f AND RT_TIMER_FLAG_PERIODIC"
  "(f AND NOT RT_TIMER_FLAG_ACTIVATED) AND RT_TIMER_FLAG_PERIODIC = f AND RT_TIMER_FLAG_PERIODIC"
  for f :: u8
proof -
  have b: "bit RT_TIMER_FLAG_ACTIVATED i \<longleftrightarrow> i = 0" "bit RT_TIMER_FLAG_SOFT_TIMER i \<longleftrightarrow> i = 2"
    "bit RT_TIMER_FLAG_PERIODIC i \<longleftrightarrow> i = 1" for i
    using bit_exp_iff [of 0 i, where 'a = u8] bit_exp_iff [of 2 i, where 'a = u8] bit_exp_iff [of 1 i, where 'a = u8]
    by (auto simp: RT_TIMER_FLAG_ACTIVATED_def RT_TIMER_FLAG_SOFT_TIMER_def RT_TIMER_FLAG_PERIODIC_def)
  have "bit ((f OR RT_TIMER_FLAG_ACTIVATED) AND RT_TIMER_FLAG_ACTIVATED) 0"
    by (simp only: bit_and_iff bit_or_iff b simp_thms)
  then show "(f OR RT_TIMER_FLAG_ACTIVATED) AND RT_TIMER_FLAG_ACTIVATED \<noteq> 0" by force
  show "(f AND NOT RT_TIMER_FLAG_ACTIVATED) AND RT_TIMER_FLAG_ACTIVATED = 0"
    by (simp add: and.assoc)
  show "(f OR RT_TIMER_FLAG_ACTIVATED) AND RT_TIMER_FLAG_SOFT_TIMER = f AND RT_TIMER_FLAG_SOFT_TIMER"
    "(f AND NOT RT_TIMER_FLAG_ACTIVATED) AND RT_TIMER_FLAG_SOFT_TIMER = f AND RT_TIMER_FLAG_SOFT_TIMER"
    "(f OR RT_TIMER_FLAG_ACTIVATED) AND RT_TIMER_FLAG_PERIODIC = f AND RT_TIMER_FLAG_PERIODIC"
    "(f AND NOT RT_TIMER_FLAG_ACTIVATED) AND RT_TIMER_FLAG_PERIODIC = f AND RT_TIMER_FLAG_PERIODIC"
    by (rule bit_eqI, auto simp: bit_and_iff bit_or_iff bit_not_iff b)+
qed

section \<open>Lemmas: the timer invariant\<close>

lemma timer_inv_remove: "timer_inv k \<Longrightarrow> timer_inv (timer_remove tr k)"
  by (auto simp: timer_inv_def timer_ok_def)

lemma timer_inv_upd_other:
  assumes "timer_inv k" "tr \<notin> set (rt_timer_list k)" "tr \<notin> set (rt_soft_timer_list k)"
  shows "timer_inv (upd_timer tr f k)"
  using assms by (auto simp: timer_inv_def timer_ok_def)

lemma timer_inv_stop: "timer_inv k \<Longrightarrow> timer_inv (snd (rt_timer_stop tr k))"
  by (auto simp: rt_timer_stop_def intro!: timer_inv_upd_other timer_inv_remove)

text \<open>A stopped timer is on no list, whether or not it had to be taken off.\<close>

lemma timer_stop_gone:
  assumes "timer_inv k"
  shows "tr \<notin> set (rt_timer_list (snd (rt_timer_stop tr k)))"
    "tr \<notin> set (rt_soft_timer_list (snd (rt_timer_stop tr k)))"
  using assms by (auto simp: rt_timer_stop_def timer_inv_def timer_ok_def)

lemma timer_stop_lists:
  "set (rt_timer_list (snd (rt_timer_stop tr k))) \<subseteq> set (rt_timer_list k)"
  "set (rt_soft_timer_list (snd (rt_timer_stop tr k))) \<subseteq> set (rt_soft_timer_list k)"
  by (auto simp: rt_timer_stop_def)

text \<open>
  The invariant may be carried over to a state with other thread states, as long as the
  threads whose timers run stay suspended.
\<close>

lemma timer_inv_stat:
  assumes "timer_inv k" "rt_timer_list k' = rt_timer_list k" "rt_soft_timer_list k' = rt_soft_timer_list k"
    "timers k' = timers k"
    "\<And>t. ThreadTimer t \<in> set (rt_timer_list k) \<union> set (rt_soft_timer_list k) \<Longrightarrow>
       thread_stat k t = RT_THREAD_SUSPEND \<Longrightarrow> thread_stat k' t = RT_THREAD_SUSPEND"
  shows "timer_inv k'"
proof -
  have "timer_ok k' tr" if "tr \<in> set (rt_timer_list k) \<union> set (rt_soft_timer_list k)" "timer_ok k tr" for tr
    using that assms(4,5) by (auto simp: timer_ok_def)
  then show ?thesis using assms(1-4) by (simp add: timer_inv_def)
qed

lemma timer_inv_schedule:
  assumes "timer_inv k" "sched_inv k"
  shows "timer_inv (rt_schedule k)"
  using assms(1) by (rule timer_inv_stat) (use rt_schedule_other(2) [OF assms(2)] in simp_all)

lemma start_link_timers:
  "timers (timer_start_link tr k) u =
     (if u = tr then (timers k tr)\<lparr>timer_flag := timer_flag (timers k tr) AND NOT RT_TIMER_FLAG_ACTIVATED OR RT_TIMER_FLAG_ACTIVATED,
        timeout_tick := rt_tick k + init_tick (timers k tr)\<rparr> else timers k u)"
  by (simp add: timer_start_link_def Let_def)

lemma start_link_soft:
  assumes "timer_flag (timers k tr) AND RT_TIMER_FLAG_SOFT_TIMER \<noteq> 0"
  shows "rt_timer_list (timer_start_link tr k) = filter (\<lambda>u. u \<noteq> tr) (rt_timer_list k)"
    "rt_soft_timer_list (timer_start_link tr k) =
       timer_insert (\<lambda>u. timeout_tick (timers (timer_start_link tr k) u))
         (timeout_tick (timers (timer_start_link tr k) tr)) tr
         (filter (\<lambda>u. u \<noteq> tr) (rt_soft_timer_list k))"
proof -
  have e: "(\<lambda>u. timeout_tick (timers (timer_start_link tr k) u)) =
      (\<lambda>u. timeout_tick (if u = tr then (timers k tr)\<lparr>timeout_tick := rt_tick k + init_tick (timers k tr)\<rparr> else timers k u))"
    by (auto simp: start_link_timers)
  show "rt_timer_list (timer_start_link tr k) = filter (\<lambda>u. u \<noteq> tr) (rt_timer_list k)"
    using assms by (simp add: timer_start_link_def Let_def)
  show "rt_soft_timer_list (timer_start_link tr k) =
       timer_insert (\<lambda>u. timeout_tick (timers (timer_start_link tr k) u))
         (timeout_tick (timers (timer_start_link tr k) tr)) tr
         (filter (\<lambda>u. u \<noteq> tr) (rt_soft_timer_list k))"
    unfolding e using assms
    by (simp add: timer_start_link_def Let_def start_link_timers if_distrib [of timeout_tick] cong: if_cong)
qed

lemma start_link_hard:
  assumes "timer_flag (timers k tr) AND RT_TIMER_FLAG_SOFT_TIMER = 0"
  shows "rt_soft_timer_list (timer_start_link tr k) = filter (\<lambda>u. u \<noteq> tr) (rt_soft_timer_list k)"
    "rt_timer_list (timer_start_link tr k) =
       timer_insert (\<lambda>u. timeout_tick (timers (timer_start_link tr k) u))
         (timeout_tick (timers (timer_start_link tr k) tr)) tr
         (filter (\<lambda>u. u \<noteq> tr) (rt_timer_list k))"
proof -
  have e: "(\<lambda>u. timeout_tick (timers (timer_start_link tr k) u)) =
      (\<lambda>u. timeout_tick (if u = tr then (timers k tr)\<lparr>timeout_tick := rt_tick k + init_tick (timers k tr)\<rparr> else timers k u))"
    by (auto simp: start_link_timers)
  show "rt_soft_timer_list (timer_start_link tr k) = filter (\<lambda>u. u \<noteq> tr) (rt_soft_timer_list k)"
    using assms by (simp add: timer_start_link_def Let_def)
  show "rt_timer_list (timer_start_link tr k) =
       timer_insert (\<lambda>u. timeout_tick (timers (timer_start_link tr k) u))
         (timeout_tick (timers (timer_start_link tr k) tr)) tr
         (filter (\<lambda>u. u \<noteq> tr) (rt_timer_list k))"
    unfolding e using assms
    by (simp add: timer_start_link_def Let_def start_link_timers if_distrib [of timeout_tick] cong: if_cong)
qed

lemma timer_inv_start_link:
  assumes inv: "timer_inv k"
    and thr: "\<And>t. tr = ThreadTimer t \<Longrightarrow>
      thread_stat k t = RT_THREAD_SUSPEND \<and> timeout_func (timers k tr) = Thread_timeout t"
  shows "timer_inv (timer_start_link tr k)"
proof -
  let ?k = "timer_start_link tr k"
  have "RT_TIMER_FLAG_ACTIVATED \<noteq> 0" by (simp add: RT_TIMER_FLAG_ACTIVATED_def)
  then have ok: "timer_ok ?k tr" using thr by (simp add: timer_ok_def start_link_timers)
  have ok': "timer_ok ?k u = timer_ok k u" if "u \<noteq> tr" for u
    using that by (auto simp: timer_ok_def start_link_timers)
  have fl: "timer_flag (timers ?k u) AND RT_TIMER_FLAG_SOFT_TIMER = timer_flag (timers k u) AND RT_TIMER_FLAG_SOFT_TIMER" for u
    by (simp add: start_link_timers)
  show ?thesis
  proof (cases "timer_flag (timers k tr) AND RT_TIMER_FLAG_SOFT_TIMER = 0")
    case True
    with inv ok ok' fl show ?thesis by (simp add: timer_inv_def start_link_hard [OF True])
  next
    case False
    with inv ok ok' fl show ?thesis by (simp add: timer_inv_def start_link_soft [OF False])
  qed
qed

text \<open>Starting a timer keeps both lists in order.\<close>

lemma timers_sorted_start_link:
  assumes "timers_sorted b k (rt_timer_list k)" "timers_sorted b k (rt_soft_timer_list k)"
    "unat (rt_tick k + init_tick (timers k tr) - b) < unat RT_TICK_HALF"
  shows "timers_sorted b (timer_start_link tr k) (rt_timer_list (timer_start_link tr k))"
    "timers_sorted b (timer_start_link tr k) (rt_soft_timer_list (timer_start_link tr k))"
proof -
  let ?k = "timer_start_link tr k"
  have due: "due_in b ?k tr < unat RT_TICK_HALF" using assms(3) by (simp add: due_in_def start_link_timers)
  have rest: "timers_sorted b ?k (filter (\<lambda>u. u \<noteq> tr) l)" if "timers_sorted b k l" for l
    using timers_sorted_filter [OF that]
    by (subst timers_sorted_cong [of _ _ k]) (auto simp: start_link_timers)
  have "timers_sorted b ?k (rt_timer_list ?k) \<and> timers_sorted b ?k (rt_soft_timer_list ?k)"
  proof (cases "timer_flag (timers k tr) AND RT_TIMER_FLAG_SOFT_TIMER = 0")
    case True
    show ?thesis unfolding start_link_hard [OF True]
      using timers_sorted_insert [OF rest due] rest assms by blast
  next
    case False
    show ?thesis unfolding start_link_soft [OF False]
      using timers_sorted_insert [OF rest due] rest assms by blast
  qed
  then show "timers_sorted b ?k (rt_timer_list ?k)" "timers_sorted b ?k (rt_soft_timer_list ?k)"
    by blast+
qed

text \<open>The first timer of a list in order is the one due first.\<close>

lemma next_timeout_least:
  assumes "timers_sorted b k l" "tr \<in> set l"
  shows "unat (rt_timer_list_next_timeout k l - b) \<le> due_in b k tr"
  using assms by (cases l) (auto simp: rt_timer_list_next_timeout_def timers_sorted_def due_in_def)

section \<open>Properties\<close>

text \<open>
  C5: Starting a hard timer.  While the running timers are due within half the tick range
  from now, starting one more due within that range puts it behind every timer due no later
  and in front of every timer due later, across the wrap-around of the tick; timers due at
  the same tick stay in the order they were started, and the next timeout the kernel
  reports is the earliest of the list.
\<close>

theorem rt_timer_start_order:
  assumes "timers_sorted (rt_tick k) k (rt_timer_list k)" "timers_sorted (rt_tick k) k (rt_soft_timer_list k)"
    and "tr \<notin> set (rt_timer_list k)" "timer_flag (timers k tr) AND RT_TIMER_FLAG_SOFT_TIMER = 0"
    and "init_tick (timers k tr) < RT_TICK_HALF"
  shows "let k' = timer_start_link tr k; now = rt_tick k in
    rt_timer_list k' =
      filter (\<lambda>u. due_in now k u \<le> unat (init_tick (timers k tr))) (rt_timer_list k) @ tr #
      filter (\<lambda>u. unat (init_tick (timers k tr)) < due_in now k u) (rt_timer_list k) \<and>
    timers_sorted now k' (rt_timer_list k') \<and>
    (\<forall>u \<in> set (rt_timer_list k'). unat (rt_timer_next_timeout_tick k' - now) \<le> due_in now k' u)"
proof -
  let ?k = "timer_start_link tr k" and ?now = "rt_tick k"
  have i: "unat (init_tick (timers k tr)) < unat RT_TICK_HALF" using assms(5) by (simp add: word_less_nat_alt)
  have tr: "due_in ?now ?k tr = unat (init_tick (timers k tr))" by (simp add: due_in_def start_link_timers)
  have oth: "due_in ?now ?k u = due_in ?now k u" if "u \<in> set (rt_timer_list k)" for u
    using that assms(3) by (auto simp: due_in_def start_link_timers)
  have id: "filter (\<lambda>u. u \<noteq> tr) (rt_timer_list k) = rt_timer_list k"
    using assms(3) by (auto simp: filter_id_conv)
  have s: "timers_sorted ?now ?k (rt_timer_list k)"
    using assms(1,3) by (subst timers_sorted_cong [of _ _ k]) (auto simp: start_link_timers)
  have "rt_timer_list ?k = filter (\<lambda>u. due_in ?now ?k u \<le> due_in ?now ?k tr) (rt_timer_list k) @ tr #
      filter (\<lambda>u. due_in ?now ?k tr < due_in ?now ?k u) (rt_timer_list k)"
    unfolding start_link_hard(2) [OF assms(4)] id unfolding due_in_def
    using s i tr unfolding timers_sorted_def due_in_def by (intro timer_insert_eq) auto
  then have l: "rt_timer_list ?k =
      filter (\<lambda>u. due_in ?now k u \<le> unat (init_tick (timers k tr))) (rt_timer_list k) @ tr #
      filter (\<lambda>u. unat (init_tick (timers k tr)) < due_in ?now k u) (rt_timer_list k)"
    using oth by (simp add: tr cong: filter_cong)
  have "timers_sorted ?now ?k (rt_timer_list ?k)"
    using timers_sorted_start_link(1) [OF assms(1,2)] i by simp
  with l show ?thesis
    using next_timeout_least by (simp add: Let_def rt_timer_next_timeout_tick_def)
qed

theorem rt_timer_start_order_witness:
  "let k = kernel_zero\<lparr>rt_tick := 0xfffffffe, rt_timer_list := [UserTimer 1, UserTimer 2],
         timers := (\<lambda>tr. \<lparr>timer_flag = 1, timeout_func = User_timeout 0, init_tick = 3,
            timeout_tick = (if tr = UserTimer 1 then 0xffffffff else 5)\<rparr>)\<rparr>
   in rt_timer_list (timer_start_link (UserTimer 3) k) = [UserTimer 1, UserTimer 3, UserTimer 2]"
proof -
  define k where "k = kernel_zero\<lparr>rt_tick := 0xfffffffe, rt_timer_list := [UserTimer 1, UserTimer 2],
         timers := (\<lambda>tr. \<lparr>timer_flag = 1, timeout_func = User_timeout 0, init_tick = 3,
            timeout_tick = (if tr = UserTimer 1 then 0xffffffff else 5)\<rparr>)\<rparr>"
  have "timers_sorted (rt_tick k) k (rt_timer_list k)" "timers_sorted (rt_tick k) k (rt_soft_timer_list k)"
    by (simp_all add: k_def kernel_zero_def timers_sorted_def due_in_def tick_half)
  moreover have "UserTimer 3 \<notin> set (rt_timer_list k)"
    "timer_flag (timers k (UserTimer 3)) AND RT_TIMER_FLAG_SOFT_TIMER = 0"
    "init_tick (timers k (UserTimer 3)) < RT_TICK_HALF"
    by (simp_all add: k_def RT_TIMER_FLAG_SOFT_TIMER_def tick_half)
  ultimately have "rt_timer_list (timer_start_link (UserTimer 3) k) =
      filter (\<lambda>u. due_in (rt_tick k) k u \<le> unat (init_tick (timers k (UserTimer 3)))) (rt_timer_list k) @ UserTimer 3 #
      filter (\<lambda>u. unat (init_tick (timers k (UserTimer 3))) < due_in (rt_tick k) k u) (rt_timer_list k)"
    using rt_timer_start_order [of k "UserTimer 3"] unfolding Let_def by blast
  then show ?thesis by (simp add: k_def due_in_def Let_def)
qed

end
