(* ===== verification/ThreadCore.thy ===== *)
theory ThreadCore
  imports Timer
begin

text \<open>
  Suspending, resuming and timing out a thread (kernel/thread.c), and starting a timer
  (kernel/timer.c), which may resume the timer thread.  The kernel invariant \<open>kinv\<close> joins
  the scheduler's and the timers' invariants.
\<close>

section \<open>Operations\<close>

definition rt_thread_suspend :: "tid \<Rightarrow> kernel \<Rightarrow> rt_err_t \<times> kernel" where
  "rt_thread_suspend t k =
     (if thread_stat k t \<noteq> RT_THREAD_READY \<and> thread_stat k t \<noteq> RT_THREAD_RUNNING
      then (- RT_ERROR, k)
      else
        let k1 = rt_schedule_remove_thread t k;
            k2 = set_stat t RT_THREAD_SUSPEND k1
        in (RT_EOK, snd (rt_timer_stop (ThreadTimer t) k2)))"

definition rt_thread_resume :: "tid \<Rightarrow> kernel \<Rightarrow> rt_err_t \<times> kernel" where
  "rt_thread_resume t k =
     (if thread_stat k t \<noteq> RT_THREAD_SUSPEND then (- RT_ERROR, k)
      else
        let k1 = tlist_remove t k;
            k2 = snd (rt_timer_stop (ThreadTimer t) k1)
        in (RT_EOK, rt_schedule_insert_thread t k2))"

text \<open>
  The timeout function of a thread's timer, without and with the final \<open>rt_schedule\<close>.
\<close>

definition thread_timeout_wake :: "tid \<Rightarrow> kernel \<Rightarrow> kernel" where
  "thread_timeout_wake t k =
     (let k1 = upd_thread t (\<lambda>th. th\<lparr>thread_error := - RT_ETIMEOUT\<rparr>) k;
          k2 = tlist_remove t k1
      in rt_schedule_insert_thread t k2)"

definition rt_thread_timeout :: "tid \<Rightarrow> kernel \<Rightarrow> kernel" where
  "rt_thread_timeout t k = rt_schedule (thread_timeout_wake t k)"

definition rt_timer_start :: "timer_ref \<Rightarrow> kernel \<Rightarrow> rt_err_t \<times> kernel" where
  "rt_timer_start tr k =
     (let k1 = timer_start_link tr k
      in if timer_flag (timers k1 tr) AND RT_TIMER_FLAG_SOFT_TIMER \<noteq> 0 \<and>
            thread_stat k1 timer_thread = RT_THREAD_SUSPEND
         then (RT_EOK, rt_schedule (snd (rt_thread_resume timer_thread k1)))
         else (RT_EOK, k1))"

section \<open>The kernel invariant\<close>

definition kinv :: "kernel \<Rightarrow> bool" where
  "kinv k \<longleftrightarrow> sched_inv k \<and> timer_inv k"

section \<open>Lemmas\<close>

lemma kinvD [dest]: "kinv k \<Longrightarrow> sched_inv k" "kinv k \<Longrightarrow> timer_inv k"
  by (simp_all add: kinv_def)

lemma kinv_schedule: "kinv k \<Longrightarrow> kinv (rt_schedule k)"
  by (simp add: kinv_def rt_schedule_inv timer_inv_schedule)

text \<open>A thread that is not ready can be unlinked without touching the ready table.\<close>

lemma tlist_remove_inv:
  assumes inv: "sched_inv k" and st: "thread_stat k t \<noteq> RT_THREAD_READY"
  shows "sched_inv_but {t} (tlist_remove t k)" "unqueued t (tlist_remove t k)"
proof -
  let ?k = "tlist_remove t k"
  show "unqueued t ?k" by (simp add: unqueued_def)
  have "queues_ok ?k"
    using sched_invD(2) [OF inv] unfolding queues_ok_def by (simp add: distinct_filter) blast
  moreover have rq: "queue ?k (ReadyQ p) = queue k (ReadyQ p)" for p
    using ready_iff [OF inv, of t p] st by (auto simp: filter_id_conv)
  then have "group_ok ?k" using sched_invD(3) [OF inv] unfolding group_ok_def by simp
  moreover have "thread_ok ?k u" if "u \<noteq> t" for u
    by (rule thread_ok_frame [OF sched_invD(1) [OF inv]])
      (use that in \<open>simp_all add: thread_stat_def mask_ok_def\<close>)
  ultimately show "sched_inv_but {t} ?k" by (simp add: sched_inv_but_def)
qed

lemma thread_stat_tlist [simp]:
  "thread_stat (tlist_remove t k) u = thread_stat k u"
  "thread_stat (tlist_insert_before h t k) u = thread_stat k u"
  "thread_stat (tlist_insert_after h t k) u = thread_stat k u"
  by (simp_all add: thread_stat_def)

lemma mask_ok_tlist [simp]: "mask_ok (tlist_remove t k) u = mask_ok k u"
  by (simp add: mask_ok_def)

text \<open>Waking a suspended thread: the common part of resume and timeout.\<close>

lemma wake_inv:
  assumes inv: "sched_inv k" and st: "thread_stat k t = RT_THREAD_SUSPEND"
  shows "sched_inv (rt_schedule_insert_thread t (snd (rt_timer_stop tr (tlist_remove t k))))"
    "sched_inv (rt_schedule_insert_thread t (tlist_remove t k))"
proof -
  have m: "mask_ok k t" using thread_okD(5) [OF sched_invD(1) [OF inv]] st by simp
  note r = tlist_remove_inv [OF inv, of t]
  have "sched_inv_but ({t} - {t}) (rt_schedule_insert_thread t (snd (rt_timer_stop tr (tlist_remove t k))))"
    using r st m by (intro insert_thread_inv) simp_all
  then show "sched_inv (rt_schedule_insert_thread t (snd (rt_timer_stop tr (tlist_remove t k))))"
    by (simp add: sched_inv_def)
  have "sched_inv_but ({t} - {t}) (rt_schedule_insert_thread t (tlist_remove t k))"
    using r st m by (intro insert_thread_inv) simp_all
  then show "sched_inv (rt_schedule_insert_thread t (tlist_remove t k))" by (simp add: sched_inv_def)
qed

lemma timer_inv_tlist [simp]:
  "timer_inv (tlist_remove t k) = timer_inv k"
  "timer_inv (tlist_insert_before h t k) = timer_inv k"
  "timer_inv (tlist_insert_after h t k) = timer_inv k"
  by (simp_all add: timer_inv_def timer_ok_def)

text \<open>The timers of the other threads do not notice that one is woken.\<close>

lemma timer_inv_insert_thread:
  assumes "timer_inv k" "ThreadTimer t \<notin> set (rt_timer_list k)" "ThreadTimer t \<notin> set (rt_soft_timer_list k)"
  shows "timer_inv (rt_schedule_insert_thread t k)"
  using assms(1) by (rule timer_inv_stat) (use assms in auto)

lemma resume_inv:
  assumes inv: "kinv k"
  shows "kinv (snd (rt_thread_resume t k))"
proof (cases "thread_stat k t = RT_THREAD_SUSPEND")
  case True
  let ?k = "snd (rt_timer_stop (ThreadTimer t) (tlist_remove t k))"
  have ti: "timer_inv (tlist_remove t k)" using inv by (auto simp: kinv_def)
  have "timer_inv (rt_schedule_insert_thread t ?k)"
    using timer_inv_stop [OF ti] timer_stop_gone [OF ti] by (intro timer_inv_insert_thread)
  with True show ?thesis
    using wake_inv(1) [OF kinvD(1) [OF inv] True] by (simp add: kinv_def rt_thread_resume_def Let_def)
qed (use inv in \<open>simp add: rt_thread_resume_def\<close>)

lemma suspend_inv:
  assumes inv: "kinv k"
  shows "kinv (snd (rt_thread_suspend t k))"
proof (cases "thread_stat k t \<in> {RT_THREAD_READY, RT_THREAD_RUNNING}")
  case True
  note s = kinvD(1) [OF inv]
  have m: "mask_ok k t" using thread_okD(5) [OF sched_invD(1) [OF s]] True by blast
  have "sched_inv_but {} k" using s by (simp add: sched_inv_def)
  then have r: "sched_inv_but {t} (rt_schedule_remove_thread t k)" "unqueued t (rt_schedule_remove_thread t k)"
    using remove_thread_inv [of "{}" k t] m ready_iff [OF s, of t] by auto
  have "sched_inv_but ({t} - {t}) (set_stat t RT_THREAD_SUSPEND (rt_schedule_remove_thread t k))"
    using r m by (intro set_stat_inv) simp_all
  then have si: "sched_inv (set_stat t RT_THREAD_SUSPEND (rt_schedule_remove_thread t k))"
    by (simp add: sched_inv_def)
  have "timer_inv (set_stat t RT_THREAD_SUSPEND (rt_schedule_remove_thread t k))"
    by (rule timer_inv_stat [OF kinvD(2) [OF inv]]) simp_all
  then have "timer_inv (snd (rt_timer_stop (ThreadTimer t) (set_stat t RT_THREAD_SUSPEND (rt_schedule_remove_thread t k))))"
    by (rule timer_inv_stop)
  with si True show ?thesis by (auto simp: kinv_def rt_thread_suspend_def Let_def)
qed (use inv in \<open>simp add: rt_thread_suspend_def\<close>)

text \<open>Changes of a thread's other fields do not concern the invariant.\<close>

lemma kinv_upd_thread:
  assumes "\<And>th. stat (f th) = stat th" "\<And>th. current_priority (f th) = current_priority th"
    "\<And>th. number_mask (f th) = number_mask th"
  shows "kinv (upd_thread t f k) = kinv k"
proof -
  have st: "thread_stat (upd_thread t f k) u = thread_stat k u" for u
    using assms by (simp add: thread_stat_def)
  have "sched_inv (upd_thread t f k) = sched_inv k"
    using assms st by (intro sched_inv_cong) simp_all
  moreover have "timer_inv (upd_thread t f k) = timer_inv k"
    by (simp add: timer_inv_def timer_ok_def st del: thread_stat_simps)
  ultimately show ?thesis by (simp add: kinv_def)
qed

lemma kinv_cong:
  assumes "\<And>t. thread_stat k' t = thread_stat k t"
    "\<And>t. current_priority (threads k' t) = current_priority (threads k t)"
    "\<And>t. number_mask (threads k' t) = number_mask (threads k t)"
    "queue k' = queue k" "rt_thread_ready_priority_group k' = rt_thread_ready_priority_group k"
    "rt_current_thread k' = rt_current_thread k"
    "rt_timer_list k' = rt_timer_list k" "rt_soft_timer_list k' = rt_soft_timer_list k" "timers k' = timers k"
  shows "kinv k' = kinv k"
proof -
  have "sched_inv k' = sched_inv k" using assms by (intro sched_inv_cong)
  moreover have "timer_inv k' = timer_inv k" using assms by (simp add: timer_inv_def timer_ok_def)
  ultimately show ?thesis by (simp add: kinv_def)
qed

lemma timeout_wake_inv:
  assumes inv: "kinv k" and st: "thread_stat k t = RT_THREAD_SUSPEND"
    and no: "ThreadTimer t \<notin> set (rt_timer_list k)" "ThreadTimer t \<notin> set (rt_soft_timer_list k)"
  shows "kinv (thread_timeout_wake t k)"
proof -
  let ?k = "upd_thread t (\<lambda>th. th\<lparr>thread_error := - RT_ETIMEOUT\<rparr>) k"
  have inv1: "kinv ?k" using inv by (simp add: kinv_upd_thread)
  have st1: "thread_stat ?k t = RT_THREAD_SUSPEND" using st by (simp add: thread_stat_def)
  have "sched_inv (rt_schedule_insert_thread t (tlist_remove t ?k))"
    by (rule wake_inv(2) [OF kinvD(1) [OF inv1] st1])
  moreover have "timer_inv (rt_schedule_insert_thread t (tlist_remove t ?k))"
    using kinvD(2) [OF inv1] no by (intro timer_inv_insert_thread) simp_all
  ultimately show ?thesis by (simp add: kinv_def thread_timeout_wake_def Let_def)
qed

lemma timeout_inv:
  assumes "kinv k" "thread_stat k t = RT_THREAD_SUSPEND"
    "ThreadTimer t \<notin> set (rt_timer_list k)" "ThreadTimer t \<notin> set (rt_soft_timer_list k)"
  shows "kinv (rt_thread_timeout t k)"
  unfolding rt_thread_timeout_def by (intro kinv_schedule timeout_wake_inv assms)

lemma timer_start_inv:
  assumes inv: "kinv k"
    and thr: "\<And>t. tr = ThreadTimer t \<Longrightarrow>
      thread_stat k t = RT_THREAD_SUSPEND \<and> timeout_func (timers k tr) = Thread_timeout t"
  shows "kinv (snd (rt_timer_start tr k))"
proof -
  have "kinv (timer_start_link tr k)"
    using inv timer_inv_start_link [OF kinvD(2) [OF inv] thr] by (simp add: kinv_def)
  then show ?thesis
    by (simp add: rt_timer_start_def Let_def kinv_schedule resume_inv)
qed

section \<open>Lemmas: the effect of suspending and resuming\<close>

lemma suspend_effect:
  assumes st: "thread_stat k t \<in> {RT_THREAD_READY, RT_THREAD_RUNNING}"
  shows "fst (rt_thread_suspend t k) = RT_EOK"
    "thread_stat (snd (rt_thread_suspend t k)) u = (if u = t then RT_THREAD_SUSPEND else thread_stat k u)"
    "queue (snd (rt_thread_suspend t k)) h = filter (\<lambda>u. u \<noteq> t) (queue k h)"
    "rt_current_thread (snd (rt_thread_suspend t k)) = rt_current_thread k"
    "timer_inv k \<Longrightarrow> ThreadTimer t \<notin> set (rt_timer_list (snd (rt_thread_suspend t k)))"
    "timer_inv k \<Longrightarrow> ThreadTimer t \<notin> set (rt_soft_timer_list (snd (rt_thread_suspend t k)))"
proof -
  let ?k1 = "set_stat t RT_THREAD_SUSPEND (rt_schedule_remove_thread t k)"
  have e: "rt_thread_suspend t k = (RT_EOK, snd (rt_timer_stop (ThreadTimer t) ?k1))"
    using st by (auto simp: rt_thread_suspend_def Let_def)
  show "fst (rt_thread_suspend t k) = RT_EOK"
    "thread_stat (snd (rt_thread_suspend t k)) u = (if u = t then RT_THREAD_SUSPEND else thread_stat k u)"
    "queue (snd (rt_thread_suspend t k)) h = filter (\<lambda>u. u \<noteq> t) (queue k h)"
    "rt_current_thread (snd (rt_thread_suspend t k)) = rt_current_thread k"
    by (simp_all add: e)
  assume "timer_inv k"
  then have "timer_inv ?k1" by (rule timer_inv_stat) simp_all
  then show "ThreadTimer t \<notin> set (rt_timer_list (snd (rt_thread_suspend t k)))"
    "ThreadTimer t \<notin> set (rt_soft_timer_list (snd (rt_thread_suspend t k)))"
    using timer_stop_gone by (simp_all add: e)
qed

lemma resume_effect:
  assumes st: "thread_stat k t = RT_THREAD_SUSPEND"
  shows "fst (rt_thread_resume t k) = RT_EOK"
    "thread_stat (snd (rt_thread_resume t k)) u =
       (if u = t then (if rt_current_thread k = Some t then RT_THREAD_RUNNING else RT_THREAD_READY)
        else thread_stat k u)"
    "rt_current_thread (snd (rt_thread_resume t k)) = rt_current_thread k"
    "queue (snd (rt_thread_resume t k)) h =
       filter (\<lambda>u. u \<noteq> t) (queue k h) @
       (if h = ReadyQ (current_priority (threads k t)) \<and> rt_current_thread k \<noteq> Some t then [t] else [])"
  using st by (simp_all add: rt_thread_resume_def Let_def)

lemma resume_not_suspended:
  "thread_stat k t \<noteq> RT_THREAD_SUSPEND \<Longrightarrow> rt_thread_resume t k = (- RT_ERROR, k)"
  by (simp add: rt_thread_resume_def)

end
