(* ===== verification/Thread.thy ===== *)
theory Thread
  imports ThreadCore
begin

text \<open>
  The thread operations of kernel/thread.c, the tick functions of kernel/clock.c that they
  use, and the clean-up of kernel/idle.c.  A call that gives up the processor is split at
  its \<open>rt_schedule\<close>: the operation is the part before, the function whose name ends in
  \<open>_wake\<close> the part that runs when the caller is scheduled again.
\<close>

section \<open>Clock\<close>

definition RT_TICK_PER_SECOND :: int where "RT_TICK_PER_SECOND = 1000"

definition rt_tick_get :: "kernel \<Rightarrow> u32" where
  "rt_tick_get k = rt_tick k"

definition rt_tick_set :: "u32 \<Rightarrow> kernel \<Rightarrow> kernel" where
  "rt_tick_set tick k = k\<lparr>rt_tick := tick\<rparr>"

text \<open>\<open>ms\<close> is a signed 32-bit value; the products are computed in int.\<close>

definition rt_tick_from_millisecond :: "int \<Rightarrow> u32" where
  "rt_tick_from_millisecond ms =
     (if ms < 0 then - 1
      else of_int (RT_TICK_PER_SECOND * (ms div 1000)) +
           of_int ((RT_TICK_PER_SECOND * (ms mod 1000) + 999) div 1000))"

section \<open>Thread operations\<close>

definition RT_THREAD_CTRL_STARTUP :: nat where "RT_THREAD_CTRL_STARTUP = 0"
definition RT_THREAD_CTRL_CLOSE :: nat where "RT_THREAD_CTRL_CLOSE = 1"
definition RT_THREAD_CTRL_CHANGE_PRIORITY :: nat where "RT_THREAD_CTRL_CHANGE_PRIORITY = 2"

definition rt_thread_self :: "kernel \<Rightarrow> tid option" where
  "rt_thread_self k = rt_current_thread k"

text \<open>
  \<open>_rt_thread_init\<close>.  The initial stack frame and the fill of the stack are left to the
  machine context; the list node is fresh and self-linked, so on no queue.
\<close>

definition thread_init_fields ::
  "tid \<Rightarrow> string \<Rightarrow> nat \<Rightarrow> nat \<Rightarrow> nat \<Rightarrow> u32 \<Rightarrow> nat \<Rightarrow> u32 \<Rightarrow> kernel \<Rightarrow> rt_err_t \<times> kernel" where
  "thread_init_fields t name entry0 parameter0 stack_start stack_size0 priority tick k =
     (let k1 = upd_thread t (\<lambda>th. th\<lparr>entry := entry0, parameter := parameter0, stack_addr := stack_start,
                  stack_size := stack_size0, init_priority := priority, current_priority := priority,
                  number_mask := 0, thread_init_tick := tick, remaining_tick := tick,
                  thread_error := RT_EOK, stat := RT_THREAD_INIT, cleanup := None, user_data := 0\<rparr>) k
      in (RT_EOK, rt_timer_init (ThreadTimer t) name (Thread_timeout t) 0 0 k1))"

definition rt_thread_init ::
  "tid \<Rightarrow> string \<Rightarrow> nat \<Rightarrow> nat \<Rightarrow> nat \<Rightarrow> u32 \<Rightarrow> nat \<Rightarrow> u32 \<Rightarrow> kernel \<Rightarrow> rt_err_t \<times> kernel" where
  "rt_thread_init t name entry0 parameter0 stack_start stack_size0 priority tick k =
     thread_init_fields t name entry0 parameter0 stack_start stack_size0 priority tick
       (rt_object_init (OThread t) RT_Object_Class_Thread name k)"

text \<open>\<open>mem\<close> and \<open>stack\<close> are what the two allocations return.\<close>

definition rt_thread_create ::
  "object_ref option \<Rightarrow> nat option \<Rightarrow> string \<Rightarrow> nat \<Rightarrow> nat \<Rightarrow> u32 \<Rightarrow> nat \<Rightarrow> u32 \<Rightarrow> kernel \<Rightarrow> tid option \<times> kernel" where
  "rt_thread_create mem stack name entry0 parameter0 stack_size0 priority tick k =
     (case rt_object_allocate mem RT_Object_Class_Thread name k of
        (Some (OThread t), k1) \<Rightarrow>
          (case stack of
             None \<Rightarrow> (None, rt_object_delete (OThread t) k1)
           | Some stack_start \<Rightarrow>
               (Some t, snd (thread_init_fields t name entry0 parameter0 stack_start stack_size0 priority tick k1)))
      | (_, k1) \<Rightarrow> (None, k1))"

definition rt_thread_startup :: "tid \<Rightarrow> kernel \<Rightarrow> rt_err_t \<times> kernel" where
  "rt_thread_startup t k =
     (let k1 = upd_thread t (\<lambda>th. th\<lparr>current_priority := init_priority th\<rparr>) k;
          k2 = upd_thread t (\<lambda>th. th\<lparr>number_mask := push_bit (current_priority th) 1,
                                   stat := RT_THREAD_SUSPEND\<rparr>) k1;
          k3 = snd (rt_thread_resume t k2)
      in (RT_EOK, if rt_thread_self k3 \<noteq> None then rt_schedule k3 else k3))"

text \<open>The common end of exit, detach and delete.\<close>

definition thread_close :: "tid \<Rightarrow> kernel \<Rightarrow> kernel" where
  "thread_close t k =
     (if rt_object_is_systemobject (OThread t) k \<and> cleanup (threads k t) = None
      then rt_object_detach (OThread t) k
      else tlist_insert_after Defunct t k)"

definition rt_thread_exit :: "kernel \<Rightarrow> kernel" where
  "rt_thread_exit k =
     (case rt_thread_self k of
        None \<Rightarrow> k
      | Some t \<Rightarrow>
          let k1 = rt_schedule_remove_thread t k;
              k2 = upd_thread t (\<lambda>th. th\<lparr>stat := RT_THREAD_CLOSE\<rparr>) k1;
              k3 = snd (rt_timer_detach (ThreadTimer t) k2)
          in rt_schedule (thread_close t k3))"

definition rt_thread_detach :: "tid \<Rightarrow> kernel \<Rightarrow> rt_err_t \<times> kernel" where
  "rt_thread_detach t k =
     (let k1 = (if thread_stat k t \<noteq> RT_THREAD_INIT then rt_schedule_remove_thread t k else k);
          k2 = snd (rt_timer_detach (ThreadTimer t) k1);
          k3 = upd_thread t (\<lambda>th. th\<lparr>stat := RT_THREAD_CLOSE\<rparr>) k2
      in (RT_EOK, thread_close t k3))"

definition rt_thread_delete :: "tid \<Rightarrow> kernel \<Rightarrow> rt_err_t \<times> kernel" where
  "rt_thread_delete t k =
     (let k1 = (if thread_stat k t \<noteq> RT_THREAD_INIT then rt_schedule_remove_thread t k else k);
          k2 = snd (rt_timer_detach (ThreadTimer t) k1);
          k3 = upd_thread t (\<lambda>th. th\<lparr>stat := RT_THREAD_CLOSE\<rparr>) k2
      in (RT_EOK, tlist_insert_after Defunct t k3))"

definition rt_thread_yield :: "kernel \<Rightarrow> rt_err_t \<times> kernel" where
  "rt_thread_yield k = (RT_EOK, rt_schedule k)"

text \<open>
  \<open>rt_thread_sleep\<close> up to its \<open>rt_schedule\<close>; there is always a current thread then.
\<close>

definition rt_thread_sleep :: "u32 \<Rightarrow> kernel \<Rightarrow> kernel" where
  "rt_thread_sleep tick k =
     (case rt_thread_self k of
        None \<Rightarrow> k
      | Some t \<Rightarrow>
          let k1 = snd (rt_thread_suspend t k);
              k2 = snd (snd (rt_timer_control (ThreadTimer t) RT_TIMER_CTRL_SET_TIME tick k1));
              k3 = snd (rt_timer_start (ThreadTimer t) k2)
          in rt_schedule k3)"

definition rt_thread_sleep_wake :: "tid \<Rightarrow> kernel \<Rightarrow> rt_err_t \<times> kernel" where
  "rt_thread_sleep_wake t k =
     (RT_EOK,
      if thread_error (threads k t) = - RT_ETIMEOUT
      then upd_thread t (\<lambda>th. th\<lparr>thread_error := RT_EOK\<rparr>) k else k)"

definition rt_thread_delay :: "u32 \<Rightarrow> kernel \<Rightarrow> kernel" where
  "rt_thread_delay tick k = rt_thread_sleep tick k"

definition rt_thread_mdelay :: "int \<Rightarrow> kernel \<Rightarrow> kernel" where
  "rt_thread_mdelay ms k = rt_thread_sleep (rt_tick_from_millisecond ms) k"

definition change_priority :: "tid \<Rightarrow> nat \<Rightarrow> kernel \<Rightarrow> kernel" where
  "change_priority t prio =
     upd_thread t (\<lambda>th. th\<lparr>current_priority := prio, number_mask := push_bit prio 1\<rparr>)"

text \<open>\<open>arg\<close> is the new priority for \<open>RT_THREAD_CTRL_CHANGE_PRIORITY\<close>.\<close>

definition rt_thread_control :: "tid \<Rightarrow> nat \<Rightarrow> nat \<Rightarrow> kernel \<Rightarrow> rt_err_t \<times> kernel" where
  "rt_thread_control t cmd arg k =
     (if cmd = RT_THREAD_CTRL_CHANGE_PRIORITY
      then
        (RT_EOK,
         if thread_stat k t = RT_THREAD_READY
         then rt_schedule_insert_thread t (change_priority t arg (rt_schedule_remove_thread t k))
         else change_priority t arg k)
      else if cmd = RT_THREAD_CTRL_STARTUP then rt_thread_startup t k
      else if cmd = RT_THREAD_CTRL_CLOSE then rt_thread_delete t k
      else (RT_EOK, k))"

definition rt_thread_find :: "string \<Rightarrow> kernel \<Rightarrow> tid option \<times> kernel" where
  "rt_thread_find name k =
     (let k1 = (if rt_thread_self k \<noteq> None then rt_enter_critical k else k);
          r = find (\<lambda>r. name_eq (obj_name (objects k1 r)) name) (object_list k1 RT_Object_Class_Thread);
          k2 = (if rt_thread_self k1 \<noteq> None then rt_exit_critical k1 else k1)
      in (case r of Some (OThread t) \<Rightarrow> Some t | _ \<Rightarrow> None, k2))"

section \<open>Idle thread\<close>

definition has_defunct_thread :: "kernel \<Rightarrow> bool" where
  "has_defunct_thread k \<longleftrightarrow> queue k Defunct \<noteq> []"

text \<open>
  The blocks the clean-up hands back to the heap: the stack of a thread and, at the end of
  \<open>rt_object_delete\<close>, its control block.
\<close>

datatype freed_block = Free_stack nat | Free_thread tid

text \<open>
  One round of \<open>rt_thread_idle_excute\<close>: whether the loop goes on, and the blocks it freed.  The
  clean-up function of a thread is the parameter \<open>cb\<close>.
\<close>

definition idle_reap :: "(nat \<Rightarrow> tid \<Rightarrow> kernel \<Rightarrow> kernel) \<Rightarrow> kernel \<Rightarrow> bool \<times> freed_block list \<times> kernel" where
  "idle_reap cb k =
     (let t = hd (queue k Defunct);
          k1 = rt_enter_critical (tlist_remove t k);
          k2 = (case cleanup (threads k1 t) of None \<Rightarrow> k1 | Some f \<Rightarrow> cb f t k1)
      in if rt_object_is_systemobject (OThread t) k2
         then (False, [], rt_exit_critical (rt_object_detach (OThread t) k2))
         else let k3 = rt_exit_critical k2
              in (True, [Free_stack (stack_addr (threads k3 t)), Free_thread t], rt_object_delete (OThread t) k3))"

text \<open>The loop; with clean-up functions that close ever more threads it need not end.\<close>

partial_function (option) rt_thread_idle_excute ::
  "(nat \<Rightarrow> tid \<Rightarrow> kernel \<Rightarrow> kernel) \<Rightarrow> kernel \<Rightarrow> (freed_block list \<times> kernel) option" where
  "rt_thread_idle_excute cb k =
     (if has_defunct_thread k
      then (case idle_reap cb k of (go_on, fs, k1) \<Rightarrow>
        if go_on then Option.bind (rt_thread_idle_excute cb k1) (\<lambda>(gs, k2). Some (fs @ gs, k2)) else Some (fs, k1))
      else Some ([], k))"

definition rt_thread_idle_init :: "nat \<Rightarrow> nat \<Rightarrow> kernel \<Rightarrow> kernel" where
  "rt_thread_idle_init idle_entry stack k =
     snd (rt_thread_startup idle_thread
       (snd (rt_thread_init idle_thread ''tidle0'' idle_entry 0 stack 1024 (RT_THREAD_PRIORITY_MAX - 1) 32 k)))"

definition rt_thread_idle_gethandler :: tid where
  "rt_thread_idle_gethandler = idle_thread"

section \<open>Lemmas\<close>

text \<open>Rewriting the control block of a thread that is on no queue.\<close>

lemma upd_thread_inv:
  assumes inv: "sched_inv_but T k" and un: "unqueued t k"
    and c: "thread_stat (upd_thread t f k) t = c" "c \<noteq> RT_THREAD_READY"
    and run: "c = RT_THREAD_RUNNING \<Longrightarrow> rt_current_thread k = Some t"
    and m: "c \<in> {RT_THREAD_SUSPEND, RT_THREAD_RUNNING} \<Longrightarrow> mask_ok (upd_thread t f k) t"
  shows "sched_inv_but (T - {t}) (upd_thread t f k)"
proof -
  have "queues_ok (upd_thread t f k)" "group_ok (upd_thread t f k)"
    using inv by (simp_all add: sched_inv_but_def queues_ok_def group_ok_def)
  moreover have "thread_ok (upd_thread t f k) u" if "u \<notin> T - {t}" for u
  proof (cases "u = t")
    case True
    with assms show ?thesis by (auto simp: thread_ok_def unqueued_def simp del: thread_stat_simps)
  next
    case False
    with inv that have "thread_ok k u" by (simp add: sched_inv_but_def)
    then show ?thesis by (rule thread_ok_frame) (use False in \<open>auto simp: mask_ok_def\<close>)
  qed
  ultimately show ?thesis by (simp add: sched_inv_but_def)
qed

text \<open>Putting an unqueued thread on a queue that is not a ready queue.\<close>

lemma enqueue_inv:
  assumes inv: "sched_inv k" and un: "unqueued t k" and h: "h \<notin> range ReadyQ" and st: "queue_stat k h t"
    and ys: "distinct ys" "set ys = insert t (set (queue k h))"
  shows "sched_inv (k\<lparr>queue := (queue k)(h := ys)\<rparr>)"
proof -
  let ?k = "k\<lparr>queue := (queue k)(h := ys)\<rparr>"
  note q = sched_invD(2) [OF inv]
  have "distinct (queue ?k h')" for h' using q ys(1) by (simp add: queues_ok_def)
  moreover have "h1 = h2" if "u \<in> set (queue ?k h1)" "u \<in> set (queue ?k h2)" for h1 h2 u
    using that un ys(2) queues_ok_same [OF q, of u] by (auto simp: unqueued_def split: if_splits)
  ultimately have "queues_ok ?k" unfolding queues_ok_def by blast
  moreover have "group_ok ?k" using sched_invD(3) [OF inv] h by (auto simp: group_ok_def)
  moreover have "thread_ok ?k u" for u
  proof (cases "u = t")
    case True
    have nr: "thread_stat k t \<noteq> RT_THREAD_READY" "thread_stat k t \<noteq> RT_THREAD_RUNNING"
      using st h by (cases h; simp add: queue_stat_def)+
    have "\<And>h'. t \<in> set (queue ?k h') \<Longrightarrow> queue_stat ?k h' t"
      using un st queue_stat_cong [of ?k t k] by (auto simp: unqueued_def split: if_splits)
    moreover have "mask_ok ?k t = mask_ok k t" by (simp add: mask_ok_def)
    ultimately show ?thesis
      using True nr thread_okD(5) [OF sched_invD(1) [OF inv], of t] by (simp add: thread_ok_def)
  next
    case False
    show ?thesis
      by (rule thread_ok_frame [OF sched_invD(1) [OF inv]])
        (use False ys(2) in \<open>auto simp: mask_ok_def\<close>)
  qed
  ultimately show ?thesis by (simp add: sched_inv_def sched_inv_but_def)
qed

lemma tlist_insert_after_inv:
  "sched_inv k \<Longrightarrow> unqueued t k \<Longrightarrow> h \<notin> range ReadyQ \<Longrightarrow> queue_stat k h t \<Longrightarrow>
   sched_inv (tlist_insert_after h t k)"
  unfolding tlist_insert_after_def using sched_invD(2) [of k]
  by (intro enqueue_inv) (auto simp: queues_ok_def unqueued_def)

lemma tlist_insert_before_inv:
  "sched_inv k \<Longrightarrow> unqueued t k \<Longrightarrow> h \<notin> range ReadyQ \<Longrightarrow> queue_stat k h t \<Longrightarrow>
   sched_inv (tlist_insert_before h t k)"
  unfolding tlist_insert_before_def using sched_invD(2) [of k]
  by (intro enqueue_inv) (auto simp: queues_ok_def unqueued_def)

text \<open>Critical sections and the object lists keep the invariant.\<close>

lemma kinv_lock [simp]: "kinv (k\<lparr>rt_scheduler_lock_nest := n\<rparr>) = kinv k"
  by (rule kinv_cong) simp_all

lemma kinv_enter_critical [simp]: "kinv (rt_enter_critical k) = kinv k"
  by (simp add: rt_enter_critical_def)

lemma kinv_exit_critical: "kinv k \<Longrightarrow> kinv (rt_exit_critical k)"
  by (simp add: rt_exit_critical_def Let_def kinv_schedule)

lemma kinv_object [simp]:
  "kinv (object_attach r c ty name k) = kinv k" "kinv (rt_object_detach r k) = kinv k"
  "kinv (rt_object_delete r k) = kinv k"
  by (rule kinv_cong; simp)+

lemma kinv_object_init: "kinv k \<Longrightarrow> kinv (rt_object_init r ty name k)"
  by (simp add: rt_object_init_def Let_def kinv_exit_critical split: option.split)

text \<open>A thread that neither runs nor waits in the ready table does not notice scheduling.\<close>

lemma unqueued_schedule:
  assumes inv: "sched_inv k" and un: "unqueued t k"
    and st: "thread_stat k t \<notin> {RT_THREAD_READY, RT_THREAD_RUNNING}"
  shows "unqueued t (rt_schedule k)"
proof -
  have "t \<notin> set (queue (rt_schedule k) h)" for h
  proof (cases "h \<in> range ReadyQ")
    case True
    then show ?thesis
      using ready_iff [OF rt_schedule_inv [OF inv], of t] rt_schedule_other(2) [OF inv st] st by auto
  next
    case False
    then show ?thesis using rt_schedule_other(1) [OF inv] un by (simp add: unqueued_def)
  qed
  then show ?thesis by (simp add: unqueued_def)
qed

lemma exit_critical_idle:
  assumes inv: "sched_inv k" and un: "unqueued t k"
    and st: "thread_stat k t \<notin> {RT_THREAD_READY, RT_THREAD_RUNNING}"
  shows "unqueued t (rt_exit_critical (rt_enter_critical k))"
    "thread_stat (rt_exit_critical (rt_enter_critical k)) t = thread_stat k t"
proof -
  let ?k = "\<lambda>n. k\<lparr>rt_scheduler_lock_nest := n\<rparr>"
  have i: "sched_inv (?k n)" "unqueued t (?k n)"
    "thread_stat (?k n) t \<notin> {RT_THREAD_READY, RT_THREAD_RUNNING}" for n
    using inv un st by (auto simp: unqueued_def sched_inv_cong(2) [of "?k n" k])
  show "unqueued t (rt_exit_critical (rt_enter_critical k))"
    using i unqueued_schedule [OF i] by (simp add: rt_exit_critical_def rt_enter_critical_def Let_def)
  show "thread_stat (rt_exit_critical (rt_enter_critical k)) t = thread_stat k t"
    using rt_schedule_other(2) [OF i(1,3)] by (simp add: rt_exit_critical_def rt_enter_critical_def Let_def)
qed

lemma object_init_idle:
  assumes inv: "sched_inv k" and un: "unqueued t k"
    and st: "thread_stat k t \<notin> {RT_THREAD_READY, RT_THREAD_RUNNING}"
  shows "unqueued t (rt_object_init r ty name k)"
    "thread_stat (rt_object_init r ty name k) t = thread_stat k t"
  using exit_critical_idle [OF assms] un
  by (auto simp: rt_object_init_def Let_def unqueued_def split: option.split)

section \<open>Creating and starting a thread\<close>

definition thread_fresh :: "tid \<Rightarrow> kernel \<Rightarrow> bool" where
  "thread_fresh t k \<longleftrightarrow>
     thread_stat k t \<in> {RT_THREAD_INIT, RT_THREAD_CLOSE} \<and> unqueued t k \<and>
     ThreadTimer t \<notin> set (rt_timer_list k) \<and> ThreadTimer t \<notin> set (rt_soft_timer_list k)"

lemma fresh_object_init:
  assumes "kinv k" "thread_fresh t k"
  shows "kinv (rt_object_init r ty name k)" "thread_fresh t (rt_object_init r ty name k)"
    "thread_stat (rt_object_init r ty name k) t = thread_stat k t"
proof -
  have st: "thread_stat k t \<notin> {RT_THREAD_READY, RT_THREAD_RUNNING}"
    using assms(2) by (auto simp: thread_fresh_def)
  note i = object_init_idle [OF kinvD(1) [OF assms(1)] _ st]
  show "kinv (rt_object_init r ty name k)" using assms(1) by (rule kinv_object_init)
  show "thread_fresh t (rt_object_init r ty name k)" "thread_stat (rt_object_init r ty name k) t = thread_stat k t"
    using assms(2) i by (simp_all add: thread_fresh_def)
qed

lemma timer_init_inv:
  assumes "kinv k" "tr \<notin> set (rt_timer_list k)" "tr \<notin> set (rt_soft_timer_list k)"
  shows "kinv (rt_timer_init tr name fn time flag k)"
proof -
  let ?k = "rt_object_init (OTimer tr) RT_Object_Class_Timer name k"
  have "kinv ?k" using assms(1) by (rule kinv_object_init)
  then show ?thesis
    using assms(2,3) by (simp add: rt_timer_init_def kinv_def timer_init_fields_def timer_inv_upd_other)
qed

lemma thread_init_fields_aux:
  fixes name :: string and en pa ss priority :: nat and sz tick :: u32
  assumes inv: "kinv k" and fr: "thread_fresh t k"
  defines "k' \<equiv> snd (thread_init_fields t name en pa ss sz priority tick k)"
  shows "kinv k'" "thread_fresh t k'" "thread_stat k' t = RT_THREAD_INIT"
    "init_priority (threads k' t) = priority" "timeout_func (timers k' (ThreadTimer t)) = Thread_timeout t"
    "timer_flag (timers k' (ThreadTimer t)) = 0" "thread_error (threads k' t) = RT_EOK"
proof -
  let ?k1 = "upd_thread t (\<lambda>th. th\<lparr>entry := en, parameter := pa, stack_addr := ss,
                  stack_size := sz, init_priority := priority, current_priority := priority,
                  number_mask := 0, thread_init_tick := tick, remaining_tick := tick,
                  thread_error := RT_EOK, stat := RT_THREAD_INIT, cleanup := None, user_data := 0\<rparr>) k"
  have st: "thread_stat ?k1 t = RT_THREAD_INIT" by (simp add: rt_stat_defs)
  have "sched_inv_but ({} - {t}) ?k1"
    using inv fr st by (intro upd_thread_inv) (auto simp: kinv_def sched_inv_def thread_fresh_def)
  moreover have "timer_inv ?k1"
    using kinvD(2) [OF inv] by (rule timer_inv_stat) (use fr in \<open>auto simp: thread_fresh_def\<close>)
  ultimately have inv1: "kinv ?k1" by (simp add: kinv_def sched_inv_def)
  have fr1: "thread_fresh t ?k1" using fr st by (simp add: thread_fresh_def unqueued_def del: thread_stat_simps)
  note o = fresh_object_init [OF inv1 fr1, of "OTimer (ThreadTimer t)" RT_Object_Class_Timer name]
  have k': "k' = rt_timer_init (ThreadTimer t) name (Thread_timeout t) 0 0 ?k1"
    by (simp add: k'_def thread_init_fields_def Let_def)
  show "kinv k'" unfolding k' using inv1 fr1 by (intro timer_init_inv) (simp_all add: thread_fresh_def)
  show "thread_fresh t k'" "thread_stat k' t = RT_THREAD_INIT"
    using o(2,3) st by (simp_all add: k' rt_timer_init_def thread_fresh_def unqueued_def)
  show "init_priority (threads k' t) = priority" "timeout_func (timers k' (ThreadTimer t)) = Thread_timeout t"
    "timer_flag (timers k' (ThreadTimer t)) = 0" "thread_error (threads k' t) = RT_EOK"
    by (simp_all add: k' rt_timer_init_def timer_init_fields_def)
qed

lemma thread_init_aux:
  fixes name :: string and en pa ss priority :: nat and sz tick :: u32
  assumes inv: "kinv k" and fr: "thread_fresh t k"
  defines "k' \<equiv> snd (rt_thread_init t name en pa ss sz priority tick k)"
  shows "kinv k'" "thread_fresh t k'" "thread_stat k' t = RT_THREAD_INIT"
    "init_priority (threads k' t) = priority" "timeout_func (timers k' (ThreadTimer t)) = Thread_timeout t"
    "timer_flag (timers k' (ThreadTimer t)) = 0" "thread_error (threads k' t) = RT_EOK"
  unfolding k'_def rt_thread_init_def
  by (rule thread_init_fields_aux fresh_object_init inv fr)+

lemma startup_aux:
  assumes inv: "kinv k" and fr: "thread_fresh t k" and p: "init_priority (threads k t) < RT_THREAD_PRIORITY_MAX"
  defines "k3 \<equiv> snd (rt_thread_resume t (upd_thread t (\<lambda>th. th\<lparr>current_priority := init_priority th,
      number_mask := push_bit (init_priority th) 1, stat := RT_THREAD_SUSPEND\<rparr>) k))"
  shows "kinv k3" "snd (rt_thread_startup t k) = (if rt_current_thread k \<noteq> None then rt_schedule k3 else k3)"
    "thread_stat k3 t = (if rt_current_thread k = Some t then RT_THREAD_RUNNING else RT_THREAD_READY)"
    "current_priority (threads k3 t) = init_priority (threads k t)" "rt_current_thread k3 = rt_current_thread k"
proof -
  let ?f = "\<lambda>th. th\<lparr>current_priority := init_priority th, number_mask := push_bit (init_priority th) 1,
      stat := RT_THREAD_SUSPEND\<rparr>"
  let ?k2 = "upd_thread t ?f k"
  have st: "thread_stat ?k2 t = RT_THREAD_SUSPEND" by (simp add: rt_stat_defs)
  have "sched_inv_but ({} - {t}) ?k2"
    using inv fr st p by (intro upd_thread_inv) (auto simp: kinv_def sched_inv_def thread_fresh_def mask_ok_def)
  moreover have "timer_inv ?k2"
    using kinvD(2) [OF inv] by (rule timer_inv_stat) (use fr in \<open>auto simp: thread_fresh_def\<close>)
  ultimately have inv2: "kinv ?k2" by (simp add: kinv_def sched_inv_def)
  show "kinv k3" unfolding k3_def by (rule resume_inv [OF inv2])
  note e = resume_effect [OF st]
  show "thread_stat k3 t = (if rt_current_thread k = Some t then RT_THREAD_RUNNING else RT_THREAD_READY)"
    "rt_current_thread k3 = rt_current_thread k"
    using e(2,3) by (simp_all add: k3_def)
  show "current_priority (threads k3 t) = init_priority (threads k t)"
    using st by (simp add: k3_def rt_thread_resume_def Let_def)
  have k2: "upd_thread t (\<lambda>th. th\<lparr>number_mask := push_bit (current_priority th) 1, stat := RT_THREAD_SUSPEND\<rparr>)
      (upd_thread t (\<lambda>th. th\<lparr>current_priority := init_priority th\<rparr>) k) = ?k2"
    by (simp add: upd_thread_def)
  have "rt_current_thread (snd (rt_thread_resume t ?k2)) = rt_current_thread k" using e(3) by simp
  then show "snd (rt_thread_startup t k) = (if rt_current_thread k \<noteq> None then rt_schedule k3 else k3)"
    unfolding rt_thread_startup_def Let_def k3_def rt_thread_self_def k2 by (simp only: snd_conv)
qed

lemma startup_inv:
  assumes "kinv k" "thread_fresh t k" "init_priority (threads k t) < RT_THREAD_PRIORITY_MAX"
  shows "kinv (snd (rt_thread_startup t k))"
  using startup_aux(1,2) [OF assms] by (simp add: kinv_schedule)

section \<open>Closing a thread\<close>

lemma timer_inv_drop:
  assumes "timer_inv k" "timers k' = timers k"
    "rt_timer_list k' = filter (\<lambda>u. u \<noteq> ThreadTimer t) (rt_timer_list k)"
    "rt_soft_timer_list k' = filter (\<lambda>u. u \<noteq> ThreadTimer t) (rt_soft_timer_list k)"
    "\<And>u. u \<noteq> t \<Longrightarrow> thread_stat k' u = thread_stat k u"
  shows "timer_inv k'"
proof -
  have "timer_ok k' tr" if "tr \<noteq> ThreadTimer t" "timer_ok k tr" for tr
    using that assms(2) assms(5) unfolding timer_ok_def by metis
  then show ?thesis using assms(1-4) by (auto simp: timer_inv_def)
qed

text \<open>
  The state in which the three closing operations agree: the thread is off every list, its
  timer is gone and its state is \<open>RT_THREAD_CLOSE\<close>.
\<close>

definition thread_closed :: "tid \<Rightarrow> kernel \<Rightarrow> bool" where
  "thread_closed t k \<longleftrightarrow> kinv k \<and> thread_stat k t = RT_THREAD_CLOSE \<and> unqueued t k \<and>
     ThreadTimer t \<notin> set (rt_timer_list k) \<and> ThreadTimer t \<notin> set (rt_soft_timer_list k)"

lemma close_state_inv:
  assumes inv: "timer_inv k" and s: "sched_inv_but {t} k1" "unqueued t k1"
    and k1: "timers k1 = timers k" "rt_timer_list k1 = rt_timer_list k"
      "rt_soft_timer_list k1 = rt_soft_timer_list k" "\<And>u. thread_stat k1 u = thread_stat k u"
  shows "thread_closed t (upd_thread t (\<lambda>th. th\<lparr>stat := RT_THREAD_CLOSE\<rparr>) (snd (rt_timer_detach (ThreadTimer t) k1)))"
    "thread_closed t (snd (rt_timer_detach (ThreadTimer t) (upd_thread t (\<lambda>th. th\<lparr>stat := RT_THREAD_CLOSE\<rparr>) k1)))"
proof -
  let ?f = "\<lambda>th. th\<lparr>stat := RT_THREAD_CLOSE\<rparr>"
  let ?d = "\<lambda>k. snd (rt_timer_detach (ThreadTimer t) k)"
  have c: "RT_THREAD_CLOSE AND RT_THREAD_STAT_MASK = RT_THREAD_CLOSE" by (simp add: rt_stat_defs)
  have d: "?d k = rt_object_detach (OTimer (ThreadTimer t)) (timer_remove (ThreadTimer t) k)" for k
    by (simp add: rt_timer_detach_def)
  have cong: "sched_inv_but T (?d k) = sched_inv_but T k" for T k
    by (rule sched_inv_cong) (simp_all add: d)
  have "sched_inv_but ({t} - {t}) (upd_thread t ?f k1)"
    using s c by (intro upd_thread_inv [where c = RT_THREAD_CLOSE]) simp_all
  then have s1: "sched_inv (?d (upd_thread t ?f k1))" by (simp add: sched_inv_def cong)
  have "sched_inv_but ({t} - {t}) (upd_thread t ?f (?d k1))"
    using s c by (intro upd_thread_inv [where c = RT_THREAD_CLOSE]) (simp_all add: cong, simp add: d unqueued_def)
  then have s2: "sched_inv (upd_thread t ?f (?d k1))" by (simp add: sched_inv_def)
  have t1: "timer_inv (?d (upd_thread t ?f k1))"
    by (rule timer_inv_drop [OF inv, of _ t]) (simp_all add: d k1)
  have t2: "timer_inv (upd_thread t ?f (?d k1))"
    by (rule timer_inv_drop [OF inv, of _ t]) (simp_all add: d k1)
  show "thread_closed t (?d (upd_thread t ?f k1))"
    using s(2) s1 t1 c by (simp add: thread_closed_def kinv_def, simp add: d unqueued_def)
  show "thread_closed t (upd_thread t ?f (?d k1))"
    using s(2) s2 t2 c by (simp add: thread_closed_def kinv_def, simp add: d unqueued_def)
qed

lemma remove_for_close:
  assumes inv: "kinv k"
    and st: "thread_stat k t \<in> {RT_THREAD_INIT, RT_THREAD_READY, RT_THREAD_SUSPEND, RT_THREAD_RUNNING}"
  defines "k1 \<equiv> if thread_stat k t \<noteq> RT_THREAD_INIT then rt_schedule_remove_thread t k else k"
  shows "sched_inv_but {t} k1" "unqueued t k1"
proof -
  note s = kinvD(1) [OF inv]
  have "sched_inv_but {t} k1 \<and> unqueued t k1"
  proof (cases "thread_stat k t = RT_THREAD_INIT")
    case True
    have "unqueued t k" using running_unqueued [OF sched_invD(1) [OF s]] True by simp
    moreover have "sched_inv_but {t} k" using s by (simp add: sched_inv_def sched_inv_but_def)
    ultimately show ?thesis using True by (simp add: k1_def)
  next
    case False
    have m: "mask_ok k t" using thread_okD(5) [OF sched_invD(1) [OF s]] st False by blast
    have "sched_inv_but {} k" using s by (simp add: sched_inv_def)
    then show ?thesis
      using remove_thread_inv [of "{}" k t] m ready_iff [OF s, of t] False by (simp add: k1_def)
  qed
  then show "sched_inv_but {t} k1" "unqueued t k1" by blast+
qed

lemma insert_defunct_inv:
  assumes "thread_closed t k"
  shows "kinv (tlist_insert_after Defunct t k)"
  using assms by (auto simp: thread_closed_def kinv_def intro!: tlist_insert_after_inv)

lemma thread_close_inv: "thread_closed t k \<Longrightarrow> kinv (thread_close t k)"
  using insert_defunct_inv by (simp add: thread_close_def) (simp add: thread_closed_def)

lemma detach_inv:
  assumes "kinv k" "thread_stat k t \<in> {RT_THREAD_INIT, RT_THREAD_READY, RT_THREAD_SUSPEND, RT_THREAD_RUNNING}"
  shows "kinv (snd (rt_thread_detach t k))" "kinv (snd (rt_thread_delete t k))"
proof -
  note c = close_state_inv(1) [OF kinvD(2) [OF assms(1)] remove_for_close [OF assms]]
  show "kinv (snd (rt_thread_detach t k))"
    unfolding rt_thread_detach_def Let_def snd_conv by (intro thread_close_inv c) simp_all
  show "kinv (snd (rt_thread_delete t k))"
    unfolding rt_thread_delete_def Let_def snd_conv by (intro insert_defunct_inv c) simp_all
qed

lemma exit_inv:
  assumes inv: "kinv k" and cur: "rt_current_thread k = Some t" and st: "thread_stat k t = RT_THREAD_RUNNING"
  shows "kinv (rt_thread_exit k)"
proof -
  have "sched_inv_but {t} (rt_schedule_remove_thread t k)" "unqueued t (rt_schedule_remove_thread t k)"
    using remove_for_close [OF inv, of t] st by simp_all
  note c = close_state_inv(2) [OF kinvD(2) [OF inv] this]
  show ?thesis
    unfolding rt_thread_exit_def rt_thread_self_def cur option.case Let_def
    by (intro kinv_schedule thread_close_inv c) simp_all
qed

section \<open>Sleeping, changing priority, cleaning up\<close>

lemma sleep_prep:
  fixes tick :: u32
  assumes inv: "kinv k" and st: "thread_stat k t \<in> {RT_THREAD_READY, RT_THREAD_RUNNING}"
    and fn: "timeout_func (timers k (ThreadTimer t)) = Thread_timeout t"
  defines "k2 \<equiv> snd (snd (rt_timer_control (ThreadTimer t) RT_TIMER_CTRL_SET_TIME tick (snd (rt_thread_suspend t k))))"
  shows "kinv k2" "thread_stat k2 t = RT_THREAD_SUSPEND"
    "timeout_func (timers k2 (ThreadTimer t)) = Thread_timeout t" "init_tick (timers k2 (ThreadTimer t)) = tick"
proof -
  let ?k1 = "snd (rt_thread_suspend t k)"
  note e = suspend_effect [OF st]
  have k2: "k2 = upd_timer (ThreadTimer t) (\<lambda>tm. tm\<lparr>init_tick := tick\<rparr>) ?k1"
    by (simp add: k2_def rt_timer_control_def RT_TIMER_CTRL_SET_TIME_def RT_TIMER_CTRL_GET_TIME_def)
  have "kinv ?k1" by (rule suspend_inv [OF inv])
  then show "kinv k2"
    using e(5,6) [OF kinvD(2) [OF inv]] by (simp add: k2 kinv_def timer_inv_upd_other)
  show "thread_stat k2 t = RT_THREAD_SUSPEND" using e(2) by (simp add: k2)
  show "init_tick (timers k2 (ThreadTimer t)) = tick" by (simp add: k2)
  have "timeout_func (timers ?k1 (ThreadTimer t)) = timeout_func (timers k (ThreadTimer t))"
    using st by (simp add: rt_thread_suspend_def rt_timer_stop_def Let_def)
  then show "timeout_func (timers k2 (ThreadTimer t)) = Thread_timeout t" using fn by (simp add: k2)
qed

lemma sleep_inv:
  assumes inv: "kinv k" and cur: "rt_current_thread k = Some t" and st: "thread_stat k t = RT_THREAD_RUNNING"
    and fn: "timeout_func (timers k (ThreadTimer t)) = Thread_timeout t"
  shows "kinv (rt_thread_sleep tick k)"
proof -
  have st': "thread_stat k t \<in> {RT_THREAD_READY, RT_THREAD_RUNNING}" using st by simp
  note p = sleep_prep [OF inv st' fn, of tick]
  show ?thesis
    unfolding rt_thread_sleep_def rt_thread_self_def cur option.case Let_def
    by (intro kinv_schedule timer_start_inv p(1)) (use p(2,3) in simp)
qed

lemma sleep_wake_inv: "kinv k \<Longrightarrow> kinv (snd (rt_thread_sleep_wake t k))"
  by (simp add: rt_thread_sleep_wake_def kinv_upd_thread)

lemma change_priority_inv:
  assumes inv: "sched_inv_but T k" and nr: "t \<notin> T \<Longrightarrow> thread_stat k t \<noteq> RT_THREAD_READY"
    and p: "prio < RT_THREAD_PRIORITY_MAX"
  shows "sched_inv_but T (change_priority t prio k)"
proof -
  let ?k = "change_priority t prio k"
  have st: "thread_stat ?k u = thread_stat k u" for u by (simp add: change_priority_def thread_stat_def)
  have q: "queue ?k = queue k" "rt_current_thread ?k = rt_current_thread k"
    "rt_thread_ready_priority_group ?k = rt_thread_ready_priority_group k"
    by (simp_all add: change_priority_def)
  have m: "mask_ok ?k t" using p by (simp add: mask_ok_def change_priority_def)
  have "thread_ok ?k u" if "u \<notin> T" for u
  proof (cases "u = t")
    case True
    have ok: "thread_ok k t" using inv that True by (simp add: sched_inv_but_def)
    have "queue_stat ?k h t" if "t \<in> set (queue k h)" for h
      using thread_okD(1) [OF ok that] nr True \<open>u \<notin> T\<close> by (cases h) (simp_all add: queue_stat_def st)
    then show ?thesis using ok m nr True that by (simp add: thread_ok_def st q)
  next
    case False
    have "thread_ok k u" using inv that by (simp add: sched_inv_but_def)
    then show ?thesis
      by (rule thread_ok_frame) (use False in \<open>simp_all add: st q mask_ok_def change_priority_def\<close>)
  qed
  then show ?thesis using inv by (simp add: sched_inv_but_def queues_ok_def group_ok_def q)
qed

lemma control_priority_inv:
  assumes inv: "kinv k" and p: "prio < RT_THREAD_PRIORITY_MAX"
  shows "kinv (snd (rt_thread_control t RT_THREAD_CTRL_CHANGE_PRIORITY prio k))"
proof (cases "thread_stat k t = RT_THREAD_READY")
  case True
  let ?k1 = "rt_schedule_remove_thread t k"
  let ?k2 = "change_priority t prio ?k1"
  have r: "sched_inv_but {t} ?k1" "unqueued t ?k1"
    using remove_for_close [OF inv, of t] True by simp_all
  have "sched_inv_but {t} ?k2" by (rule change_priority_inv [OF r(1) _ p]) simp
  moreover have "mask_ok ?k2 t" "unqueued t ?k2"
    using p r(2) by (simp_all add: mask_ok_def change_priority_def unqueued_def)
  ultimately have "sched_inv_but ({t} - {t}) (rt_schedule_insert_thread t ?k2)"
    by (intro insert_thread_inv)
  moreover have "timer_inv (rt_schedule_insert_thread t ?k2)"
    by (rule timer_inv_stat [OF kinvD(2) [OF inv]])
      (use True in \<open>auto simp: change_priority_def\<close>)
  ultimately show ?thesis
    using True by (simp add: rt_thread_control_def kinv_def sched_inv_def)
next
  case False
  have "sched_inv_but {} (change_priority t prio k)"
    using kinvD(1) [OF inv] False p by (intro change_priority_inv) (simp_all add: sched_inv_def)
  moreover have "timer_inv (change_priority t prio k)"
    by (rule timer_inv_stat [OF kinvD(2) [OF inv]]) (auto simp: change_priority_def thread_stat_def)
  ultimately show ?thesis using False by (simp add: rt_thread_control_def kinv_def sched_inv_def)
qed

text \<open>One round of the clean-up, for a thread without a clean-up function.\<close>

lemma closed_unlink_inv:
  assumes inv: "kinv k" and t: "t \<in> set (queue k Defunct)"
  shows "kinv (tlist_remove t k)"
proof -
  have st: "thread_stat k t = RT_THREAD_CLOSE"
    using thread_okD(1) [OF sched_invD(1) [OF kinvD(1) [OF inv]] t] by simp
  note r = tlist_remove_inv [OF kinvD(1) [OF inv], of t]
  have "thread_ok (tlist_remove t k) t" using r(2) st by (simp add: thread_ok_def unqueued_def)
  then have "sched_inv (tlist_remove t k)" using r(1) st by (auto simp: sched_inv_def sched_inv_but_def)
  then show ?thesis using inv by (simp add: kinv_def)
qed

lemma exit_critical_queue:
  assumes "sched_inv k" "h \<notin> range ReadyQ"
  shows "queue (rt_exit_critical k) h = queue k h"
proof -
  have "sched_inv (k\<lparr>rt_scheduler_lock_nest := n\<rparr>)" for n
    using assms(1) by (subst sched_inv_cong(2) [of _ k]) simp_all
  then show ?thesis
    using assms(2) rt_schedule_other(1) by (auto simp: rt_exit_critical_def Let_def)
qed

text \<open>
  What the loop relies on from a clean-up function: it keeps the kernel invariant, closes and
  creates no thread, and leaves the clean-up functions and stacks of the threads alone.  The
  function \<open>g\<close> is its effect on the semaphores, through which a theorem can tell which
  clean-up functions ran and in which order.
\<close>

type_synonym sem_table = "nat \<Rightarrow> rt_semaphore"

definition cleanup_frames :: "(nat \<Rightarrow> tid \<Rightarrow> kernel \<Rightarrow> kernel) \<Rightarrow> (nat \<Rightarrow> tid \<Rightarrow> sem_table \<Rightarrow> sem_table) \<Rightarrow> bool" where
  "cleanup_frames cb g \<longleftrightarrow> (\<forall>f t k. kinv k \<longrightarrow>
     kinv (cb f t k) \<and> queue (cb f t k) Defunct = queue k Defunct \<and> sems (cb f t k) = g f t (sems k) \<and>
     (\<forall>u. obj_type (objects (cb f t k) (OThread u)) = obj_type (objects k (OThread u)) \<and>
        cleanup (threads (cb f t k) u) = cleanup (threads k u) \<and> stack_addr (threads (cb f t k) u) = stack_addr (threads k u) \<and>
        (\<forall>c. OThread u \<in> set (object_list (cb f t k) c) \<longrightarrow> OThread u \<in> set (object_list k c))))"

definition cleanup_effect :: "(nat \<Rightarrow> tid \<Rightarrow> sem_table \<Rightarrow> sem_table) \<Rightarrow> kernel \<Rightarrow> tid \<Rightarrow> sem_table \<Rightarrow> sem_table" where
  "cleanup_effect g k t = (case cleanup (threads k t) of None \<Rightarrow> id | Some f \<Rightarrow> g f t)"

definition thread_gone :: "tid \<Rightarrow> kernel \<Rightarrow> bool" where
  "thread_gone t k \<longleftrightarrow> obj_type (objects k (OThread t)) = 0 \<and> (\<forall>c. OThread t \<notin> set (object_list k c))"

text \<open>The state in which the clean-up function has run.\<close>

lemma idle_cleanup_aux:
  assumes inv: "kinv k" and q: "queue k Defunct = t # ts" and cb: "cleanup_frames cb g"
  defines "k1 \<equiv> rt_enter_critical (tlist_remove t k)"
  defines "k2 \<equiv> (case cleanup (threads k1 t) of None \<Rightarrow> k1 | Some f \<Rightarrow> cb f t k1)"
  shows "kinv k2" "queue k2 Defunct = ts" "sems k2 = cleanup_effect g k t (sems k)"
    "obj_type (objects k2 (OThread u)) = obj_type (objects k (OThread u))"
    "cleanup (threads k2 u) = cleanup (threads k u)" "stack_addr (threads k2 u) = stack_addr (threads k u)"
    "OThread u \<in> set (object_list k2 c) \<Longrightarrow> OThread u \<in> set (object_list k c)"
proof -
  have "distinct (t # ts)" using sched_invD(2) [OF kinvD(1) [OF inv]] q unfolding queues_ok_def by metis
  then have ts: "filter (\<lambda>u. u \<noteq> t) ts = ts" by (auto simp: filter_id_conv)
  have inv1: "kinv k1" using closed_unlink_inv [OF inv] q by (simp add: k1_def)
  have q1: "queue k1 Defunct = ts" using q ts by (simp add: k1_def)
  have f1: "threads k1 = threads k" "objects k1 = objects k" "object_list k1 = object_list k" "sems k1 = sems k"
    by (simp_all add: k1_def rt_enter_critical_def tlist_remove_def)
  show "kinv k2" "queue k2 Defunct = ts" "sems k2 = cleanup_effect g k t (sems k)"
    "obj_type (objects k2 (OThread u)) = obj_type (objects k (OThread u))"
    "cleanup (threads k2 u) = cleanup (threads k u)" "stack_addr (threads k2 u) = stack_addr (threads k u)"
    using cb inv1 q1 by (auto simp: k2_def f1 cleanup_frames_def cleanup_effect_def split: option.splits)
  show "OThread u \<in> set (object_list k c)" if "OThread u \<in> set (object_list k2 c)"
    using cb inv1 that unfolding k2_def cleanup_frames_def f1(3) [symmetric] by (auto split: option.splits)
qed

lemma stack_addr_frame [simp]:
  "stack_addr (threads (upd_thread t (\<lambda>th. th\<lparr>stat := f th\<rparr>) k) u) = stack_addr (threads k u)"
  by (simp add: upd_thread_def)

lemma set_stat_stack_addr [simp]: "stack_addr (threads (set_stat t c k) u) = stack_addr (threads k u)"
  by (simp add: set_stat_def)

lemma insert_thread_stack_addr [simp]: "stack_addr (threads (rt_schedule_insert_thread t k) u) = stack_addr (threads k u)"
  by (simp add: rt_schedule_insert_thread_def Let_def)

lemma remove_thread_stack_addr [simp]: "stack_addr (threads (rt_schedule_remove_thread t k) u) = stack_addr (threads k u)"
  by (simp add: rt_schedule_remove_thread_def Let_def)

lemma exit_critical_stack_addr [simp]: "stack_addr (threads (rt_exit_critical k) u) = stack_addr (threads k u)"
proof -
  have "stack_addr (threads (rt_schedule k) u) = stack_addr (threads k u)" for k
    by (simp add: rt_schedule_def Let_def split: option.split prod.split)
  then show ?thesis by (simp add: rt_exit_critical_def Let_def)
qed

lemma idle_reap_aux:
  assumes inv: "kinv k" and q: "queue k Defunct = t # ts" and cb: "cleanup_frames cb g"
  defines "k' \<equiv> snd (snd (idle_reap cb k))"
  shows "fst (idle_reap cb k) = (\<not> rt_object_is_systemobject (OThread t) k)"
    "fst (snd (idle_reap cb k)) =
      (if rt_object_is_systemobject (OThread t) k then [] else [Free_stack (stack_addr (threads k t)), Free_thread t])"
    "kinv k'" "queue k' Defunct = ts" "sems k' = cleanup_effect g k t (sems k)"
    "obj_type (objects k' (OThread u)) = (if u = t then 0 else obj_type (objects k (OThread u)))"
    "cleanup (threads k' u) = cleanup (threads k u)" "stack_addr (threads k' u) = stack_addr (threads k u)"
    "thread_gone t k'" "thread_gone u k \<Longrightarrow> thread_gone u k'"
proof -
  define k1 where "k1 = rt_enter_critical (tlist_remove t k)"
  define k2 where "k2 = (case cleanup (threads k1 t) of None \<Rightarrow> k1 | Some f \<Rightarrow> cb f t k1)"
  note c = idle_cleanup_aux [OF inv q cb, folded k1_def, folded k2_def]
  have sys: "rt_object_is_systemobject (OThread t) k2 = rt_object_is_systemobject (OThread t) k"
    by (simp add: rt_object_is_systemobject_def c(4))
  have e: "idle_reap cb k = (if rt_object_is_systemobject (OThread t) k
      then (False, [], rt_exit_critical (rt_object_detach (OThread t) k2))
      else (True, [Free_stack (stack_addr (threads k t)), Free_thread t], rt_object_delete (OThread t) (rt_exit_critical k2)))"
    unfolding idle_reap_def Let_def q list.sel k1_def [symmetric] k2_def [symmetric] sys by (simp add: c(6))
  have inv2: "kinv (rt_object_detach (OThread t) k2)" using c(1) by simp
  have qd: "queue (rt_exit_critical (rt_object_detach (OThread t) k2)) Defunct = ts" "queue (rt_exit_critical k2) Defunct = ts"
    using exit_critical_queue [OF kinvD(1) [OF inv2], of Defunct] exit_critical_queue [OF kinvD(1) [OF c(1)], of Defunct] c(2)
    by auto
  show "fst (idle_reap cb k) = (\<not> rt_object_is_systemobject (OThread t) k)"
    "fst (snd (idle_reap cb k)) =
      (if rt_object_is_systemobject (OThread t) k then [] else [Free_stack (stack_addr (threads k t)), Free_thread t])"
    by (simp_all add: e)
  show "kinv k'" using kinv_exit_critical [OF c(1)] kinv_exit_critical [OF inv2] by (simp add: k'_def e)
  show "queue k' Defunct = ts" using qd by (simp add: k'_def e)
  show "sems k' = cleanup_effect g k t (sems k)" using c(3) by (simp add: k'_def e)
  show "obj_type (objects k' (OThread u)) = (if u = t then 0 else obj_type (objects k (OThread u)))"
    "cleanup (threads k' u) = cleanup (threads k u)" "stack_addr (threads k' u) = stack_addr (threads k u)"
    using c(4-6) by (simp_all add: k'_def e rt_object_detach_def rt_object_delete_def)
  show "thread_gone t k'" "thread_gone u k \<Longrightarrow> thread_gone u k'"
    using c(4) c(7) by (auto simp: k'_def e thread_gone_def rt_object_detach_def rt_object_delete_def object_unlink_def)
qed

text \<open>The threads a call takes: those before the first static one, and that one.\<close>

definition idle_dynamic :: "kernel \<Rightarrow> tid list \<Rightarrow> tid list" where
  "idle_dynamic k ts = takeWhile (\<lambda>t. \<not> rt_object_is_systemobject (OThread t) k) ts"

definition idle_rest :: "kernel \<Rightarrow> tid list \<Rightarrow> tid list" where
  "idle_rest k ts = dropWhile (\<lambda>t. \<not> rt_object_is_systemobject (OThread t) k) ts"

lemma idle_excute_aux:
  assumes "kinv k" "queue k Defunct = ts" "cleanup_frames cb g"
  shows "\<exists>k'. rt_thread_idle_excute cb k =
      Some (concat (map (\<lambda>t. [Free_stack (stack_addr (threads k t)), Free_thread t]) (idle_dynamic k ts)), k') \<and>
    kinv k' \<and> queue k' Defunct = drop 1 (idle_rest k ts) \<and>
    sems k' = fold (cleanup_effect g k) (idle_dynamic k ts @ take 1 (idle_rest k ts)) (sems k) \<and>
    (\<forall>t \<in> set (idle_dynamic k ts @ take 1 (idle_rest k ts)). thread_gone t k') \<and> (\<forall>u. thread_gone u k \<longrightarrow> thread_gone u k')"
  using assms
proof (induction ts arbitrary: k)
  case Nil
  then show ?case by (subst rt_thread_idle_excute.simps) (simp add: has_defunct_thread_def idle_dynamic_def idle_rest_def)
next
  case (Cons t ts)
  let ?k = "snd (snd (idle_reap cb k))"
  have d: "t \<notin> set ts"
    using sched_invD(2) [OF kinvD(1) [OF Cons.prems(1)]] Cons.prems(2) unfolding queues_ok_def by (metis distinct.simps(2))
  note r = idle_reap_aux [OF Cons.prems]
  have same: "idle_dynamic ?k ts = idle_dynamic k ts" "idle_rest ?k ts = idle_rest k ts"
    unfolding idle_dynamic_def idle_rest_def
    using d r(6) by (intro takeWhile_cong dropWhile_cong; auto simp: rt_object_is_systemobject_def)+
  have eff: "cleanup_effect g ?k = cleanup_effect g k" by (simp add: cleanup_effect_def fun_eq_iff r(7))
  have unf: "rt_thread_idle_excute cb k =
      (if fst (idle_reap cb k) then Option.bind (rt_thread_idle_excute cb ?k) (\<lambda>(gs, k2). Some (fst (snd (idle_reap cb k)) @ gs, k2))
       else Some (fst (snd (idle_reap cb k)), ?k))"
    using Cons.prems(2) by (subst rt_thread_idle_excute.simps) (simp add: has_defunct_thread_def case_prod_beta)
  show ?case
  proof (cases "rt_object_is_systemobject (OThread t) k")
    case True
    then show ?thesis using r by (simp add: unf idle_dynamic_def idle_rest_def)
  next
    case False
    obtain k' where k': "rt_thread_idle_excute cb ?k =
        Some (concat (map (\<lambda>t. [Free_stack (stack_addr (threads ?k t)), Free_thread t]) (idle_dynamic ?k ts)), k')"
      "kinv k'" "queue k' Defunct = drop 1 (idle_rest ?k ts)"
      "sems k' = fold (cleanup_effect g ?k) (idle_dynamic ?k ts @ take 1 (idle_rest ?k ts)) (sems ?k)"
      "\<forall>t \<in> set (idle_dynamic ?k ts @ take 1 (idle_rest ?k ts)). thread_gone t k'" "\<And>u. thread_gone u ?k \<Longrightarrow> thread_gone u k'"
      using Cons.IH [OF r(3,4) Cons.prems(3)] by blast
    have "idle_dynamic k (t # ts) = t # idle_dynamic k ts" "idle_rest k (t # ts) = idle_rest k ts"
      using False by (simp_all add: idle_dynamic_def idle_rest_def)
    with False r k' show ?thesis by (simp add: unf same eff)
  qed
qed

lemma three_threads_kinv: "kinv three_threads"
  "rt_timer_list three_threads = []" "rt_soft_timer_list three_threads = []"
  using three_threads_inv by (simp_all add: kinv_def timer_inv_def three_threads_def kernel_zero_def)

lemma three_threads_init_priority: "init_priority (threads three_threads t) = 0"
  by (simp add: three_threads_def thread_zero_def)

text \<open>
  A system with three defunct threads: a dynamic one, a static one with a clean-up function
  and another dynamic one with a clean-up function.
\<close>

definition three_defunct :: kernel where
  "three_defunct =
     kernel_zero\<lparr>threads := (\<lambda>t. thread_zero\<lparr>stat := (if t \<in> {3, 4, 5} then 4 else 0), stack_addr := 64,
         cleanup := (if t = 4 then Some 7 else if t = 5 then Some 8 else None)\<rparr>),
       queue := (\<lambda>_. [])(Defunct := [3, 4, 5]),
       objects := (\<lambda>r. \<lparr>obj_name = [], obj_type = (if r = OThread 4 then 0x81 else 1)\<rparr>)\<rparr>"

lemma three_defunct_kinv: "kinv three_defunct"
proof -
  have st: "thread_stat three_defunct t = (if t \<in> {3, 4, 5} then RT_THREAD_CLOSE else RT_THREAD_INIT)" for t
    by (simp add: three_defunct_def thread_stat_def rt_stat_defs)
  have q: "queue three_defunct h = (if h = Defunct then [3, 4, 5] else [])" for h by (simp add: three_defunct_def)
  have "rt_thread_ready_priority_group three_defunct = 0" by (simp add: three_defunct_def kernel_zero_def)
  then have "sched_inv three_defunct"
    by (auto simp: sched_inv_def sched_inv_but_def queues_ok_def group_ok_def thread_ok_def st q split: if_splits)
  then show ?thesis by (simp add: kinv_def timer_inv_def three_defunct_def kernel_zero_def)
qed

section \<open>Properties\<close>

text \<open>
  C2: Starting a thread whose priority is above every ready thread's and above the running
  thread's preempts: the new thread runs at once, the one that ran is ready, and the kernel
  invariant holds.
\<close>

theorem thread_startup_preempts:
  assumes "kinv k" "thread_fresh t k" "t \<noteq> cur" "rt_scheduler_lock_nest k = 0"
    and "rt_current_thread k = Some cur" "thread_stat k cur = RT_THREAD_RUNNING"
    and "init_priority (threads k t) < current_priority (threads k cur)"
    and "\<And>u. thread_stat k u = RT_THREAD_READY \<Longrightarrow> init_priority (threads k t) < current_priority (threads k u)"
  shows "let k' = snd (rt_thread_startup t k) in
    kinv k' \<and> rt_current_thread k' = Some t \<and> thread_stat k' t = RT_THREAD_RUNNING \<and>
    thread_stat k' cur = RT_THREAD_READY"
proof -
  have p: "init_priority (threads k t) < RT_THREAD_PRIORITY_MAX"
    using thread_okD(5) [OF sched_invD(1) [OF kinvD(1) [OF assms(1)]], of cur] assms(6,7)
    by (simp add: mask_ok_def)
  define k3 where "k3 = snd (rt_thread_resume t (upd_thread t (\<lambda>th. th\<lparr>current_priority := init_priority th,
      number_mask := push_bit (init_priority th) 1, stat := RT_THREAD_SUSPEND\<rparr>) k))"
  note a = startup_aux [OF assms(1,2) p, folded k3_def]
  have st: "RT_THREAD_SUSPEND AND RT_THREAD_STAT_MASK = RT_THREAD_SUSPEND" by (simp add: rt_stat_defs)
  have oth: "thread_stat k3 u = thread_stat k u" "current_priority (threads k3 u) = current_priority (threads k u)"
    if "u \<noteq> t" for u
    using that st by (simp_all add: k3_def rt_thread_resume_def Let_def)
  have lock: "rt_scheduler_lock_nest k3 = 0"
    using assms(4) st by (simp add: k3_def rt_thread_resume_def Let_def)
  have cur: "rt_current_thread k3 = Some cur" using a(5) assms(5) by simp
  have sch: "snd (rt_thread_startup t k) = rt_schedule k3" using a(2) assms(5) by simp
  have tr: "thread_stat k3 t = RT_THREAD_READY" using a(3) assms(3,5) by auto
  have cr: "thread_stat k3 cur = RT_THREAD_RUNNING" using oth(1) assms(3,6) by auto
  have lower: "u = t" if "thread_stat k3 u = RT_THREAD_READY"
    "current_priority (threads k3 u) \<le> init_priority (threads k t)" for u
    using that oth assms(8) by (metis not_less)
  from kinvD(1) [OF a(1)] cur show ?thesis
  proof (cases rule: rt_schedule_cases)
    case off
    have "t \<in> set (queue k3 (ReadyQ (init_priority (threads k t))))"
      using ready_iff [OF kinvD(1) [OF a(1)]] tr a(4) by simp
    then show ?thesis using off(2) lock by simp
  next
    case stay
    have "t \<in> set (queue k3 (ReadyQ (init_priority (threads k t))))"
      using ready_iff [OF kinvD(1) [OF a(1)]] tr a(4) by simp
    then have "current_priority (threads k3 cur) < init_priority (threads k t)" by (rule stay(4))
    then show ?thesis using assms(3,7) oth(2) [of cur] by simp
  next
    case (switch to q)
    have "t \<in> set (queue k3 (ReadyQ (init_priority (threads k t))))"
      using ready_iff [OF kinvD(1) [OF a(1)]] tr a(4) by simp
    then have "q \<le> init_priority (threads k t)" by (rule switch(7))
    moreover have "thread_stat k3 to = RT_THREAD_READY" "current_priority (threads k3 to) = q"
      using ready_iff [OF kinvD(1) [OF a(1)], of to q] switch(3,4) by auto
    ultimately have "to = t" using lower by simp
    moreover have "kinv (rt_schedule k3)" using a(1) by (rule kinv_schedule)
    ultimately show ?thesis
      unfolding Let_def sch switch(1) using switch_to_simps(1,2) [OF switch(6), of q k3] cr assms(3) by simp
  qed
qed

theorem thread_startup_preempts_witness:
  "rt_current_thread (snd (rt_thread_startup 5 three_threads)) = Some 5 \<and>
   thread_stat (snd (rt_thread_startup 5 three_threads)) 2 = RT_THREAD_READY"
  using thread_startup_preempts [of three_threads 5 2] three_threads_kinv
  by (simp add: three_threads_simps three_threads_init_priority thread_fresh_def unqueued_def Let_def
      split: if_splits)

text \<open>
  C4: Deleting a thread takes it off every queue but the list of defunct threads, stops its
  timer, and leaves every other thread's state alone, whatever the thread was doing.
\<close>

theorem rt_thread_delete_unlinks:
  assumes "kinv k" "thread_stat k t \<in> {RT_THREAD_INIT, RT_THREAD_READY, RT_THREAD_SUSPEND, RT_THREAD_RUNNING}"
  shows "let k' = snd (rt_thread_delete t k) in
    kinv k' \<and> thread_stat k' t = RT_THREAD_CLOSE \<and> queue k' Defunct = t # queue k Defunct \<and>
    (\<forall>h. h \<noteq> Defunct \<longrightarrow> queue k' h = filter (\<lambda>u. u \<noteq> t) (queue k h)) \<and>
    ThreadTimer t \<notin> set (rt_timer_list k') \<and> (\<forall>u. u \<noteq> t \<longrightarrow> thread_stat k' u = thread_stat k u)"
proof -
  let ?k1 = "if thread_stat k t \<noteq> RT_THREAD_INIT then rt_schedule_remove_thread t k else k"
  have nd: "t \<notin> set (queue k Defunct)"
    using thread_okD(1) [OF sched_invD(1) [OF kinvD(1) [OF assms(1)]], of t Defunct] assms(2) by auto
  have un: "unqueued t k" if "thread_stat k t = RT_THREAD_INIT"
    using running_unqueued [OF sched_invD(1) [OF kinvD(1) [OF assms(1)]]] that by simp
  have q: "queue ?k1 h = filter (\<lambda>u. u \<noteq> t) (queue k h)" for h
  proof (cases "thread_stat k t = RT_THREAD_INIT")
    case True
    then have "filter (\<lambda>u. u \<noteq> t) (queue k h) = queue k h" using un by (auto simp: unqueued_def filter_id_conv)
    with True show ?thesis by simp
  qed simp
  have "filter (\<lambda>u. u \<noteq> t) (queue k Defunct) = queue k Defunct" using nd by (auto simp: filter_id_conv)
  then have qd: "queue ?k1 Defunct = queue k Defunct" using q by simp
  have st: "thread_stat ?k1 u = thread_stat k u" for u by simp
  have cl: "RT_THREAD_CLOSE AND RT_THREAD_STAT_MASK = RT_THREAD_CLOSE" by (simp add: rt_stat_defs)
  have k': "snd (rt_thread_delete t k) = tlist_insert_after Defunct t (upd_thread t (\<lambda>th. th\<lparr>stat := RT_THREAD_CLOSE\<rparr>)
      (rt_object_detach (OTimer (ThreadTimer t)) (timer_remove (ThreadTimer t) ?k1)))"
    by (simp add: rt_thread_delete_def rt_timer_detach_def Let_def)
  show ?thesis
    using detach_inv(2) [OF assms] q qd st cl unfolding Let_def by (simp add: k')
qed

theorem rt_thread_delete_unlinks_witness:
  "let k' = snd (rt_thread_delete 3 three_threads) in
   queue k' Defunct = [3] \<and> queue k' (ReadyQ 10) = [4] \<and> thread_stat k' 3 = RT_THREAD_CLOSE"
  using rt_thread_delete_unlinks [of three_threads 3] three_threads_kinv(1)
  by (simp add: three_threads_simps Let_def)

text \<open>
  C6: The idle thread's clean-up, with clean-up functions that close and create no thread,
  returns and keeps the invariant.  It takes the defunct threads in order up to and including
  the first that is a static object, and leaves the threads behind that one for the next
  call; it calls the clean-up function of every thread it takes, once and in that order; it
  frees the stack and the control block of the dynamic ones and of no other, and every thread
  it takes is out of the object containers.
\<close>

theorem idle_excute_reaps:
  assumes "kinv k" "cleanup_frames cb g"
  shows "let dyn = idle_dynamic k (queue k Defunct); rest = idle_rest k (queue k Defunct) in
    \<exists>k'. rt_thread_idle_excute cb k =
      Some (concat (map (\<lambda>t. [Free_stack (stack_addr (threads k t)), Free_thread t]) dyn), k') \<and>
    kinv k' \<and> queue k' Defunct = drop 1 rest \<and>
    sems k' = fold (cleanup_effect g k) (dyn @ take 1 rest) (sems k) \<and>
    (\<forall>t \<in> set (dyn @ take 1 rest). thread_gone t k')"
  using idle_excute_aux [OF assms(1) refl assms(2)] unfolding Let_def by blast

text \<open>A clean-up function that releases the semaphore its number names.\<close>

definition count_sem :: "nat \<Rightarrow> sem_table \<Rightarrow> sem_table" where
  "count_sem n s = s(n := (s n)\<lparr>sem_value := sem_value (s n) + 1\<rparr>)"

theorem idle_excute_reaps_witness:
  "\<exists>k'. rt_thread_idle_excute (\<lambda>f _ k. k\<lparr>sems := count_sem f (sems k)\<rparr>) three_defunct =
     Some ([Free_stack 64, Free_thread 3], k') \<and> queue k' Defunct = [5] \<and>
   sem_value (sems k' 7) = 1 \<and> sem_value (sems k' 8) = 0 \<and> thread_gone 4 k'"
proof -
  let ?cb = "\<lambda>f _ k. k\<lparr>sems := count_sem f (sems k)\<rparr>"
  have "kinv (k\<lparr>sems := s\<rparr>) = kinv k" for k s by (rule kinv_cong) (simp_all add: thread_stat_def)
  then have f: "cleanup_frames ?cb (\<lambda>f _. count_sem f)" by (simp add: cleanup_frames_def)
  have d: "idle_dynamic three_defunct [3, 4, 5] = [3]" "idle_rest three_defunct [3, 4, 5] = [4, 5]"
    by (simp_all add: idle_dynamic_def idle_rest_def rt_object_is_systemobject_def three_defunct_def RT_Object_Class_Static_def)
  have q: "queue three_defunct Defunct = [3, 4, 5]" "stack_addr (threads three_defunct 3) = 64"
    "cleanup_effect g three_defunct 3 = id" "cleanup_effect g three_defunct 4 = g 7 4" "sem_value (sems three_defunct n) = 0" for g n
    by (simp_all add: three_defunct_def thread_zero_def kernel_zero_def cleanup_effect_def)
  show ?thesis using idle_excute_reaps [OF three_defunct_kinv f, unfolded q(1) d Let_def] q by (auto simp: count_sem_def)
qed

text \<open>
  Milliseconds become ticks one for one at 1000 ticks a second; a negative time becomes
  the all-ones tick count that stands for waiting for ever.
\<close>

theorem rt_tick_from_millisecond_exact:
  "rt_tick_from_millisecond ms = (if ms < 0 then 0xffffffff else of_int ms)"
proof -
  have "RT_TICK_PER_SECOND * (ms div 1000) + (RT_TICK_PER_SECOND * (ms mod 1000) + 999) div 1000 = ms"
    by (simp add: RT_TICK_PER_SECOND_def)
  then have "of_int (RT_TICK_PER_SECOND * (ms div 1000)) +
      of_int ((RT_TICK_PER_SECOND * (ms mod 1000) + 999) div 1000) = (of_int ms :: u32)"
    by (metis of_int_add)
  then show ?thesis by (simp add: rt_tick_from_millisecond_def)
qed

end
