(* ===== verification/TimerCheck.thy ===== *)
theory TimerCheck
  imports Thread
begin

text \<open>
  Running the expired timers (kernel/timer.c) and the clock tick (kernel/clock.c).  The
  timeout function of a thread's own timer is \<open>rt_thread_timeout\<close>; every other timeout
  function is code of a driver or of the application and comes in as the parameter \<open>cb\<close>.
\<close>

section \<open>Operations\<close>

definition run_timeout :: "(nat \<Rightarrow> kernel \<Rightarrow> kernel) \<Rightarrow> timeout_fn \<Rightarrow> kernel \<Rightarrow> kernel" where
  "run_timeout cb f k = (case f of Thread_timeout t \<Rightarrow> rt_thread_timeout t k | User_timeout n \<Rightarrow> cb n k)"

text \<open>What both checks do after the timeout function: restart a periodic timer, retire another.\<close>

definition timer_after_timeout :: "timer_ref \<Rightarrow> kernel \<Rightarrow> kernel" where
  "timer_after_timeout tr k =
     (let off = upd_timer tr (\<lambda>t. t\<lparr>timer_flag := timer_flag t AND NOT RT_TIMER_FLAG_ACTIVATED\<rparr>) k
      in if timer_flag (timers k tr) AND RT_TIMER_FLAG_PERIODIC \<noteq> 0 \<and>
            timer_flag (timers k tr) AND RT_TIMER_FLAG_ACTIVATED \<noteq> 0
         then snd (rt_timer_start tr off) else off)"

text \<open>One turn of the loop of \<open>rt_timer_check\<close> on the first timer of the list.\<close>

definition timer_fire :: "(nat \<Rightarrow> kernel \<Rightarrow> kernel) \<Rightarrow> timer_ref \<Rightarrow> kernel \<Rightarrow> kernel" where
  "timer_fire cb tr k =
     timer_after_timeout tr (run_timeout cb (timeout_func (timers k tr)) (timer_remove tr k))"

text \<open>
  The loop need not end (a periodic timer of zero ticks is due again at once): not
  returning is \<open>None\<close>.  The tick is read again after each timeout function.
\<close>

partial_function (option) rt_timer_check_loop ::
  "(nat \<Rightarrow> kernel \<Rightarrow> kernel) \<Rightarrow> u32 \<Rightarrow> kernel \<Rightarrow> kernel option" where
  "rt_timer_check_loop cb current_tick k =
     (case rt_timer_list k of
        [] \<Rightarrow> Some k
      | tr # _ \<Rightarrow>
          if current_tick - timeout_tick (timers k tr) < RT_TICK_HALF
          then
            let k1 = run_timeout cb (timeout_func (timers k tr)) (timer_remove tr k)
            in rt_timer_check_loop cb (rt_tick_get k1) (timer_after_timeout tr k1)
          else Some k)"

definition rt_timer_check :: "(nat \<Rightarrow> kernel \<Rightarrow> kernel) \<Rightarrow> kernel \<Rightarrow> kernel option" where
  "rt_timer_check cb k = rt_timer_check_loop cb (rt_tick_get k) k"

text \<open>
  The soft timer check keeps a pointer \<open>n\<close> to the next timer while it runs a timeout
  function.  \<open>None\<close> is the head of the list.  The successor of a node that has been unlinked
  in the meantime is the node itself, since \<open>rt_list_remove\<close> links it to itself.
\<close>

fun list_succ :: "'a list \<Rightarrow> 'a \<Rightarrow> 'a option option" where
  "list_succ [] x = None"
| "list_succ (y # ys) x =
     (if y = x then Some (case ys of [] \<Rightarrow> None | z # _ \<Rightarrow> Some z) else list_succ ys x)"

definition soft_next :: "kernel \<Rightarrow> timer_ref \<Rightarrow> timer_ref option" where
  "soft_next k tr =
     (case list_succ (rt_soft_timer_list k) tr of None \<Rightarrow> Some tr | Some n \<Rightarrow> n)"

partial_function (option) rt_soft_timer_check_loop ::
  "(nat \<Rightarrow> kernel \<Rightarrow> kernel) \<Rightarrow> u32 \<Rightarrow> timer_ref option \<Rightarrow> kernel \<Rightarrow> kernel option" where
  "rt_soft_timer_check_loop cb current_tick n k =
     (case n of
        None \<Rightarrow> Some (rt_exit_critical k)
      | Some tr \<Rightarrow>
          if current_tick - timeout_tick (timers k tr) < RT_TICK_HALF
          then
            let n1 = soft_next k tr;
                k1 = rt_exit_critical (timer_remove tr k);
                k2 = run_timeout cb (timeout_func (timers k1 tr)) k1;
                k3 = rt_enter_critical k2
            in rt_soft_timer_check_loop cb (rt_tick_get k2) n1 (timer_after_timeout tr k3)
          else Some (rt_exit_critical k))"

definition rt_soft_timer_check :: "(nat \<Rightarrow> kernel \<Rightarrow> kernel) \<Rightarrow> kernel \<Rightarrow> kernel option" where
  "rt_soft_timer_check cb k =
     (let tick = rt_tick_get k;
          k1 = rt_enter_critical k
      in rt_soft_timer_check_loop cb tick
           (case rt_soft_timer_list k1 of [] \<Rightarrow> None | tr # _ \<Rightarrow> Some tr) k1)"

text \<open>
  One turn of the timer thread before its check: it suspends itself when there is no soft
  timer, or sleeps until the first is due.
\<close>

definition rt_thread_timer_entry :: "kernel \<Rightarrow> kernel" where
  "rt_thread_timer_entry k =
     (let next_timeout = rt_timer_list_next_timeout k (rt_soft_timer_list k)
      in if next_timeout = RT_TICK_MAX
         then (case rt_thread_self k of
                 None \<Rightarrow> k
               | Some t \<Rightarrow> rt_schedule (snd (rt_thread_suspend t k)))
         else if next_timeout - rt_tick_get k < RT_TICK_HALF
         then rt_thread_delay (next_timeout - rt_tick_get k) k
         else k)"

definition rt_system_timer_thread_init :: "nat \<Rightarrow> nat \<Rightarrow> kernel \<Rightarrow> kernel" where
  "rt_system_timer_thread_init timer_entry stack k =
     (let k1 = k\<lparr>rt_soft_timer_list := []\<rparr>;
          k2 = snd (rt_thread_init timer_thread ''timer'' timer_entry 0 stack 512 4 10 k1)
      in snd (rt_thread_startup timer_thread k2))"

text \<open>The tick interrupt: the time slice of the running thread, then the timers.\<close>

definition tick_slice :: "kernel \<Rightarrow> kernel" where
  "tick_slice k =
     (let k1 = k\<lparr>rt_tick := rt_tick k + 1\<rparr>
      in (case rt_thread_self k1 of
            None \<Rightarrow> k1
          | Some t \<Rightarrow>
              let k2 = upd_thread t (\<lambda>th. th\<lparr>remaining_tick := remaining_tick th - 1\<rparr>) k1
              in if remaining_tick (threads k2 t) = 0
                 then snd (rt_thread_yield
                        (upd_thread t (\<lambda>th. th\<lparr>remaining_tick := thread_init_tick th\<rparr>) k2))
                 else k2))"

definition rt_tick_increase :: "(nat \<Rightarrow> kernel \<Rightarrow> kernel) \<Rightarrow> kernel \<Rightarrow> kernel option" where
  "rt_tick_increase cb k = rt_timer_check cb (tick_slice k)"

section \<open>Hypotheses on timeout functions\<close>

text \<open>
  What the check relies on from the timeout functions of drivers and applications: they
  leave the tick and the hard timers alone and keep the kernel invariant.
\<close>

definition cb_safe :: "(nat \<Rightarrow> kernel \<Rightarrow> kernel) \<Rightarrow> bool" where
  "cb_safe cb \<longleftrightarrow>
     (\<forall>n k. kinv k \<longrightarrow> kinv (cb n k) \<and> timers (cb n k) = timers k \<and> rt_tick (cb n k) = rt_tick k \<and>
        rt_timer_list (cb n k) = rt_timer_list k \<and> rt_soft_timer_list (cb n k) = rt_soft_timer_list k)"

text \<open>
  Periodic timers have a period of at least one tick and less than half the range less one;
  the timers of threads are one-shot.
\<close>

definition periods_ok :: "kernel \<Rightarrow> bool" where
  "periods_ok k \<longleftrightarrow>
     (\<forall>tr. timer_flag (timers k tr) AND RT_TIMER_FLAG_PERIODIC \<noteq> 0 \<longrightarrow>
        (\<exists>n. tr = UserTimer n) \<and> 0 < init_tick (timers k tr) \<and> init_tick (timers k tr) < RT_TICK_HALF - 1)"

section \<open>Lemmas\<close>

lemma timeout_frame [simp]:
  "timers (rt_thread_timeout t k) = timers k" "rt_tick (rt_thread_timeout t k) = rt_tick k"
  "rt_timer_list (rt_thread_timeout t k) = rt_timer_list k"
  "rt_soft_timer_list (rt_thread_timeout t k) = rt_soft_timer_list k"
  by (simp_all add: rt_thread_timeout_def thread_timeout_wake_def Let_def)

lemma kinv_timer_remove: "kinv k \<Longrightarrow> kinv (timer_remove tr k)"
  by (simp add: kinv_def timer_inv_remove)

text \<open>The timeout function of the first timer, run with the timer off its list.\<close>

lemma run_timeout_aux:
  assumes inv: "kinv k" and safe: "cb_safe cb" and tr: "tr \<in> set (rt_timer_list k)"
    and fn: "\<And>t. timeout_func (timers k tr) = Thread_timeout t \<Longrightarrow> tr = ThreadTimer t"
  defines "k1 \<equiv> run_timeout cb (timeout_func (timers k tr)) (timer_remove tr k)"
  shows "kinv k1" "timers k1 = timers k" "rt_tick k1 = rt_tick k"
    "rt_timer_list k1 = filter (\<lambda>u. u \<noteq> tr) (rt_timer_list k)"
    "rt_soft_timer_list k1 = filter (\<lambda>u. u \<noteq> tr) (rt_soft_timer_list k)"
proof -
  have "kinv k1 \<and> timers k1 = timers k \<and> rt_tick k1 = rt_tick k \<and>
      rt_timer_list k1 = filter (\<lambda>u. u \<noteq> tr) (rt_timer_list k) \<and>
      rt_soft_timer_list k1 = filter (\<lambda>u. u \<noteq> tr) (rt_soft_timer_list k)"
  proof (cases "timeout_func (timers k tr)")
    case (Thread_timeout t)
    then have t: "tr = ThreadTimer t" by (rule fn)
    have "thread_stat k t = RT_THREAD_SUSPEND"
      using kinvD(2) [OF inv] tr t by (auto simp: timer_inv_def timer_ok_def)
    then have "kinv (rt_thread_timeout t (timer_remove tr k))"
      using kinv_timer_remove [OF inv] t by (intro timeout_inv) simp_all
    then show ?thesis by (simp add: k1_def run_timeout_def Thread_timeout)
  next
    case (User_timeout n)
    then show ?thesis
      using safe kinv_timer_remove [OF inv, of tr] by (simp add: k1_def run_timeout_def cb_safe_def)
  qed
  then show "kinv k1" "timers k1 = timers k" "rt_tick k1 = rt_tick k"
    "rt_timer_list k1 = filter (\<lambda>u. u \<noteq> tr) (rt_timer_list k)"
    "rt_soft_timer_list k1 = filter (\<lambda>u. u \<noteq> tr) (rt_soft_timer_list k)" by blast+
qed

text \<open>Retiring or restarting a hard timer that is off its list.\<close>

lemma after_timeout_aux:
  assumes inv: "kinv k" and p: "periods_ok k" and hard: "timer_flag (timers k tr) AND RT_TIMER_FLAG_SOFT_TIMER = 0"
    and off: "tr \<notin> set (rt_timer_list k)" "tr \<notin> set (rt_soft_timer_list k)"
    and s: "timers_sorted b k (rt_timer_list k)" and b: "rt_tick k = b + 1"
  defines "k' \<equiv> timer_after_timeout tr k"
  shows "kinv k'" "periods_ok k'" "rt_tick k' = rt_tick k" "timers_sorted b k' (rt_timer_list k')"
    "\<And>u. u \<noteq> tr \<Longrightarrow> timers k' u = timers k u"
    "set (rt_timer_list k') \<subseteq> insert tr (set (rt_timer_list k))"
    "set (rt_timer_list k) \<subseteq> set (rt_timer_list k')"
    "tr \<in> set (rt_timer_list k') \<Longrightarrow> 1 < due_in b k' tr"
    "tr \<in> set (rt_timer_list k') \<longleftrightarrow> timer_flag (timers k tr) AND RT_TIMER_FLAG_PERIODIC \<noteq> 0 \<and>
       timer_flag (timers k tr) AND RT_TIMER_FLAG_ACTIVATED \<noteq> 0"
    "distinct (rt_timer_list k')"
proof -
  define k0 where "k0 = upd_timer tr (\<lambda>t. t\<lparr>timer_flag := timer_flag t AND NOT RT_TIMER_FLAG_ACTIVATED\<rparr>) k"
  have k0: "kinv k0" "timers k0 tr = (timers k tr)\<lparr>timer_flag := timer_flag (timers k tr) AND NOT RT_TIMER_FLAG_ACTIVATED\<rparr>"
    "\<And>u. u \<noteq> tr \<Longrightarrow> timers k0 u = timers k u" "rt_timer_list k0 = rt_timer_list k"
    "rt_soft_timer_list k0 = rt_soft_timer_list k" "rt_tick k0 = rt_tick k"
    using inv off by (simp_all add: k0_def kinv_def timer_inv_upd_other)
  have p0: "periods_ok k0" using p by (auto simp: periods_ok_def k0_def)
  have s0: "timers_sorted b k0 (rt_timer_list k0)"
    using s off by (subst timers_sorted_cong [of _ _ k]) (auto simp: k0_def)
  let ?per = "timer_flag (timers k tr) AND RT_TIMER_FLAG_PERIODIC \<noteq> 0 \<and>
      timer_flag (timers k tr) AND RT_TIMER_FLAG_ACTIVATED \<noteq> 0"
  have dist: "distinct (rt_timer_list k)" using kinvD(2) [OF inv] by (simp add: timer_inv_def)
  have "kinv k' \<and> periods_ok k' \<and> rt_tick k' = rt_tick k \<and> timers_sorted b k' (rt_timer_list k') \<and>
    (\<forall>u. u \<noteq> tr \<longrightarrow> timers k' u = timers k u) \<and>
    (tr \<in> set (rt_timer_list k') \<longrightarrow> 1 < due_in b k' tr) \<and>
    set (rt_timer_list k') = (if ?per then insert tr (set (rt_timer_list k)) else set (rt_timer_list k)) \<and>
    distinct (rt_timer_list k')"
  proof (cases ?per)
    case False
    then have "k' = k0" by (auto simp: k'_def timer_after_timeout_def k0_def Let_def)
    then show ?thesis using k0 p0 s0 off dist False by auto
  next
    case True
    have hard0: "timer_flag (timers k0 tr) AND RT_TIMER_FLAG_SOFT_TIMER = 0" using hard k0(2) by simp
    have "k' = snd (rt_timer_start tr k0)" using True by (simp add: k'_def timer_after_timeout_def k0_def Let_def)
    then have k': "k' = timer_start_link tr k0"
      using hard0 by (simp add: rt_timer_start_def Let_def start_link_timers)
    from p True obtain n where n: "tr = UserTimer n" "0 < init_tick (timers k tr)" "init_tick (timers k tr) < RT_TICK_HALF - 1"
      by (auto simp: periods_ok_def)
    have "unat (init_tick (timers k tr)) < unat (RT_TICK_HALF - 1)" using n(3) by (simp add: word_less_nat_alt)
    then have lt: "unat (init_tick (timers k tr)) < 2147483646" by (simp add: tick_half)
    have "unat (init_tick (timers k tr) + 1) = unat (init_tick (timers k tr)) + 1"
      using lt by (subst unat_add_lem [THEN iffD1]) simp_all
    then have due: "due_in b k' tr = unat (init_tick (timers k tr)) + 1"
      using b k0 by (simp add: k' due_in_def start_link_timers algebra_simps)
    have i: "0 < unat (init_tick (timers k tr))" using n(2) by (simp add: unat_gt_0)
    have rest: "timers_sorted b k' (filter (\<lambda>u. u \<noteq> tr) (rt_timer_list k0))"
      using timers_sorted_filter [OF s0] by (subst timers_sorted_cong [of _ _ k0]) (auto simp: k' start_link_timers)
    have "timers_sorted b k' (rt_timer_list k')"
      unfolding k' start_link_hard(2) [OF hard0]
      using timers_sorted_insert [OF rest [unfolded k']] due lt by (simp add: k' tick_half)
    moreover have "kinv k'"
      using k0(1) timer_inv_start_link [OF kinvD(2) [OF k0(1)], of tr] n(1) by (simp add: k' kinv_def)
    moreover have "periods_ok k'" using p0 by (auto simp: periods_ok_def k' start_link_timers)
    moreover have "set (rt_timer_list k') = insert tr (set (rt_timer_list k))" "distinct (rt_timer_list k')"
      using dist off k0 by (auto simp: k' start_link_hard(2) [OF hard0])
    ultimately show ?thesis using True due i k0 by (auto simp: k' start_link_timers)
  qed
  then show "kinv k'" "periods_ok k'" "rt_tick k' = rt_tick k" "timers_sorted b k' (rt_timer_list k')"
    "\<And>u. u \<noteq> tr \<Longrightarrow> timers k' u = timers k u"
    "set (rt_timer_list k') \<subseteq> insert tr (set (rt_timer_list k))"
    "set (rt_timer_list k) \<subseteq> set (rt_timer_list k')"
    "tr \<in> set (rt_timer_list k') \<Longrightarrow> 1 < due_in b k' tr"
    "tr \<in> set (rt_timer_list k') \<longleftrightarrow> ?per" "distinct (rt_timer_list k')"
    using off by (auto split: if_splits)
qed

text \<open>The timer is due exactly when it is at most one tick from the base, the tick before.\<close>

lemma due_test:
  assumes "due_in b k tr < unat RT_TICK_HALF" "now = b + 1"
  shows "now - timeout_tick (timers k tr) < RT_TICK_HALF \<longleftrightarrow> due_in b k tr \<le> 1"
proof -
  let ?x = "timeout_tick (timers k tr)"
  have one: "unat (now - b) = 1" using assms(2) by simp
  have w: "now \<noteq> ?x \<Longrightarrow> now - ?x < RT_TICK_HALF \<longleftrightarrow> unat (?x - b) < unat (now - b)"
    using assms(1) one by (intro wrap_later(2)) (simp_all add: due_in_def tick_half)
  show ?thesis
  proof (cases "now = ?x")
    case True
    then show ?thesis using one by (simp add: due_in_def tick_half)
  next
    case False
    then have "unat (?x - b) \<noteq> 1" using one by (metis diff_add_cancel word_unat_eq_iff)
    then show ?thesis using w [OF False] one by (auto simp: due_in_def)
  qed
qed

definition due_set :: "u32 \<Rightarrow> kernel \<Rightarrow> timer_ref set" where
  "due_set b k = {tr \<in> set (rt_timer_list k). due_in b k tr \<le> 1}"

text \<open>A thread's timeout function belongs to its own timer.\<close>

definition timeouts_ok :: "kernel \<Rightarrow> bool" where
  "timeouts_ok k \<longleftrightarrow> (\<forall>tr t. timeout_func (timers k tr) = Thread_timeout t \<longrightarrow> tr = ThreadTimer t)"

lemma after_timeout_func: "timeout_func (timers (timer_after_timeout tr k) u) = timeout_func (timers k u)"
proof -
  have "timeout_func (timers (snd (rt_timer_start tr k)) u) = timeout_func (timers k u)" for k
    by (simp add: rt_timer_start_def Let_def rt_thread_resume_def rt_timer_stop_def start_link_timers)
  then show ?thesis by (simp add: timer_after_timeout_def Let_def)
qed

lemma after_timeout_flags:
  "timer_flag (timers (timer_after_timeout tr k) u) AND RT_TIMER_FLAG_PERIODIC = timer_flag (timers k u) AND RT_TIMER_FLAG_PERIODIC"
proof -
  have "timer_flag (timers (snd (rt_timer_start tr k)) u) AND RT_TIMER_FLAG_PERIODIC = timer_flag (timers k u) AND RT_TIMER_FLAG_PERIODIC" for k
    by (simp add: rt_timer_start_def Let_def rt_thread_resume_def rt_timer_stop_def start_link_timers)
  then show ?thesis by (simp add: timer_after_timeout_def Let_def)
qed

definition periodic :: "kernel \<Rightarrow> timer_ref \<Rightarrow> bool" where
  "periodic k tr \<longleftrightarrow> timer_flag (timers k tr) AND RT_TIMER_FLAG_PERIODIC \<noteq> 0"

text \<open>One turn of the loop.\<close>

lemma check_turn:
  assumes inv: "kinv k" and safe: "cb_safe cb" and p: "periods_ok k" and f: "timeouts_ok k"
    and s: "timers_sorted b k (rt_timer_list k)" and b: "rt_tick k = b + 1"
    and l: "rt_timer_list k = tr # rest" and due: "due_in b k tr \<le> 1"
  defines "k' \<equiv> timer_fire cb tr k"
  shows "rt_timer_check_loop cb (rt_tick k) k = rt_timer_check_loop cb (rt_tick k') k'"
    "kinv k'" "periods_ok k'" "timeouts_ok k'" "timers_sorted b k' (rt_timer_list k')" "rt_tick k' = rt_tick k"
    "due_set b k' = due_set b k - {tr}"
    "\<And>u. u \<noteq> tr \<Longrightarrow> u \<in> set (rt_timer_list k') \<longleftrightarrow> u \<in> set (rt_timer_list k)"
    "tr \<in> set (rt_timer_list k') \<longleftrightarrow> periodic k tr" "tr \<in> set (rt_timer_list k') \<Longrightarrow> 1 < due_in b k' tr"
    "\<And>u. u \<noteq> tr \<Longrightarrow> due_in b k' u = due_in b k u" "\<And>u. periodic k' u = periodic k u"
proof -
  define k1 where "k1 = run_timeout cb (timeout_func (timers k tr)) (timer_remove tr k)"
  have tr: "tr \<in> set (rt_timer_list k)" using l by simp
  have fn: "timeout_func (timers k tr) = Thread_timeout t \<Longrightarrow> tr = ThreadTimer t" for t
    using f by (simp add: timeouts_ok_def)
  have r: "kinv k1" "timers k1 = timers k" "rt_tick k1 = rt_tick k"
    "rt_timer_list k1 = filter (\<lambda>u. u \<noteq> tr) (rt_timer_list k)"
    "rt_soft_timer_list k1 = filter (\<lambda>u. u \<noteq> tr) (rt_soft_timer_list k)"
    unfolding k1_def by (rule run_timeout_aux [OF inv safe tr]; erule fn)+
  have k': "k' = timer_after_timeout tr k1" by (simp add: k'_def timer_fire_def k1_def)
  have hard: "timer_flag (timers k1 tr) AND RT_TIMER_FLAG_SOFT_TIMER = 0" and act: "timer_flag (timers k1 tr) AND RT_TIMER_FLAG_ACTIVATED \<noteq> 0"
    using kinvD(2) [OF inv] tr r(2) by (auto simp: timer_inv_def timer_ok_def)
  have p1: "periods_ok k1" using p r(2) by (simp add: periods_ok_def)
  have s1: "timers_sorted b k1 (rt_timer_list k1)"
    using timers_sorted_filter [OF s] r(2,4) by (subst timers_sorted_cong [of _ _ k]) simp_all
  have b1: "rt_tick k1 = b + 1" using b r(3) by simp
  have off: "tr \<notin> set (rt_timer_list k1)" "tr \<notin> set (rt_soft_timer_list k1)" using r(4,5) by simp_all
  note a = after_timeout_aux [OF r(1) p1 hard off s1 b1, folded k']
  have test: "rt_tick k - timeout_tick (timers k tr) < RT_TICK_HALF"
    using due_test [of b k tr "rt_tick k"] s tr due b by (simp add: timers_sorted_def)
  show "rt_timer_check_loop cb (rt_tick k) k = rt_timer_check_loop cb (rt_tick k') k'"
    using l test a(3) by (subst rt_timer_check_loop.simps) (simp add: Let_def k1_def [symmetric] rt_tick_get_def k')
  show "kinv k'" "periods_ok k'" "timers_sorted b k' (rt_timer_list k')" using a(1,2,4) by blast+
  show "rt_tick k' = rt_tick k" using a(3) r(3) by simp
  show "timeouts_ok k'" using f r(2) by (simp add: timeouts_ok_def k' after_timeout_func)
  show oth: "u \<in> set (rt_timer_list k') \<longleftrightarrow> u \<in> set (rt_timer_list k)" if "u \<noteq> tr" for u
    using that a(6,7) r(4) by auto
  show "tr \<in> set (rt_timer_list k') \<longleftrightarrow> periodic k tr" using a(9) act r(2) by (simp add: periodic_def)
  show late: "tr \<in> set (rt_timer_list k') \<Longrightarrow> 1 < due_in b k' tr" by (rule a(8))
  show same: "due_in b k' u = due_in b k u" if "u \<noteq> tr" for u
    using a(5) [OF that] r(2) by (simp add: due_in_def)
  show "periodic k' u = periodic k u" for u using r(2) by (simp add: periodic_def k' after_timeout_flags)
  show "due_set b k' = due_set b k - {tr}"
  proof (rule set_eqI)
    fix u
    show "u \<in> due_set b k' \<longleftrightarrow> u \<in> due_set b k - {tr}"
      using oth [of u] same [of u] late by (cases "u = tr") (auto simp: due_set_def)
  qed
qed

lemma check_loop_aux:
  assumes "kinv k" "cb_safe cb" "periods_ok k" "timeouts_ok k"
    "timers_sorted b k (rt_timer_list k)" "rt_tick k = b + 1"
  shows "\<exists>k'. rt_timer_check_loop cb (rt_tick k) k = Some k' \<and> kinv k' \<and> rt_tick k' = rt_tick k \<and>
    periods_ok k' \<and> timeouts_ok k' \<and> timers_sorted b k' (rt_timer_list k') \<and>
    (\<forall>tr \<in> set (rt_timer_list k'). 1 < due_in b k' tr) \<and>
    (\<forall>tr. tr \<in> set (rt_timer_list k') \<longleftrightarrow> tr \<in> set (rt_timer_list k) \<and> (1 < due_in b k tr \<or> periodic k tr)) \<and>
    (\<forall>tr. 1 < due_in b k tr \<longrightarrow> due_in b k' tr = due_in b k tr)"
  using assms
proof (induction "card (due_set b k)" arbitrary: k)
  case 0
  then have none: "1 < due_in b k tr" if "tr \<in> set (rt_timer_list k)" for tr
    using that by (auto simp: due_set_def card_eq_0_iff not_le)
  have "rt_timer_check_loop cb (rt_tick k) k = Some k"
  proof (cases "rt_timer_list k")
    case (Cons tr rest)
    then have "\<not> rt_tick k - timeout_tick (timers k tr) < RT_TICK_HALF"
      using due_test [of b k tr "rt_tick k"] none [of tr] 0 by (simp add: timers_sorted_def)
    with Cons show ?thesis by (subst rt_timer_check_loop.simps) simp
  qed (subst rt_timer_check_loop.simps, simp)
  then show ?case using 0 none by auto
next
  case (Suc n)
  from Suc.hyps(2) obtain u where u: "u \<in> set (rt_timer_list k)" "due_in b k u \<le> 1"
    by (metis (no_types, lifting) card.empty due_set_def ex_in_conv mem_Collect_eq nat.distinct(1))
  then obtain tr rest where l: "rt_timer_list k = tr # rest" by (cases "rt_timer_list k") auto
  then have due: "due_in b k tr \<le> 1" using Suc.prems(5) u by (auto simp: timers_sorted_def)
  define k1 where "k1 = timer_fire cb tr k"
  note t = check_turn [OF Suc.prems l due, folded k1_def]
  have "tr \<in> due_set b k" using l due by (simp add: due_set_def)
  moreover have "finite (due_set b k)" by (simp add: due_set_def)
  ultimately have "n = card (due_set b k1)" using Suc.hyps(2) by (simp add: t(7))
  then obtain k' where k': "rt_timer_check_loop cb (rt_tick k1) k1 = Some k'" "kinv k'" "rt_tick k' = rt_tick k1"
    "periods_ok k'" "timeouts_ok k'"
    "timers_sorted b k' (rt_timer_list k')" "\<forall>tr \<in> set (rt_timer_list k'). 1 < due_in b k' tr"
    "\<And>u. u \<in> set (rt_timer_list k') \<longleftrightarrow> u \<in> set (rt_timer_list k1) \<and> (1 < due_in b k1 u \<or> periodic k1 u)"
    "\<And>u. 1 < due_in b k1 u \<Longrightarrow> due_in b k' u = due_in b k1 u"
    using Suc.hyps(1) [of k1] t(2-6) Suc.prems(2,6) by auto
  have "u \<in> set (rt_timer_list k') \<longleftrightarrow> u \<in> set (rt_timer_list k) \<and> (1 < due_in b k u \<or> periodic k u)" for u
    using k'(8) [of u] t(8,11) [of u] t(9,10) t(12) [of u] l due by (cases "u = tr") auto
  moreover have "due_in b k' u = due_in b k u" if "1 < due_in b k u" for u
  proof -
    have "u \<noteq> tr" using that due by auto
    then show ?thesis using k'(9) [of u] t(11) [of u] that by simp
  qed
  ultimately show ?case using k' t(1,6) by auto
qed

text \<open>A thread whose wait timed out and that has not been suspended again.\<close>

definition timed_out :: "kernel \<Rightarrow> tid \<Rightarrow> bool" where
  "timed_out k t \<longleftrightarrow> thread_stat k t \<in> {RT_THREAD_READY, RT_THREAD_RUNNING} \<and>
     thread_error (threads k t) = - RT_ETIMEOUT"

definition cb_keeps_awake :: "(nat \<Rightarrow> kernel \<Rightarrow> kernel) \<Rightarrow> bool" where
  "cb_keeps_awake cb \<longleftrightarrow> (\<forall>n k t. kinv k \<longrightarrow> timed_out k t \<longrightarrow> timed_out (cb n k) t)"

lemma timeout_wakes:
  assumes inv: "kinv k" and st: "thread_stat k t = RT_THREAD_SUSPEND"
    and no: "ThreadTimer t \<notin> set (rt_timer_list k)" "ThreadTimer t \<notin> set (rt_soft_timer_list k)"
  shows "timed_out (rt_thread_timeout t k) t"
    "timed_out k u \<Longrightarrow> timed_out (rt_thread_timeout t k) u"
proof -
  let ?k = "thread_timeout_wake t k"
  have i: "sched_inv ?k" using timeout_wake_inv [OF assms] by (rule kinvD)
  have s: "thread_stat ?k v = (if v = t then (if rt_current_thread k = Some t then RT_THREAD_RUNNING else RT_THREAD_READY)
      else thread_stat k v)" for v
    by (simp add: thread_timeout_wake_def Let_def)
  have e: "thread_error (threads (rt_thread_timeout t k) v) = (if v = t then - RT_ETIMEOUT else thread_error (threads k v))" for v
    by (simp add: rt_thread_timeout_def thread_timeout_wake_def Let_def)
  have m: "thread_stat ?k v \<in> {RT_THREAD_READY, RT_THREAD_RUNNING} \<Longrightarrow>
      thread_stat (rt_thread_timeout t k) v \<in> {RT_THREAD_READY, RT_THREAD_RUNNING}" for v
    unfolding rt_thread_timeout_def by (rule rt_schedule_other(3) [OF i])
  show "timed_out (rt_thread_timeout t k) t" using m [of t] s [of t] e [of t] by (auto simp: timed_out_def)
  show "timed_out (rt_thread_timeout t k) u" if "timed_out k u"
    using m [of u] s [of u] e [of u] that by (auto simp: timed_out_def)
qed

lemma check_turn_wakes:
  assumes inv: "kinv k" and safe: "cb_safe cb" "cb_keeps_awake cb" and f: "timeouts_ok k"
    and tr: "tr \<in> set (rt_timer_list k)"
  shows "tr = ThreadTimer t \<or> timed_out k t \<Longrightarrow> timed_out (timer_fire cb tr k) t"
proof -
  assume a: "tr = ThreadTimer t \<or> timed_out k t"
  define k1 where "k1 = run_timeout cb (timeout_func (timers k tr)) (timer_remove tr k)"
  have inv0: "kinv (timer_remove tr k)" by (rule kinv_timer_remove [OF inv])
  have "timed_out k1 t"
  proof (cases "timeout_func (timers k tr)")
    case (Thread_timeout u)
    then have u: "tr = ThreadTimer u" using f by (simp add: timeouts_ok_def)
    have "thread_stat k u = RT_THREAD_SUSPEND"
      using kinvD(2) [OF inv] tr u by (auto simp: timer_inv_def timer_ok_def)
    then have w: "timed_out (rt_thread_timeout u (timer_remove tr k)) u"
      "timed_out (timer_remove tr k) t \<Longrightarrow> timed_out (rt_thread_timeout u (timer_remove tr k)) t"
      using timeout_wakes [OF inv0, of u] u by simp_all
    have "timed_out (timer_remove tr k) t = timed_out k t" by (simp add: timed_out_def)
    moreover have "k1 = rt_thread_timeout u (timer_remove tr k)"
      by (simp add: k1_def run_timeout_def Thread_timeout)
    ultimately show ?thesis using w a u by auto
  next
    case (User_timeout n)
    have "tr \<noteq> ThreadTimer t"
      using kinvD(2) [OF inv] tr User_timeout by (auto simp: timer_inv_def timer_ok_def)
    then have "timed_out (timer_remove tr k) t" using a by (simp add: timed_out_def)
    then show ?thesis using safe(2) inv0 by (simp add: k1_def run_timeout_def User_timeout cb_keeps_awake_def)
  qed
  moreover have hard: "timer_flag (timers k1 tr) AND RT_TIMER_FLAG_SOFT_TIMER = 0"
  proof -
    have "timers k1 = timers k"
      unfolding k1_def by (rule run_timeout_aux [OF inv safe(1) tr]) (use f in \<open>simp add: timeouts_ok_def\<close>)
    then show ?thesis using kinvD(2) [OF inv] tr by (auto simp: timer_inv_def)
  qed
  then have "threads (timer_after_timeout tr k1) = threads k1"
    by (simp add: timer_after_timeout_def rt_timer_start_def Let_def start_link_timers)
  ultimately show "timed_out (timer_fire cb tr k) t"
    by (simp add: timer_fire_def k1_def [symmetric] timed_out_def thread_stat_def)
qed

lemma check_loop_wakes:
  assumes "kinv k" "cb_safe cb" "cb_keeps_awake cb" "periods_ok k" "timeouts_ok k"
    "timers_sorted b k (rt_timer_list k)" "rt_tick k = b + 1"
    and "rt_timer_check_loop cb (rt_tick k) k = Some k'"
    and "ThreadTimer t \<in> due_set b k \<or> timed_out k t"
  shows "timed_out k' t"
  using assms
proof (induction "card (due_set b k)" arbitrary: k)
  case 0
  then have none: "due_set b k = {}" by (simp add: due_set_def)
  have "rt_timer_check_loop cb (rt_tick k) k = Some k"
  proof (cases "rt_timer_list k")
    case (Cons tr rest)
    then have "\<not> rt_tick k - timeout_tick (timers k tr) < RT_TICK_HALF"
      using due_test [of b k tr "rt_tick k"] none 0 by (auto simp: timers_sorted_def due_set_def)
    with Cons show ?thesis by (subst rt_timer_check_loop.simps) simp
  qed (subst rt_timer_check_loop.simps, simp)
  with 0 none show ?case by simp
next
  case (Suc n)
  from Suc.hyps(2) obtain u where u: "u \<in> set (rt_timer_list k)" "due_in b k u \<le> 1"
    by (metis (no_types, lifting) card.empty due_set_def ex_in_conv mem_Collect_eq nat.distinct(1))
  then obtain tr rest where l: "rt_timer_list k = tr # rest" by (cases "rt_timer_list k") auto
  then have due: "due_in b k tr \<le> 1" using Suc.prems(6) u by (auto simp: timers_sorted_def)
  define k1 where "k1 = timer_fire cb tr k"
  note c = check_turn [OF Suc.prems(1,2,4-7) l due, folded k1_def]
  have "tr \<in> due_set b k" using l due by (simp add: due_set_def)
  moreover have "finite (due_set b k)" by (simp add: due_set_def)
  ultimately have n: "n = card (due_set b k1)" using Suc.hyps(2) by (simp add: c(7))
  have "ThreadTimer t \<in> due_set b k1 \<or> timed_out k1 t"
    using Suc.prems(9) check_turn_wakes [OF Suc.prems(1-3,5), of tr t] l unfolding c(7)
    by (auto simp: k1_def)
  then show ?case
    using Suc.hyps(1) [OF n c(2) Suc.prems(2,3) c(3-5)] c(1,6) Suc.prems(7,8) by simp
qed

text \<open>
  The effect of the timeout functions on the semaphores, through which a theorem can tell
  which of them ran and in which order: \<open>g n\<close> for the function numbered \<open>n\<close>.
\<close>

definition cb_sems :: "(nat \<Rightarrow> kernel \<Rightarrow> kernel) \<Rightarrow> (nat \<Rightarrow> sem_table \<Rightarrow> sem_table) \<Rightarrow> bool" where
  "cb_sems cb g \<longleftrightarrow> (\<forall>n k. kinv k \<longrightarrow> sems (cb n k) = g n (sems k))"

definition timeout_effect :: "(nat \<Rightarrow> sem_table \<Rightarrow> sem_table) \<Rightarrow> kernel \<Rightarrow> timer_ref \<Rightarrow> sem_table \<Rightarrow> sem_table" where
  "timeout_effect g k tr = (case timeout_func (timers k tr) of Thread_timeout t \<Rightarrow> id | User_timeout n \<Rightarrow> g n)"

lemma filter_timer_insert: "tr \<notin> set l \<Longrightarrow> filter (\<lambda>u. u \<noteq> tr) (timer_insert due time tr l) = l"
  by (induction l) (auto simp: filter_id_conv)

lemma timeout_sems [simp]: "sems (rt_thread_timeout t k) = sems k"
  by (simp add: rt_thread_timeout_def thread_timeout_wake_def Let_def)

text \<open>What is left of a timer that has fired.\<close>

definition timer_fired :: "kernel \<Rightarrow> kernel \<Rightarrow> timer_ref \<Rightarrow> bool" where
  "timer_fired k k' tr \<longleftrightarrow>
     (if periodic k tr then timeout_tick (timers k' tr) = rt_tick k' + init_tick (timers k tr)
      else timer_flag (timers k' tr) AND RT_TIMER_FLAG_ACTIVATED = 0)"

lemma check_turn_calls:
  assumes inv: "kinv k" and safe: "cb_safe cb" and g: "cb_sems cb g" and f: "timeouts_ok k"
    and tr: "tr \<in> set (rt_timer_list k)"
  defines "k' \<equiv> timer_fire cb tr k"
  shows "sems k' = timeout_effect g k tr (sems k)" "timer_fired k k' tr" "\<And>u. u \<noteq> tr \<Longrightarrow> timers k' u = timers k u"
    "filter (\<lambda>u. u \<noteq> tr) (rt_timer_list k') = filter (\<lambda>u. u \<noteq> tr) (rt_timer_list k)"
proof -
  define k1 where "k1 = run_timeout cb (timeout_func (timers k tr)) (timer_remove tr k)"
  have fn: "timeout_func (timers k tr) = Thread_timeout t \<Longrightarrow> tr = ThreadTimer t" for t
    using f by (simp add: timeouts_ok_def)
  have r: "timers k1 = timers k" "rt_tick k1 = rt_tick k" "rt_timer_list k1 = filter (\<lambda>u. u \<noteq> tr) (rt_timer_list k)"
    unfolding k1_def by (rule run_timeout_aux [OF inv safe tr]; erule fn)+
  have hard: "timer_flag (timers k tr) AND RT_TIMER_FLAG_SOFT_TIMER = 0" and act: "timer_flag (timers k tr) AND RT_TIMER_FLAG_ACTIVATED \<noteq> 0"
    using kinvD(2) [OF inv] tr by (auto simp: timer_inv_def timer_ok_def)
  have "sems k1 = timeout_effect g k tr (sems k)"
    using g kinv_timer_remove [OF inv, of tr]
    by (auto simp: k1_def run_timeout_def timeout_effect_def cb_sems_def split: timeout_fn.split)
  then show "sems k' = timeout_effect g k tr (sems k)"
    using hard r by (simp add: k'_def timer_fire_def k1_def [symmetric] timer_after_timeout_def rt_timer_start_def Let_def start_link_timers)
  show "timer_fired k k' tr" "\<And>u. u \<noteq> tr \<Longrightarrow> timers k' u = timers k u"
    using hard act r
    by (simp_all add: k'_def timer_fire_def k1_def [symmetric] timer_after_timeout_def rt_timer_start_def Let_def
        start_link_timers timer_fired_def periodic_def)
  show "filter (\<lambda>u. u \<noteq> tr) (rt_timer_list k') = filter (\<lambda>u. u \<noteq> tr) (rt_timer_list k)"
    using hard r
    by (simp add: k'_def timer_fire_def k1_def [symmetric] timer_after_timeout_def rt_timer_start_def Let_def
        start_link_timers start_link_hard filter_timer_insert)
qed

lemma check_loop_calls:
  assumes "kinv k" "cb_safe cb" "cb_sems cb g" "periods_ok k" "timeouts_ok k"
    "timers_sorted b k (rt_timer_list k)" "rt_tick k = b + 1"
    and "rt_timer_check_loop cb (rt_tick k) k = Some k'"
  shows "sems k' = fold (timeout_effect g k) (filter (\<lambda>tr. due_in b k tr \<le> 1) (rt_timer_list k)) (sems k) \<and>
    (\<forall>tr \<in> due_set b k. timer_fired k k' tr) \<and> (\<forall>tr. tr \<notin> due_set b k \<longrightarrow> timers k' tr = timers k tr) \<and> rt_tick k' = rt_tick k"
  using assms
proof (induction "card (due_set b k)" arbitrary: k)
  case 0
  then have none: "due_set b k = {}" by (simp add: due_set_def)
  have "rt_timer_check_loop cb (rt_tick k) k = Some k"
  proof (cases "rt_timer_list k")
    case (Cons tr rest)
    then have "\<not> rt_tick k - timeout_tick (timers k tr) < RT_TICK_HALF"
      using due_test [of b k tr "rt_tick k"] none 0 by (auto simp: timers_sorted_def due_set_def)
    with Cons show ?thesis by (subst rt_timer_check_loop.simps) simp
  qed (subst rt_timer_check_loop.simps, simp)
  moreover have "filter (\<lambda>tr. due_in b k tr \<le> 1) (rt_timer_list k) = []" using none by (auto simp: due_set_def filter_empty_conv)
  ultimately show ?case using 0 none by simp
next
  case (Suc n)
  from Suc.hyps(2) obtain u where u: "u \<in> set (rt_timer_list k)" "due_in b k u \<le> 1"
    by (metis (no_types, lifting) card.empty due_set_def ex_in_conv mem_Collect_eq nat.distinct(1))
  then obtain tr rest where l: "rt_timer_list k = tr # rest" by (cases "rt_timer_list k") auto
  then have due: "due_in b k tr \<le> 1" using Suc.prems(6) u by (auto simp: timers_sorted_def)
  define k1 where "k1 = timer_fire cb tr k"
  note c = check_turn [OF Suc.prems(1,2,4-7) l due, folded k1_def]
  have "tr \<in> set (rt_timer_list k)" using l by simp
  note d = check_turn_calls [OF Suc.prems(1-3,5) this, folded k1_def]
  have trd: "tr \<in> due_set b k" using l due by (simp add: due_set_def)
  moreover have "finite (due_set b k)" by (simp add: due_set_def)
  ultimately have n: "n = card (due_set b k1)" using Suc.hyps(2) by (simp add: c(7))
  have ih: "sems k' = fold (timeout_effect g k1) (filter (\<lambda>tr. due_in b k1 tr \<le> 1) (rt_timer_list k1)) (sems k1) \<and>
    (\<forall>tr \<in> due_set b k1. timer_fired k1 k' tr) \<and> (\<forall>tr. tr \<notin> due_set b k1 \<longrightarrow> timers k' tr = timers k1 tr) \<and> rt_tick k' = rt_tick k1"
    using Suc.hyps(1) [OF n c(2) Suc.prems(2,3) c(3-5)] c(1,6) Suc.prems(7,8) by simp
  have "distinct (rt_timer_list k)" using kinvD(2) [OF Suc.prems(1)] by (simp add: timer_inv_def)
  then have rest: "filter (\<lambda>u. u \<noteq> tr) (rt_timer_list k) = rest" "tr \<notin> set rest" using l by (auto simp: filter_id_conv)
  have "filter (\<lambda>u. due_in b k1 u \<le> 1) (rt_timer_list k1) = filter (\<lambda>u. due_in b k u \<le> 1) (filter (\<lambda>u. u \<noteq> tr) (rt_timer_list k1))"
    unfolding filter_filter
  proof (rule filter_cong [OF refl])
    fix u assume "u \<in> set (rt_timer_list k1)"
    then show "due_in b k1 u \<le> 1 \<longleftrightarrow> u \<noteq> tr \<and> due_in b k u \<le> 1" using c(10) c(11) [of u] by (cases "u = tr") auto
  qed
  also have "\<dots> = filter (\<lambda>u. due_in b k u \<le> 1) rest" by (simp only: d(4) rest(1))
  finally have fl: "filter (\<lambda>u. due_in b k1 u \<le> 1) (rt_timer_list k1) = filter (\<lambda>u. due_in b k u \<le> 1) rest" .
  have "fold (timeout_effect g k1) (filter (\<lambda>u. due_in b k u \<le> 1) rest) s = fold (timeout_effect g k) (filter (\<lambda>u. due_in b k u \<le> 1) rest) s" for s
  proof (rule fold_cong [OF refl refl])
    fix u assume "u \<in> set (filter (\<lambda>u. due_in b k u \<le> 1) rest)"
    then have "u \<noteq> tr" using rest(2) by auto
    then show "timeout_effect g k1 u = timeout_effect g k u" using d(3) [of u] by (simp add: timeout_effect_def)
  qed
  then have "sems k' = fold (timeout_effect g k) (filter (\<lambda>tr. due_in b k tr \<le> 1) (rt_timer_list k)) (sems k)"
    using ih fl due by (simp add: l d(1))
  moreover have "timer_fired k k' v" if v: "v \<in> due_set b k" for v
  proof (cases "v = tr")
    case True
    then have "timers k' v = timers k1 v" using ih c(7) by simp
    then show ?thesis using d(2) ih True by (simp add: timer_fired_def)
  next
    case False
    then have "v \<in> due_set b k1" using v c(7) by simp
    then show ?thesis using ih d(3) [OF False] c(12) by (auto simp: timer_fired_def)
  qed
  moreover have "timers k' v = timers k v" if "v \<notin> due_set b k" for v
    using that trd ih c(7) d(3) [of v] by auto
  ultimately show ?case using ih c(6) by simp
qed

section \<open>The tick\<close>

lemma tick_slice_aux:
  assumes inv: "kinv k"
  shows "kinv (tick_slice k)" "timers (tick_slice k) = timers k" "rt_tick (tick_slice k) = rt_tick k + 1"
    "rt_timer_list (tick_slice k) = rt_timer_list k" "rt_soft_timer_list (tick_slice k) = rt_soft_timer_list k"
proof -
  have inv1: "kinv (k\<lparr>rt_tick := n\<rparr>)" for n using inv by (subst kinv_cong [of _ k]) simp_all
  show "kinv (tick_slice k)"
    using inv1 by (simp add: tick_slice_def rt_thread_yield_def Let_def kinv_upd_thread kinv_schedule split: option.split)
  show "timers (tick_slice k) = timers k" "rt_tick (tick_slice k) = rt_tick k + 1"
    "rt_timer_list (tick_slice k) = rt_timer_list k" "rt_soft_timer_list (tick_slice k) = rt_soft_timer_list k"
    by (simp_all add: tick_slice_def rt_thread_yield_def Let_def split: option.split)
qed

text \<open>Moving the base of the order on by one tick when no timer is due.\<close>

lemma due_in_step: "1 < due_in b k tr \<Longrightarrow> due_in (b + 1) k tr = due_in b k tr - 1"
proof -
  assume d: "1 < due_in b k tr"
  let ?x = "timeout_tick (timers k tr) - b"
  have "timeout_tick (timers k tr) - (b + 1) = ?x - 1" by simp
  moreover have "?x \<noteq> 0" using d by (auto simp: due_in_def)
  then have "unat (?x - 1) = unat ?x - 1" by (rule unat_minus_one)
  ultimately show ?thesis unfolding due_in_def by (metis One_nat_def)
qed

lemma timers_sorted_step:
  assumes "timers_sorted b k l" "\<forall>tr \<in> set l. 1 < due_in b k tr"
  shows "timers_sorted (b + 1) k l"
proof -
  have "sorted (map (due_in (b + 1) k) l) = sorted (map (\<lambda>tr. due_in b k tr - 1) l)"
    using assms(2) due_in_step by (metis (mono_tags, lifting) map_cong)
  moreover have "sorted (map (\<lambda>tr. due_in b k tr - 1) l)"
    using assms(1) by (auto simp: timers_sorted_def sorted_map elim!: sorted_wrt_mono_rel [rotated])
  ultimately show ?thesis using assms due_in_step by (auto simp: timers_sorted_def)
qed

lemma tick_increase_aux:
  assumes "kinv k" "cb_safe cb" "periods_ok k" "timeouts_ok k"
    "timers_sorted (rt_tick k) k (rt_timer_list k)"
  shows "\<exists>k'. rt_tick_increase cb k = Some k' \<and> kinv k' \<and> rt_tick k' = rt_tick k + 1 \<and>
    periods_ok k' \<and> timeouts_ok k' \<and> timers_sorted (rt_tick k') k' (rt_timer_list k') \<and>
    (\<forall>tr. tr \<in> set (rt_timer_list k') \<longleftrightarrow>
       tr \<in> set (rt_timer_list k) \<and> (1 < due_in (rt_tick k) k tr \<or> periodic k tr)) \<and>
    (\<forall>tr. 1 < due_in (rt_tick k) k tr \<longrightarrow> due_in (rt_tick k') k' tr = due_in (rt_tick k) k tr - 1) \<and>
    (cb_keeps_awake cb \<longrightarrow>
      (\<forall>t. ThreadTimer t \<in> set (rt_timer_list k) \<and> due_in (rt_tick k) k (ThreadTimer t) \<le> 1 \<or>
           timed_out (tick_slice k) t \<longrightarrow> timed_out k' t))"
proof -
  let ?k = "tick_slice k" and ?b = "rt_tick k"
  note t = tick_slice_aux [OF assms(1)]
  have d: "due_in b ?k tr = due_in b k tr" "periodic ?k tr = periodic k tr" for b tr
    by (simp_all add: due_in_def periodic_def t)
  have ds: "due_in b ?k = due_in b k" for b by (auto simp: d)
  have pre: "periods_ok ?k" "timeouts_ok ?k" "timers_sorted ?b ?k (rt_timer_list ?k)" "rt_tick ?k = ?b + 1"
    using assms(3-5) by (simp_all add: periods_ok_def timeouts_ok_def timers_sorted_def t ds)
  obtain k' where k': "rt_timer_check_loop cb (rt_tick ?k) ?k = Some k'" "kinv k'" "rt_tick k' = rt_tick ?k"
    "periods_ok k'" "timeouts_ok k'" "timers_sorted ?b k' (rt_timer_list k')"
    "\<forall>tr \<in> set (rt_timer_list k'). 1 < due_in ?b k' tr"
    "\<And>tr. tr \<in> set (rt_timer_list k') \<longleftrightarrow> tr \<in> set (rt_timer_list ?k) \<and> (1 < due_in ?b ?k tr \<or> periodic ?k tr)"
    "\<And>tr. 1 < due_in ?b ?k tr \<Longrightarrow> due_in ?b k' tr = due_in ?b ?k tr"
    using check_loop_aux [OF t(1) assms(2) pre] by blast
  have "timed_out k' u"
    if "cb_keeps_awake cb" "ThreadTimer u \<in> set (rt_timer_list k) \<and> due_in ?b k (ThreadTimer u) \<le> 1 \<or> timed_out ?k u" for u
    using check_loop_wakes [OF t(1) assms(2) that(1) pre k'(1)] that(2) by (simp add: due_set_def t d)
  moreover have "timers_sorted (rt_tick k') k' (rt_timer_list k')"
    using timers_sorted_step [OF k'(6,7)] k'(3) t(3) by simp
  moreover have "due_in (rt_tick k') k' tr = due_in ?b k tr - 1" if "1 < due_in ?b k tr" for tr
    using k'(9) [of tr] due_in_step [of ?b k' tr] that k'(3) t(3) by (simp add: d)
  ultimately show ?thesis
    using k' t by (auto simp: rt_tick_increase_def rt_timer_check_def rt_tick_get_def d)
qed

lemma tick_slice_sems [simp]: "sems (tick_slice k) = sems k"
  by (simp add: tick_slice_def rt_thread_yield_def Let_def split: option.split)

lemma tick_increase_calls:
  assumes "kinv k" "cb_safe cb" "cb_sems cb g" "periods_ok k" "timeouts_ok k"
    "timers_sorted (rt_tick k) k (rt_timer_list k)" "rt_tick_increase cb k = Some k'"
  shows "sems k' = fold (timeout_effect g k) (filter (\<lambda>tr. due_in (rt_tick k) k tr \<le> 1) (rt_timer_list k)) (sems k)"
    "tr \<in> set (rt_timer_list k) \<Longrightarrow> due_in (rt_tick k) k tr \<le> 1 \<Longrightarrow>
      (if periodic k tr then due_in (rt_tick k') k' tr = unat (init_tick (timers k tr))
       else timer_flag (timers k' tr) AND RT_TIMER_FLAG_ACTIVATED = 0)"
proof -
  let ?k = "tick_slice k" and ?b = "rt_tick k"
  note t = tick_slice_aux [OF assms(1)]
  have ds: "due_in b ?k = due_in b k" "periodic ?k = periodic k" "timeout_effect g ?k = timeout_effect g k" for b
    by (auto simp: due_in_def periodic_def timeout_effect_def t)
  have pre: "periods_ok ?k" "timeouts_ok ?k" "timers_sorted ?b ?k (rt_timer_list ?k)" "rt_tick ?k = ?b + 1"
    using assms(4-6) by (simp_all add: periods_ok_def timeouts_ok_def timers_sorted_def t ds)
  have "rt_timer_check_loop cb (rt_tick ?k) ?k = Some k'"
    using assms(7) by (simp add: rt_tick_increase_def rt_timer_check_def rt_tick_get_def)
  note c = check_loop_calls [OF t(1) assms(2,3) pre this]
  show "sems k' = fold (timeout_effect g k) (filter (\<lambda>tr. due_in ?b k tr \<le> 1) (rt_timer_list k)) (sems k)"
    using c by (simp add: ds t)
  assume "tr \<in> set (rt_timer_list k)" "due_in ?b k tr \<le> 1"
  then have "timer_fired ?k k' tr" using c by (simp add: due_set_def ds t)
  then show "if periodic k tr then due_in (rt_tick k') k' tr = unat (init_tick (timers k tr))
       else timer_flag (timers k' tr) AND RT_TIMER_FLAG_ACTIVATED = 0"
    by (auto simp: timer_fired_def ds t due_in_def split: if_splits)
qed

text \<open>Ticks in a row with nothing else happening.\<close>

fun run_ticks :: "(nat \<Rightarrow> kernel \<Rightarrow> kernel) \<Rightarrow> nat \<Rightarrow> kernel \<Rightarrow> kernel option" where
  "run_ticks cb 0 k = Some k"
| "run_ticks cb (Suc n) k = Option.bind (rt_tick_increase cb k) (run_ticks cb n)"

definition timers_good :: "kernel \<Rightarrow> bool" where
  "timers_good k \<longleftrightarrow> kinv k \<and> periods_ok k \<and> timeouts_ok k \<and> timers_sorted (rt_tick k) k (rt_timer_list k)"

lemma sleep_effect:
  assumes good: "timers_good k" and soft: "timers_sorted (rt_tick k) k (rt_soft_timer_list k)"
    and cur: "rt_current_thread k = Some t" "thread_stat k t = RT_THREAD_RUNNING"
    and tm: "timeout_func (timers k (ThreadTimer t)) = Thread_timeout t"
      "timer_flag (timers k (ThreadTimer t)) AND RT_TIMER_FLAG_SOFT_TIMER = 0"
    and tick: "tick < RT_TICK_HALF"
  shows "timers_good (rt_thread_sleep tick k)"
    "ThreadTimer t \<in> set (rt_timer_list (rt_thread_sleep tick k))"
    "due_in (rt_tick (rt_thread_sleep tick k)) (rt_thread_sleep tick k) (ThreadTimer t) = unat tick"
proof -
  let ?tr = "ThreadTimer t"
  have inv: "kinv k" and st: "thread_stat k t \<in> {RT_THREAD_READY, RT_THREAD_RUNNING}"
    using good cur by (simp_all add: timers_good_def)
  define k1 where "k1 = snd (rt_thread_suspend t k)"
  define k2 where "k2 = snd (snd (rt_timer_control ?tr RT_TIMER_CTRL_SET_TIME tick k1))"
  define k3 where "k3 = timer_start_link ?tr k2"
  have un: "?tr \<notin> set (rt_timer_list k)" "?tr \<notin> set (rt_soft_timer_list k)"
    using kinvD(2) [OF inv] cur(2) by (auto simp: timer_inv_def timer_ok_def rt_stat_defs)
  have k1: "rt_tick k1 = rt_tick k" "rt_timer_list k1 = rt_timer_list k" "rt_soft_timer_list k1 = rt_soft_timer_list k"
    "\<And>u. u \<noteq> ?tr \<Longrightarrow> timers k1 u = timers k u"
    "timeout_func (timers k1 ?tr) = timeout_func (timers k ?tr)"
    "timer_flag (timers k1 ?tr) AND RT_TIMER_FLAG_SOFT_TIMER = timer_flag (timers k ?tr) AND RT_TIMER_FLAG_SOFT_TIMER"
    "timer_flag (timers k1 ?tr) AND RT_TIMER_FLAG_PERIODIC = timer_flag (timers k ?tr) AND RT_TIMER_FLAG_PERIODIC"
    using st un by (auto simp: k1_def rt_thread_suspend_def rt_timer_stop_def Let_def filter_id_conv)
  have k2: "k2 = upd_timer ?tr (\<lambda>t. t\<lparr>init_tick := tick\<rparr>) k1"
    by (simp add: k2_def rt_timer_control_def RT_TIMER_CTRL_SET_TIME_def RT_TIMER_CTRL_GET_TIME_def)
  have flag: "timer_flag (timers k2 ?tr) AND RT_TIMER_FLAG_SOFT_TIMER = 0" using tm k1 by (simp add: k2)
  have e: "rt_thread_sleep tick k = rt_schedule k3"
    using flag cur(1) by (simp add: rt_thread_sleep_def rt_thread_self_def Let_def k3_def rt_timer_start_def
        start_link_timers k1_def [symmetric] k2_def [symmetric])
  have i: "init_tick (timers k2 ?tr) = tick" by (simp add: k2)
  have sk2: "timers_sorted (rt_tick k2) k2 (rt_timer_list k2)" "timers_sorted (rt_tick k2) k2 (rt_soft_timer_list k2)"
  proof -
    have k2s: "rt_tick k2 = rt_tick k" "rt_timer_list k2 = rt_timer_list k" "rt_soft_timer_list k2 = rt_soft_timer_list k"
      "\<And>u. u \<noteq> ?tr \<Longrightarrow> timers k2 u = timers k u"
      using k1 by (simp_all add: k2)
    have "timers_sorted b k2 l = timers_sorted b k l" if "?tr \<notin> set l" for b l
      using that k2s(4) by (intro timers_sorted_cong) metis
    then show "timers_sorted (rt_tick k2) k2 (rt_timer_list k2)" "timers_sorted (rt_tick k2) k2 (rt_soft_timer_list k2)"
      using good soft un unfolding timers_good_def k2s by simp_all
  qed
  have "timers_sorted (rt_tick k3) k3 (rt_timer_list k3)"
    unfolding k3_def using timers_sorted_start_link(1) [OF sk2, of ?tr] tick by (simp add: i word_less_nat_alt)
  moreover have "periods_ok k3" "timeouts_ok k3"
    using good k1 unfolding timers_good_def periods_ok_def timeouts_ok_def
    by (auto simp: k3_def start_link_timers k2)
  ultimately show "timers_good (rt_thread_sleep tick k)"
    using sleep_inv [OF inv cur tm(1), of tick] timers_sorted_cong [of "rt_timer_list k3" "rt_schedule k3" k3]
    by (simp add: timers_good_def e periods_ok_def timeouts_ok_def)
  show "?tr \<in> set (rt_timer_list (rt_thread_sleep tick k))"
    by (simp add: e k3_def start_link_hard(2) [OF flag])
  show "due_in (rt_tick (rt_thread_sleep tick k)) (rt_thread_sleep tick k) ?tr = unat tick"
    by (simp add: e due_in_def k3_def start_link_timers i)
qed

lemma run_ticks_aux:
  assumes "timers_good k" "cb_safe cb" "cb_keeps_awake cb"
    and "ThreadTimer t \<in> set (rt_timer_list k)" "due_in (rt_tick k) k (ThreadTimer t) = n" "0 < n"
  shows "m < n \<Longrightarrow> \<exists>k'. run_ticks cb m k = Some k' \<and> kinv k' \<and> thread_stat k' t = RT_THREAD_SUSPEND"
    "\<exists>k'. run_ticks cb n k = Some k' \<and> kinv k' \<and> timed_out k' t"
proof -
  note step = tick_increase_aux [OF _ assms(2)]
  have A: "\<exists>k'. run_ticks cb m k = Some k' \<and> timers_good k' \<and> ThreadTimer t \<in> set (rt_timer_list k') \<and>
      due_in (rt_tick k') k' (ThreadTimer t) = n - m" if "m < n" for m
    using assms that
  proof (induction m arbitrary: k n)
    case (Suc m)
    then obtain k1 where k1: "rt_tick_increase cb k = Some k1" "timers_good k1"
      "ThreadTimer t \<in> set (rt_timer_list k1)" "due_in (rt_tick k1) k1 (ThreadTimer t) = n - 1"
      using tick_increase_aux [of k cb] unfolding timers_good_def by fastforce
    have "n - 1 - m = n - Suc m" "0 < n - 1" "m < n - 1" using Suc.prems(7) by auto
    then show ?case using Suc.IH [OF k1(2) Suc.prems(2,3) k1(3,4)] k1(1) by auto
  qed simp
  have B: "run_ticks cb (m + i) k = Option.bind (run_ticks cb m k) (run_ticks cb i)" for m i k
    by (induction m arbitrary: k) (auto split: bind_split)
  show "\<exists>k'. run_ticks cb m k = Some k' \<and> kinv k' \<and> thread_stat k' t = RT_THREAD_SUSPEND" if mn: "m < n"
  proof -
    obtain k' where k': "run_ticks cb m k = Some k'" "timers_good k'" "ThreadTimer t \<in> set (rt_timer_list k')"
      using A [OF mn] by blast
    then have "thread_stat k' t = RT_THREAD_SUSPEND"
      by (auto simp: timers_good_def kinv_def timer_inv_def timer_ok_def)
    then show ?thesis using k' by (auto simp: timers_good_def)
  qed
  obtain k1 where k1: "run_ticks cb (n - 1) k = Some k1" "timers_good k1"
    "ThreadTimer t \<in> set (rt_timer_list k1)" "due_in (rt_tick k1) k1 (ThreadTimer t) = n - (n - 1)"
    using A [of "n - 1"] assms(6) by auto
  then obtain k2 where k2: "rt_tick_increase cb k1 = Some k2" "kinv k2" "timed_out k2 t"
    using tick_increase_aux [of k1 cb] assms(2,3) unfolding timers_good_def by fastforce
  have "run_ticks cb n k = Some k2" using B [of "n - 1" 1 k] k1(1) k2(1) assms(6) by (simp add: One_nat_def)
  then show "\<exists>k'. run_ticks cb n k = Some k' \<and> kinv k' \<and> timed_out k' t" using k2 by blast
qed

section \<open>Loops that never end\<close>

text \<open>A periodic hard timer of zero ticks, due now and alone on its list.\<close>

definition zero_period :: "nat \<Rightarrow> nat \<Rightarrow> kernel \<Rightarrow> bool" where
  "zero_period n m k \<longleftrightarrow> rt_timer_list k = [UserTimer n] \<and>
     (let t = timers k (UserTimer n) in
      timer_flag t AND RT_TIMER_FLAG_PERIODIC \<noteq> 0 \<and> timer_flag t AND RT_TIMER_FLAG_ACTIVATED \<noteq> 0 \<and>
      timer_flag t AND RT_TIMER_FLAG_SOFT_TIMER = 0 \<and> timeout_func t = User_timeout m \<and>
      init_tick t = 0 \<and> timeout_tick t = rt_tick k)"

lemma activated_nonzero [simp]: "RT_TIMER_FLAG_ACTIVATED \<noteq> 0"
  by (simp add: RT_TIMER_FLAG_ACTIVATED_def)

lemma zero_period_again:
  assumes "zero_period n m k" "\<And>k. cb m k = k"
  shows "zero_period n m (timer_fire cb (UserTimer n) k)" "rt_tick (timer_fire cb (UserTimer n) k) = rt_tick k"
  using assms
  by (simp_all add: zero_period_def timer_fire_def run_timeout_def timer_after_timeout_def Let_def
      rt_timer_start_def start_link_timers start_link_hard)

lemma check_loop_stuck_aux:
  assumes "zero_period n m k" "\<And>k. cb m k = k"
  shows "rt_timer_check_loop cb (rt_tick k) k = None"
proof -
  let ?P = "\<lambda>cb c k. zero_period n m k \<and> (\<forall>k. cb m k = k) \<and> c = rt_tick k"
  have "\<not> ?P cb c k" if "rt_timer_check_loop cb c k = Some y" for c y
    using that
  proof (rule rt_timer_check_loop.raw_induct [where P = "\<lambda>cb c k _. \<not> ?P cb c k", rotated], goal_cases)
    case (1 loop cb c k y)
    show ?case
    proof (rule notI, elim conjE)
      assume z: "zero_period n m k" and cb: "\<forall>k. cb m k = k" and c: "c = rt_tick k"
      let ?k = "timer_fire cb (UserTimer n) k"
      have "loop cb (rt_tick k) ?k = Some y"
        using 1(2) z cb c by (simp add: zero_period_def Let_def timer_fire_def run_timeout_def rt_tick_get_def tick_half)
      from 1(1) [OF this] zero_period_again [OF z, of cb] cb show False by simp
    qed
  qed
  from this [of "rt_tick k"] assms show ?thesis by (cases "rt_timer_check_loop cb (rt_tick k) k") simp_all
qed

text \<open>
  The soft timer check behind its first timer when the next one has been stopped by the
  timeout function: the saved pointer is a node off the list.
\<close>

definition stale_next :: "timer_ref \<Rightarrow> nat \<Rightarrow> kernel \<Rightarrow> bool" where
  "stale_next tr m k \<longleftrightarrow> tr \<notin> set (rt_soft_timer_list k) \<and>
     timer_flag (timers k tr) AND RT_TIMER_FLAG_ACTIVATED = 0 \<and> timeout_func (timers k tr) = User_timeout m \<and>
     rt_tick k - timeout_tick (timers k tr) < RT_TICK_HALF"

lemma list_succ_notin: "x \<notin> set xs \<Longrightarrow> list_succ xs x = None"
  by (induction xs) auto

lemma soft_loop_stale_aux:
  assumes "stale_next tr m k" "\<And>k. cb m k = k"
  shows "rt_soft_timer_check_loop cb (rt_tick k) (Some tr) k = None"
proof -
  let ?P = "\<lambda>cb c n k. stale_next tr m k \<and> (\<forall>k. cb m k = k) \<and> n = Some tr \<and> c = rt_tick k"
  have "\<not> ?P cb c n k" if "rt_soft_timer_check_loop cb c n k = Some y" for c n y
    using that
  proof (rule rt_soft_timer_check_loop.raw_induct [where P = "\<lambda>cb c n k _. \<not> ?P cb c n k", rotated], goal_cases)
    case (1 loop cb c n k y)
    show ?case
    proof (rule notI, elim conjE)
      assume z: "stale_next tr m k" and cb: "\<forall>k. cb m k = k" and n: "n = Some tr" and c: "c = rt_tick k"
      let ?a = "rt_exit_critical (timer_remove tr k)"
      let ?k = "timer_after_timeout tr (rt_enter_critical ?a)"
      have same: "timers ?a = timers k" "rt_tick ?a = rt_tick k" "rt_soft_timer_list ?a = rt_soft_timer_list k"
        using z by (auto simp: stale_next_def filter_id_conv)
      have "soft_next k tr = Some tr" using z by (simp add: stale_next_def soft_next_def list_succ_notin)
      then have "loop cb (rt_tick k) (Some tr) ?k = Some y"
        using 1(2) z cb n c same by (simp add: stale_next_def Let_def run_timeout_def rt_tick_get_def)
      from 1(1) [OF this] have "\<not> (stale_next tr m ?k \<and> rt_tick ?k = rt_tick k)" using cb by auto
      then show False using z same by (simp add: stale_next_def timer_after_timeout_def Let_def)
    qed
  qed
  from this [of "rt_tick k" "Some tr"] assms show ?thesis
    by (cases "rt_soft_timer_check_loop cb (rt_tick k) (Some tr) k") simp_all
qed

lemma soft_check_stale_aux:
  assumes l: "rt_soft_timer_list k = tr # tr' # rest" "distinct (rt_soft_timer_list k)"
    and f: "timeout_func (timers k tr) = User_timeout m" "timeout_func (timers k tr') = User_timeout m'"
      "timer_flag (timers k tr) AND RT_TIMER_FLAG_PERIODIC = 0" "timer_flag (timers k tr') AND RT_TIMER_FLAG_ACTIVATED \<noteq> 0"
    and due: "rt_tick k - timeout_tick (timers k tr) < RT_TICK_HALF" "rt_tick k - timeout_tick (timers k tr') < RT_TICK_HALF"
    and cb: "\<And>k. cb m k = snd (rt_timer_stop tr' k)" "\<And>k. cb m' k = k"
  shows "rt_soft_timer_check cb k = None"
proof -
  let ?j = "rt_enter_critical k"
  let ?a = "rt_exit_critical (timer_remove tr ?j)"
  let ?b = "snd (rt_timer_stop tr' ?a)"
  let ?k = "timer_after_timeout tr (rt_enter_critical ?b)"
  have ne: "tr \<noteq> tr'" using l by auto
  have same: "timers ?a = timers k" "rt_tick ?a = rt_tick k" "rt_soft_timer_list ?a = tr' # rest"
    using l by (auto simp: filter_id_conv)
  have k2: "rt_tick ?b = rt_tick k" "tr' \<notin> set (rt_soft_timer_list ?b)"
    "timers ?b = (timers k)(tr' := (timers k tr')\<lparr>timer_flag := timer_flag (timers k tr') AND NOT RT_TIMER_FLAG_ACTIVATED\<rparr>)"
    using same f(4) by (auto simp: rt_timer_stop_def)
  have nx: "soft_next ?j tr = Some tr'" using l by (simp add: soft_next_def)
  have "stale_next tr' m' ?k" "rt_tick ?k = rt_tick k"
    using k2 f due ne by (simp_all add: stale_next_def timer_after_timeout_def Let_def)
  then have "rt_soft_timer_check_loop cb (rt_tick k) (Some tr') ?k = None"
    using soft_loop_stale_aux [of tr' m' ?k cb] cb(2) by simp
  then have "rt_soft_timer_check_loop cb (rt_tick k) (Some tr) ?j = None"
    using due f same cb k2
    by (subst rt_soft_timer_check_loop.simps) (simp add: nx Let_def run_timeout_def rt_tick_get_def)
  then show ?thesis using l by (simp add: rt_soft_timer_check_def rt_tick_get_def Let_def)
qed

section \<open>Properties\<close>

text \<open>The three threads with their timers set up.\<close>

definition three_timed :: kernel where
  "three_timed = three_threads\<lparr>timers := (\<lambda>tr. \<lparr>timer_flag = 0,
     timeout_func = (case tr of ThreadTimer t \<Rightarrow> Thread_timeout t | UserTimer n \<Rightarrow> User_timeout n),
     init_tick = 0, timeout_tick = 0\<rparr>)\<rparr>"

lemma three_timed_good:
  "timers_good three_timed" "timers_sorted (rt_tick three_timed) three_timed (rt_soft_timer_list three_timed)"
  "rt_current_thread three_timed = Some 2" "thread_stat three_timed 2 = RT_THREAD_RUNNING"
  "timeout_func (timers three_timed (ThreadTimer 2)) = Thread_timeout 2"
  "timer_flag (timers three_timed (ThreadTimer 2)) AND RT_TIMER_FLAG_SOFT_TIMER = 0"
proof -
  have l: "rt_timer_list three_timed = []" "rt_soft_timer_list three_timed = []"
    by (simp_all add: three_timed_def three_threads_kinv)
  have "sched_inv three_timed"
    using three_threads_inv by (subst sched_inv_cong [of _ three_threads]) (simp_all add: three_timed_def sched_inv_def)
  moreover have "periods_ok three_timed" "timeouts_ok three_timed"
    by (auto simp: periods_ok_def timeouts_ok_def three_timed_def split: timer_ref.splits)
  ultimately show "timers_good three_timed"
    by (simp add: timers_good_def kinv_def timer_inv_def l timers_sorted_def)
  show "timers_sorted (rt_tick three_timed) three_timed (rt_soft_timer_list three_timed)"
    by (simp add: l timers_sorted_def)
  show "rt_current_thread three_timed = Some 2" "thread_stat three_timed 2 = RT_THREAD_RUNNING"
    using three_threads_simps(1) [of 2] three_threads_simps(4) by (simp_all add: three_timed_def thread_stat_def)
qed (simp_all add: three_timed_def)

lemma cb_id: "cb_safe (\<lambda>_ k. k)" "cb_keeps_awake (\<lambda>_ k. k)"
  by (simp_all add: cb_safe_def cb_keeps_awake_def)

text \<open>
  The three threads with two user timers on the list: a periodic one that is due at the next
  tick and a later one.
\<close>

definition two_armed :: kernel where
  "two_armed = three_timed\<lparr>rt_timer_list := [UserTimer 7, UserTimer 8],
     timers := (timers three_timed)
       (UserTimer 7 := \<lparr>timer_flag = 3, timeout_func = User_timeout 7, init_tick = 10, timeout_tick = rt_tick three_timed + 1\<rparr>,
        UserTimer 8 := \<lparr>timer_flag = 1, timeout_func = User_timeout 8, init_tick = 5, timeout_tick = rt_tick three_timed + 5\<rparr>)\<rparr>"

lemma two_armed_good: "timers_good two_armed"
proof -
  have s: "rt_soft_timer_list two_armed = []" by (simp add: two_armed_def three_timed_def three_threads_kinv)
  have l: "rt_timer_list two_armed = [UserTimer 7, UserTimer 8]" by (simp add: two_armed_def)
  have "sched_inv two_armed"
    using three_timed_good(1) by (subst sched_inv_cong(2) [of _ three_timed]) (simp_all add: two_armed_def timers_good_def kinv_def)
  moreover have "periods_ok two_armed" "timeouts_ok two_armed"
    using three_timed_good(1) unfolding timers_good_def
    by (auto simp: periods_ok_def timeouts_ok_def two_armed_def tick_half RT_TIMER_FLAG_PERIODIC_def)
  moreover have "timer_inv two_armed"
    by (simp add: timer_inv_def timer_ok_def s l, simp add: two_armed_def RT_TIMER_FLAG_ACTIVATED_def RT_TIMER_FLAG_SOFT_TIMER_def)
  moreover have "timers_sorted (rt_tick two_armed) two_armed (rt_timer_list two_armed)"
    by (simp add: timers_sorted_def l due_in_def two_armed_def tick_half)
  ultimately show ?thesis by (simp add: timers_good_def kinv_def)
qed

text \<open>
  C9: A tick fires exactly what is due.  When the timeout functions leave timers and tick
  alone and periods are at least one tick, the tick interrupt returns with the kernel
  invariant intact.  It calls the timeout function of every due timer, once and in the order
  of the list, and no other (seen through their effect \<open>g\<close> on the semaphores, whatever that
  is).  The timers left on the list, still in order, are those not due, each one tick
  closer, and the periodic ones, which run their whole period from now on; a due one-shot
  timer is no longer active, and every thread whose timer was due is ready or running with a
  timeout error.
\<close>

theorem tick_fires_due_timers:
  assumes "kinv k" "cb_safe cb" "cb_keeps_awake cb" "cb_sems cb g" "periods_ok k" "timeouts_ok k"
    "timers_sorted (rt_tick k) k (rt_timer_list k)"
  shows "\<exists>k'. rt_tick_increase cb k = Some k' \<and> kinv k' \<and> rt_tick k' = rt_tick k + 1 \<and>
    sems k' = fold (timeout_effect g k) (filter (\<lambda>tr. due_in (rt_tick k) k tr \<le> 1) (rt_timer_list k)) (sems k) \<and>
    timers_sorted (rt_tick k') k' (rt_timer_list k') \<and>
    (\<forall>tr. tr \<in> set (rt_timer_list k') \<longleftrightarrow>
       tr \<in> set (rt_timer_list k) \<and> (1 < due_in (rt_tick k) k tr \<or> periodic k tr)) \<and>
    (\<forall>tr. 1 < due_in (rt_tick k) k tr \<longrightarrow> due_in (rt_tick k') k' tr = due_in (rt_tick k) k tr - 1) \<and>
    (\<forall>tr \<in> set (rt_timer_list k). due_in (rt_tick k) k tr \<le> 1 \<longrightarrow>
       (if periodic k tr then due_in (rt_tick k') k' tr = unat (init_tick (timers k tr))
        else timer_flag (timers k' tr) AND RT_TIMER_FLAG_ACTIVATED = 0)) \<and>
    (\<forall>t. ThreadTimer t \<in> set (rt_timer_list k) \<and> due_in (rt_tick k) k (ThreadTimer t) \<le> 1 \<longrightarrow> timed_out k' t)"
proof -
  obtain k' where k': "rt_tick_increase cb k = Some k'" using tick_increase_aux [OF assms(1,2,5-7)] by blast
  note c = tick_increase_calls [OF assms(1,2,4-7) k']
  from tick_increase_aux [OF assms(1,2,5-7)] assms(3) k' have "kinv k' \<and> rt_tick k' = rt_tick k + 1 \<and>
    timers_sorted (rt_tick k') k' (rt_timer_list k') \<and>
    (\<forall>tr. tr \<in> set (rt_timer_list k') \<longleftrightarrow>
       tr \<in> set (rt_timer_list k) \<and> (1 < due_in (rt_tick k) k tr \<or> periodic k tr)) \<and>
    (\<forall>tr. 1 < due_in (rt_tick k) k tr \<longrightarrow> due_in (rt_tick k') k' tr = due_in (rt_tick k) k tr - 1) \<and>
    (\<forall>t. ThreadTimer t \<in> set (rt_timer_list k) \<and> due_in (rt_tick k) k (ThreadTimer t) \<le> 1 \<longrightarrow> timed_out k' t)"
    by auto
  then show ?thesis using k' c by blast
qed

theorem tick_fires_due_timers_witness:
  "\<exists>k'. rt_tick_increase (\<lambda>n k. k\<lparr>sems := count_sem n (sems k)\<rparr>) two_armed = Some k' \<and>
     sems k' = count_sem 7 (sems two_armed) \<and> due_in (rt_tick k') k' (UserTimer 7) = 10 \<and> due_in (rt_tick k') k' (UserTimer 8) = 4"
proof -
  let ?cb = "\<lambda>n k. k\<lparr>sems := count_sem n (sems k)\<rparr>"
  have "kinv (k\<lparr>sems := s\<rparr>) = kinv k" for k s by (rule kinv_cong) (simp_all add: thread_stat_def)
  then have cb: "cb_safe ?cb" "cb_keeps_awake ?cb" "cb_sems ?cb count_sem"
    by (simp_all add: cb_safe_def cb_keeps_awake_def cb_sems_def timed_out_def thread_stat_def)
  have d: "due_in (rt_tick two_armed) two_armed (UserTimer 7) = 1" "due_in (rt_tick two_armed) two_armed (UserTimer 8) = 5"
    "rt_timer_list two_armed = [UserTimer 7, UserTimer 8]" "init_tick (timers two_armed (UserTimer 7)) = 10"
    "periodic two_armed (UserTimer 7)" "timeout_effect g two_armed (UserTimer 7) = g 7" for g
    by (simp_all add: due_in_def two_armed_def periodic_def RT_TIMER_FLAG_PERIODIC_def timeout_effect_def)
  show ?thesis
    using tick_fires_due_timers [OF _ cb, of two_armed] two_armed_good
    unfolding timers_good_def by (fastforce simp: d)
qed

text \<open>
  C8: Sleeping ends on time.  A running thread that sleeps for \<open>tick\<close> ticks, more than zero
  and less than half the range, is suspended after every tick before that and, after
  exactly that many ticks, ready or running with a timeout error; every tick on the way
  returns.
\<close>

theorem sleep_wakes_on_time:
  assumes "timers_good k" "timers_sorted (rt_tick k) k (rt_soft_timer_list k)" "cb_safe cb" "cb_keeps_awake cb"
    and "rt_current_thread k = Some t" "thread_stat k t = RT_THREAD_RUNNING"
    and "timeout_func (timers k (ThreadTimer t)) = Thread_timeout t"
      "timer_flag (timers k (ThreadTimer t)) AND RT_TIMER_FLAG_SOFT_TIMER = 0"
    and "0 < tick" "tick < RT_TICK_HALF"
  shows "(\<forall>m < unat tick. \<exists>k'. run_ticks cb m (rt_thread_sleep tick k) = Some k' \<and> kinv k' \<and>
      thread_stat k' t = RT_THREAD_SUSPEND) \<and>
    (\<exists>k'. run_ticks cb (unat tick) (rt_thread_sleep tick k) = Some k' \<and> kinv k' \<and> timed_out k' t)"
proof -
  note s = sleep_effect [OF assms(1,2,5-8,10)]
  have "0 < unat tick" using assms(9) by (simp add: word_less_nat_alt)
  then show ?thesis using run_ticks_aux [OF s(1) assms(3,4) s(2,3)] by blast
qed

theorem sleep_wakes_on_time_witness:
  "\<exists>k'. run_ticks (\<lambda>_ k. k) 1000 (rt_thread_sleep 1000 three_timed) = Some k' \<and> timed_out k' 2"
  using sleep_wakes_on_time [OF three_timed_good(1,2) cb_id three_timed_good(3-6), of 1000]
  by (auto simp: tick_half)

text \<open>
  A periodic hard timer of zero ticks stops the system: when it is due, the check in
  the tick interrupt never returns.
\<close>

theorem timer_check_zero_period:
  assumes "zero_period n m k" "\<And>k. cb m k = k"
  shows "rt_timer_check cb k = None"
  using check_loop_stuck_aux [of n m k cb] assms by (simp add: rt_timer_check_def rt_tick_get_def)

theorem timer_check_zero_period_witness:
  "rt_timer_check (\<lambda>_ k. k) (kernel_zero\<lparr>rt_timer_list := [UserTimer 0],
     timers := (\<lambda>_. \<lparr>timer_flag = 3, timeout_func = User_timeout 0, init_tick = 0, timeout_tick = 0\<rparr>)\<rparr>) = None"
  by (rule timer_check_zero_period [of 0 0])
    (simp_all add: zero_period_def kernel_zero_def RT_TIMER_FLAG_ACTIVATED_def RT_TIMER_FLAG_PERIODIC_def
      RT_TIMER_FLAG_SOFT_TIMER_def)

text \<open>
  The soft timer check keeps a pointer to the next timer while it runs a timeout
  function.  When that function stops the next timer, which is also due, the check never
  returns: the pointer is to a node linked to itself.
\<close>

theorem soft_timer_check_stale_next:
  assumes "rt_soft_timer_list k = tr # tr' # rest" "distinct (rt_soft_timer_list k)"
    and "timeout_func (timers k tr) = User_timeout m" "timeout_func (timers k tr') = User_timeout m'"
      "timer_flag (timers k tr) AND RT_TIMER_FLAG_PERIODIC = 0" "timer_flag (timers k tr') AND RT_TIMER_FLAG_ACTIVATED \<noteq> 0"
    and "rt_tick k - timeout_tick (timers k tr) < RT_TICK_HALF" "rt_tick k - timeout_tick (timers k tr') < RT_TICK_HALF"
    and "\<And>k. cb m k = snd (rt_timer_stop tr' k)" "\<And>k. cb m' k = k"
  shows "rt_soft_timer_check cb k = None"
  by (rule soft_check_stale_aux [of k tr tr' rest m m']) (use assms in simp_all)

theorem soft_timer_check_stale_next_witness:
  "rt_soft_timer_check (\<lambda>n k. if n = 0 then snd (rt_timer_stop (UserTimer 1) k) else k)
     (kernel_zero\<lparr>rt_soft_timer_list := [UserTimer 0, UserTimer 1],
       timers := (\<lambda>tr. \<lparr>timer_flag = 5, timeout_func = (if tr = UserTimer 0 then User_timeout 0 else User_timeout 1),
         init_tick = 1, timeout_tick = 0\<rparr>)\<rparr>) = None"
  by (rule soft_timer_check_stale_next [of _ "UserTimer 0" "UserTimer 1" "[]" 0 1])
    (simp_all add: kernel_zero_def RT_TIMER_FLAG_ACTIVATED_def RT_TIMER_FLAG_PERIODIC_def tick_half)

end
