(* ===== verification/Ipc.thy ===== *)
theory Ipc
  imports TimerCheck
begin

text \<open>
  Semaphores, mutexes and events (ipc.c, lines 60 to 1276).  A call that can block is two
  definitions: the call up to its \<open>rt_schedule\<close>, and the rest, named \<open>_wake\<close>, that the
  thread runs when it is scheduled again.  The first returns \<open>None\<close> when the caller has been
  suspended, and \<open>Some\<close> of the result when it returns at once.  The calls are made from a
  thread: without a current thread, where the code would follow a null pointer, they are
  \<open>None\<close> too.
\<close>

section \<open>Suspend lists\<close>

definition rt_ipc_object_init :: "qhead \<Rightarrow> kernel \<Rightarrow> kernel" where
  "rt_ipc_object_init h k = k\<lparr>queue := (queue k)(h := [])\<rparr>"

text \<open>The loop that finds the place of a thread in a list kept by priority.\<close>

fun ipc_insert :: "(tid \<Rightarrow> nat) \<Rightarrow> tid \<Rightarrow> tid list \<Rightarrow> tid list" where
  "ipc_insert prio t [] = [t]"
| "ipc_insert prio t (s # ss) = (if prio t < prio s then t # s # ss else s # ipc_insert prio t ss)"

definition rt_ipc_list_suspend :: "qhead \<Rightarrow> tid \<Rightarrow> u8 \<Rightarrow> kernel \<Rightarrow> kernel" where
  "rt_ipc_list_suspend h t flag k =
     (let k1 = snd (rt_thread_suspend t k)
      in if flag = RT_IPC_FLAG_FIFO then tlist_insert_before h t k1
         else if flag = RT_IPC_FLAG_PRIO
         then k1\<lparr>queue := (queue k1)
                (h := ipc_insert (\<lambda>u. current_priority (threads k1 u)) t (queue k1 h))\<rparr>
         else k1)"

text \<open>The callers have seen that the list is not empty.\<close>

definition rt_ipc_list_resume :: "qhead \<Rightarrow> kernel \<Rightarrow> kernel" where
  "rt_ipc_list_resume h k =
     (case queue k h of [] \<Rightarrow> k | t # _ \<Rightarrow> snd (rt_thread_resume t k))"

partial_function (option) rt_ipc_list_resume_all :: "qhead \<Rightarrow> kernel \<Rightarrow> kernel option" where
  "rt_ipc_list_resume_all h k =
     (case queue k h of
        [] \<Rightarrow> Some k
      | t # _ \<Rightarrow>
          let k1 = upd_thread t (\<lambda>th. th\<lparr>thread_error := - RT_ERROR\<rparr>) k
          in rt_ipc_list_resume_all h (snd (rt_thread_resume t k1)))"

text \<open>
  What every blocking call does with its thread: suspend it on the list and, when there is
  a limit, start the thread's timer.  The signed \<open>time\<close> is read through a pointer to ticks.
\<close>

definition ipc_wait :: "qhead \<Rightarrow> tid \<Rightarrow> u8 \<Rightarrow> int \<Rightarrow> kernel \<Rightarrow> kernel" where
  "ipc_wait h t flag time k =
     (let k1 = rt_ipc_list_suspend h t flag k
      in if time > 0
         then snd (rt_timer_start (ThreadTimer t)
                (snd (snd (rt_timer_control (ThreadTimer t) RT_TIMER_CTRL_SET_TIME (of_int time) k1))))
         else k1)"

definition RT_IPC_CMD_RESET :: nat where "RT_IPC_CMD_RESET = 1"

section \<open>Semaphores\<close>

definition upd_sem :: "nat \<Rightarrow> (rt_semaphore \<Rightarrow> rt_semaphore) \<Rightarrow> kernel \<Rightarrow> kernel" where
  "upd_sem s f k = k\<lparr>sems := (sems k)(s := f (sems k s))\<rparr>"

definition rt_sem_init :: "nat \<Rightarrow> string \<Rightarrow> u32 \<Rightarrow> u8 \<Rightarrow> kernel \<Rightarrow> rt_err_t \<times> kernel" where
  "rt_sem_init s name value flag k =
     (let k1 = rt_ipc_object_init (SemQ s) (rt_object_init (OSem s) RT_Object_Class_Semaphore name k)
      in (RT_EOK, upd_sem s (\<lambda>m. m\<lparr>sem_value := ucast value, sem_flag := flag\<rparr>) k1))"

definition rt_sem_detach :: "nat \<Rightarrow> kernel \<Rightarrow> (rt_err_t \<times> kernel) option" where
  "rt_sem_detach s k =
     map_option (\<lambda>k1. (RT_EOK, rt_object_detach (OSem s) k1)) (rt_ipc_list_resume_all (SemQ s) k)"

definition rt_sem_create ::
  "object_ref option \<Rightarrow> string \<Rightarrow> u32 \<Rightarrow> u8 \<Rightarrow> kernel \<Rightarrow> nat option \<times> kernel" where
  "rt_sem_create mem name value flag k =
     (case rt_object_allocate mem RT_Object_Class_Semaphore name k of
        (Some (OSem s), k1) \<Rightarrow>
          (Some s, upd_sem s (\<lambda>m. m\<lparr>sem_value := ucast value, sem_flag := flag\<rparr>) (rt_ipc_object_init (SemQ s) k1))
      | (_, k1) \<Rightarrow> (None, k1))"

definition rt_sem_delete :: "nat \<Rightarrow> kernel \<Rightarrow> (rt_err_t \<times> kernel) option" where
  "rt_sem_delete s k =
     map_option (\<lambda>k1. (RT_EOK, rt_object_delete (OSem s) k1)) (rt_ipc_list_resume_all (SemQ s) k)"

definition rt_sem_take :: "nat \<Rightarrow> int \<Rightarrow> kernel \<Rightarrow> rt_err_t option \<times> kernel" where
  "rt_sem_take s time k =
     (if sem_value (sems k s) > 0
      then (Some RT_EOK, upd_sem s (\<lambda>m. m\<lparr>sem_value := sem_value m - 1\<rparr>) k)
      else if time = 0 then (Some (- RT_ETIMEOUT), k)
      else
        (case rt_thread_self k of
           None \<Rightarrow> (None, k)
         | Some t \<Rightarrow>
             let k1 = upd_thread t (\<lambda>th. th\<lparr>thread_error := RT_EOK\<rparr>) k
             in (None, rt_schedule (ipc_wait (SemQ s) t (sem_flag (sems k1 s)) time k1))))"

definition rt_sem_take_wake :: "tid \<Rightarrow> kernel \<Rightarrow> rt_err_t" where
  "rt_sem_take_wake t k =
     (if thread_error (threads k t) \<noteq> RT_EOK then thread_error (threads k t) else RT_EOK)"

definition rt_sem_trytake :: "nat \<Rightarrow> kernel \<Rightarrow> rt_err_t option \<times> kernel" where
  "rt_sem_trytake s k = rt_sem_take s 0 k"

definition rt_sem_release :: "nat \<Rightarrow> kernel \<Rightarrow> rt_err_t \<times> kernel" where
  "rt_sem_release s k =
     (if queue k (SemQ s) \<noteq> [] then (RT_EOK, rt_schedule (rt_ipc_list_resume (SemQ s) k))
      else (RT_EOK, upd_sem s (\<lambda>m. m\<lparr>sem_value := sem_value m + 1\<rparr>) k))"

definition rt_sem_control :: "nat \<Rightarrow> nat \<Rightarrow> u32 \<Rightarrow> kernel \<Rightarrow> (rt_err_t \<times> kernel) option" where
  "rt_sem_control s cmd arg k =
     (if cmd = RT_IPC_CMD_RESET
      then map_option (\<lambda>k1. (RT_EOK, rt_schedule (upd_sem s (\<lambda>m. m\<lparr>sem_value := ucast arg\<rparr>) k1)))
             (rt_ipc_list_resume_all (SemQ s) k)
      else Some (- RT_ERROR, k))"

section \<open>Mutexes\<close>

definition upd_mutex :: "nat \<Rightarrow> (rt_mutex \<Rightarrow> rt_mutex) \<Rightarrow> kernel \<Rightarrow> kernel" where
  "upd_mutex m f k = k\<lparr>mutexes := (mutexes k)(m := f (mutexes k m))\<rparr>"

definition mutex_fresh :: "u8 \<Rightarrow> rt_mutex" where
  "mutex_fresh flag = \<lparr>mutex_flag = flag, mutex_value = 1, original_priority = 0xFF, hold = 0, owner = None\<rparr>"

definition rt_mutex_init :: "nat \<Rightarrow> string \<Rightarrow> u8 \<Rightarrow> kernel \<Rightarrow> rt_err_t \<times> kernel" where
  "rt_mutex_init m name flag k =
     (let k1 = rt_ipc_object_init (MutexQ m) (rt_object_init (OMutex m) RT_Object_Class_Mutex name k)
      in (RT_EOK, upd_mutex m (\<lambda>_. mutex_fresh flag) k1))"

definition rt_mutex_detach :: "nat \<Rightarrow> kernel \<Rightarrow> (rt_err_t \<times> kernel) option" where
  "rt_mutex_detach m k =
     map_option (\<lambda>k1. (RT_EOK, rt_object_detach (OMutex m) k1)) (rt_ipc_list_resume_all (MutexQ m) k)"

definition rt_mutex_create :: "object_ref option \<Rightarrow> string \<Rightarrow> u8 \<Rightarrow> kernel \<Rightarrow> nat option \<times> kernel" where
  "rt_mutex_create mem name flag k =
     (case rt_object_allocate mem RT_Object_Class_Mutex name k of
        (Some (OMutex m), k1) \<Rightarrow>
          (Some m, upd_mutex m (\<lambda>_. mutex_fresh flag) (rt_ipc_object_init (MutexQ m) k1))
      | (_, k1) \<Rightarrow> (None, k1))"

definition rt_mutex_delete :: "nat \<Rightarrow> kernel \<Rightarrow> (rt_err_t \<times> kernel) option" where
  "rt_mutex_delete m k =
     map_option (\<lambda>k1. (RT_EOK, rt_object_delete (OMutex m) k1)) (rt_ipc_list_resume_all (MutexQ m) k)"

text \<open>The part of \<open>rt_mutex_take\<close> from the label \<open>__again\<close>.\<close>

definition mutex_take_again :: "nat \<Rightarrow> int \<Rightarrow> tid \<Rightarrow> kernel \<Rightarrow> rt_err_t option \<times> kernel" where
  "mutex_take_again m time t k =
     (if mutex_value (mutexes k m) > 0
      then (Some RT_EOK,
            upd_mutex m (\<lambda>x. x\<lparr>mutex_value := mutex_value x - 1, owner := Some t,
              original_priority := current_priority (threads k t), hold := hold x + 1\<rparr>) k)
      else if time = 0
      then (Some (- RT_ETIMEOUT), upd_thread t (\<lambda>th. th\<lparr>thread_error := - RT_ETIMEOUT\<rparr>) k)
      else
        (case owner (mutexes k m) of
           None \<Rightarrow> (None, k)
         | Some w \<Rightarrow>
             let k1 = (if current_priority (threads k t) < current_priority (threads k w)
                       then snd (rt_thread_control w RT_THREAD_CTRL_CHANGE_PRIORITY
                                   (current_priority (threads k t)) k)
                       else k)
             in (None, rt_schedule (ipc_wait (MutexQ m) t (mutex_flag (mutexes k1 m)) time k1))))"

definition rt_mutex_take :: "nat \<Rightarrow> int \<Rightarrow> kernel \<Rightarrow> rt_err_t option \<times> kernel" where
  "rt_mutex_take m time k =
     (case rt_thread_self k of
        None \<Rightarrow> (None, k)
      | Some t \<Rightarrow>
          let k1 = upd_thread t (\<lambda>th. th\<lparr>thread_error := RT_EOK\<rparr>) k
          in if owner (mutexes k1 m) = Some t
             then (Some RT_EOK, upd_mutex m (\<lambda>x. x\<lparr>hold := hold x + 1\<rparr>) k1)
             else mutex_take_again m time t k1)"

definition rt_mutex_take_wake :: "nat \<Rightarrow> int \<Rightarrow> tid \<Rightarrow> kernel \<Rightarrow> rt_err_t option \<times> kernel" where
  "rt_mutex_take_wake m time t k =
     (if thread_error (threads k t) \<noteq> RT_EOK
      then if thread_error (threads k t) = - RT_EINTR then mutex_take_again m time t k
           else (Some (thread_error (threads k t)), k)
      else (Some RT_EOK, k))"

text \<open>
  The release hands the mutex to the first waiting thread, whose priority becomes the one
  to restore.
\<close>

definition mutex_hand_over :: "nat \<Rightarrow> kernel \<Rightarrow> kernel" where
  "mutex_hand_over m k =
     (case queue k (MutexQ m) of
        t # _ \<Rightarrow>
          let k1 = upd_mutex m (\<lambda>x. x\<lparr>owner := Some t, original_priority := current_priority (threads k t),
                                   hold := hold x + 1\<rparr>) k
          in rt_schedule (rt_ipc_list_resume (MutexQ m) k1)
      | [] \<Rightarrow>
          upd_mutex m (\<lambda>x. x\<lparr>mutex_value := mutex_value x + 1, owner := None, original_priority := 0xff\<rparr>) k)"

definition rt_mutex_release :: "nat \<Rightarrow> kernel \<Rightarrow> rt_err_t option \<times> kernel" where
  "rt_mutex_release m k =
     (case rt_thread_self k of
        None \<Rightarrow> (None, k)
      | Some t \<Rightarrow>
          if owner (mutexes k m) \<noteq> Some t
          then (Some (- RT_ERROR), upd_thread t (\<lambda>th. th\<lparr>thread_error := - RT_ERROR\<rparr>) k)
          else
            let k1 = upd_mutex m (\<lambda>x. x\<lparr>hold := hold x - 1\<rparr>) k
            in if hold (mutexes k1 m) = 0
               then
                 let k2 = (if original_priority (mutexes k1 m) \<noteq> current_priority (threads k1 t)
                           then snd (rt_thread_control t RT_THREAD_CTRL_CHANGE_PRIORITY
                                       (original_priority (mutexes k1 m)) k1)
                           else k1)
                 in (Some RT_EOK, mutex_hand_over m k2)
               else (Some RT_EOK, k1))"

definition rt_mutex_control :: "nat \<Rightarrow> nat \<Rightarrow> u32 \<Rightarrow> kernel \<Rightarrow> rt_err_t \<times> kernel" where
  "rt_mutex_control m cmd arg k = (- RT_ERROR, k)"

section \<open>Events\<close>

definition RT_EVENT_FLAG_AND :: u8 where "RT_EVENT_FLAG_AND = 1"
definition RT_EVENT_FLAG_OR :: u8 where "RT_EVENT_FLAG_OR = 2"
definition RT_EVENT_FLAG_CLEAR :: u8 where "RT_EVENT_FLAG_CLEAR = 4"

definition upd_event :: "nat \<Rightarrow> (rt_event \<Rightarrow> rt_event) \<Rightarrow> kernel \<Rightarrow> kernel" where
  "upd_event e f k = k\<lparr>events := (events k)(e := f (events k e))\<rparr>"

definition rt_event_init :: "nat \<Rightarrow> string \<Rightarrow> u8 \<Rightarrow> kernel \<Rightarrow> rt_err_t \<times> kernel" where
  "rt_event_init e name flag k =
     (let k1 = rt_ipc_object_init (EventQ e) (rt_object_init (OEvent e) RT_Object_Class_Event name k)
      in (RT_EOK, upd_event e (\<lambda>_. \<lparr>event_flag = flag, event_bits = 0\<rparr>) k1))"

definition rt_event_detach :: "nat \<Rightarrow> kernel \<Rightarrow> (rt_err_t \<times> kernel) option" where
  "rt_event_detach e k =
     map_option (\<lambda>k1. (RT_EOK, rt_object_detach (OEvent e) k1)) (rt_ipc_list_resume_all (EventQ e) k)"

definition rt_event_create :: "object_ref option \<Rightarrow> string \<Rightarrow> u8 \<Rightarrow> kernel \<Rightarrow> nat option \<times> kernel" where
  "rt_event_create mem name flag k =
     (case rt_object_allocate mem RT_Object_Class_Event name k of
        (Some (OEvent e), k1) \<Rightarrow>
          (Some e, upd_event e (\<lambda>_. \<lparr>event_flag = flag, event_bits = 0\<rparr>) (rt_ipc_object_init (EventQ e) k1))
      | (_, k1) \<Rightarrow> (None, k1))"

definition rt_event_delete :: "nat \<Rightarrow> kernel \<Rightarrow> (rt_err_t \<times> kernel) option" where
  "rt_event_delete e k =
     map_option (\<lambda>k1. (RT_EOK, rt_object_delete (OEvent e) k1)) (rt_ipc_list_resume_all (EventQ e) k)"

text \<open>What a thread waits for, tested against the events that are set.\<close>

definition event_match :: "u8 \<Rightarrow> u32 \<Rightarrow> u32 \<Rightarrow> bool" where
  "event_match info want have =
     (if info AND RT_EVENT_FLAG_AND \<noteq> 0 then want AND have = want
      else if info AND RT_EVENT_FLAG_OR \<noteq> 0 then want AND have \<noteq> 0
      else False)"

text \<open>One waiting thread in the loop of \<open>rt_event_send\<close>.\<close>

definition event_send_one :: "nat \<Rightarrow> tid \<Rightarrow> kernel \<Rightarrow> bool \<times> kernel" where
  "event_send_one e t k =
     (let info = event_info (threads k t); want = event_set (threads k t); now = event_bits (events k e)
      in if event_match info want now
         then
           let k1 = (if info AND RT_EVENT_FLAG_AND \<noteq> 0 then k
                     else upd_thread t (\<lambda>th. th\<lparr>event_set := want AND now\<rparr>) k);
               k2 = (if info AND RT_EVENT_FLAG_CLEAR \<noteq> 0
                     then upd_event e (\<lambda>x. x\<lparr>event_bits := event_bits x AND NOT (event_set (threads k1 t))\<rparr>) k1
                     else k1)
           in (True, snd (rt_thread_resume t k2))
         else (False, k))"

text \<open>The loop moves to the next node before it resumes a thread, so it visits the list as it was.\<close>

fun event_send_loop :: "nat \<Rightarrow> tid list \<Rightarrow> bool \<Rightarrow> kernel \<Rightarrow> bool \<times> kernel" where
  "event_send_loop e [] need k = (need, k)"
| "event_send_loop e (t # ts) need k =
     (let (woken, k1) = event_send_one e t k in event_send_loop e ts (need \<or> woken) k1)"

definition rt_event_send :: "nat \<Rightarrow> u32 \<Rightarrow> kernel \<Rightarrow> rt_err_t \<times> kernel" where
  "rt_event_send e ev k =
     (if ev = 0 then (- RT_ERROR, k)
      else
        let k1 = upd_event e (\<lambda>x. x\<lparr>event_bits := event_bits x OR ev\<rparr>) k;
            (need, k2) = event_send_loop e (queue k1 (EventQ e)) False k1
        in (RT_EOK, if need then rt_schedule k2 else k2))"

text \<open>The second component is what is stored through \<open>recved\<close>, if anything.\<close>

definition rt_event_recv ::
  "nat \<Rightarrow> u32 \<Rightarrow> u8 \<Rightarrow> int \<Rightarrow> kernel \<Rightarrow> rt_err_t option \<times> u32 option \<times> kernel" where
  "rt_event_recv e want opt timeout k =
     (if want = 0 then (Some (- RT_ERROR), None, k)
      else
        (case rt_thread_self k of
           None \<Rightarrow> (None, None, k)
         | Some t \<Rightarrow>
             let k1 = upd_thread t (\<lambda>th. th\<lparr>thread_error := RT_EOK\<rparr>) k;
                 now = event_bits (events k1 e)
             in if event_match opt want now
                then (Some RT_EOK, Some (now AND want),
                      if opt AND RT_EVENT_FLAG_CLEAR \<noteq> 0
                      then upd_event e (\<lambda>x. x\<lparr>event_bits := event_bits x AND NOT want\<rparr>) k1 else k1)
                else if timeout = 0
                then (Some (- RT_ETIMEOUT), None, upd_thread t (\<lambda>th. th\<lparr>thread_error := - RT_ETIMEOUT\<rparr>) k1)
                else
                  let k2 = upd_thread t (\<lambda>th. th\<lparr>event_set := want, event_info := opt\<rparr>) k1
                  in (None, None, rt_schedule (ipc_wait (EventQ e) t (event_flag (events k2 e)) timeout k2))))"

definition rt_event_recv_wake :: "tid \<Rightarrow> kernel \<Rightarrow> rt_err_t \<times> u32 option" where
  "rt_event_recv_wake t k =
     (if thread_error (threads k t) \<noteq> RT_EOK then (thread_error (threads k t), None)
      else (thread_error (threads k t), Some (event_set (threads k t))))"

definition rt_event_control :: "nat \<Rightarrow> nat \<Rightarrow> u32 \<Rightarrow> kernel \<Rightarrow> (rt_err_t \<times> kernel) option" where
  "rt_event_control e cmd arg k =
     (if cmd = RT_IPC_CMD_RESET
      then map_option (\<lambda>k1. (RT_EOK, rt_schedule (upd_event e (\<lambda>x. x\<lparr>event_bits := 0\<rparr>) k1)))
             (rt_ipc_list_resume_all (EventQ e) k)
      else Some (- RT_ERROR, k))"

section \<open>Lemmas: frames\<close>

lemma upd_ipc_frame [simp]:
  "threads (upd_sem s f k) = threads k" "queue (upd_sem s f k) = queue k"
  "rt_current_thread (upd_sem s f k) = rt_current_thread k" "timers (upd_sem s f k) = timers k"
  "mutexes (upd_sem s f k) = mutexes k" "events (upd_sem s f k) = events k"
  "threads (upd_mutex m g k) = threads k" "queue (upd_mutex m g k) = queue k"
  "rt_current_thread (upd_mutex m g k) = rt_current_thread k" "timers (upd_mutex m g k) = timers k"
  "sems (upd_mutex m g k) = sems k" "events (upd_mutex m g k) = events k"
  "threads (upd_event e h k) = threads k" "queue (upd_event e h k) = queue k"
  "rt_current_thread (upd_event e h k) = rt_current_thread k" "timers (upd_event e h k) = timers k"
  "sems (upd_event e h k) = sems k" "mutexes (upd_event e h k) = mutexes k"
  "rt_scheduler_lock_nest (upd_sem s f k) = rt_scheduler_lock_nest k"
  "rt_scheduler_lock_nest (upd_mutex m g k) = rt_scheduler_lock_nest k"
  "rt_scheduler_lock_nest (upd_event e h k) = rt_scheduler_lock_nest k"
  by (simp_all add: upd_sem_def upd_mutex_def upd_event_def)

lemma upd_ipc_self [simp]:
  "sems (upd_sem s f k) = (sems k)(s := f (sems k s))"
  "mutexes (upd_mutex m g k) = (mutexes k)(m := g (mutexes k m))"
  "events (upd_event e h k) = (events k)(e := h (events k e))"
  by (simp_all add: upd_sem_def upd_mutex_def upd_event_def)

lemma thread_stat_upd_ipc [simp]:
  "thread_stat (upd_sem s f k) t = thread_stat k t" "thread_stat (upd_mutex m g k) t = thread_stat k t"
  "thread_stat (upd_event e h k) t = thread_stat k t"
  by (simp_all add: thread_stat_def)

lemma kinv_upd_ipc [simp]:
  "kinv (upd_sem s f k) = kinv k" "kinv (upd_mutex m g k) = kinv k" "kinv (upd_event e h k) = kinv k"
  by (rule kinv_cong; simp add: thread_stat_def upd_sem_def upd_mutex_def upd_event_def)+

section \<open>Lemmas: suspend lists\<close>

text \<open>The queues of threads that wait.\<close>

definition wait_queue :: "qhead \<Rightarrow> bool" where
  "wait_queue h \<longleftrightarrow> h \<notin> range ReadyQ \<and> h \<noteq> Defunct"

lemma wait_queue_simps [simp]:
  "wait_queue (SemQ s)" "wait_queue (MutexQ s)" "wait_queue (EventQ s)" "wait_queue (MbQ s)"
  "wait_queue (MbSendQ s)" "wait_queue (MqQ s)" "wait_queue (MpQ s)" "\<not> wait_queue (ReadyQ p)" "\<not> wait_queue Defunct"
  by (auto simp: wait_queue_def)

lemma wait_queue_stat: "wait_queue h \<Longrightarrow> queue_stat k h t = (thread_stat k t = RT_THREAD_SUSPEND)"
  by (cases h) (auto simp: wait_queue_def queue_stat_def)

lemma waiting_suspended:
  "kinv k \<Longrightarrow> wait_queue h \<Longrightarrow> t \<in> set (queue k h) \<Longrightarrow> thread_stat k t = RT_THREAD_SUSPEND"
  using thread_okD(1) [OF sched_invD(1) [OF kinvD(1)], of k t h] wait_queue_stat by blast

lemma ipc_insert_set [simp]: "set (ipc_insert p t xs) = insert t (set xs)"
  by (induction xs) auto

lemma ipc_insert_distinct [simp]: "distinct (ipc_insert p t xs) \<longleftrightarrow> t \<notin> set xs \<and> distinct xs"
  by (induction xs) auto

lemma ipc_insert_sorted:
  "sorted (map p xs) \<Longrightarrow> sorted (map p (ipc_insert p t xs))"
  by (induction xs) (auto simp: not_less intro: order_trans less_imp_le)

text \<open>The new thread goes behind its equals and in front of the rest.\<close>

lemma ipc_insert_eq:
  "sorted (map p xs) \<Longrightarrow> ipc_insert p t xs = filter (\<lambda>u. p u \<le> p t) xs @ t # filter (\<lambda>u. p t < p u) xs"
proof (induction xs)
  case (Cons s ss)
  show ?case
  proof (cases "p t < p s")
    case True
    then have "\<forall>u \<in> set (s # ss). p t < p u" using Cons.prems by auto
    then have "filter (\<lambda>u. p u \<le> p t) (s # ss) = []" "filter (\<lambda>u. p t < p u) (s # ss) = s # ss"
      by (auto simp: filter_empty_conv filter_id_conv not_le)
    then show ?thesis using True by simp
  qed (use Cons in auto)
qed simp

definition ipc_order :: "u8 \<Rightarrow> (tid \<Rightarrow> nat) \<Rightarrow> tid \<Rightarrow> tid list \<Rightarrow> tid list" where
  "ipc_order flag p t xs = (if flag = RT_IPC_FLAG_FIFO then xs @ [t] else if flag = RT_IPC_FLAG_PRIO then ipc_insert p t xs else xs)"

lemma ipc_flags [simp]: "RT_IPC_FLAG_FIFO \<noteq> RT_IPC_FLAG_PRIO" "RT_IPC_FLAG_PRIO \<noteq> RT_IPC_FLAG_FIFO"
  by (simp_all add: RT_IPC_FLAG_FIFO_def RT_IPC_FLAG_PRIO_def)

lemma ipc_order_set:
  "flag \<in> {RT_IPC_FLAG_FIFO, RT_IPC_FLAG_PRIO} \<Longrightarrow> set (ipc_order flag p t xs) = insert t (set xs)"
  "flag \<in> {RT_IPC_FLAG_FIFO, RT_IPC_FLAG_PRIO} \<Longrightarrow> distinct (ipc_order flag p t xs) \<longleftrightarrow> t \<notin> set xs \<and> distinct xs"
  by (auto simp: ipc_order_def)

lemma list_suspend_alt:
  "rt_ipc_list_suspend h t flag k =
     (let k1 = snd (rt_thread_suspend t k)
      in k1\<lparr>queue := (queue k1)(h := ipc_order flag (\<lambda>u. current_priority (threads k1 u)) t (queue k1 h))\<rparr>)"
  by (simp add: rt_ipc_list_suspend_def ipc_order_def Let_def tlist_insert_before_def)

lemma suspend_threads_frame [simp]:
  "current_priority (threads (snd (rt_thread_suspend t k)) u) = current_priority (threads k u)"
  "thread_error (threads (snd (rt_thread_suspend t k)) u) = thread_error (threads k u)"
  "event_set (threads (snd (rt_thread_suspend t k)) u) = event_set (threads k u)"
  "event_info (threads (snd (rt_thread_suspend t k)) u) = event_info (threads k u)"
  "timeout_func (timers (snd (rt_thread_suspend t k)) tr) = timeout_func (timers k tr)"
  by (simp_all add: rt_thread_suspend_def Let_def rt_timer_stop_def)

lemma list_suspend_inv:
  assumes inv: "kinv k" and st: "thread_stat k t \<in> {RT_THREAD_READY, RT_THREAD_RUNNING}"
    and h: "wait_queue h" and flag: "flag \<in> {RT_IPC_FLAG_FIFO, RT_IPC_FLAG_PRIO}"
  shows "kinv (rt_ipc_list_suspend h t flag k)"
proof -
  let ?k = "snd (rt_thread_suspend t k)"
  note e = suspend_effect [OF st]
  have k: "kinv ?k" by (rule suspend_inv [OF inv])
  have un: "unqueued t ?k" by (simp add: unqueued_def e(3))
  have "sched_inv (?k\<lparr>queue := (queue ?k)(h := ipc_order flag (\<lambda>u. current_priority (threads ?k u)) t (queue ?k h))\<rparr>)"
    using flag un h sched_invD(2) [OF kinvD(1) [OF k]]
    by (intro enqueue_inv kinvD(1) [OF k] un)
      (auto simp: ipc_order_set wait_queue_stat e(2) queues_ok_def unqueued_def wait_queue_def)
  moreover have "timer_inv (?k\<lparr>queue := q\<rparr>) = timer_inv ?k" for q
    by (simp add: timer_inv_def timer_ok_def thread_stat_def)
  ultimately show ?thesis using k by (simp add: kinv_def list_suspend_alt Let_def)
qed

lemma list_suspend_effect:
  assumes st: "thread_stat k t \<in> {RT_THREAD_READY, RT_THREAD_RUNNING}"
  shows "thread_stat (rt_ipc_list_suspend h t flag k) u = (if u = t then RT_THREAD_SUSPEND else thread_stat k u)"
    "queue (rt_ipc_list_suspend h t flag k) h' =
       (if h' = h then ipc_order flag (\<lambda>u. current_priority (threads k u)) t (filter (\<lambda>u. u \<noteq> t) (queue k h))
        else filter (\<lambda>u. u \<noteq> t) (queue k h'))"
    "rt_current_thread (rt_ipc_list_suspend h t flag k) = rt_current_thread k"
    "thread_error (threads (rt_ipc_list_suspend h t flag k) u) = thread_error (threads k u)"
    "current_priority (threads (rt_ipc_list_suspend h t flag k) u) = current_priority (threads k u)"
    "timeout_func (timers (rt_ipc_list_suspend h t flag k) tr) = timeout_func (timers k tr)"
  using suspend_effect [OF st]
  by (simp_all add: list_suspend_alt Let_def thread_stat_def)

text \<open>The control blocks of the IPC objects, which moving threads does not touch.\<close>

definition ipc_of where
  "ipc_of k = (sems k, mutexes k, events k, mailboxes k, mqs k, mempools k)"

lemma ipc_of_base [simp]:
  "ipc_of (rt_schedule k) = ipc_of k" "ipc_of (upd_thread t f k) = ipc_of k" "ipc_of (set_stat t c k) = ipc_of k"
  "ipc_of (rt_schedule_remove_thread t k) = ipc_of k" "ipc_of (rt_schedule_insert_thread t k) = ipc_of k"
  "ipc_of (tlist_remove t k) = ipc_of k" "ipc_of (upd_timer tr g k) = ipc_of k"
  "ipc_of (timer_start_link tr k) = ipc_of k" "ipc_of (snd (rt_timer_stop tr k)) = ipc_of k"
  "ipc_of (k\<lparr>queue := q\<rparr>) = ipc_of k"
  by (simp_all add: ipc_of_def)

lemma ipc_of_suspend [simp]: "ipc_of (snd (rt_thread_suspend t k)) = ipc_of k"
  by (simp add: rt_thread_suspend_def Let_def)

lemma ipc_of_resume [simp]: "ipc_of (snd (rt_thread_resume t k)) = ipc_of k"
  by (simp add: rt_thread_resume_def Let_def)

lemma ipc_of_list_suspend [simp]: "ipc_of (rt_ipc_list_suspend h t flag k) = ipc_of k"
  by (simp add: list_suspend_alt Let_def)

lemma ipc_of_wait [simp]: "ipc_of (ipc_wait h t flag time k) = ipc_of k"
proof -
  have "ipc_of (snd (rt_timer_start tr k)) = ipc_of k" for tr k
    by (simp add: rt_timer_start_def Let_def)
  moreover have "ipc_of (snd (snd (rt_timer_control tr cmd arg k))) = ipc_of k" for tr cmd arg k
    by (simp add: rt_timer_control_def)
  ultimately show ?thesis by (simp add: ipc_wait_def Let_def)
qed

lemma ipc_of_list_resume [simp]: "ipc_of (rt_ipc_list_resume h k) = ipc_of k"
  by (simp add: rt_ipc_list_resume_def split: list.split)

lemma ipc_ofD:
  "ipc_of k' = ipc_of k \<Longrightarrow> sems k' = sems k" "ipc_of k' = ipc_of k \<Longrightarrow> mutexes k' = mutexes k"
  "ipc_of k' = ipc_of k \<Longrightarrow> events k' = events k" "ipc_of k' = ipc_of k \<Longrightarrow> mailboxes k' = mailboxes k"
  "ipc_of k' = ipc_of k \<Longrightarrow> mqs k' = mqs k" "ipc_of k' = ipc_of k \<Longrightarrow> mempools k' = mempools k"
  by (simp_all add: ipc_of_def)

lemmas ipc_same = ipc_ofD [OF ipc_of_list_suspend] ipc_ofD [OF ipc_of_wait] ipc_ofD [OF ipc_of_list_resume]
  ipc_ofD [OF ipc_of_resume]
declare ipc_same [simp]

section \<open>Lemmas: waiting\<close>

text \<open>A started thread's timer belongs to it and is a hard timer.\<close>

definition thread_timed :: "kernel \<Rightarrow> tid \<Rightarrow> bool" where
  "thread_timed k t \<longleftrightarrow> timeout_func (timers k (ThreadTimer t)) = Thread_timeout t \<and>
     timer_flag (timers k (ThreadTimer t)) AND RT_TIMER_FLAG_SOFT_TIMER = 0"

lemma list_suspend_flag:
  "timer_flag (timers (rt_ipc_list_suspend h t flag k) tr) AND RT_TIMER_FLAG_SOFT_TIMER =
     timer_flag (timers k tr) AND RT_TIMER_FLAG_SOFT_TIMER"
  by (simp add: list_suspend_alt Let_def rt_thread_suspend_def rt_timer_stop_def)

lemma set_time_alt:
  "snd (snd (rt_timer_control tr RT_TIMER_CTRL_SET_TIME n k)) = upd_timer tr (\<lambda>t. t\<lparr>init_tick := n\<rparr>) k"
  by (simp add: rt_timer_control_def RT_TIMER_CTRL_SET_TIME_def RT_TIMER_CTRL_GET_TIME_def)

lemma timer_start_hard:
  "timer_flag (timers k tr) AND RT_TIMER_FLAG_SOFT_TIMER = 0 \<Longrightarrow>
   rt_timer_start tr k = (RT_EOK, timer_start_link tr k)"
  by (simp add: rt_timer_start_def Let_def start_link_timers)

lemma ipc_wait_alt:
  assumes "thread_timed k t"
  shows "ipc_wait h t flag time k =
    (let k1 = rt_ipc_list_suspend h t flag k
     in if time > 0 then timer_start_link (ThreadTimer t) (upd_timer (ThreadTimer t) (\<lambda>t. t\<lparr>init_tick := of_int time\<rparr>) k1)
        else k1)"
  using assms
  by (simp add: ipc_wait_def Let_def set_time_alt timer_start_hard thread_timed_def list_suspend_flag)

lemma ipc_wait_effect:
  assumes st: "thread_stat k t \<in> {RT_THREAD_READY, RT_THREAD_RUNNING}" and tm: "thread_timed k t"
  shows "thread_stat (ipc_wait h t flag time k) u = (if u = t then RT_THREAD_SUSPEND else thread_stat k u)"
    "queue (ipc_wait h t flag time k) h' =
       (if h' = h then ipc_order flag (\<lambda>u. current_priority (threads k u)) t (filter (\<lambda>u. u \<noteq> t) (queue k h))
        else filter (\<lambda>u. u \<noteq> t) (queue k h'))"
    "rt_current_thread (ipc_wait h t flag time k) = rt_current_thread k"
    "thread_error (threads (ipc_wait h t flag time k) u) = thread_error (threads k u)"
    "current_priority (threads (ipc_wait h t flag time k) u) = current_priority (threads k u)"
  using list_suspend_effect [OF st]
  by (simp_all add: ipc_wait_alt [OF tm] Let_def)

lemma ipc_wait_inv:
  assumes inv: "kinv k" and st: "thread_stat k t \<in> {RT_THREAD_READY, RT_THREAD_RUNNING}"
    and tm: "thread_timed k t" and h: "wait_queue h" and flag: "flag \<in> {RT_IPC_FLAG_FIFO, RT_IPC_FLAG_PRIO}"
  shows "kinv (ipc_wait h t flag time k)"
proof -
  let ?k1 = "rt_ipc_list_suspend h t flag k"
  let ?k2 = "upd_timer (ThreadTimer t) (\<lambda>t. t\<lparr>init_tick := of_int time\<rparr>) ?k1"
  note e = list_suspend_effect [OF st, of h flag]
  have k1: "kinv ?k1" by (rule list_suspend_inv [OF inv st h flag])
  have "ThreadTimer t \<notin> set (rt_timer_list ?k1)" "ThreadTimer t \<notin> set (rt_soft_timer_list ?k1)"
    using suspend_effect(5,6) [OF st kinvD(2) [OF inv]] by (simp_all add: list_suspend_alt Let_def)
  then have k2: "kinv ?k2" using k1 by (simp add: kinv_def timer_inv_upd_other)
  have "kinv (snd (rt_timer_start (ThreadTimer t) ?k2))"
    by (rule timer_start_inv [OF k2]) (use tm e in \<open>simp add: thread_timed_def\<close>)
  moreover have "snd (rt_timer_start (ThreadTimer t) ?k2) = timer_start_link (ThreadTimer t) ?k2"
    using tm by (simp add: timer_start_hard thread_timed_def list_suspend_flag)
  ultimately show ?thesis using k1 by (simp add: ipc_wait_alt [OF tm] Let_def)
qed

section \<open>Lemmas: waking\<close>

lemma list_resume_inv: "kinv k \<Longrightarrow> kinv (rt_ipc_list_resume h k)"
  by (simp add: rt_ipc_list_resume_def resume_inv split: list.split)

lemma list_resume_effect:
  assumes inv: "kinv k" and h: "wait_queue h" and q: "queue k h = t # ts"
  shows "queue (rt_ipc_list_resume h k) h = ts" "queue (rt_ipc_list_resume h k) h' =
     (if h' = h then ts else queue k h' @ (if h' = ReadyQ (current_priority (threads k t)) \<and> rt_current_thread k \<noteq> Some t then [t] else []))"
    "thread_stat (rt_ipc_list_resume h k) u =
       (if u = t then if rt_current_thread k = Some t then RT_THREAD_RUNNING else RT_THREAD_READY
        else thread_stat k u)"
    "rt_current_thread (rt_ipc_list_resume h k) = rt_current_thread k"
    "thread_error (threads (rt_ipc_list_resume h k) u) = thread_error (threads k u)"
    "current_priority (threads (rt_ipc_list_resume h k) u) = current_priority (threads k u)"
proof -
  have st: "thread_stat k t = RT_THREAD_SUSPEND" using waiting_suspended [OF inv h, of t] q by simp
  note e = resume_effect [OF st]
  note qs = sched_invD(2) [OF kinvD(1) [OF inv]]
  have d: "t \<notin> set ts" using qs q unfolding queues_ok_def by (metis distinct.simps(2))
  have o: "filter (\<lambda>u. u \<noteq> t) (queue k h') = queue k h'" if "h' \<noteq> h" for h'
    using queues_ok_same [OF qs, of t h h'] that q by (auto simp: filter_id_conv)
  have f: "filter (\<lambda>u. u \<noteq> t) (queue k h) = ts" using d q by (auto simp: filter_id_conv)
  have nr: "h \<noteq> ReadyQ p" for p using h by auto
  show q': "queue (rt_ipc_list_resume h k) h' =
     (if h' = h then ts else queue k h' @ (if h' = ReadyQ (current_priority (threads k t)) \<and> rt_current_thread k \<noteq> Some t then [t] else []))" for h'
    using e(4) [of h'] o [of h'] f nr by (simp add: rt_ipc_list_resume_def q)
  show "queue (rt_ipc_list_resume h k) h = ts" by (simp add: q')
  show "thread_stat (rt_ipc_list_resume h k) u =
       (if u = t then if rt_current_thread k = Some t then RT_THREAD_RUNNING else RT_THREAD_READY
        else thread_stat k u)" "rt_current_thread (rt_ipc_list_resume h k) = rt_current_thread k"
    using e by (simp_all add: rt_ipc_list_resume_def q)
  show "thread_error (threads (rt_ipc_list_resume h k) u) = thread_error (threads k u)"
    "current_priority (threads (rt_ipc_list_resume h k) u) = current_priority (threads k u)"
    by (simp_all add: rt_ipc_list_resume_def q rt_thread_resume_def Let_def)
qed

text \<open>Releasing a whole list ends, and leaves every waiting thread able to run with an error.\<close>

lemma resume_all_aux:
  assumes "kinv k" "wait_queue h"
  shows "\<exists>k'. rt_ipc_list_resume_all h k = Some k' \<and> kinv k' \<and> queue k' h = [] \<and> ipc_of k' = ipc_of k \<and>
    rt_current_thread k' = rt_current_thread k \<and>
    (\<forall>t \<in> set (queue k h). thread_stat k' t \<in> {RT_THREAD_READY, RT_THREAD_RUNNING} \<and>
       thread_error (threads k' t) = - RT_ERROR) \<and>
    (\<forall>t. t \<notin> set (queue k h) \<longrightarrow> thread_stat k' t = thread_stat k t \<and>
       thread_error (threads k' t) = thread_error (threads k t)) \<and>
    (\<forall>h'. wait_queue h' \<and> h' \<noteq> h \<longrightarrow> queue k' h' = queue k h')"
  using assms
proof (induction "queue k h" arbitrary: k)
  case Nil
  then show ?case by (subst rt_ipc_list_resume_all.simps) simp
next
  case (Cons t ts)
  define k1 where "k1 = upd_thread t (\<lambda>th. th\<lparr>thread_error := - RT_ERROR\<rparr>) k"
  define k2 where "k2 = snd (rt_thread_resume t k1)"
  have q: "queue k1 h = t # ts" using Cons.hyps(2) by (simp add: k1_def)
  have inv1: "kinv k1" using Cons.prems(1) by (simp add: k1_def kinv_upd_thread)
  have k2: "k2 = rt_ipc_list_resume h k1" by (simp add: k2_def rt_ipc_list_resume_def q)
  note e = list_resume_effect [OF inv1 Cons.prems(2) q, folded k2]
  have inv2: "kinv k2" using list_resume_inv [OF inv1] by (simp add: k2)
  have k1e: "thread_stat k1 u = thread_stat k u" "queue k1 h' = queue k h'"
    "rt_current_thread k1 = rt_current_thread k" "ipc_of k1 = ipc_of k"
    "thread_error (threads k1 u) = (if u = t then - RT_ERROR else thread_error (threads k u))" for u h'
    by (simp_all add: k1_def thread_stat_def)
  have nt: "t \<notin> set ts" using sched_invD(2) [OF kinvD(1) [OF inv1]] q unfolding queues_ok_def
    by (metis distinct.simps(2))
  obtain k' where k': "rt_ipc_list_resume_all h k2 = Some k'" "kinv k'" "queue k' h = []" "ipc_of k' = ipc_of k2"
      "rt_current_thread k' = rt_current_thread k2"
      "\<forall>t \<in> set ts. thread_stat k' t \<in> {RT_THREAD_READY, RT_THREAD_RUNNING} \<and> thread_error (threads k' t) = - RT_ERROR"
      "\<forall>t. t \<notin> set ts \<longrightarrow> thread_stat k' t = thread_stat k2 t \<and> thread_error (threads k' t) = thread_error (threads k2 t)"
      "\<forall>h'. wait_queue h' \<and> h' \<noteq> h \<longrightarrow> queue k' h' = queue k2 h'"
    using Cons.hyps(1) [of k2] e(1) inv2 Cons.prems(2) by auto
  have "rt_ipc_list_resume_all h k = Some k'"
    using k'(1) by (subst rt_ipc_list_resume_all.simps) (simp add: k2_def k1_def Let_def Cons.hyps(2) [symmetric])
  moreover have "ipc_of k' = ipc_of k" using k'(4) by (simp add: k2 k1e)
  moreover have "queue k' h' = queue k h'" if "wait_queue h'" "h' \<noteq> h" for h'
    using k'(8) e(2) [of h'] that by (auto simp: k1e wait_queue_def)
  ultimately show ?case
    using k'(2,3,5-7) e(3-5) nt unfolding Cons.hyps(2) [symmetric]
    by (intro exI [of _ k']) (auto simp: k1e)
qed

section \<open>Lemmas: the operations keep the invariant\<close>

lemma object_init_inv_ipc:
  assumes "kinv k" "queue k h = []" "wait_queue h"
  shows "kinv (rt_ipc_object_init h (rt_object_init r ty name k))"
proof -
  let ?k = "rt_object_init r ty name k"
  have inv: "kinv ?k" by (rule kinv_object_init [OF assms(1)])
  have "queue ?k h = queue k h"
    using rt_schedule_other(1) [OF kinvD(1), of "k\<lparr>rt_scheduler_lock_nest := n\<rparr>" h for n] assms(1,3)
    by (simp add: rt_object_init_def Let_def object_attach_def rt_exit_critical_def rt_enter_critical_def wait_queue_def
        split: option.split)
  then have "queue ?k h = []" using assms(2) by simp
  then have "rt_ipc_object_init h ?k = ?k" by (simp add: rt_ipc_object_init_def fun_upd_idem)
  then show ?thesis using inv by simp
qed

lemma sem_take_inv:
  assumes "kinv k" "rt_current_thread k = Some t" "thread_stat k t = RT_THREAD_RUNNING" "thread_timed k t"
    "sem_flag (sems k s) \<in> {RT_IPC_FLAG_FIFO, RT_IPC_FLAG_PRIO}"
  shows "kinv (snd (rt_sem_take s time k))"
proof -
  let ?k = "upd_thread t (\<lambda>th. th\<lparr>thread_error := RT_EOK\<rparr>) k"
  have "kinv ?k" using assms(1) by (simp add: kinv_upd_thread)
  moreover have "thread_stat ?k t = RT_THREAD_RUNNING" using assms(3) by (simp add: thread_stat_def)
  moreover have "thread_timed ?k t" using assms(4) by (simp add: thread_timed_def)
  ultimately have "kinv (rt_schedule (ipc_wait (SemQ s) t (sem_flag (sems k s)) time ?k))"
    using assms(5) by (intro kinv_schedule ipc_wait_inv) simp_all
  then show ?thesis using assms(1,2) by (simp add: rt_sem_take_def rt_thread_self_def Let_def)
qed

lemma sem_release_inv: "kinv k \<Longrightarrow> kinv (snd (rt_sem_release s k))"
  by (simp add: rt_sem_release_def kinv_schedule list_resume_inv)

lemma sem_control_inv:
  assumes "kinv k"
  shows "\<exists>r k'. rt_sem_control s cmd arg k = Some (r, k') \<and> kinv k'"
  using resume_all_aux [OF assms, of "SemQ s"] assms
  by (auto simp: rt_sem_control_def intro!: kinv_schedule)

lemma sem_close_inv:
  assumes "kinv k"
  shows "\<exists>k'. rt_sem_detach s k = Some (RT_EOK, k') \<and> kinv k'" "\<exists>k'. rt_sem_delete s k = Some (RT_EOK, k') \<and> kinv k'"
  using resume_all_aux [OF assms, of "SemQ s"]
  by (auto simp: rt_sem_detach_def rt_sem_delete_def)

section \<open>Semaphores: the counting specification\<close>

text \<open>
  The contract: a counter of 16 bits and the list of the waiting threads.  A take either
  counts down, gives up, or joins the list in its order; a release serves the first
  waiting thread, or counts up.
\<close>

definition sem_abs :: "nat \<Rightarrow> kernel \<Rightarrow> u16 \<times> tid list" where
  "sem_abs s k = (sem_value (sems k s), queue k (SemQ s))"

definition spec_take ::
  "u8 \<Rightarrow> (tid \<Rightarrow> nat) \<Rightarrow> tid \<Rightarrow> int \<Rightarrow> u16 \<times> tid list \<Rightarrow> rt_err_t option \<times> u16 \<times> tid list" where
  "spec_take flag prio t time a =
     (if fst a > 0 then (Some RT_EOK, fst a - 1, snd a)
      else if time = 0 then (Some (- RT_ETIMEOUT), a)
      else (None, fst a, ipc_order flag prio t (snd a)))"

definition spec_release :: "u16 \<times> tid list \<Rightarrow> u16 \<times> tid list" where
  "spec_release a = (case snd a of [] \<Rightarrow> (fst a + 1, []) | _ # ts \<Rightarrow> (fst a, ts))"

lemma schedule_wait_queue:
  "kinv k \<Longrightarrow> wait_queue h \<Longrightarrow> queue (rt_schedule k) h = queue k h"
  using rt_schedule_other(1) [OF kinvD(1)] by (auto simp: wait_queue_def)

lemma running_not_waiting:
  "kinv k \<Longrightarrow> wait_queue h \<Longrightarrow> thread_stat k t \<noteq> RT_THREAD_SUSPEND \<Longrightarrow> filter (\<lambda>u. u \<noteq> t) (queue k h) = queue k h"
  using waiting_suspended [of k h] by (auto simp: filter_id_conv)

text \<open>A blocking call of the running thread, up to and including its \<open>rt_schedule\<close>.\<close>

lemma block_aux:
  fixes k :: kernel and time :: int
  assumes inv: "kinv k" and run: "thread_stat k t = RT_THREAD_RUNNING" and tm: "thread_timed k t"
    and h: "wait_queue h" and flag: "flag \<in> {RT_IPC_FLAG_FIFO, RT_IPC_FLAG_PRIO}"
  defines "k' \<equiv> rt_schedule (ipc_wait h t flag time k)"
  shows "kinv k'" "thread_stat k' t = RT_THREAD_SUSPEND" "ipc_of k' = ipc_of k"
    "queue k' h = ipc_order flag (\<lambda>u. current_priority (threads k u)) t (queue k h)"
    "wait_queue h' \<Longrightarrow> h' \<noteq> h \<Longrightarrow> queue k' h' = queue k h'"
    "thread_error (threads k' u) = thread_error (threads k u)"
    "current_priority (threads k' u) = current_priority (threads k u)"
proof -
  have st: "thread_stat k t \<in> {RT_THREAD_READY, RT_THREAD_RUNNING}" using run by simp
  let ?k = "ipc_wait h t flag time k"
  note e = ipc_wait_effect [OF st tm, of h flag time]
  have inv': "kinv ?k" by (rule ipc_wait_inv [OF inv st tm h flag])
  show "kinv k'" unfolding k'_def by (rule kinv_schedule [OF inv'])
  show "thread_stat k' t = RT_THREAD_SUSPEND"
    unfolding k'_def using rt_schedule_other(2) [OF kinvD(1) [OF inv'], of t] e(1) [of t] by simp
  show "ipc_of k' = ipc_of k" by (simp add: k'_def)
  have f: "filter (\<lambda>u. u \<noteq> t) (queue k h1) = queue k h1" if "wait_queue h1" for h1
    using running_not_waiting [OF inv that] run by simp
  show "queue k' h = ipc_order flag (\<lambda>u. current_priority (threads k u)) t (queue k h)"
    unfolding k'_def schedule_wait_queue [OF inv' h] by (simp add: e f [OF h])
  show "queue k' h' = queue k h'" if "wait_queue h'" "h' \<noteq> h"
    unfolding k'_def schedule_wait_queue [OF inv' that(1)] using that by (simp add: e f)
  show "thread_error (threads k' u) = thread_error (threads k u)"
    "current_priority (threads k' u) = current_priority (threads k u)"
    by (simp_all add: k'_def e)
qed

lemma upd_error_aux:
  fixes k :: kernel and e :: rt_err_t
  assumes "kinv k" "thread_stat k t = RT_THREAD_RUNNING" "thread_timed k t"
  defines "k1 \<equiv> upd_thread t (\<lambda>th. th\<lparr>thread_error := e\<rparr>) k"
  shows "kinv k1" "thread_stat k1 t = RT_THREAD_RUNNING" "thread_timed k1 t" "ipc_of k1 = ipc_of k"
    "queue k1 = queue k" "current_priority (threads k1 u) = current_priority (threads k u)"
    "thread_error (threads k1 t) = e" "rt_current_thread k1 = rt_current_thread k"
  using assms by (simp_all add: kinv_upd_thread thread_stat_def thread_timed_def)

lemma sem_take_aux:
  assumes "kinv k" "rt_current_thread k = Some t" "thread_stat k t = RT_THREAD_RUNNING" "thread_timed k t"
    "sem_flag (sems k s) \<in> {RT_IPC_FLAG_FIFO, RT_IPC_FLAG_PRIO}"
  shows "(fst (rt_sem_take s time k), sem_abs s (snd (rt_sem_take s time k))) =
    spec_take (sem_flag (sems k s)) (\<lambda>u. current_priority (threads k u)) t time (sem_abs s k)"
    "fst (rt_sem_take s time k) = None \<Longrightarrow> thread_stat (snd (rt_sem_take s time k)) t = RT_THREAD_SUSPEND \<and>
       rt_sem_take_wake t (snd (rt_sem_take s time k)) = RT_EOK"
proof -
  define k1 where "k1 = upd_thread t (\<lambda>th. th\<lparr>thread_error := RT_EOK\<rparr>) k"
  note u = upd_error_aux [OF assms(1,3,4), of RT_EOK, folded k1_def]
  define k' where "k' = rt_schedule (ipc_wait (SemQ s) t (sem_flag (sems k1 s)) time k1)"
  have sk: "sems k1 = sems k" using ipc_ofD(1) [OF u(4)] .
  then have flag: "sem_flag (sems k1 s) \<in> {RT_IPC_FLAG_FIFO, RT_IPC_FLAG_PRIO}" using assms(5) by simp
  note b = block_aux [where h = "SemQ s" and time = time, OF u(1-3) wait_queue_simps(1) flag, folded k'_def]
  have sk': "sems k' = sems k" using ipc_ofD(1) [OF b(3)] sk by simp
  have take: "rt_sem_take s time k =
      (if sem_value (sems k s) > 0 then (Some RT_EOK, upd_sem s (\<lambda>m. m\<lparr>sem_value := sem_value m - 1\<rparr>) k)
       else if time = 0 then (Some (- RT_ETIMEOUT), k) else (None, k'))"
    using assms(2) by (simp add: rt_sem_take_def rt_thread_self_def Let_def k1_def k'_def)
  show "(fst (rt_sem_take s time k), sem_abs s (snd (rt_sem_take s time k))) =
    spec_take (sem_flag (sems k s)) (\<lambda>u. current_priority (threads k u)) t time (sem_abs s k)"
    using b(4) u(5,6) sk sk' by (simp add: take sem_abs_def spec_take_def)
  show "thread_stat (snd (rt_sem_take s time k)) t = RT_THREAD_SUSPEND \<and>
       rt_sem_take_wake t (snd (rt_sem_take s time k)) = RT_EOK" if "fst (rt_sem_take s time k) = None"
    using that b(2,6) u(7) by (auto simp: take rt_sem_take_wake_def split: if_splits)
qed

lemma sem_release_aux:
  assumes inv: "kinv k"
  shows "fst (rt_sem_release s k) = RT_EOK" "sem_abs s (snd (rt_sem_release s k)) = spec_release (sem_abs s k)"
    "queue k (SemQ s) = t # ts \<Longrightarrow> thread_stat (snd (rt_sem_release s k)) t \<in> {RT_THREAD_READY, RT_THREAD_RUNNING} \<and>
       rt_sem_take_wake t (snd (rt_sem_release s k)) = rt_sem_take_wake t k"
proof -
  let ?k = "rt_ipc_list_resume (SemQ s) k"
  have inv': "kinv ?k" by (rule list_resume_inv [OF inv])
  show "fst (rt_sem_release s k) = RT_EOK" by (simp add: rt_sem_release_def)
  show "sem_abs s (snd (rt_sem_release s k)) = spec_release (sem_abs s k)"
  proof (cases "queue k (SemQ s)")
    case (Cons t ts)
    then show ?thesis
      using list_resume_effect(1) [OF inv wait_queue_simps(1) Cons] schedule_wait_queue [OF inv' wait_queue_simps(1)]
      by (simp add: rt_sem_release_def sem_abs_def spec_release_def)
  qed (simp add: rt_sem_release_def sem_abs_def spec_release_def)
  show "thread_stat (snd (rt_sem_release s k)) t \<in> {RT_THREAD_READY, RT_THREAD_RUNNING} \<and>
       rt_sem_take_wake t (snd (rt_sem_release s k)) = rt_sem_take_wake t k" if q: "queue k (SemQ s) = t # ts"
    using list_resume_effect(3,5) [OF inv wait_queue_simps(1) q, of t] rt_schedule_other(3) [OF kinvD(1) [OF inv'], of t] q
    by (simp add: rt_sem_release_def rt_sem_take_wake_def split: if_splits)
qed

section \<open>Mutexes: ownership\<close>

text \<open>
  A free mutex has no owner, no hold and no waiting thread.  An owned one counts the
  nested takes of its owner, which does not wait for it.
\<close>

definition mutex_ok :: "nat \<Rightarrow> kernel \<Rightarrow> bool" where
  "mutex_ok m k \<longleftrightarrow>
     (case owner (mutexes k m) of
        None \<Rightarrow> mutex_value (mutexes k m) = 1 \<and> hold (mutexes k m) = 0 \<and> queue k (MutexQ m) = []
      | Some w \<Rightarrow> mutex_value (mutexes k m) = 0 \<and> hold (mutexes k m) > 0 \<and> w \<notin> set (queue k (MutexQ m)) \<and>
          original_priority (mutexes k m) < RT_THREAD_PRIORITY_MAX)"

lemma control_priority_effect:
  fixes k :: kernel and w :: tid and prio :: nat
  assumes inv: "kinv k"
  defines "k' \<equiv> snd (rt_thread_control w RT_THREAD_CTRL_CHANGE_PRIORITY prio k)"
  shows "thread_stat k' u = thread_stat k u" "wait_queue h \<Longrightarrow> queue k' h = queue k h"
    "rt_current_thread k' = rt_current_thread k" "ipc_of k' = ipc_of k" "timers k' = timers k"
    "thread_error (threads k' u) = thread_error (threads k u)"
    "current_priority (threads k' u) = (if u = w then prio else current_priority (threads k u))"
proof -
  have c: "thread_stat (change_priority t p k) u = thread_stat k u"
    "rt_current_thread (change_priority t p k) = rt_current_thread k" for t p k u
    by (simp_all add: change_priority_def thread_stat_def)
  have s: "thread_stat k w = RT_THREAD_READY \<Longrightarrow> rt_current_thread k \<noteq> Some w"
    using thread_okD(3) [OF sched_invD(1) [OF kinvD(1) [OF inv]], of w] by blast
  have q: "filter (\<lambda>u. u \<noteq> w) (queue k h) = queue k h" if "wait_queue h" "thread_stat k w = RT_THREAD_READY" for h
    using running_not_waiting [OF inv that(1), of w] that(2) by simp
  show "thread_stat k' u = thread_stat k u"
    using s by (simp add: k'_def rt_thread_control_def c)
  show "queue k' h = queue k h" if "wait_queue h"
    using q [OF that] that by (auto simp: k'_def rt_thread_control_def change_priority_def)
  show "rt_current_thread k' = rt_current_thread k" "timers k' = timers k"
    by (simp_all add: k'_def rt_thread_control_def change_priority_def)
  show "ipc_of k' = ipc_of k" by (simp add: k'_def rt_thread_control_def change_priority_def)
  show "thread_error (threads k' u) = thread_error (threads k u)"
    "current_priority (threads k' u) = (if u = w then prio else current_priority (threads k u))"
    by (simp_all add: k'_def rt_thread_control_def change_priority_def)
qed

lemma prio_bound:
  "kinv k \<Longrightarrow> thread_stat k t \<in> {RT_THREAD_READY, RT_THREAD_SUSPEND, RT_THREAD_RUNNING} \<Longrightarrow>
   current_priority (threads k t) < RT_THREAD_PRIORITY_MAX"
  using thread_okD(5) [OF sched_invD(1) [OF kinvD(1)], of k t] by (simp add: mask_ok_def)

text \<open>A take that has to wait: the owner inherits the priority of the waiting thread.\<close>

lemma mutex_take_blocks:
  fixes k :: kernel and m :: nat and time :: int and t :: tid
  assumes inv: "kinv k" and run: "thread_stat k t = RT_THREAD_RUNNING"
    and tm: "thread_timed k t" and flag: "mutex_flag (mutexes k m) \<in> {RT_IPC_FLAG_FIFO, RT_IPC_FLAG_PRIO}"
    and own: "mutex_value (mutexes k m) = 0" "owner (mutexes k m) = Some w" "w \<noteq> t" and time: "time \<noteq> 0"
  defines "k' \<equiv> snd (mutex_take_again m time t k)"
  shows "fst (mutex_take_again m time t k) = None" "kinv k'" "mutexes k' = mutexes k"
    "thread_stat k' t = RT_THREAD_SUSPEND" "set (queue k' (MutexQ m)) = insert t (set (queue k (MutexQ m)))"
    "current_priority (threads k' w) = min (current_priority (threads k w)) (current_priority (threads k t))"
    "thread_error (threads k' t) = thread_error (threads k t)"
proof -
  let ?p = "current_priority (threads k t)"
  define k1 where "k1 = (if ?p < current_priority (threads k w)
     then snd (rt_thread_control w RT_THREAD_CTRL_CHANGE_PRIORITY ?p k) else k)"
  have r: "mutex_take_again m time t k = (None, rt_schedule (ipc_wait (MutexQ m) t (mutex_flag (mutexes k1 m)) time k1))"
    using own time by (simp add: mutex_take_again_def k1_def Let_def)
  have k1: "kinv k1"
    using inv control_priority_inv [OF inv prio_bound [OF inv], of t w] run by (simp add: k1_def)
  note c = control_priority_effect [where w = w and prio = ?p, OF inv]
  have st: "thread_stat k1 t = RT_THREAD_RUNNING" and tm1: "thread_timed k1 t" and i1: "ipc_of k1 = ipc_of k"
    and e1: "thread_error (threads k1 t) = thread_error (threads k t)"
    and p1: "current_priority (threads k1 w) = min (current_priority (threads k w)) ?p"
    and q1: "queue k1 (MutexQ m) = queue k (MutexQ m)"
    using c run tm by (simp_all add: k1_def thread_timed_def)
  have m1: "mutexes k1 = mutexes k" by (rule ipc_ofD(2) [OF i1])
  have f: "mutex_flag (mutexes k1 m) \<in> {RT_IPC_FLAG_FIFO, RT_IPC_FLAG_PRIO}" using flag m1 by simp
  note b = block_aux [where h = "MutexQ m" and time = time, OF k1 st tm1 wait_queue_simps(2) f]
  show "fst (mutex_take_again m time t k) = None" by (simp add: r)
  show "kinv k'" "thread_stat k' t = RT_THREAD_SUSPEND" using b(1,2) f by (simp_all add: k'_def r)
  show "mutexes k' = mutexes k" using ipc_ofD(2) [OF b(3)] m1 by (simp add: k'_def r)
  show "set (queue k' (MutexQ m)) = insert t (set (queue k (MutexQ m)))"
    using b(4) f q1 by (simp add: k'_def r ipc_order_set)
  show "current_priority (threads k' w) = min (current_priority (threads k w)) ?p"
    "thread_error (threads k' t) = thread_error (threads k t)"
    using b(6,7) f p1 e1 by (simp_all add: k'_def r)
qed

lemma mutex_take_aux:
  fixes k :: kernel and m :: nat and time :: int and t :: tid
  assumes inv: "kinv k" and cur: "rt_current_thread k = Some t" and run: "thread_stat k t = RT_THREAD_RUNNING"
    and tm: "thread_timed k t" and ok: "mutex_ok m k" and hold: "hold (mutexes k m) < 255"
    and flag: "mutex_flag (mutexes k m) \<in> {RT_IPC_FLAG_FIFO, RT_IPC_FLAG_PRIO}"
  defines "r \<equiv> fst (rt_mutex_take m time k)" and "k' \<equiv> snd (rt_mutex_take m time k)"
  shows "kinv k' \<and> mutex_ok m k' \<and>
    (case owner (mutexes k m) of
       None \<Rightarrow> r = Some RT_EOK \<and> owner (mutexes k' m) = Some t \<and> hold (mutexes k' m) = 1
     | Some w \<Rightarrow>
         if w = t then r = Some RT_EOK \<and> mutexes k' m = (mutexes k m)\<lparr>hold := hold (mutexes k m) + 1\<rparr>
         else mutexes k' m = mutexes k m \<and>
           (if time = 0 then r = Some (- RT_ETIMEOUT)
            else r = None \<and> thread_stat k' t = RT_THREAD_SUSPEND \<and> t \<in> set (queue k' (MutexQ m)) \<and>
              current_priority (threads k' w) = min (current_priority (threads k w)) (current_priority (threads k t))))"
proof -
  define k1 where "k1 = upd_thread t (\<lambda>th. th\<lparr>thread_error := RT_EOK\<rparr>) k"
  note u = upd_error_aux [OF inv run tm, of RT_EOK, folded k1_def]
  have m1: "mutexes k1 = mutexes k" by (rule ipc_ofD(2) [OF u(4)])
  have take: "rt_mutex_take m time k = (if owner (mutexes k m) = Some t
      then (Some RT_EOK, upd_mutex m (\<lambda>x. x\<lparr>hold := hold x + 1\<rparr>) k1) else mutex_take_again m time t k1)"
    using cur m1 by (simp add: rt_mutex_take_def rt_thread_self_def Let_def k1_def)
  have h1: "hold (mutexes k m) + 1 > 0" using hold
    by (simp add: word_less_nat_alt unat_word_ariths(1))
  show ?thesis
  proof (cases "owner (mutexes k m)")
    case None
    have "current_priority (threads k1 t) < RT_THREAD_PRIORITY_MAX" using prio_bound [OF u(1), of t] u(2) by simp
    then show ?thesis using None ok u(1,5) m1
      by (simp add: r_def k'_def take mutex_take_again_def mutex_ok_def)
  next
    case (Some w)
    show ?thesis
    proof (cases "w = t")
      case True
      then show ?thesis using Some ok u(1,5) m1 h1 by (simp add: r_def k'_def take mutex_ok_def)
    next
      case False
      have v: "mutex_value (mutexes k1 m) = 0" "owner (mutexes k1 m) = Some w" using Some ok m1 by (simp_all add: mutex_ok_def)
      show ?thesis
      proof (cases "time = 0")
        case True
        then have "rt_mutex_take m time k = (Some (- RT_ETIMEOUT), upd_thread t (\<lambda>th. th\<lparr>thread_error := - RT_ETIMEOUT\<rparr>) k1)"
          using take Some False v by (simp add: mutex_take_again_def)
        then show ?thesis using Some False True ok u(1,5) m1
          by (simp add: r_def k'_def mutex_ok_def kinv_upd_thread)
      next
        case nz: False
        have f1: "mutex_flag (mutexes k1 m) \<in> {RT_IPC_FLAG_FIFO, RT_IPC_FLAG_PRIO}" using flag m1 by simp
        have e: "rt_mutex_take m time k = mutex_take_again m time t k1" using take Some False by simp
        note b = mutex_take_blocks [OF u(1-3) f1 v False nz, folded e, folded r_def k'_def]
        have "mutex_ok m k'" using ok Some False b(3,5) u(5) m1 by (simp add: mutex_ok_def)
        then show ?thesis using Some False nz b m1 u(6) by simp
      qed
    qed
  qed
qed

text \<open>Giving the mutex up: the next owner is the first waiting thread.\<close>

lemma hand_over_aux:
  fixes k :: kernel and m :: nat
  assumes inv: "kinv k" and own: "mutex_value (mutexes k m) = 0" "hold (mutexes k m) = 0"
  defines "k' \<equiv> mutex_hand_over m k"
  shows "kinv k'" "mutex_ok m k'"
    "current_priority (threads k' u) = current_priority (threads k u)"
    "case queue k (MutexQ m) of
       [] \<Rightarrow> owner (mutexes k' m) = None
     | w # ws \<Rightarrow> owner (mutexes k' m) = Some w \<and> hold (mutexes k' m) = 1 \<and> queue k' (MutexQ m) = ws \<and>
         thread_stat k' w \<in> {RT_THREAD_READY, RT_THREAD_RUNNING} \<and>
         thread_error (threads k' w) = thread_error (threads k w)"
proof -
  have "kinv k' \<and> mutex_ok m k' \<and> current_priority (threads k' u) = current_priority (threads k u) \<and>
    (case queue k (MutexQ m) of
       [] \<Rightarrow> owner (mutexes k' m) = None
     | w # ws \<Rightarrow> owner (mutexes k' m) = Some w \<and> hold (mutexes k' m) = 1 \<and> queue k' (MutexQ m) = ws \<and>
         thread_stat k' w \<in> {RT_THREAD_READY, RT_THREAD_RUNNING} \<and>
         thread_error (threads k' w) = thread_error (threads k w))"
  proof (cases "queue k (MutexQ m)")
    case Nil
    then show ?thesis using inv own by (simp add: k'_def mutex_hand_over_def mutex_ok_def)
  next
    case (Cons w ws)
    define k1 where "k1 = upd_mutex m (\<lambda>x. x\<lparr>owner := Some w, original_priority := current_priority (threads k w),
                                   hold := hold x + 1\<rparr>) k"
    let ?k = "rt_ipc_list_resume (MutexQ m) k1"
    have k1: "kinv k1" "queue k1 (MutexQ m) = w # ws" using inv Cons by (simp_all add: k1_def)
    note e = list_resume_effect [OF k1(1) wait_queue_simps(2) k1(2)]
    have inv': "kinv ?k" by (rule list_resume_inv [OF k1(1)])
    have k': "k' = rt_schedule ?k" by (simp add: k'_def mutex_hand_over_def Cons k1_def)
    have q: "queue k' (MutexQ m) = ws" using schedule_wait_queue [OF inv' wait_queue_simps(2)] e(1) by (simp add: k')
    have st: "thread_stat k' w \<in> {RT_THREAD_READY, RT_THREAD_RUNNING}"
      using rt_schedule_other(3) [OF kinvD(1) [OF inv'], of w] e(3) [of w] by (simp add: k' split: if_splits)
    have mx: "mutexes k' m = (mutexes k m)\<lparr>owner := Some w, original_priority := current_priority (threads k w), hold := 1\<rparr>"
      using own by (simp add: k' k1_def)
    have "w \<notin> set ws" using sched_invD(2) [OF kinvD(1) [OF inv]] Cons unfolding queues_ok_def by (metis distinct.simps(2))
    moreover have "current_priority (threads k w) < RT_THREAD_PRIORITY_MAX"
      using prio_bound [OF inv, of w] waiting_suspended [OF inv wait_queue_simps(2), of w m] Cons by simp
    ultimately have "mutex_ok m k'" using q own by (simp add: mutex_ok_def mx)
    moreover have "kinv k'" "current_priority (threads k' u) = current_priority (threads k u)"
      "thread_error (threads k' w) = thread_error (threads k w)"
      using kinv_schedule [OF inv'] e(5,6) by (simp_all add: k' k1_def)
    ultimately show ?thesis using q st Cons by (simp add: mx)
  qed
  then show "kinv k'" "mutex_ok m k'" "current_priority (threads k' u) = current_priority (threads k u)"
    "case queue k (MutexQ m) of
       [] \<Rightarrow> owner (mutexes k' m) = None
     | w # ws \<Rightarrow> owner (mutexes k' m) = Some w \<and> hold (mutexes k' m) = 1 \<and> queue k' (MutexQ m) = ws \<and>
         thread_stat k' w \<in> {RT_THREAD_READY, RT_THREAD_RUNNING} \<and>
         thread_error (threads k' w) = thread_error (threads k w)" by blast+
qed

lemma mutex_release_aux:
  fixes k :: kernel and m :: nat and t :: tid
  assumes inv: "kinv k" and cur: "rt_current_thread k = Some t" and ok: "mutex_ok m k"
  defines "r \<equiv> fst (rt_mutex_release m k)" and "k' \<equiv> snd (rt_mutex_release m k)"
  shows "owner (mutexes k m) \<noteq> Some t \<Longrightarrow> r = Some (- RT_ERROR) \<and> kinv k' \<and> mutexes k' = mutexes k \<and> queue k' = queue k"
    "owner (mutexes k m) = Some t \<Longrightarrow> hold (mutexes k m) > 1 \<Longrightarrow>
       r = Some RT_EOK \<and> kinv k' \<and> mutex_ok m k' \<and> mutexes k' m = (mutexes k m)\<lparr>hold := hold (mutexes k m) - 1\<rparr>"
    "owner (mutexes k m) = Some t \<Longrightarrow> hold (mutexes k m) = 1 \<Longrightarrow>
       r = Some RT_EOK \<and> kinv k' \<and> mutex_ok m k' \<and>
       current_priority (threads k' t) = original_priority (mutexes k m) \<and>
       (case queue k (MutexQ m) of
          [] \<Rightarrow> owner (mutexes k' m) = None
        | w # ws \<Rightarrow> owner (mutexes k' m) = Some w \<and> hold (mutexes k' m) = 1 \<and> queue k' (MutexQ m) = ws \<and>
            thread_stat k' w \<in> {RT_THREAD_READY, RT_THREAD_RUNNING} \<and>
            thread_error (threads k' w) = thread_error (threads k w))"
proof -
  show "r = Some (- RT_ERROR) \<and> kinv k' \<and> mutexes k' = mutexes k \<and> queue k' = queue k" if "owner (mutexes k m) \<noteq> Some t"
    using that cur inv by (simp add: r_def k'_def rt_mutex_release_def rt_thread_self_def kinv_upd_thread)
  define k1 where "k1 = upd_mutex m (\<lambda>x. x\<lparr>hold := hold x - 1\<rparr>) k"
  let ?o = "original_priority (mutexes k m)"
  define k2 where "k2 = (if ?o \<noteq> current_priority (threads k t)
     then snd (rt_thread_control t RT_THREAD_CTRL_CHANGE_PRIORITY ?o k1) else k1)"
  have rel: "rt_mutex_release m k = (Some RT_EOK, if hold (mutexes k m) = 1 then mutex_hand_over m k2 else k1)"
    if "owner (mutexes k m) = Some t"
    using that cur by (auto simp: rt_mutex_release_def rt_thread_self_def k1_def k2_def Let_def)
  show "r = Some RT_EOK \<and> kinv k' \<and> mutex_ok m k' \<and> mutexes k' m = (mutexes k m)\<lparr>hold := hold (mutexes k m) - 1\<rparr>"
    if o: "owner (mutexes k m) = Some t" and h: "hold (mutexes k m) > 1"
  proof -
    have "hold (mutexes k m) \<noteq> 1" "hold (mutexes k m) - 1 > 0"
      using h by (auto simp: word_greater_zero_iff)
    then show ?thesis using rel [OF o] o ok inv by (simp add: r_def k'_def k1_def mutex_ok_def)
  qed
  show "r = Some RT_EOK \<and> kinv k' \<and> mutex_ok m k' \<and> current_priority (threads k' t) = ?o \<and>
       (case queue k (MutexQ m) of
          [] \<Rightarrow> owner (mutexes k' m) = None
        | w # ws \<Rightarrow> owner (mutexes k' m) = Some w \<and> hold (mutexes k' m) = 1 \<and> queue k' (MutexQ m) = ws \<and>
            thread_stat k' w \<in> {RT_THREAD_READY, RT_THREAD_RUNNING} \<and>
            thread_error (threads k' w) = thread_error (threads k w))"
    if o: "owner (mutexes k m) = Some t" and h: "hold (mutexes k m) = 1"
  proof -
    have inv1: "kinv k1" using inv by (simp add: k1_def)
    have po: "?o < RT_THREAD_PRIORITY_MAX" using ok o by (simp add: mutex_ok_def)
    note c = control_priority_effect [where w = t and prio = ?o, OF inv1]
    have inv2: "kinv k2" using inv1 control_priority_inv [OF inv1 po, of t] by (simp add: k2_def)
    have p2: "current_priority (threads k2 t) = ?o" "queue k2 (MutexQ m) = queue k (MutexQ m)"
      "\<And>w. thread_error (threads k2 w) = thread_error (threads k w)"
      using c by (simp_all add: k2_def k1_def)
    have "mutexes k2 = mutexes k1" using ipc_ofD(2) [OF c(4)] by (simp add: k2_def)
    then have v: "mutex_value (mutexes k2 m) = 0" "hold (mutexes k2 m) = 0"
      using ok o h by (simp_all add: k1_def mutex_ok_def)
    note a = hand_over_aux [OF inv2 v]
    show ?thesis using a p2 rel [OF o] h by (simp add: r_def k'_def split: list.splits)
  qed
qed

section \<open>Events: the specification\<close>

text \<open>
  An event object as its interface describes it: a set of bit
  positions and the threads that wait, in the order of the queue, each for all or for any of
  a set of positions and with or without the wish to clear what it receives.
\<close>

datatype event_mode = Wait_all | Wait_any | Wait_never

type_synonym event_waiter = "tid \<times> event_mode \<times> bool \<times> nat set"

definition event_mode_of :: "u8 \<Rightarrow> event_mode" where
  "event_mode_of info = (if bit info 0 then Wait_all else if bit info 1 then Wait_any else Wait_never)"

fun spec_event_sat :: "event_mode \<Rightarrow> nat set \<Rightarrow> nat set \<Rightarrow> bool" where
  "spec_event_sat Wait_all want B \<longleftrightarrow> want \<subseteq> B"
| "spec_event_sat Wait_any want B \<longleftrightarrow> want \<inter> B \<noteq> {}"
| "spec_event_sat Wait_never want B \<longleftrightarrow> False"

text \<open>
  Serving the waiting threads in order: the positions left, the threads that go on waiting
  and those that are woken, each with the positions it receives.
\<close>

fun spec_event_serve :: "nat set \<Rightarrow> event_waiter list \<Rightarrow> nat set \<times> event_waiter list \<times> (tid \<times> nat set) list" where
  "spec_event_serve B [] = (B, [], [])"
| "spec_event_serve B ((t, mode, clear, want) # ws) =
     (if spec_event_sat mode want B
      then (case spec_event_serve (if clear then B - want \<inter> B else B) ws of (B', rest, served) \<Rightarrow>
        (B', rest, (t, want \<inter> B) # served))
      else (case spec_event_serve B ws of (B', rest, served) \<Rightarrow> (B', (t, mode, clear, want) # rest, served)))"

definition bits_of :: "u32 \<Rightarrow> nat set" where
  "bits_of w = {n. bit w n}"

definition event_waiter :: "kernel \<Rightarrow> tid \<Rightarrow> event_waiter" where
  "event_waiter k t = (t, event_mode_of (event_info (threads k t)), bit (event_info (threads k t)) 2, bits_of (event_set (threads k t)))"

definition event_abs :: "nat \<Rightarrow> kernel \<Rightarrow> nat set \<times> event_waiter list" where
  "event_abs e k = (bits_of (event_bits (events k e)), map (event_waiter k) (queue k (EventQ e)))"

text \<open>A receive: the result, the positions received, what is left, and the queue.\<close>

definition spec_event_recv :: "(tid list \<Rightarrow> tid list) \<Rightarrow> event_waiter \<Rightarrow> int \<Rightarrow> nat set \<times> event_waiter list \<Rightarrow>
    rt_err_t option \<times> nat set option \<times> nat set \<times> tid list" where
  "spec_event_recv enqueue w timeout a =
     (case (w, a) of ((t, mode, clear, want), (B, ws)) \<Rightarrow>
       if want = {} then (Some (- RT_ERROR), None, B, map fst ws)
       else if spec_event_sat mode want B
       then (Some RT_EOK, Some (want \<inter> B), if clear then B - want else B, map fst ws)
       else if timeout = 0 then (Some (- RT_ETIMEOUT), None, B, map fst ws)
       else (None, None, B, enqueue (map fst ws)))"

lemma spec_event_sat_mono: "spec_event_sat mode want B' \<Longrightarrow> B' \<subseteq> B \<Longrightarrow> spec_event_sat mode want B"
  by (cases mode) auto

lemma spec_event_serve_sub: "spec_event_serve B ws = (B', rest, served) \<Longrightarrow> B' \<subseteq> B \<and> set rest \<subseteq> set ws"
  by (induction B ws arbitrary: B' rest served rule: spec_event_serve.induct) (fastforce split: if_splits prod.splits)+

text \<open>Nobody is left waiting for positions that are set.\<close>

lemma spec_event_serve_none_left:
  assumes "spec_event_serve B ws = (B', rest, served)" "(t, mode, clear, want) \<in> set rest"
  shows "\<not> spec_event_sat mode want B'"
  using assms
proof (induction B ws arbitrary: B' rest served rule: spec_event_serve.induct)
  case (2 B t' mode' clear' want' ws)
  show ?case
  proof (cases "spec_event_sat mode' want' B")
    case True
    then show ?thesis using 2(1,3,4) by (auto split: prod.splits)
  next
    case False
    obtain B1 r1 s1 where r: "spec_event_serve B ws = (B1, r1, s1)" by (metis prod_cases3)
    have "B1 \<subseteq> B" using spec_event_serve_sub [OF r] by blast
    then show ?thesis using False 2(2) [OF False r] 2(3,4) r spec_event_sat_mono by auto
  qed
qed simp

lemma bits_of_simps [simp]:
  "bits_of (a AND b) = bits_of a \<inter> bits_of b" "bits_of (a OR b) = bits_of a \<union> bits_of b"
  "bits_of 0 = {}"
  by (auto simp: bits_of_def bit_and_iff bit_or_iff)

lemma bits_of_and_not: "bits_of (a AND NOT b) = bits_of a - bits_of b"
  by (auto simp: bits_of_def bit_and_iff bit_not_iff dest: bit_imp_le_length)

lemma bits_of_inject [simp]: "bits_of a = bits_of b \<longleftrightarrow> a = b"
  by (auto simp: bits_of_def intro: bit_eqI)

lemma event_flags_bit:
  "info AND RT_EVENT_FLAG_AND \<noteq> 0 \<longleftrightarrow> bit info 0" "info AND RT_EVENT_FLAG_OR \<noteq> 0 \<longleftrightarrow> bit info 1"
  "info AND RT_EVENT_FLAG_CLEAR \<noteq> 0 \<longleftrightarrow> bit info 2"
  using and_exp_eq_0_iff_not_bit [of info 0] and_exp_eq_0_iff_not_bit [of info 1] and_exp_eq_0_iff_not_bit [of info 2]
  by (simp_all add: RT_EVENT_FLAG_AND_def RT_EVENT_FLAG_OR_def RT_EVENT_FLAG_CLEAR_def)

lemma event_match_spec: "event_match info want now \<longleftrightarrow> spec_event_sat (event_mode_of info) (bits_of want) (bits_of now)"
proof -
  have "want AND now = want \<longleftrightarrow> bits_of want \<subseteq> bits_of now"
    by (metis bits_of_simps(1) bits_of_inject inf.absorb_iff1)
  moreover have "want AND now = 0 \<longleftrightarrow> bits_of want \<inter> bits_of now = {}" by (metis bits_of_simps(1,3) bits_of_inject)
  ultimately show ?thesis by (auto simp: event_match_def event_mode_of_def event_flags_bit)
qed

section \<open>Events: refinement\<close>

lemma upd_thread_event_kinv [simp]: "kinv (upd_thread t (\<lambda>th. th\<lparr>event_set := x\<rparr>) k) = kinv k"
  by (rule kinv_upd_thread) simp_all

lemma resume_frame_ev [simp]:
  "event_set (threads (snd (rt_thread_resume t k)) u) = event_set (threads k u)"
  "event_info (threads (snd (rt_thread_resume t k)) u) = event_info (threads k u)"
  "thread_error (threads (snd (rt_thread_resume t k)) u) = thread_error (threads k u)"
  by (simp_all add: rt_thread_resume_def Let_def)

text \<open>One turn of the loop on a waiting thread.\<close>

lemma event_one_spec:
  fixes k :: kernel and e :: nat and t :: tid
  assumes inv: "kinv k" and q: "t \<in> set (queue k (EventQ e))"
  defines "w \<equiv> fst (event_send_one e t k)" and "k' \<equiv> snd (event_send_one e t k)"
    and "B \<equiv> bits_of (event_bits (events k e))" and "want \<equiv> bits_of (event_set (threads k t))"
  shows "w \<longleftrightarrow> spec_event_sat (event_mode_of (event_info (threads k t))) want B" "\<not> w \<Longrightarrow> k' = k"
    "kinv k'" "queue k' (EventQ e) = (if w then filter (\<lambda>u. u \<noteq> t) (queue k (EventQ e)) else queue k (EventQ e))"
    "u \<noteq> t \<Longrightarrow> event_waiter k' u = event_waiter k u" "u \<noteq> t \<Longrightarrow> event_set (threads k' u) = event_set (threads k u)"
    "thread_error (threads k' u) = thread_error (threads k u)"
    "u \<noteq> t \<Longrightarrow> thread_stat k' u = thread_stat k u"
    "w \<Longrightarrow> thread_stat k' t \<in> {RT_THREAD_READY, RT_THREAD_RUNNING}" "w \<Longrightarrow> bits_of (event_set (threads k' t)) = want \<inter> B"
    "bits_of (event_bits (events k' e)) = (if w \<and> bit (event_info (threads k t)) 2 then B - want \<inter> B else B)"
proof -
  let ?info = "event_info (threads k t)" and ?want = "event_set (threads k t)" and ?now = "event_bits (events k e)"
  define k1 where "k1 = (if ?info AND RT_EVENT_FLAG_AND \<noteq> 0 then k else upd_thread t (\<lambda>th. th\<lparr>event_set := ?want AND ?now\<rparr>) k)"
  define k2 where "k2 = (if ?info AND RT_EVENT_FLAG_CLEAR \<noteq> 0
     then upd_event e (\<lambda>x. x\<lparr>event_bits := event_bits x AND NOT (event_set (threads k1 t))\<rparr>) k1 else k1)"
  have one: "event_send_one e t k = (if event_match ?info ?want ?now then (True, snd (rt_thread_resume t k2)) else (False, k))"
    by (simp add: event_send_one_def Let_def k1_def k2_def)
  have m: "w \<longleftrightarrow> event_match ?info ?want ?now" by (simp add: w_def one)
  show w: "w \<longleftrightarrow> spec_event_sat (event_mode_of ?info) want B" by (simp add: m event_match_spec want_def B_def)
  show "k' = k" if "\<not> w" using that m by (simp add: k'_def one)
  have inv2: "kinv k2" using inv by (simp add: k2_def k1_def)
  show "kinv k'" using inv resume_inv [OF inv2] by (simp add: k'_def one)
  have st: "thread_stat k2 u = thread_stat k u" for u by (simp add: k2_def k1_def thread_stat_def)
  have s2: "thread_stat k2 t = RT_THREAD_SUSPEND" using waiting_suspended [OF inv _ q] by (simp add: st)
  note r = resume_effect [OF s2]
  have q2: "queue k2 = queue k" by (simp add: k2_def k1_def)
  show "queue k' (EventQ e) = (if w then filter (\<lambda>u. u \<noteq> t) (queue k (EventQ e)) else queue k (EventQ e))"
    using r(4) [of "EventQ e"] m by (simp add: k'_def one q2)
  show "event_set (threads k' u) = event_set (threads k u)" "event_waiter k' u = event_waiter k u" if "u \<noteq> t"
    using that by (simp_all add: k'_def one k2_def k1_def event_waiter_def)
  show "thread_error (threads k' u) = thread_error (threads k u)"
    by (simp_all add: k'_def one k2_def k1_def)
  show "thread_stat k' u = thread_stat k u" if "u \<noteq> t" using r(2) [of u] that by (simp add: k'_def one st)
  show "thread_stat k' t \<in> {RT_THREAD_READY, RT_THREAD_RUNNING}" if w using r(2) [of t] m that by (simp add: k'_def one)
  have got: "bits_of (event_set (threads k1 t)) = want \<inter> B" if w
  proof (cases "bit ?info 0")
    case True
    then have "want \<subseteq> B" using w that by (simp add: event_mode_of_def)
    then show ?thesis using True by (auto simp: k1_def event_flags_bit want_def)
  qed (simp add: k1_def event_flags_bit want_def B_def)
  have "threads k2 = threads k1" by (simp add: k2_def)
  then show "bits_of (event_set (threads k' t)) = want \<inter> B" if w using got that m by (simp add: k'_def one)
  have "events k1 = events k" by (simp add: k1_def)
  then show "bits_of (event_bits (events k' e)) = (if w \<and> bit ?info 2 then B - want \<inter> B else B)"
    using got m by (auto simp: k'_def one k2_def event_flags_bit B_def bits_of_and_not simp del: bits_of_simps)
qed

lemma event_loop_spec:
  assumes "kinv k" "queue k (EventQ e) = us @ ts" "event_send_loop e ts nd k = (need, k')"
    and "spec_event_serve (bits_of (event_bits (events k e))) (map (event_waiter k) ts) = (B', rest, served)"
  shows "kinv k' \<and> event_abs e k' = (B', map (event_waiter k) us @ rest) \<and>
    (\<forall>t got. (t, got) \<in> set served \<longrightarrow> thread_stat k' t \<in> {RT_THREAD_READY, RT_THREAD_RUNNING} \<and>
       bits_of (event_set (threads k' t)) = got) \<and>
    (\<forall>u. thread_error (threads k' u) = thread_error (threads k u)) \<and>
    (\<forall>u. u \<notin> set ts \<longrightarrow> thread_stat k' u = thread_stat k u \<and> event_set (threads k' u) = event_set (threads k u)) \<and>
    fst ` set served \<subseteq> set ts \<and> (need \<longleftrightarrow> nd \<or> served \<noteq> [])"
  using assms
proof (induction ts arbitrary: us nd k B' rest served)
  case Nil
  then show ?case by (auto simp: event_abs_def)
next
  case (Cons t ts)
  let ?B = "bits_of (event_bits (events k e))" and ?info = "event_info (threads k t)" and ?want = "bits_of (event_set (threads k t))"
  define w k1 where "w = fst (event_send_one e t k)" and "k1 = snd (event_send_one e t k)"
  have tq: "t \<in> set (queue k (EventQ e))" using Cons.prems(2) by simp
  note o = event_one_spec [OF Cons.prems(1) tq, folded w_def k1_def]
  have dist: "distinct (us @ t # ts)"
    using sched_invD(2) [OF kinvD(1) [OF Cons.prems(1)]] Cons.prems(2) unfolding queues_ok_def by metis
  define us' where "us' = (if w then us else us @ [t])"
  have f: "filter (\<lambda>u. u \<noteq> t) us = us" "filter (\<lambda>u. u \<noteq> t) ts = ts" using dist by (auto simp: filter_id_conv)
  have q1: "queue k1 (EventQ e) = us' @ ts" using o(4) Cons.prems(2) f by (simp add: us'_def)
  have step: "event_send_loop e ts (nd \<or> w) k1 = (need, k')" using Cons.prems(3) by (simp add: w_def k1_def split_beta)
  have same: "map (event_waiter k1) ts = map (event_waiter k) ts" "map (event_waiter k1) us = map (event_waiter k) us"
    using dist by (auto intro!: o(5))
  obtain B1 r1 s1 where ser: "spec_event_serve (bits_of (event_bits (events k1 e))) (map (event_waiter k1) ts) = (B1, r1, s1)"
    by (metis prod_cases3)
  have eq: "B' = B1" "rest = (if w then r1 else event_waiter k t # r1)" "served = (if w then (t, ?want \<inter> ?B) # s1 else s1)"
    using Cons.prems(4) ser unfolding same o(11)
    by (simp_all only: list.map event_waiter_def [of k t] spec_event_serve.simps o(1) split: if_splits) auto
  note ih = Cons.IH [OF o(3) q1 step ser]
  have us'w: "map (event_waiter k1) us' @ r1 = map (event_waiter k) us @ rest"
    using same o(2) by (auto simp: us'_def eq)
  have "thread_stat k' u \<in> {RT_THREAD_READY, RT_THREAD_RUNNING} \<and> bits_of (event_set (threads k' u)) = got"
    if "(u, got) \<in> set served" for u got
  proof (cases "(u, got) \<in> set s1")
    case False
    then have u: w "u = t" "got = ?want \<inter> ?B" using that eq(3) by (auto split: if_splits)
    have "t \<notin> set ts" using dist by simp
    then have "thread_stat k' t = thread_stat k1 t" "event_set (threads k' t) = event_set (threads k1 t)" using ih by blast+
    then show ?thesis using o(9,10) u by simp
  qed (use ih in blast)
  moreover have "thread_stat k' u = thread_stat k u \<and> event_set (threads k' u) = event_set (threads k u)" if "u \<notin> set (t # ts)" for u
    using that ih o(6,8) [of u] by simp
  moreover have "need \<longleftrightarrow> nd \<or> served \<noteq> []" "fst ` set served \<subseteq> set (t # ts)" using ih eq(3) by auto
  moreover have "thread_error (threads k' u) = thread_error (threads k u)" for u using ih o(7) by simp
  moreover have "kinv k'" "event_abs e k' = (B', map (event_waiter k) us @ rest)" using ih us'w eq(1) by simp_all
  ultimately show ?case by blast
qed

lemma event_send_spec:
  assumes inv: "kinv k" and ev: "ev \<noteq> 0"
    and s: "spec_event_serve (fst (event_abs e k) \<union> bits_of ev) (snd (event_abs e k)) = (B', rest, served)"
  defines "k' \<equiv> snd (rt_event_send e ev k)"
  shows "fst (rt_event_send e ev k) = RT_EOK" "kinv k'" "event_abs e k' = (B', rest)"
    "(t, got) \<in> set served \<Longrightarrow> thread_stat k' t \<in> {RT_THREAD_READY, RT_THREAD_RUNNING} \<and>
       bits_of (event_set (threads k' t)) = got \<and> thread_error (threads k' t) = thread_error (threads k t)"
proof -
  define k1 where "k1 = upd_event e (\<lambda>x. x\<lparr>event_bits := event_bits x OR ev\<rparr>) k"
  have k1: "kinv k1" "queue k1 (EventQ e) = [] @ queue k (EventQ e)" using inv by (simp_all add: k1_def)
  obtain need k2 where l: "event_send_loop e (queue k (EventQ e)) False k1 = (need, k2)" by fastforce
  have send: "rt_event_send e ev k = (RT_EOK, if need then rt_schedule k2 else k2)"
    using ev l by (simp add: rt_event_send_def Let_def k1_def)
  have "event_waiter k1 = event_waiter k" by (simp add: event_waiter_def fun_eq_iff k1_def)
  with s have s1: "spec_event_serve (bits_of (event_bits (events k1 e))) (map (event_waiter k1) (queue k (EventQ e))) = (B', rest, served)"
    by (simp add: event_abs_def k1_def)
  note a = event_loop_spec [OF k1 l s1]
  have inv2: "kinv k2" using a by blast
  have w: "event_waiter (rt_schedule k2) = event_waiter k2" by (simp add: event_waiter_def fun_eq_iff)
  have ab: "event_abs e (rt_schedule k2) = event_abs e k2"
    by (simp add: event_abs_def w schedule_wait_queue [OF inv2])
  show "fst (rt_event_send e ev k) = RT_EOK" "kinv k'" "event_abs e k' = (B', rest)"
    using a ab inv2 by (simp_all add: k'_def send kinv_schedule)
  assume t: "(t, got) \<in> set served"
  then have "thread_stat k2 t \<in> {RT_THREAD_READY, RT_THREAD_RUNNING}" "bits_of (event_set (threads k2 t)) = got"
    "thread_error (threads k2 t) = thread_error (threads k t)"
    using a by (blast, blast, simp add: k1_def)
  then show "thread_stat k' t \<in> {RT_THREAD_READY, RT_THREAD_RUNNING} \<and>
       bits_of (event_set (threads k' t)) = got \<and> thread_error (threads k' t) = thread_error (threads k t)"
    using rt_schedule_other(3) [OF kinvD(1) [OF inv2], of t] by (simp add: k'_def send)
qed

lemma event_recv_spec:
  fixes want :: u32 and opt :: u8 and timeout :: int
  assumes inv: "kinv k" and cur: "rt_current_thread k = Some t" and run: "thread_stat k t = RT_THREAD_RUNNING"
    and tm: "thread_timed k t" and flag: "event_flag (events k e) \<in> {RT_IPC_FLAG_FIFO, RT_IPC_FLAG_PRIO}"
  defines "r \<equiv> rt_event_recv e want opt timeout k"
  defines "k' \<equiv> snd (snd r)" and "w \<equiv> (t, event_mode_of opt, bit opt 2, bits_of want)"
  shows "kinv k'"
    "(fst r, map_option bits_of (fst (snd r)), fst (event_abs e k'), map fst (snd (event_abs e k'))) =
       spec_event_recv (ipc_order (event_flag (events k e)) (\<lambda>u. current_priority (threads k u)) t) w timeout (event_abs e k)"
    "u \<noteq> t \<Longrightarrow> event_waiter k' u = event_waiter k u"
    "fst r = None \<Longrightarrow> thread_stat k' t = RT_THREAD_SUSPEND \<and> thread_error (threads k' t) = RT_EOK \<and> event_waiter k' t = w"
proof -
  define k1 where "k1 = upd_thread t (\<lambda>th. th\<lparr>thread_error := RT_EOK\<rparr>) k"
  note u = upd_error_aux [OF inv run tm, of RT_EOK, folded k1_def]
  have ev1: "events k1 = events k" by (rule ipc_ofD(3) [OF u(4)])
  define k2 where "k2 = upd_thread t (\<lambda>th. th\<lparr>event_set := want, event_info := opt\<rparr>) k1"
  have k2: "kinv k2" "thread_stat k2 t = RT_THREAD_RUNNING" "thread_timed k2 t"
    using u(1-3) by (simp_all add: k2_def kinv_upd_thread thread_stat_def thread_timed_def)
  have p2: "current_priority (threads k2 v) = current_priority (threads k v)" for v using u(6) by (simp add: k2_def)
  have e2: "queue k2 = queue k" "events k2 = events k" using u(5) ev1 by (simp_all add: k2_def)
  define k3 where "k3 = rt_schedule (ipc_wait (EventQ e) t (event_flag (events k2 e)) timeout k2)"
  have f2: "event_flag (events k2 e) \<in> {RT_IPC_FLAG_FIFO, RT_IPC_FLAG_PRIO}" using flag ev1 by (simp add: k2_def)
  note b = block_aux [where h = "EventQ e" and time = timeout, OF k2 wait_queue_simps(3) f2, folded k3_def]
  let ?now = "event_bits (events k e)"
  define kc where "kc = (if opt AND RT_EVENT_FLAG_CLEAR \<noteq> 0 then upd_event e (\<lambda>x. x\<lparr>event_bits := event_bits x AND NOT want\<rparr>) k1 else k1)"
  define kt where "kt = upd_thread t (\<lambda>th. th\<lparr>thread_error := - RT_ETIMEOUT\<rparr>) k1"
  have r: "r = (if want = 0 then (Some (- RT_ERROR), None, k)
       else if event_match opt want ?now then (Some RT_EOK, Some (?now AND want), kc)
       else if timeout = 0 then (Some (- RT_ETIMEOUT), None, kt) else (None, None, k3))"
    using cur ev1 by (simp add: r_def rt_event_recv_def rt_thread_self_def Let_def k1_def k2_def k3_def kc_def kt_def)
  have th: "event_set (threads k3 v) = event_set (threads k2 v)" "event_info (threads k3 v) = event_info (threads k2 v)" for v
    by (simp_all add: k3_def ipc_wait_alt [OF k2(3)] Let_def list_suspend_alt)
  have ek: "events k3 = events k" using ipc_ofD(3) [OF b(3)] ev1 by (simp add: k2_def)
  have q3: "queue k3 (EventQ e) = ipc_order (event_flag (events k e)) (\<lambda>u. current_priority (threads k u)) t (queue k (EventQ e))"
    using b(4) by (simp add: p2 e2)
  have fm: "map fst (map (event_waiter k) ts) = ts" for k ts by (simp add: event_waiter_def comp_def)
  have want: "want = 0 \<longleftrightarrow> bits_of want = {}" by (metis bits_of_simps(3) bits_of_inject)
  have kct: "kinv kc" "kinv kt" "queue kc = queue k" "queue kt = queue k" "events kt = events k"
    "event_waiter kc v = event_waiter k v" "event_waiter kt v = event_waiter k v" for v
    using u(1,5) ev1 by (simp_all add: kc_def kt_def kinv_upd_thread event_waiter_def k1_def)
  have clr: "bits_of (event_bits (events kc e)) = (if bit opt 2 then bits_of ?now - bits_of want else bits_of ?now)"
    by (simp add: kc_def event_flags_bit ev1 bits_of_and_not del: bits_of_simps)
  have got: "bits_of (?now AND want) = bits_of want \<inter> bits_of ?now" by auto
  show "kinv k'" using inv kct(1,2) b(1) by (simp add: k'_def r)
  show "(fst r, map_option bits_of (fst (snd r)), fst (event_abs e k'), map fst (snd (event_abs e k'))) =
       spec_event_recv (ipc_order (event_flag (events k e)) (\<lambda>u. current_priority (threads k u)) t) w timeout (event_abs e k)"
    unfolding event_abs_def fst_conv snd_conv fm spec_event_recv_def w_def prod.case want [symmetric] event_match_spec [symmetric]
    by (simp add: k'_def r got clr kct q3 ek del: bits_of_simps)
  have "event_waiter k3 v = event_waiter k v" if "v \<noteq> t" for v
    using that by (simp add: event_waiter_def th) (simp add: k1_def k2_def)
  then show "event_waiter k' v = event_waiter k v" if "v \<noteq> t" for v using that kct(6,7) by (simp add: k'_def r)
  have "thread_error (threads k2 t) = RT_EOK" using u(7) by (simp add: k2_def)
  then show "thread_stat k' t = RT_THREAD_SUSPEND \<and> thread_error (threads k' t) = RT_EOK \<and> event_waiter k' t = w" if "fst r = None"
    using that b(2,6) by (auto simp: k'_def r event_waiter_def th w_def k2_def split: if_splits)
qed

section \<open>Properties\<close>

lemma three_timed_ipc:
  "kinv three_timed" "thread_timed three_timed 2" "sems three_timed s = \<lparr>sem_flag = 0, sem_value = 0\<rparr>"
  "queue three_timed (SemQ s) = []" "queue three_timed (MutexQ m) = []" "queue three_timed (EventQ e) = []"
  "events three_timed e = \<lparr>event_flag = 0, event_bits = 0\<rparr>"
  using three_timed_good(1)
  by (simp_all add: timers_good_def thread_timed_def three_timed_def three_threads_def kernel_zero_def)

text \<open>
  C10: A semaphore is a 16-bit counter with a queue.  A take from the running thread and a
  release have the result and the effect on counter and queue that the counting
  specification gives, in every branch, and keep the kernel invariant; a take that blocks
  leaves its thread suspended.  The counter wraps: a release at 65535 leaves it at zero.
\<close>

theorem semaphore_refines_counter:
  assumes "kinv k" "rt_current_thread k = Some t" "thread_stat k t = RT_THREAD_RUNNING" "thread_timed k t"
    and "sem_flag (sems k s) \<in> {RT_IPC_FLAG_FIFO, RT_IPC_FLAG_PRIO}"
  shows "(fst (rt_sem_take s time k), sem_abs s (snd (rt_sem_take s time k))) =
      spec_take (sem_flag (sems k s)) (\<lambda>u. current_priority (threads k u)) t time (sem_abs s k) \<and>
    kinv (snd (rt_sem_take s time k)) \<and>
    (fst (rt_sem_take s time k) = None \<longrightarrow> thread_stat (snd (rt_sem_take s time k)) t = RT_THREAD_SUSPEND) \<and>
    fst (rt_sem_release s k) = RT_EOK \<and>
    sem_abs s (snd (rt_sem_release s k)) = spec_release (sem_abs s k) \<and> kinv (snd (rt_sem_release s k)) \<and>
    (sem_abs s k = (65535, []) \<longrightarrow> sem_abs s (snd (rt_sem_release s k)) = (0, []))"
proof -
  have "sem_abs s k = (65535, []) \<longrightarrow> spec_release (sem_abs s k) = (0, [])" by (simp add: spec_release_def)
  then show ?thesis
    using sem_take_aux [OF assms, of time] sem_take_inv [OF assms, of time] sem_release_aux(1,2) [OF assms(1)]
      sem_release_inv [OF assms(1)] by auto
qed

theorem semaphore_refines_counter_witness:
  "fst (rt_sem_take 0 5 three_timed) = None \<and> sem_abs 0 (snd (rt_sem_take 0 5 three_timed)) = (0, [2]) \<and>
   sem_abs 0 (snd (rt_sem_release 0 three_timed)) = (1, [])"
  using semaphore_refines_counter [OF three_timed_ipc(1) three_timed_good(3,4) three_timed_ipc(2), of 0 5]
  by (simp add: three_timed_ipc sem_abs_def spec_take_def spec_release_def ipc_order_def RT_IPC_FLAG_FIFO_def)

text \<open>
  A waiting take is served.  When a thread blocks on an empty semaphore that nobody else
  waits for, the next release, whenever it comes as long as the thread still waits, makes
  it ready or running, its take returns success, and the token goes to it and not to the
  counter.
\<close>

theorem semaphore_serves_waiter:
  assumes "kinv k" "rt_current_thread k = Some t" "thread_stat k t = RT_THREAD_RUNNING" "thread_timed k t"
    and "sem_flag (sems k s) \<in> {RT_IPC_FLAG_FIFO, RT_IPC_FLAG_PRIO}"
    and "sem_value (sems k s) = 0" "queue k (SemQ s) = []" "time \<noteq> 0"
  shows "let k1 = snd (rt_sem_take s time k); k2 = snd (rt_sem_release s k1) in
    thread_stat k1 t = RT_THREAD_SUSPEND \<and> thread_stat k2 t \<in> {RT_THREAD_READY, RT_THREAD_RUNNING} \<and>
    rt_sem_take_wake t k2 = RT_EOK \<and> sem_abs s k2 = (0, []) \<and> kinv k2"
proof -
  define k1 where "k1 = snd (rt_sem_take s time k)"
  have t: "fst (rt_sem_take s time k) = None" "sem_abs s k1 = (0, [t])"
    using sem_take_aux(1) [OF assms(1-5), of time] assms(5-8) by (auto simp: k1_def spec_take_def sem_abs_def ipc_order_def)
  have w: "thread_stat k1 t = RT_THREAD_SUSPEND" "rt_sem_take_wake t k1 = RT_EOK"
    using sem_take_aux(2) [OF assms(1-5) t(1)] by (simp_all add: k1_def)
  have inv: "kinv k1" using sem_take_inv [OF assms(1-5)] by (simp add: k1_def)
  have q: "queue k1 (SemQ s) = [t]" using t(2) by (simp add: sem_abs_def)
  show ?thesis
    using sem_release_aux(2,3) [OF inv, of s] q w t(2) sem_release_inv [OF inv, of s]
    by (simp add: k1_def [symmetric] Let_def spec_release_def)
qed

theorem semaphore_serves_waiter_witness:
  "let k2 = snd (rt_sem_release 0 (snd (rt_sem_take 0 (-1) three_timed))) in
   thread_stat k2 2 \<in> {RT_THREAD_READY, RT_THREAD_RUNNING} \<and> rt_sem_take_wake 2 k2 = RT_EOK"
  using semaphore_serves_waiter [OF three_timed_ipc(1) three_timed_good(3,4) three_timed_ipc(2), of 0 "-1"]
  by (simp add: three_timed_ipc RT_IPC_FLAG_FIFO_def Let_def)

text \<open>
  C14: Detaching a semaphore returns, whatever waits for it: every waiting thread is ready or
  running again and its take returns an error, no thread is left on the queue, and the
  other threads keep their state.
\<close>

theorem semaphore_detach_fails_waiters:
  assumes "kinv k"
  shows "\<exists>k'. rt_sem_detach s k = Some (RT_EOK, k') \<and> kinv k' \<and> queue k' (SemQ s) = [] \<and>
    (\<forall>t \<in> set (queue k (SemQ s)). thread_stat k' t \<in> {RT_THREAD_READY, RT_THREAD_RUNNING} \<and>
       rt_sem_take_wake t k' = - RT_ERROR) \<and>
    (\<forall>t. t \<notin> set (queue k (SemQ s)) \<longrightarrow> thread_stat k' t = thread_stat k t)"
proof -
  obtain k' where k': "rt_ipc_list_resume_all (SemQ s) k = Some k'" "kinv k'" "queue k' (SemQ s) = []"
    "\<forall>t \<in> set (queue k (SemQ s)). thread_stat k' t \<in> {RT_THREAD_READY, RT_THREAD_RUNNING} \<and>
       thread_error (threads k' t) = - RT_ERROR"
    "\<forall>t. t \<notin> set (queue k (SemQ s)) \<longrightarrow> thread_stat k' t = thread_stat k t"
    using resume_all_aux [OF assms wait_queue_simps(1), of s] by blast
  have "thread_stat (rt_object_detach (OSem s) k') t = thread_stat k' t" for t by (simp add: thread_stat_def)
  then show ?thesis using k' by (simp add: rt_sem_detach_def rt_sem_take_wake_def RT_ERROR_def RT_EOK_def)
qed

theorem semaphore_detach_fails_waiters_witness:
  "\<exists>k'. rt_sem_detach 0 (snd (rt_sem_take 0 5 three_timed)) = Some (RT_EOK, k') \<and> rt_sem_take_wake 2 k' = - RT_ERROR"
proof -
  let ?k = "snd (rt_sem_take 0 5 three_timed)"
  have f: "sem_flag (sems three_timed 0) \<in> {RT_IPC_FLAG_FIFO, RT_IPC_FLAG_PRIO}"
    by (simp add: three_timed_ipc RT_IPC_FLAG_FIFO_def)
  note a = three_timed_ipc(1) three_timed_good(3,4) three_timed_ipc(2) f
  have "queue ?k (SemQ 0) = [2]"
    using sem_take_aux(1) [OF a, of 5] by (simp add: three_timed_ipc sem_abs_def spec_take_def ipc_order_def RT_IPC_FLAG_FIFO_def)
  then show ?thesis using semaphore_detach_fails_waiters [OF sem_take_inv [OF a], of 0 5] by auto
qed

text \<open>The three threads with a mutex that the ready thread 3 owns, or that is free.\<close>

definition mutex_demo :: "tid option \<Rightarrow> kernel" where
  "mutex_demo w = upd_mutex 0 (\<lambda>_. case w of None \<Rightarrow> mutex_fresh 1
     | Some _ \<Rightarrow> \<lparr>mutex_flag = 1, mutex_value = 0, original_priority = 10, hold = 1, owner = w\<rparr>) three_timed"

lemma mutex_demo_ok:
  "kinv (mutex_demo w)" "rt_current_thread (mutex_demo w) = Some 2" "thread_stat (mutex_demo w) 2 = RT_THREAD_RUNNING"
  "thread_timed (mutex_demo w) 2" "mutex_ok 0 (mutex_demo w)" "hold (mutexes (mutex_demo w) 0) < 255"
  "mutex_flag (mutexes (mutex_demo w) 0) \<in> {RT_IPC_FLAG_FIFO, RT_IPC_FLAG_PRIO}" "owner (mutexes (mutex_demo w) 0) = w"
  using three_timed_ipc(1,2,5) three_timed_good(3,4)
  by (auto simp: mutex_demo_def thread_timed_def mutex_ok_def mutex_fresh_def RT_IPC_FLAG_PRIO_def
      RT_THREAD_PRIORITY_MAX_def split: option.split)

text \<open>
  C11: A mutex excludes.  For a take by the running thread of a mutex whose ownership record
  is consistent and held fewer than 255 times: a free mutex becomes its own, one it owns is
  held once more, and one that another thread owns stays exactly as it is; then a take that
  may not wait fails with a timeout, and one that may is suspended on the queue of the mutex
  with the owner at no lower a priority than the waiting thread.  The record stays consistent.
\<close>

theorem mutex_take_excludes:
  assumes "kinv k" "rt_current_thread k = Some t" "thread_stat k t = RT_THREAD_RUNNING" "thread_timed k t"
    and "mutex_ok m k" "hold (mutexes k m) < 255" "mutex_flag (mutexes k m) \<in> {RT_IPC_FLAG_FIFO, RT_IPC_FLAG_PRIO}"
  shows "let r = fst (rt_mutex_take m time k); k' = snd (rt_mutex_take m time k) in
    kinv k' \<and> mutex_ok m k' \<and>
    (case owner (mutexes k m) of
       None \<Rightarrow> r = Some RT_EOK \<and> owner (mutexes k' m) = Some t \<and> hold (mutexes k' m) = 1
     | Some w \<Rightarrow>
         if w = t then r = Some RT_EOK \<and> mutexes k' m = (mutexes k m)\<lparr>hold := hold (mutexes k m) + 1\<rparr>
         else mutexes k' m = mutexes k m \<and>
           (if time = 0 then r = Some (- RT_ETIMEOUT)
            else r = None \<and> thread_stat k' t = RT_THREAD_SUSPEND \<and> t \<in> set (queue k' (MutexQ m)) \<and>
              current_priority (threads k' w) = min (current_priority (threads k w)) (current_priority (threads k t))))"
  unfolding Let_def by (rule mutex_take_aux [OF assms])

theorem mutex_take_excludes_witness:
  "owner (mutexes (snd (rt_mutex_take 0 0 (mutex_demo None))) 0) = Some 2 \<and>
   fst (rt_mutex_take 0 7 (mutex_demo (Some 3))) = None"
  using mutex_take_excludes [OF mutex_demo_ok(1-7), of 0 None] mutex_take_excludes [OF mutex_demo_ok(1-7), of 7 "Some 3"]
  by (simp add: mutex_demo_ok(8) Let_def)

text \<open>
  C12: Releasing a mutex.  A thread that is not the owner gets an error and changes nothing;
  a nested hold is counted down; the last release puts the owner back to the priority it had
  when it took the mutex and hands the mutex to the first waiting thread, which can run and
  finds no error, or frees it when no thread waits.
\<close>

theorem mutex_release_hands_over:
  assumes "kinv k" "rt_current_thread k = Some t" "mutex_ok m k"
  shows "let r = fst (rt_mutex_release m k); k' = snd (rt_mutex_release m k) in
    if owner (mutexes k m) \<noteq> Some t then r = Some (- RT_ERROR) \<and> kinv k' \<and> mutexes k' = mutexes k \<and> queue k' = queue k
    else r = Some RT_EOK \<and> kinv k' \<and> mutex_ok m k' \<and>
      (if hold (mutexes k m) > 1 then mutexes k' m = (mutexes k m)\<lparr>hold := hold (mutexes k m) - 1\<rparr>
       else current_priority (threads k' t) = original_priority (mutexes k m) \<and>
         (case queue k (MutexQ m) of
            [] \<Rightarrow> owner (mutexes k' m) = None
          | w # ws \<Rightarrow> owner (mutexes k' m) = Some w \<and> hold (mutexes k' m) = 1 \<and> queue k' (MutexQ m) = ws \<and>
              thread_stat k' w \<in> {RT_THREAD_READY, RT_THREAD_RUNNING} \<and>
              thread_error (threads k' w) = thread_error (threads k w)))"
proof -
  have "hold (mutexes k m) = 1" if "owner (mutexes k m) = Some t" "\<not> hold (mutexes k m) > 1"
    using assms(3) that by (simp add: mutex_ok_def word_less_nat_alt not_less) (metis One_nat_def le_antisym Suc_leI unat_1 word_unat_eq_iff)
  then show ?thesis using mutex_release_aux [OF assms] unfolding Let_def by presburger
qed

theorem mutex_release_hands_over_witness:
  "fst (rt_mutex_release 0 (mutex_demo (Some 3))) = Some (- RT_ERROR) \<and>
   owner (mutexes (snd (rt_mutex_release 0 (mutex_demo (Some 2)))) 0) = None"
proof -
  have q: "queue (mutex_demo w) (MutexQ 0) = []" "\<not> hold (mutexes (mutex_demo (Some v)) 0) > 1" for w v
    by (simp_all add: mutex_demo_def three_timed_ipc)
  show ?thesis
    using mutex_release_hands_over [OF mutex_demo_ok(1,2,5), of "Some 3"] mutex_release_hands_over [OF mutex_demo_ok(1,2,5), of "Some 2"]
    by (simp add: mutex_demo_ok(8) q Let_def)
qed

lemma mutex_take_owner:
  assumes "rt_current_thread k = Some t" "owner (mutexes k m) = Some t"
  shows "rt_current_thread (snd (rt_mutex_take m time k)) = Some t"
    "mutexes (snd (rt_mutex_take m time k)) m = (mutexes k m)\<lparr>hold := hold (mutexes k m) + 1\<rparr>"
    "queue (snd (rt_mutex_take m time k)) = queue k"
    "current_priority (threads (snd (rt_mutex_take m time k)) t) = current_priority (threads k t)"
  using assms by (simp_all add: rt_mutex_take_def rt_thread_self_def)

lemma mutex_take_owner_iter:
  assumes "rt_current_thread k = Some t" "owner (mutexes k m) = Some t"
  shows "let k' = ((\<lambda>k. snd (rt_mutex_take m time k)) ^^ n) k in
    rt_current_thread k' = Some t \<and> mutexes k' m = (mutexes k m)\<lparr>hold := hold (mutexes k m) + of_nat n\<rparr> \<and>
    queue k' = queue k \<and> current_priority (threads k' t) = current_priority (threads k t)"
proof (induction n)
  case (Suc n)
  let ?k = "((\<lambda>k. snd (rt_mutex_take m time k)) ^^ n) k"
  have "rt_current_thread ?k = Some t" "owner (mutexes ?k m) = Some t" using Suc assms by (simp_all add: Let_def)
  from mutex_take_owner [OF this, of time] Suc show ?case by (simp add: Let_def algebra_simps)
qed (use assms in simp)

text \<open>
  C36: The hold count has eight bits.  A mutex its owner holds once and takes 256 more times is
  again held once as far as the count goes, so the first release of 257 frees it.
\<close>

theorem mutex_hold_overflow:
  assumes "rt_current_thread k = Some t" "owner (mutexes k m) = Some t" "hold (mutexes k m) = 1"
    and "queue k (MutexQ m) = []" "original_priority (mutexes k m) = current_priority (threads k t)"
  shows "let k1 = ((\<lambda>k. snd (rt_mutex_take m time k)) ^^ 256) k in
    owner (mutexes k1 m) = Some t \<and> hold (mutexes k1 m) = 1 \<and>
    owner (mutexes (snd (rt_mutex_release m k1)) m) = None"
proof -
  let ?k = "((\<lambda>k. snd (rt_mutex_take m time k)) ^^ 256) k"
  have k1: "rt_current_thread ?k = Some t" "mutexes ?k m = mutexes k m" "queue ?k (MutexQ m) = []"
    "current_priority (threads ?k t) = original_priority (mutexes k m)"
    using mutex_take_owner_iter [where time = time and n = 256, OF assms(1,2)] assms(4,5) by (simp_all add: Let_def)
  then have "owner (mutexes (snd (rt_mutex_release m ?k)) m) = None"
    using assms(2,3) by (simp add: rt_mutex_release_def rt_thread_self_def Let_def mutex_hand_over_def)
  then show ?thesis using k1 assms(2,3) by (simp add: Let_def)
qed

theorem mutex_hold_overflow_witness:
  "let k1 = ((\<lambda>k. snd (rt_mutex_take 0 (-1) k)) ^^ 256) (mutex_demo (Some 2)) in
    hold (mutexes k1 0) = 1 \<and> owner (mutexes (snd (rt_mutex_release 0 k1)) 0) = None"
  using mutex_hold_overflow [of "mutex_demo (Some 2)" 2 0 "-1"] three_timed_ipc(5)
  by (simp add: mutex_demo_ok Let_def) (simp add: mutex_demo_def three_timed_def three_threads_def)

text \<open>
  C13: Events refine sets of positions, and no wake-up is lost.  Sending adds the positions
  and serves the waiting threads in the order of the queue: each whose condition holds (all
  or any of its positions set) receives the positions it asked for that are set, clears them
  if it asked for that, and can run; if it waited without error its receive returns success
  and those positions.  Exactly the others stay, and none of them waits for positions that
  are set.  Sending nothing is an error without effect.  A receive by the running thread has
  the result, the received positions and the effect on positions and queue of the
  specification, in every branch; one that blocks leaves its thread suspended with what it
  waits for, and the threads that wait already are left alone.
\<close>

theorem event_no_lost_wakeup:
  assumes "kinv k"
  shows "(case spec_event_serve (fst (event_abs e k) \<union> bits_of ev) (snd (event_abs e k)) of (B, rest, served) \<Rightarrow>
      let k' = snd (rt_event_send e ev k) in
      if ev = 0 then rt_event_send e ev k = (- RT_ERROR, k)
      else fst (rt_event_send e ev k) = RT_EOK \<and> kinv k' \<and> event_abs e k' = (B, rest) \<and>
        (\<forall>(u, mode, clear, want) \<in> set rest. \<not> spec_event_sat mode want B) \<and>
        (\<forall>(u, got) \<in> set served. thread_stat k' u \<in> {RT_THREAD_READY, RT_THREAD_RUNNING} \<and>
           (thread_error (threads k u) = RT_EOK \<longrightarrow>
             fst (rt_event_recv_wake u k') = RT_EOK \<and> map_option bits_of (snd (rt_event_recv_wake u k')) = Some got))) \<and>
    (rt_current_thread k = Some t \<and> thread_stat k t = RT_THREAD_RUNNING \<and> thread_timed k t \<and>
     event_flag (events k e) \<in> {RT_IPC_FLAG_FIFO, RT_IPC_FLAG_PRIO} \<longrightarrow>
      (let r = rt_event_recv e want opt timeout k; k' = snd (snd r); w = (t, event_mode_of opt, bit opt 2, bits_of want) in
        (fst r, map_option bits_of (fst (snd r)), fst (event_abs e k'), map fst (snd (event_abs e k'))) =
          spec_event_recv (ipc_order (event_flag (events k e)) (\<lambda>u. current_priority (threads k u)) t) w timeout (event_abs e k) \<and>
        kinv k' \<and> (\<forall>u. u \<noteq> t \<longrightarrow> event_waiter k' u = event_waiter k u) \<and>
        (fst r = None \<longrightarrow> thread_stat k' t = RT_THREAD_SUSPEND \<and> thread_error (threads k' t) = RT_EOK \<and> event_waiter k' t = w)))"
    (is "?send \<and> (?run \<longrightarrow> ?recv)")
proof
  obtain B rest served where s: "spec_event_serve (fst (event_abs e k) \<union> bits_of ev) (snd (event_abs e k)) = (B, rest, served)"
    by (metis prod_cases3)
  show ?send
  proof (cases "ev = 0")
    case False
    note a = event_send_spec [OF assms False s]
    have "fst (rt_event_recv_wake u k') = RT_EOK \<and> map_option bits_of (snd (rt_event_recv_wake u k')) = Some got"
      if "thread_error (threads k' u) = RT_EOK" "bits_of (event_set (threads k' u)) = got" for u k' got
      using that by (simp add: rt_event_recv_wake_def)
    then show ?thesis using a spec_event_serve_none_left [OF s] False unfolding s prod.case Let_def if_not_P [OF False]
      by (intro conjI) (fastforce dest: a(4))+
  qed (simp add: s rt_event_send_def)
  show "?run \<longrightarrow> ?recv" using event_recv_spec [OF assms] by (simp add: Let_def)
qed

lemma bits_of_3_6: "bits_of 3 = {0, 1}" "bits_of 6 = {1, 2}"
proof -
  have "bit (3 :: u32) n \<longleftrightarrow> n = 0 \<or> n = 1" for n by (cases n) (simp_all add: bit_Suc bit_1_iff)
  then show "bits_of 3 = {0, 1}" by (auto simp: bits_of_def)
  have "bit (6 :: u32) (Suc n) \<longleftrightarrow> n = 0 \<or> n = 1" for n by (cases n) (simp_all add: bit_Suc bit_1_iff)
  then have "bit (6 :: u32) n \<longleftrightarrow> n = 1 \<or> n = 2" for n by (cases n) auto
  then show "bits_of 6 = {1, 2}" by (auto simp: bits_of_def)
qed

text \<open>Thread 2 waits for any of the positions 0 and 1, to be cleared; another thread sends 1 and 2.\<close>

theorem event_no_lost_wakeup_witness:
  "let k1 = snd (snd (rt_event_recv 0 3 6 (-1) three_timed)); k2 = snd (rt_event_send 0 6 k1) in
   event_abs 0 k1 = ({}, [(2, Wait_any, True, {0, 1})]) \<and> event_abs 0 k2 = ({2}, []) \<and>
   map_option bits_of (snd (rt_event_recv_wake 2 k2)) = Some {1}"
proof -
  let ?k1 = "snd (snd (rt_event_recv 0 3 6 (-1) three_timed))"
  have b: "bits_of 3 = {0, 1}" "bits_of 6 = {1, 2}" by (rule bits_of_3_6)+
  have a: "event_abs 0 three_timed = ({}, [])" by (simp add: event_abs_def three_timed_ipc)
  have f: "event_flag (events three_timed 0) \<in> {RT_IPC_FLAG_FIFO, RT_IPC_FLAG_PRIO}" "event_flag (events three_timed 0) = RT_IPC_FLAG_FIFO"
    by (simp_all add: three_timed_ipc RT_IPC_FLAG_FIFO_def)
  have m: "event_mode_of 6 = Wait_any" "bit (6 :: u8) 2" by (simp_all add: event_mode_of_def)
  note r = event_no_lost_wakeup [OF three_timed_ipc(1), where e = 0 and t = 2 and want = 3 and opt = 6 and timeout = "-1",
      THEN conjunct2, THEN mp, OF conjI [OF three_timed_good(3) conjI [OF three_timed_good(4) conjI [OF three_timed_ipc(2) f(1)]]],
      unfolded Let_def a b m]
  have r1: "fst (event_abs 0 ?k1) = {}" "map fst (snd (event_abs 0 ?k1)) = [2]" "kinv ?k1" "event_waiter ?k1 2 = (2, Wait_any, True, {0, 1})"
    "thread_error (threads ?k1 2) = RT_EOK"
    using r by (auto simp: spec_event_recv_def ipc_order_def f(2) m(2))
  then have a1: "event_abs 0 ?k1 = ({}, [(2, Wait_any, True, {0, 1})])"
    by (auto simp: event_abs_def event_waiter_def map_eq_Cons_conv)
  show ?thesis
    using event_no_lost_wakeup [OF r1(3), where e = 0 and ev = 6, THEN conjunct1, unfolded a1 b] a1 r1(5)
    by (auto simp: Let_def)
qed

end
