(* ===== verification/Heap.thy ===== *)
theory Heap
  imports Ipc
begin

text \<open>
  The small-memory allocator of kernel/mem.c with \<open>RT_MEM_STATS\<close> and without
  \<open>RT_USING_MEMTRACE\<close>.  The heap is a chain of blocks, each a header \<open>struct heap_mem\<close> of
  sixteen bytes followed by its data; headers are kept in a map from their offset in the
  heap, data bytes in a map from their address.  Offsets and addresses are natural numbers
  below \<open>2 ^ 32\<close>, and the subtractions and additions of the source that could wrap are
  written with \<open>sub32\<close> and \<open>add32\<close>.  The semaphore \<open>heap_sem\<close> is a semaphore of the
  kernel state: a call that finds it taken suspends the caller.
\<close>

section \<open>State\<close>

definition add32 :: "nat \<Rightarrow> nat \<Rightarrow> nat" where
  "add32 a b = (a + b) mod 2 ^ 32"

definition sub32 :: "nat \<Rightarrow> nat \<Rightarrow> nat" where
  "sub32 a b = (a + 2 ^ 32 - b) mod 2 ^ 32"

definition HEAP_MAGIC :: u16 where "HEAP_MAGIC = 0x1ea0"
definition MIN_SIZE :: nat where "MIN_SIZE = 12"
definition MIN_SIZE_ALIGNED :: nat where "MIN_SIZE_ALIGNED = 16"
definition SIZEOF_STRUCT_MEM :: nat where "SIZEOF_STRUCT_MEM = 16"
definition RT_WAITING_FOREVER :: int where "RT_WAITING_FOREVER = - 1"

lemmas heap_const_defs = MIN_SIZE_def MIN_SIZE_ALIGNED_def SIZEOF_STRUCT_MEM_def

record heap_mem =
  hm_magic :: u16
  hm_used :: u16
  hm_next :: nat
  hm_prev :: nat

text \<open>\<open>lfree\<close> and \<open>heap_end\<close> are pointers in the source and offsets here.\<close>

record rt_heap =
  heap_ptr :: nat
  mem_size_aligned :: nat
  heap_mems :: "nat \<Rightarrow> heap_mem"
  lfree :: nat
  heap_end :: nat
  heap_sem :: nat
  used_mem :: nat
  max_mem :: nat
  heap_byte :: "nat \<Rightarrow> u8"

definition upd_mem :: "nat \<Rightarrow> (heap_mem \<Rightarrow> heap_mem) \<Rightarrow> rt_heap \<Rightarrow> rt_heap" where
  "upd_mem p f h = h\<lparr>heap_mems := (heap_mems h)(p := f (heap_mems h p))\<rparr>"

section \<open>Operations\<close>

definition plug_forward :: "nat \<Rightarrow> rt_heap \<Rightarrow> rt_heap" where
  "plug_forward mem h =
     (let nmem = hm_next (heap_mems h mem)
      in if mem \<noteq> nmem \<and> hm_used (heap_mems h nmem) = 0 \<and> nmem \<noteq> heap_end h
         then
           let h1 = (if lfree h = nmem then h\<lparr>lfree := mem\<rparr> else h);
               h2 = upd_mem mem (\<lambda>m. m\<lparr>hm_next := hm_next (heap_mems h1 nmem)\<rparr>) h1
           in upd_mem (hm_next (heap_mems h2 nmem)) (\<lambda>m. m\<lparr>hm_prev := mem\<rparr>) h2
         else h)"

definition plug_backward :: "nat \<Rightarrow> rt_heap \<Rightarrow> rt_heap" where
  "plug_backward mem h =
     (let pmem = hm_prev (heap_mems h mem)
      in if pmem \<noteq> mem \<and> hm_used (heap_mems h pmem) = 0
         then
           let h1 = (if lfree h = mem then h\<lparr>lfree := pmem\<rparr> else h);
               h2 = upd_mem pmem (\<lambda>m. m\<lparr>hm_next := hm_next (heap_mems h1 mem)\<rparr>) h1
           in upd_mem (hm_next (heap_mems h2 mem)) (\<lambda>m. m\<lparr>hm_prev := pmem\<rparr>) h2
         else h)"

definition plug_holes :: "nat \<Rightarrow> rt_heap \<Rightarrow> rt_heap" where
  "plug_holes mem h = plug_backward mem (plug_forward mem h)"

definition rt_system_heap_init :: "u32 \<Rightarrow> u32 \<Rightarrow> kernel \<Rightarrow> rt_heap \<Rightarrow> kernel \<times> rt_heap" where
  "rt_system_heap_init begin_addr end_addr k h =
     (let begin_align = unat (RT_ALIGN begin_addr 8);
          end_align = unat (RT_ALIGN_DOWN end_addr 8)
      in if end_align > 2 * SIZEOF_STRUCT_MEM \<and> end_align - 2 * SIZEOF_STRUCT_MEM \<ge> begin_align
         then
           let msa = end_align - begin_align - 2 * SIZEOF_STRUCT_MEM;
               e = msa + SIZEOF_STRUCT_MEM;
               h1 = h\<lparr>mem_size_aligned := msa, heap_ptr := begin_align\<rparr>;
               h2 = upd_mem 0 (\<lambda>m. \<lparr>hm_magic = HEAP_MAGIC, hm_used = 0, hm_next = e, hm_prev = 0\<rparr>) h1;
               h3 = upd_mem e (\<lambda>m. \<lparr>hm_magic = HEAP_MAGIC, hm_used = 1, hm_next = e, hm_prev = e\<rparr>)
                      (h2\<lparr>heap_end := e\<rparr>)
           in (snd (rt_sem_init (heap_sem h) ''heap'' 1 RT_IPC_FLAG_FIFO k), h3\<lparr>lfree := 0\<rparr>)
         else (k, h))"

text \<open>
  The search of \<open>rt_malloc\<close>.  The last header links to itself, so that the loop need not end
  when the bound \<open>mem_size_aligned - size\<close> wraps: not returning is \<open>None\<close>.
\<close>

partial_function (option) malloc_search :: "nat \<Rightarrow> nat \<Rightarrow> rt_heap \<Rightarrow> nat option option" where
  "malloc_search n ptr h =
     (if ptr < sub32 (mem_size_aligned h) n
      then let mem = heap_mems h ptr
           in if hm_used mem = 0 \<and> sub32 (hm_next mem) (add32 ptr SIZEOF_STRUCT_MEM) \<ge> n
              then Some (Some ptr)
              else malloc_search n (hm_next mem) h
      else Some None)"

partial_function (option) lfree_advance :: "nat \<Rightarrow> rt_heap \<Rightarrow> nat option" where
  "lfree_advance p h =
     (if hm_used (heap_mems h p) \<noteq> 0 \<and> p \<noteq> heap_end h
      then lfree_advance (hm_next (heap_mems h p)) h else Some p)"

definition heap_stats :: "nat \<Rightarrow> rt_heap \<Rightarrow> rt_heap" where
  "heap_stats n h =
     (let used = add32 (used_mem h) n
      in h\<lparr>used_mem := used, max_mem := (if max_mem h < used then used else max_mem h)\<rparr>)"

text \<open>A new free block at \<open>ptr2\<close>, inserted between the block at \<open>ptr\<close> and its successor.\<close>

definition heap_split :: "nat \<Rightarrow> nat \<Rightarrow> rt_heap \<Rightarrow> rt_heap" where
  "heap_split ptr ptr2 h =
     (let h1 = upd_mem ptr2 (\<lambda>m. \<lparr>hm_magic = HEAP_MAGIC, hm_used = 0,
                 hm_next = hm_next (heap_mems h ptr), hm_prev = ptr\<rparr>) h;
          h2 = upd_mem ptr (\<lambda>m. m\<lparr>hm_next := ptr2\<rparr>) h1;
          nxt = hm_next (heap_mems h2 ptr2)
      in if nxt \<noteq> add32 (mem_size_aligned h2) SIZEOF_STRUCT_MEM
         then upd_mem nxt (\<lambda>m. m\<lparr>hm_prev := ptr2\<rparr>) h2 else h2)"

definition malloc_take :: "nat \<Rightarrow> nat \<Rightarrow> rt_heap \<Rightarrow> rt_heap" where
  "malloc_take n ptr h =
     (let room = sub32 (hm_next (heap_mems h ptr)) (add32 ptr SIZEOF_STRUCT_MEM);
          h1 = (if room \<ge> add32 (add32 n SIZEOF_STRUCT_MEM) MIN_SIZE_ALIGNED
                then heap_stats (add32 n SIZEOF_STRUCT_MEM)
                       (upd_mem ptr (\<lambda>m. m\<lparr>hm_used := 1\<rparr>)
                         (heap_split ptr (add32 (add32 ptr SIZEOF_STRUCT_MEM) n) h))
                else heap_stats (sub32 (hm_next (heap_mems h ptr)) ptr)
                       (upd_mem ptr (\<lambda>m. m\<lparr>hm_used := 1\<rparr>) h))
      in upd_mem ptr (\<lambda>m. m\<lparr>hm_magic := HEAP_MAGIC\<rparr>) h1)"

text \<open>\<open>rt_malloc\<close> between taking and releasing the semaphore; the answer is an address.\<close>

definition malloc_locked :: "nat \<Rightarrow> rt_heap \<Rightarrow> (nat option \<times> rt_heap) option" where
  "malloc_locked n h =
     (case malloc_search n (lfree h) h of
        None \<Rightarrow> None
      | Some None \<Rightarrow> Some (None, h)
      | Some (Some ptr) \<Rightarrow>
          let h1 = malloc_take n ptr h;
              answer = Some (heap_ptr h1 + ptr + SIZEOF_STRUCT_MEM)
          in if ptr = lfree h1
             then (case lfree_advance (lfree h1) h1 of
                     None \<Rightarrow> None
                   | Some p \<Rightarrow> Some (answer, h1\<lparr>lfree := p\<rparr>))
             else Some (answer, h1))"

text \<open>
  Calls return \<open>None\<close> when they never return; otherwise the first component is \<open>None\<close> when the
  caller was suspended on the semaphore, and the answer of the call in the other case.  A
  suspended call goes on with its \<open>_wake\<close> part, whatever the error of the wait.
\<close>

definition rt_malloc_wake :: "nat \<Rightarrow> kernel \<Rightarrow> rt_heap \<Rightarrow> (nat option option \<times> kernel \<times> rt_heap) option" where
  "rt_malloc_wake n k h =
     (case malloc_locked n h of
        None \<Rightarrow> None
      | Some (p, h1) \<Rightarrow> Some (Some p, snd (rt_sem_release (heap_sem h1) k), h1))"

definition rt_malloc :: "u32 \<Rightarrow> kernel \<Rightarrow> rt_heap \<Rightarrow> (nat option option \<times> kernel \<times> rt_heap) option" where
  "rt_malloc sz k h =
     (if sz = 0 then Some (Some None, k, h)
      else
        let n = unat (RT_ALIGN sz 8)
        in if n > mem_size_aligned h then Some (Some None, k, h)
           else
             let n1 = (if n < MIN_SIZE_ALIGNED then MIN_SIZE_ALIGNED else n)
             in case rt_sem_take (heap_sem h) RT_WAITING_FOREVER k of
                  (None, k1) \<Rightarrow> Some (None, k1, h)
                | (Some _, k1) \<Rightarrow> rt_malloc_wake n1 k1 h)"

definition free_locked :: "nat \<Rightarrow> rt_heap \<Rightarrow> rt_heap" where
  "free_locked mem h =
     (let h1 = upd_mem mem (\<lambda>m. m\<lparr>hm_used := 0, hm_magic := HEAP_MAGIC\<rparr>) h;
          h2 = (if add32 (heap_ptr h1) mem < heap_ptr h1 + lfree h1 then h1\<lparr>lfree := mem\<rparr> else h1);
          h3 = h2\<lparr>used_mem := sub32 (used_mem h2) (sub32 (hm_next (heap_mems h2 mem)) mem)\<rparr>
      in plug_holes mem h3)"

definition rt_free_wake :: "nat \<Rightarrow> kernel \<Rightarrow> rt_heap \<Rightarrow> unit option \<times> kernel \<times> rt_heap" where
  "rt_free_wake rmem k h =
     (let h1 = free_locked (sub32 (sub32 rmem SIZEOF_STRUCT_MEM) (heap_ptr h)) h
      in (Some (), snd (rt_sem_release (heap_sem h1) k), h1))"

definition rt_free :: "nat option \<Rightarrow> kernel \<Rightarrow> rt_heap \<Rightarrow> unit option \<times> kernel \<times> rt_heap" where
  "rt_free rmem k h =
     (case rmem of
        None \<Rightarrow> (Some (), k, h)
      | Some a \<Rightarrow>
          if a < heap_ptr h \<or> a \<ge> heap_ptr h + heap_end h then (Some (), k, h)
          else (case rt_sem_take (heap_sem h) RT_WAITING_FOREVER k of
                  (None, k1) \<Rightarrow> (None, k1, h)
                | (Some _, k1) \<Rightarrow> rt_free_wake a k1 h))"

definition heap_copy :: "nat \<Rightarrow> nat \<Rightarrow> nat \<Rightarrow> rt_heap \<Rightarrow> rt_heap" where
  "heap_copy dst src n h =
     h\<lparr>heap_byte := (\<lambda>a. if dst \<le> a \<and> a < dst + n then heap_byte h (src + (a - dst)) else heap_byte h a)\<rparr>"

definition heap_fill :: "nat \<Rightarrow> u8 \<Rightarrow> nat \<Rightarrow> rt_heap \<Rightarrow> rt_heap" where
  "heap_fill dst c n h = h\<lparr>heap_byte := (\<lambda>a. if dst \<le> a \<and> a < dst + n then c else heap_byte h a)\<rparr>"

text \<open>The second half of \<open>rt_realloc\<close>: a new block, the copy, the release of the old block.\<close>

definition realloc_move ::
  "nat \<Rightarrow> nat \<Rightarrow> u32 \<Rightarrow> kernel \<Rightarrow> rt_heap \<Rightarrow> (nat option option \<times> kernel \<times> rt_heap) option" where
  "realloc_move rmem old newsize k h =
     (case rt_malloc newsize k h of
        None \<Rightarrow> None
      | Some (None, k1, h1) \<Rightarrow> Some (None, k1, h1)
      | Some (Some None, k1, h1) \<Rightarrow> Some (Some None, k1, h1)
      | Some (Some (Some nmem), k1, h1) \<Rightarrow>
          let n = unat newsize;
              h2 = heap_copy nmem rmem (if old < n then old else n) h1
          in (case rt_free (Some rmem) k1 h2 of
                (None, k3, h3) \<Rightarrow> Some (None, k3, h3)
              | (Some _, k3, h3) \<Rightarrow> Some (Some (Some nmem), k3, h3)))"

definition rt_realloc_wake ::
  "nat \<Rightarrow> u32 \<Rightarrow> kernel \<Rightarrow> rt_heap \<Rightarrow> (nat option option \<times> kernel \<times> rt_heap) option" where
  "rt_realloc_wake rmem newsize k h =
     (let n = unat newsize;
          k1 = snd (rt_sem_release (heap_sem h) k);
          ptr = sub32 (sub32 rmem SIZEOF_STRUCT_MEM) (heap_ptr h);
          old = sub32 (sub32 (hm_next (heap_mems h ptr)) ptr) SIZEOF_STRUCT_MEM
      in if rmem < heap_ptr h \<or> rmem \<ge> heap_ptr h + heap_end h then Some (Some (Some rmem), k1, h)
         else if old = n then Some (Some (Some rmem), k1, h)
         else if add32 (add32 n SIZEOF_STRUCT_MEM) MIN_SIZE < old
         then
           let h1 = h\<lparr>used_mem := sub32 (used_mem h) (old - n)\<rparr>;
               ptr2 = add32 (add32 ptr SIZEOF_STRUCT_MEM) n
           in Some (Some (Some rmem), k1, plug_holes ptr2 (heap_split ptr ptr2 h1))
         else realloc_move rmem old newsize k1 h)"

definition rt_realloc ::
  "nat option \<Rightarrow> u32 \<Rightarrow> kernel \<Rightarrow> rt_heap \<Rightarrow> (nat option option \<times> kernel \<times> rt_heap) option" where
  "rt_realloc rmem sz k h =
     (let newsize = RT_ALIGN sz 8
      in if unat newsize > mem_size_aligned h then Some (Some None, k, h)
         else if newsize = 0
         then (case rt_free rmem k h of
                 (None, k1, h1) \<Rightarrow> Some (None, k1, h1)
               | (Some _, k1, h1) \<Rightarrow> Some (Some None, k1, h1))
         else (case rmem of
                 None \<Rightarrow> rt_malloc newsize k h
               | Some a \<Rightarrow>
                   (case rt_sem_take (heap_sem h) RT_WAITING_FOREVER k of
                      (None, k1) \<Rightarrow> Some (None, k1, h)
                    | (Some _, k1) \<Rightarrow> rt_realloc_wake a newsize k1 h)))"

definition rt_calloc ::
  "u32 \<Rightarrow> u32 \<Rightarrow> kernel \<Rightarrow> rt_heap \<Rightarrow> (nat option option \<times> kernel \<times> rt_heap) option" where
  "rt_calloc count sz k h =
     (case rt_malloc (count * sz) k h of
        None \<Rightarrow> None
      | Some (Some (Some p), k1, h1) \<Rightarrow> Some (Some (Some p), k1, heap_fill p 0 (unat (count * sz)) h1)
      | Some (r, k1, h1) \<Rightarrow> Some (r, k1, h1))"

definition rt_memory_info :: "rt_heap \<Rightarrow> nat \<times> nat \<times> nat" where
  "rt_memory_info h = (mem_size_aligned h, used_mem h, max_mem h)"

section \<open>The invariant\<close>

abbreviation is_free :: "rt_heap \<Rightarrow> nat \<Rightarrow> bool" where
  "is_free h b \<equiv> hm_used (heap_mems h b) = 0"

text \<open>
  The blocks of a heap from offset \<open>b\<close> up to \<open>e\<close>: each is followed by its successor, behind
  its header and at least eight bytes of data.
\<close>

fun heap_chain :: "(nat \<Rightarrow> heap_mem) \<Rightarrow> nat \<Rightarrow> nat list \<Rightarrow> nat \<Rightarrow> bool" where
  "heap_chain m b [] e = (b = e)"
| "heap_chain m b (x # xs) e =
     (x = b \<and> b + 24 \<le> hm_next (m b) \<and> 8 dvd hm_next (m b) \<and> heap_chain m (hm_next (m b)) xs e)"

fun prev_chain :: "(nat \<Rightarrow> heap_mem) \<Rightarrow> nat \<Rightarrow> nat list \<Rightarrow> bool" where
  "prev_chain m p [] = True"
| "prev_chain m p (x # xs) = (hm_prev (m x) = p \<and> prev_chain m x xs)"

definition used_total :: "(nat \<Rightarrow> heap_mem) \<Rightarrow> nat list \<Rightarrow> nat" where
  "used_total m bs = sum_list (map (\<lambda>b. if hm_used (m b) = 0 then 0 else hm_next (m b) - b) bs)"

definition heap_shape :: "nat list \<Rightarrow> rt_heap \<Rightarrow> bool" where
  "heap_shape bs h \<longleftrightarrow>
     heap_chain (heap_mems h) 0 bs (heap_end h) \<and> prev_chain (heap_mems h) 0 bs \<and>
     (\<forall>b \<in> set bs. hm_magic (heap_mems h b) = HEAP_MAGIC) \<and>
     heap_end h = mem_size_aligned h + 16 \<and> hm_used (heap_mems h (heap_end h)) = 1 \<and>
     16 \<le> mem_size_aligned h \<and> 8 dvd heap_ptr h \<and> heap_ptr h + heap_end h + 16 \<le> 2 ^ 32"

text \<open>
  The invariant: no two free blocks are adjacent, \<open>lfree\<close> is a free block or the end, and the
  statistics count the blocks in use.  That \<open>lfree\<close> is the lowest free block is not part of
  it: \<open>rt_realloc\<close> does not keep that.
\<close>

definition heap_inv :: "nat list \<Rightarrow> rt_heap \<Rightarrow> bool" where
  "heap_inv bs h \<longleftrightarrow> heap_shape bs h \<and>
     successively (\<lambda>a b. \<not> (is_free h a \<and> is_free h b)) bs \<and>
     (lfree h = heap_end h \<or> lfree h \<in> set bs \<and> is_free h (lfree h)) \<and>
     used_mem h = used_total (heap_mems h) bs"

definition lfree_lowest :: "nat list \<Rightarrow> rt_heap \<Rightarrow> bool" where
  "lfree_lowest bs h \<longleftrightarrow> (\<forall>b \<in> set bs. is_free h b \<longrightarrow> lfree h \<le> b)"

section \<open>Chains of blocks\<close>

lemma add32_small: "a + b < 2 ^ 32 \<Longrightarrow> add32 a b = a + b"
  by (simp add: add32_def)

lemma sub32_small: "b \<le> a \<Longrightarrow> a < 2 ^ 32 \<Longrightarrow> sub32 a b = a - b"
  by (simp add: sub32_def mod_if)

lemma heap_chain_append:
  "heap_chain m b (us @ vs) e \<longleftrightarrow> (\<exists>c. heap_chain m b us c \<and> heap_chain m c vs e)"
  by (induction us arbitrary: b) auto

lemma heap_chain_cong:
  "(\<And>x. x \<in> set xs \<Longrightarrow> hm_next (m x) = hm_next (m' x)) \<Longrightarrow> heap_chain m b xs e = heap_chain m' b xs e"
  by (induction xs arbitrary: b) auto

lemma heap_chain_le: "heap_chain m b xs e \<Longrightarrow> b \<le> e"
  by (induction xs arbitrary: b) fastforce+

lemma heap_chain_in:
  assumes "heap_chain m b xs e" "x \<in> set xs"
  shows "b \<le> x \<and> x + 24 \<le> hm_next (m x) \<and> hm_next (m x) \<le> e"
  using assms by (induction xs arbitrary: b) (fastforce dest: heap_chain_le)+

lemma heap_chain_lt: "heap_chain m b xs e \<Longrightarrow> x \<in> set xs \<Longrightarrow> x < e"
  using heap_chain_in [of m b xs e x] by linarith

lemma heap_chain_dvd:
  "heap_chain m b xs e \<Longrightarrow> 8 dvd b \<Longrightarrow> x \<in> set xs \<Longrightarrow> 8 dvd x"
  by (induction xs arbitrary: b) auto

lemma heap_chain_dvd_end: "heap_chain m b xs e \<Longrightarrow> 8 dvd b \<Longrightarrow> 8 dvd e"
  by (induction xs arbitrary: b) auto

lemma heap_chain_sorted: "heap_chain m b xs e \<Longrightarrow> sorted_wrt (<) xs"
proof (induction xs arbitrary: b)
  case (Cons x xs)
  then have c: "heap_chain m (hm_next (m b)) xs e" "x = b" "b + 24 \<le> hm_next (m b)" by auto
  have "b < y" if "y \<in> set xs" for y using heap_chain_in [OF c(1) that] c(3) by linarith
  with Cons.IH [OF c(1)] c(2) show ?case by simp
qed simp

lemma prev_chain_append:
  "prev_chain m p (us @ vs) \<longleftrightarrow> prev_chain m p us \<and> prev_chain m (last (p # us)) vs"
  by (induction us arbitrary: p) auto

lemma prev_chain_cong:
  "(\<And>x. x \<in> set xs \<Longrightarrow> hm_prev (m x) = hm_prev (m' x)) \<Longrightarrow> prev_chain m p xs = prev_chain m' p xs"
  by (induction xs arbitrary: p) auto

lemma used_total_append [simp]: "used_total m (us @ vs) = used_total m us + used_total m vs"
  by (simp add: used_total_def)

lemma used_total_Nil [simp]: "used_total m [] = 0"
  by (simp add: used_total_def)

lemma used_total_Cons [simp]:
  "used_total m (b # bs) = (if hm_used (m b) = 0 then 0 else hm_next (m b) - b) + used_total m bs"
  by (simp add: used_total_def)

lemma used_total_cong:
  "(\<And>x. x \<in> set xs \<Longrightarrow> hm_used (m x) = hm_used (m' x) \<and> hm_next (m x) = hm_next (m' x)) \<Longrightarrow>
   used_total m xs = used_total m' xs"
  by (induction xs) auto

lemma used_total_le: "heap_chain m b xs e \<Longrightarrow> used_total m xs \<le> e - b"
proof (induction xs arbitrary: b)
  case (Cons x xs)
  then have c: "heap_chain m (hm_next (m b)) xs e" "x = b" "b + 24 \<le> hm_next (m b)" by auto
  from Cons.IH [OF c(1)] heap_chain_le [OF c(1)] c(2,3) show ?case by auto
qed simp

text \<open>The blocks before and behind a block of the chain.\<close>

lemma heap_chain_around:
  assumes "heap_chain m b0 (us @ b # vs) e"
  shows "heap_chain m b0 us b" "heap_chain m (hm_next (m b)) vs e" "b + 24 \<le> hm_next (m b)"
    "hm_next (m b) \<le> e" "\<And>x. x \<in> set us \<Longrightarrow> x < b \<and> hm_next (m x) \<le> b"
    "\<And>x. x \<in> set vs \<Longrightarrow> hm_next (m b) \<le> x"
proof -
  from assms show c: "heap_chain m b0 us b" "heap_chain m (hm_next (m b)) vs e" "b + 24 \<le> hm_next (m b)"
    by (auto simp: heap_chain_append)
  show "hm_next (m b) \<le> e" using c(2) by (rule heap_chain_le)
  show "x < b \<and> hm_next (m x) \<le> b" if "x \<in> set us" for x using heap_chain_in [OF c(1) that] by linarith
  show "hm_next (m b) \<le> x" if "x \<in> set vs" for x using heap_chain_in [OF c(2) that] by linarith
qed

section \<open>The search\<close>

definition fits :: "rt_heap \<Rightarrow> nat \<Rightarrow> nat \<Rightarrow> bool" where
  "fits h n b \<longleftrightarrow> is_free h b \<and> b + 16 + n \<le> hm_next (heap_mems h b) \<and> b + n < mem_size_aligned h"

lemma malloc_search_aux:
  assumes "heap_chain (heap_mems h) b xs (mem_size_aligned h + 16)" "n \<le> mem_size_aligned h"
    "mem_size_aligned h + 32 \<le> 2 ^ 32"
  shows "malloc_search n b h = Some (find (fits h n) xs)"
  using assms
proof (induction xs arbitrary: b)
  case Nil
  then show ?case by (subst malloc_search.simps) (auto simp: sub32_small)
next
  case (Cons x xs)
  let ?nx = "hm_next (heap_mems h b)"
  from Cons.prems have c: "heap_chain (heap_mems h) ?nx xs (mem_size_aligned h + 16)"
    "x = b" "b + 24 \<le> ?nx" by auto
  have le: "?nx \<le> mem_size_aligned h + 16" using c(1) by (rule heap_chain_le)
  have bound: "sub32 (mem_size_aligned h) n = mem_size_aligned h - n"
    "add32 b 16 = b + 16" "sub32 ?nx (b + 16) = ?nx - (b + 16)"
    using Cons.prems c(3) le by (simp_all add: sub32_small add32_small)
  show ?case
  proof (cases "b < mem_size_aligned h - n")
    case True
    have "(n \<le> ?nx - (b + 16)) = (b + 16 + n \<le> ?nx)" using c(3) by linarith
    then show ?thesis using Cons.IH [OF c(1)] Cons.prems True c(2)
      by (simp add: malloc_search.simps [of n b h] Let_def fits_def bound SIZEOF_STRUCT_MEM_def) linarith
  next
    case False
    have "\<not> fits h n y" if "y \<in> set (x # xs)" for y
    proof -
      have "b \<le> y" using heap_chain_in [OF Cons.prems(1) that] by simp
      with False show ?thesis by (auto simp: fits_def)
    qed
    then have "find (fits h n) (x # xs) = None" by (simp add: find_None_iff)
    with False show ?thesis by (simp add: malloc_search.simps [of n b h] bound)
  qed
qed

lemma lfree_advance_aux:
  assumes "heap_chain (heap_mems h) b xs (heap_end h)"
  shows "lfree_advance b h = Some (hd (filter (is_free h) xs @ [heap_end h]))"
  using assms
proof (induction xs arbitrary: b)
  case Nil
  then show ?case by (subst lfree_advance.simps) simp
next
  case (Cons x xs)
  then have c: "heap_chain (heap_mems h) (hm_next (heap_mems h b)) xs (heap_end h)" "x = b" by auto
  have "b < heap_end h" using heap_chain_lt [OF Cons.prems, of x] c(2) by simp
  with Cons.IH [OF c(1)] c(2) show ?case by (simp add: lfree_advance.simps [of b h])
qed

text \<open>The search starts at \<open>lfree\<close>: the blocks before it are not looked at.\<close>

abbreviation from_lfree :: "nat list \<Rightarrow> rt_heap \<Rightarrow> nat list" where
  "from_lfree bs h \<equiv> dropWhile (\<lambda>b. b \<noteq> lfree h) bs"

lemma heap_chain_from:
  assumes "heap_chain m b xs e" "p = e \<or> p \<in> set xs"
  shows "heap_chain m p (dropWhile (\<lambda>b. b \<noteq> p) xs) e"
  using assms
proof (induction xs arbitrary: b)
  case (Cons x xs)
  have "x \<noteq> e" using heap_chain_lt [OF Cons.prems(1), of x] by simp
  with Cons show ?case by auto
qed simp

lemma heap_shapeD:
  assumes "heap_shape bs h"
  shows "heap_chain (heap_mems h) 0 bs (heap_end h)" "prev_chain (heap_mems h) 0 bs"
    "heap_end h = mem_size_aligned h + 16" "heap_end h + 16 \<le> 2 ^ 32" "16 \<le> mem_size_aligned h"
    "heap_ptr h + heap_end h + 16 \<le> 2 ^ 32" "8 dvd heap_ptr h" "hm_used (heap_mems h (heap_end h)) = 1"
    "\<And>b. b \<in> set bs \<Longrightarrow> hm_magic (heap_mems h b) = HEAP_MAGIC"
  using assms by (auto simp: heap_shape_def)

lemma heap_invD:
  assumes "heap_inv bs h"
  shows "heap_shape bs h" "successively (\<lambda>a b. \<not> (is_free h a \<and> is_free h b)) bs"
    "lfree h = heap_end h \<or> lfree h \<in> set bs \<and> is_free h (lfree h)"
    "used_mem h = used_total (heap_mems h) bs"
  using assms by (auto simp: heap_inv_def)

lemma malloc_search_lfree:
  assumes inv: "heap_inv bs h" and n: "n \<le> mem_size_aligned h"
  shows "malloc_search n (lfree h) h = Some (find (fits h n) (from_lfree bs h))"
proof -
  note sh = heap_shapeD [OF heap_invD(1) [OF inv]]
  have "heap_chain (heap_mems h) (lfree h) (from_lfree bs h) (mem_size_aligned h + 16)"
    using heap_chain_from [OF sh(1), of "lfree h"] heap_invD(3) [OF inv] sh(3) by auto
  from malloc_search_aux [OF this n] sh(3,4) show ?thesis by simp
qed

text \<open>With \<open>lfree\<close> the lowest free block that makes no difference.\<close>

lemma find_from_lfree:
  assumes inv: "heap_inv bs h" and low: "lfree_lowest bs h"
  shows "find (fits h n) (from_lfree bs h) = find (fits h n) bs"
proof -
  note sh = heap_shapeD [OF heap_invD(1) [OF inv]]
  have "find (fits h n) xs = find (fits h n) (dropWhile (\<lambda>b. b \<noteq> lfree h) xs)"
    if "sorted_wrt (<) xs" "\<forall>b \<in> set xs. is_free h b \<longrightarrow> lfree h \<le> b"
      "lfree h \<in> set xs \<or> (\<forall>b \<in> set xs. b < lfree h)" for xs
    using that by (induction xs) (auto simp: fits_def)
  from this [of bs] show ?thesis
    using heap_chain_sorted [OF sh(1)] low heap_invD(3) [OF inv] heap_chain_lt [OF sh(1)]
    by (auto simp: lfree_lowest_def)
qed

section \<open>Splitting and merging blocks\<close>

lemma heap_split_frame [simp]:
  "heap_ptr (heap_split a b h) = heap_ptr h" "mem_size_aligned (heap_split a b h) = mem_size_aligned h"
  "lfree (heap_split a b h) = lfree h" "heap_end (heap_split a b h) = heap_end h"
  "heap_sem (heap_split a b h) = heap_sem h" "used_mem (heap_split a b h) = used_mem h"
  "max_mem (heap_split a b h) = max_mem h" "heap_byte (heap_split a b h) = heap_byte h"
  by (simp_all add: heap_split_def upd_mem_def Let_def)

lemma upd_mem_frame [simp]:
  "heap_ptr (upd_mem p f h) = heap_ptr h" "mem_size_aligned (upd_mem p f h) = mem_size_aligned h"
  "lfree (upd_mem p f h) = lfree h" "heap_end (upd_mem p f h) = heap_end h"
  "heap_sem (upd_mem p f h) = heap_sem h" "used_mem (upd_mem p f h) = used_mem h"
  "max_mem (upd_mem p f h) = max_mem h" "heap_byte (upd_mem p f h) = heap_byte h"
  "heap_mems (upd_mem p f h) = (heap_mems h)(p := f (heap_mems h p))"
  by (simp_all add: upd_mem_def)

text \<open>The headers after a split.\<close>

lemma heap_split_mems:
  assumes "b \<noteq> b2" "hm_next (heap_mems h b) \<noteq> b" "hm_next (heap_mems h b) \<noteq> b2"
    and e: "heap_end h = add32 (mem_size_aligned h) 16"
  shows "heap_mems (heap_split b b2 h) x =
    (if x = b2 then \<lparr>hm_magic = HEAP_MAGIC, hm_used = 0, hm_next = hm_next (heap_mems h b), hm_prev = b\<rparr>
     else if x = b then (heap_mems h b)\<lparr>hm_next := b2\<rparr>
     else if x = hm_next (heap_mems h b) \<and> x \<noteq> heap_end h then (heap_mems h x)\<lparr>hm_prev := b2\<rparr>
     else heap_mems h x)"
  using assms by (simp add: heap_split_def Let_def SIZEOF_STRUCT_MEM_def)

lemma heap_split_shape:
  assumes sh: "heap_shape (us @ b # vs) h" and b2: "b + 24 \<le> b2" "b2 + 24 \<le> hm_next (heap_mems h b)" "8 dvd b2"
  shows "heap_shape (us @ b # b2 # vs) (heap_split b b2 h)"
proof -
  let ?m = "heap_mems h" and ?h = "heap_split b b2 h" and ?nx = "hm_next (heap_mems h b)"
  note s = heap_shapeD [OF sh]
  note a = heap_chain_around [OF s(1)]
  have e: "heap_end h = add32 (mem_size_aligned h) 16" using s(3,4) by (simp add: add32_small)
  note m = heap_split_mems [OF _ _ _ e, of b b2]
  have m': "heap_mems ?h x =
    (if x = b2 then \<lparr>hm_magic = HEAP_MAGIC, hm_used = 0, hm_next = ?nx, hm_prev = b\<rparr>
     else if x = b then (?m b)\<lparr>hm_next := b2\<rparr>
     else if x = ?nx \<and> x \<noteq> heap_end h then (?m x)\<lparr>hm_prev := b2\<rparr> else ?m x)" for x
    using b2 by (intro m) auto
  have us: "x \<noteq> b \<and> x \<noteq> b2 \<and> x \<noteq> ?nx" if "x \<in> set us" for x using a(5) [OF that] b2 by auto
  have vs: "x \<noteq> b \<and> x \<noteq> b2" if "x \<in> set vs" for x using a(6) [OF that] b2 by auto
  have "heap_chain (heap_mems ?h) 0 us b"
    using a(1) by (rule heap_chain_cong [THEN iffD1, rotated]) (auto simp: m' dest: us)
  moreover have "heap_chain (heap_mems ?h) ?nx vs (heap_end h)"
    using a(2) by (rule heap_chain_cong [THEN iffD1, rotated]) (auto simp: m' dest: vs)
  moreover have "8 dvd ?nx" using s(1) by (auto simp: heap_chain_append)
  ultimately have c: "heap_chain (heap_mems ?h) 0 (us @ b # b2 # vs) (heap_end h)"
    using b2 by (auto simp: heap_chain_append m')
  have p: "prev_chain ?m 0 us" "hm_prev (?m b) = last (0 # us)" "prev_chain ?m b vs"
    using s(2) by (auto simp: prev_chain_append)
  have pu: "prev_chain (heap_mems ?h) 0 us"
    using p(1) by (rule prev_chain_cong [THEN iffD1, rotated]) (auto simp: m' dest: us)
  have pv: "prev_chain (heap_mems ?h) b2 vs"
  proof (cases vs)
    case (Cons v ws)
    have v: "v = ?nx" "v \<noteq> heap_end h" using a(2) heap_chain_lt [OF a(2), of v] Cons by auto
    have "v \<noteq> x" if "x \<in> set ws" for x using heap_chain_sorted [OF a(2)] that Cons by auto
    then have "prev_chain (heap_mems ?h) v ws = prev_chain ?m v ws"
      using v vs Cons by (intro prev_chain_cong) (auto simp: m')
    with p(3) v vs Cons show ?thesis by (auto simp: m')
  qed simp
  have "prev_chain (heap_mems ?h) 0 (us @ b # b2 # vs)"
    using pu pv p(2) b2 by (auto simp: prev_chain_append m')
  moreover have "hm_used (heap_mems ?h (heap_end h)) = 1" using s(8) b2 a(4) by (auto simp: m')
  ultimately show ?thesis using c s b2 by (auto simp: heap_shape_def m')
qed

text \<open>Both halves of \<open>plug_holes\<close> merge a block with its successor.\<close>

definition heap_merge :: "nat \<Rightarrow> nat \<Rightarrow> rt_heap \<Rightarrow> rt_heap" where
  "heap_merge a b h =
     (let h1 = (if lfree h = b then h\<lparr>lfree := a\<rparr> else h);
          h2 = upd_mem a (\<lambda>m. m\<lparr>hm_next := hm_next (heap_mems h1 b)\<rparr>) h1
      in upd_mem (hm_next (heap_mems h2 b)) (\<lambda>m. m\<lparr>hm_prev := a\<rparr>) h2)"

lemma plug_forward_merge:
  "plug_forward a h = (let b = hm_next (heap_mems h a)
     in if a \<noteq> b \<and> is_free h b \<and> b \<noteq> heap_end h then heap_merge a b h else h)"
  by (simp add: plug_forward_def heap_merge_def Let_def)

lemma plug_backward_merge:
  "plug_backward b h = (let a = hm_prev (heap_mems h b)
     in if a \<noteq> b \<and> is_free h a then heap_merge a b h else h)"
  by (simp add: plug_backward_def heap_merge_def Let_def)

lemma heap_merge_frame [simp]:
  "heap_ptr (heap_merge a b h) = heap_ptr h" "mem_size_aligned (heap_merge a b h) = mem_size_aligned h"
  "lfree (heap_merge a b h) = (if lfree h = b then a else lfree h)" "heap_end (heap_merge a b h) = heap_end h"
  "heap_sem (heap_merge a b h) = heap_sem h" "used_mem (heap_merge a b h) = used_mem h"
  "max_mem (heap_merge a b h) = max_mem h" "heap_byte (heap_merge a b h) = heap_byte h"
  by (simp_all add: heap_merge_def Let_def)

lemma heap_merge_mems:
  assumes "a \<noteq> b" "hm_next (heap_mems h b) \<noteq> a"
  shows "heap_mems (heap_merge a b h) x =
    (if x = a then (heap_mems h a)\<lparr>hm_next := hm_next (heap_mems h b)\<rparr>
     else if x = hm_next (heap_mems h b) then (heap_mems h x)\<lparr>hm_prev := a\<rparr> else heap_mems h x)"
  using assms by (simp add: heap_merge_def Let_def)

lemma heap_merge_shape:
  assumes sh: "heap_shape (us @ a # b # vs) h"
  shows "heap_shape (us @ a # vs) (heap_merge a b h)"
    "hm_used (heap_mems (heap_merge a b h) x) = hm_used (heap_mems h x)"
    "x \<noteq> a \<Longrightarrow> hm_next (heap_mems (heap_merge a b h) x) = hm_next (heap_mems h x)"
    "hm_next (heap_mems (heap_merge a b h) a) = hm_next (heap_mems h b)"
proof -
  let ?m = "heap_mems h" and ?h = "heap_merge a b h" and ?nx = "hm_next (heap_mems h b)"
  note s = heap_shapeD [OF sh]
  note c1 = heap_chain_around [OF s(1)]
  have b: "hm_next (?m a) = b" "b + 24 \<le> ?nx" "8 dvd ?nx" "heap_chain ?m ?nx vs (heap_end h)"
    using c1(2) by auto
  have m: "heap_mems ?h x = (if x = a then (?m a)\<lparr>hm_next := ?nx\<rparr>
     else if x = ?nx then (?m x)\<lparr>hm_prev := a\<rparr> else ?m x)" for x
    using b c1(3) by (intro heap_merge_mems) auto
  show "hm_used (heap_mems ?h x) = hm_used (?m x)" by (simp add: m)
  show "x \<noteq> a \<Longrightarrow> hm_next (heap_mems ?h x) = hm_next (?m x)" by (simp add: m)
  show "hm_next (heap_mems ?h a) = ?nx" by (simp add: m)
  have us: "x \<noteq> a \<and> x \<noteq> ?nx" if "x \<in> set us" for x using c1(3) c1(5) [OF that] b by auto
  have vs: "x \<noteq> a" if "x \<in> set vs" for x using heap_chain_in [OF b(4) that] b(1,2) c1(3) by auto
  have "heap_chain (heap_mems ?h) 0 us a"
    using c1(1) by (rule heap_chain_cong [THEN iffD1, rotated]) (auto simp: m dest: us)
  moreover have "heap_chain (heap_mems ?h) ?nx vs (heap_end h)"
    using b(4) by (rule heap_chain_cong [THEN iffD1, rotated]) (auto simp: m dest: vs)
  ultimately have c: "heap_chain (heap_mems ?h) 0 (us @ a # vs) (heap_end h)"
    using b c1(3) by (auto simp: heap_chain_append m)
  have p: "prev_chain ?m 0 us" "hm_prev (?m a) = last (0 # us)" "prev_chain ?m b vs"
    using s(2) by (auto simp: prev_chain_append)
  have pu: "prev_chain (heap_mems ?h) 0 us"
    using p(1) by (rule prev_chain_cong [THEN iffD1, rotated]) (auto simp: m dest: us)
  have pv: "prev_chain (heap_mems ?h) a vs"
  proof (cases vs)
    case (Cons v ws)
    have v: "v = ?nx" using b(4) Cons by auto
    have "v \<noteq> x" if "x \<in> set ws" for x using heap_chain_sorted [OF b(4)] that Cons by auto
    then have "prev_chain (heap_mems ?h) v ws = prev_chain ?m v ws"
      using v vs Cons by (intro prev_chain_cong) (auto simp: m)
    with p(3) v vs Cons show ?thesis by (auto simp: m)
  qed simp
  have "prev_chain (heap_mems ?h) 0 (us @ a # vs)"
    using pu pv p(2) by (auto simp: prev_chain_append m)
  moreover have "hm_used (heap_mems ?h (heap_end h)) = 1" using s(8) by (auto simp: m)
  ultimately show "heap_shape (us @ a # vs) ?h" using c s by (auto simp: heap_shape_def m)
qed

section \<open>Allocation\<close>

text \<open>Flags and magic numbers of blocks do not matter to the shape.\<close>

lemma heap_shape_upd:
  assumes "heap_shape bs h" "b \<in> set bs" "\<And>m. hm_next (f m) = hm_next m \<and> hm_prev (f m) = hm_prev m"
    "hm_magic (f (heap_mems h b)) = HEAP_MAGIC"
  shows "heap_shape bs (upd_mem b f h)"
proof -
  note s = heap_shapeD [OF assms(1)]
  have "heap_chain ((heap_mems h)(b := f (heap_mems h b))) 0 bs (heap_end h)"
    using s(1) by (rule heap_chain_cong [THEN iffD1, rotated]) (simp add: assms(3))
  moreover have "prev_chain ((heap_mems h)(b := f (heap_mems h b))) 0 bs"
    using s(2) by (rule prev_chain_cong [THEN iffD1, rotated]) (simp add: assms(3))
  moreover have "heap_end h \<noteq> b" using heap_chain_lt [OF s(1) assms(2)] by simp
  ultimately show ?thesis using s assms(4) by (auto simp: heap_shape_def)
qed

lemma heap_shape_fields [simp]:
  "heap_shape bs (h\<lparr>lfree := p\<rparr>) = heap_shape bs h" "heap_shape bs (h\<lparr>used_mem := u\<rparr>) = heap_shape bs h"
  "heap_shape bs (heap_stats n h) = heap_shape bs h"
  by (simp_all add: heap_shape_def heap_stats_def Let_def)

lemma heap_stats_frame [simp]:
  "heap_ptr (heap_stats n h) = heap_ptr h" "mem_size_aligned (heap_stats n h) = mem_size_aligned h"
  "lfree (heap_stats n h) = lfree h" "heap_end (heap_stats n h) = heap_end h"
  "heap_sem (heap_stats n h) = heap_sem h" "used_mem (heap_stats n h) = add32 (used_mem h) n"
  "heap_byte (heap_stats n h) = heap_byte h" "heap_mems (heap_stats n h) = heap_mems h"
  by (simp_all add: heap_stats_def Let_def)

text \<open>The blocks after an allocation from the block \<open>b\<close>.\<close>

definition malloc_blocks :: "rt_heap \<Rightarrow> nat \<Rightarrow> nat list \<Rightarrow> nat \<Rightarrow> nat list \<Rightarrow> nat list" where
  "malloc_blocks h n us b vs =
     us @ b # (if b + n + 48 \<le> hm_next (heap_mems h b) then (b + 16 + n) # vs else vs)"

text \<open>Two heaps that differ in the headers, the statistics and \<open>lfree\<close> only.\<close>

definition same_heap :: "rt_heap \<Rightarrow> rt_heap \<Rightarrow> bool" where
  "same_heap h h' \<longleftrightarrow> heap_ptr h' = heap_ptr h \<and> mem_size_aligned h' = mem_size_aligned h \<and>
     heap_end h' = heap_end h \<and> heap_sem h' = heap_sem h \<and> heap_byte h' = heap_byte h"

lemma same_heap_malloc_take: "same_heap h (malloc_take n b h)" "lfree (malloc_take n b h) = lfree h"
  by (simp_all add: malloc_take_def same_heap_def Let_def)

lemma malloc_take_split:
  assumes "b + n + 48 \<le> hm_next (heap_mems h b)" "hm_next (heap_mems h b) < 2 ^ 32"
  shows "malloc_take n b h = upd_mem b (\<lambda>m. m\<lparr>hm_magic := HEAP_MAGIC\<rparr>)
           (heap_stats (n + 16) (upd_mem b (\<lambda>m. m\<lparr>hm_used := 1\<rparr>) (heap_split b (b + 16 + n) h)))"
  using assms by (simp add: malloc_take_def Let_def heap_const_defs add32_small sub32_small)

lemma malloc_take_whole:
  assumes "\<not> b + n + 48 \<le> hm_next (heap_mems h b)" "b + 16 + n \<le> hm_next (heap_mems h b)"
    "hm_next (heap_mems h b) < 2 ^ 32" "n + 32 < 2 ^ 32"
  shows "malloc_take n b h = upd_mem b (\<lambda>m. m\<lparr>hm_magic := HEAP_MAGIC\<rparr>)
           (heap_stats (hm_next (heap_mems h b) - b) (upd_mem b (\<lambda>m. m\<lparr>hm_used := 1\<rparr>) h))"
  using assms by (simp add: malloc_take_def Let_def heap_const_defs add32_small sub32_small)


text \<open>What an allocation does to the headers.\<close>

lemma malloc_take_effect:
  assumes sh: "heap_shape (us @ b # vs) h" and fit: "fits h n b" and n: "8 dvd n" "16 \<le> n"
  shows "heap_shape (malloc_blocks h n us b vs) (malloc_take n b h)"
    "hm_used (heap_mems (malloc_take n b h) b) = 1"
    "b + 16 + n \<le> hm_next (heap_mems (malloc_take n b h) b)"
    "\<And>x. x \<in> set (us @ vs) \<Longrightarrow> hm_used (heap_mems (malloc_take n b h) x) = hm_used (heap_mems h x) \<and>
       hm_next (heap_mems (malloc_take n b h) x) = hm_next (heap_mems h x)"
    "b + n + 48 \<le> hm_next (heap_mems h b) \<Longrightarrow>
       hm_next (heap_mems (malloc_take n b h) b) = b + 16 + n \<and>
       hm_used (heap_mems (malloc_take n b h) (b + 16 + n)) = 0 \<and>
       hm_next (heap_mems (malloc_take n b h) (b + 16 + n)) = hm_next (heap_mems h b)"
    "\<not> b + n + 48 \<le> hm_next (heap_mems h b) \<Longrightarrow>
       hm_next (heap_mems (malloc_take n b h) b) = hm_next (heap_mems h b)"
    "used_mem (malloc_take n b h) =
       add32 (used_mem h) (hm_next (heap_mems (malloc_take n b h) b) - b)"
proof -
  let ?m = "heap_mems h" and ?nx = "hm_next (heap_mems h b)" and ?h = "malloc_take n b h"
  note s = heap_shapeD [OF sh]
  note a = heap_chain_around [OF s(1)]
  have e: "heap_end h = add32 (mem_size_aligned h) 16" using s(3,4) by (simp add: add32_small)
  have nx: "?nx < 2 ^ 32" using a(4) s(4) by linarith
  have fit': "b + 16 + n \<le> ?nx" "b + n < mem_size_aligned h" using fit by (auto simp: fits_def)
  have n32: "n + 32 < 2 ^ 32" using fit'(2) s(3,4) by linarith
  have dv: "8 dvd b" using heap_chain_dvd [OF s(1), of b] by simp
  have x_neq: "x \<noteq> b" "x \<noteq> b + 16 + n \<or> ?nx \<le> b + 16 + n" if "x \<in> set (us @ vs)" for x
    using that a(3) a(5) [of x] a(6) [of x] fit'(1) by auto
  show "heap_shape (malloc_blocks h n us b vs) ?h"
  proof (cases "b + n + 48 \<le> ?nx")
    case True
    have spl: "heap_shape (us @ b # (b + 16 + n) # vs) (heap_split b (b + 16 + n) h)"
      using True n dv by (intro heap_split_shape [OF sh]) auto
    from spl have "heap_shape (us @ b # (b + 16 + n) # vs)
        (upd_mem b (\<lambda>m. m\<lparr>hm_used := 1\<rparr>) (heap_split b (b + 16 + n) h))"
      by (rule heap_shape_upd) (use heap_shapeD(9) [OF spl, of b] in auto)
    then show ?thesis using True
      by (simp add: malloc_take_split [OF True nx] malloc_blocks_def) (rule heap_shape_upd, auto)
  next
    case False
    have "heap_shape (us @ b # vs) (upd_mem b (\<lambda>m. m\<lparr>hm_used := 1\<rparr>) h)"
      using s(9) by (intro heap_shape_upd [OF sh]) auto
    then show ?thesis using False
      by (simp add: malloc_take_whole [OF False fit'(1) nx n32] malloc_blocks_def) (rule heap_shape_upd, auto)
  qed
  have sm: "heap_mems (heap_split b (b + 16 + n) h) x =
    (if x = b + 16 + n then \<lparr>hm_magic = HEAP_MAGIC, hm_used = 0, hm_next = ?nx, hm_prev = b\<rparr>
     else if x = b then (?m b)\<lparr>hm_next := b + 16 + n\<rparr>
     else if x = ?nx \<and> x \<noteq> heap_end h then (?m x)\<lparr>hm_prev := b + 16 + n\<rparr> else ?m x)"
    if "b + n + 48 \<le> ?nx" for x
    using that a(3) by (intro heap_split_mems [OF _ _ _ e]) auto
  show used: "hm_used (heap_mems ?h b) = 1"
    by (cases "b + n + 48 \<le> ?nx")
      (simp_all add: malloc_take_split [OF _ nx] malloc_take_whole [OF _ fit'(1) nx n32])
  show split: "hm_next (heap_mems ?h b) = b + 16 + n \<and> hm_used (heap_mems ?h (b + 16 + n)) = 0 \<and>
       hm_next (heap_mems ?h (b + 16 + n)) = ?nx" if "b + n + 48 \<le> ?nx"
    using that by (simp add: malloc_take_split [OF that nx] sm)
  show whole: "hm_next (heap_mems ?h b) = ?nx" if "\<not> b + n + 48 \<le> ?nx"
    by (simp add: malloc_take_whole [OF that fit'(1) nx n32])
  show "b + 16 + n \<le> hm_next (heap_mems ?h b)" using split whole fit'(1) by fastforce
  show "hm_used (heap_mems ?h x) = hm_used (?m x) \<and> hm_next (heap_mems ?h x) = hm_next (?m x)"
    if "x \<in> set (us @ vs)" for x
    using x_neq [OF that]
    by (cases "b + n + 48 \<le> ?nx")
      (auto simp: malloc_take_split [OF _ nx] malloc_take_whole [OF _ fit'(1) nx n32] sm)
  show "used_mem ?h = add32 (used_mem h) (hm_next (heap_mems ?h b) - b)"
  proof (cases "b + n + 48 \<le> ?nx")
    case True
    then show ?thesis using split by (simp add: malloc_take_split [OF True nx] add.commute)
  next
    case False
    then show ?thesis using whole by (simp add: malloc_take_whole [OF False fit'(1) nx n32])
  qed
qed


text \<open>Free neighbours: a list is coalesced when its parts are and the borders are not both free.\<close>

lemma coalesced_cong:
  "(\<And>x. x \<in> set xs \<Longrightarrow> F x = G x) \<Longrightarrow>
   successively (\<lambda>a b. \<not> (F a \<and> F b)) xs = successively (\<lambda>a b. \<not> (G a \<and> G b)) xs"
  by (rule successively_cong) auto

lemma coalesced_malloc:
  assumes "successively (\<lambda>a b. \<not> (F a \<and> F b)) (us @ b # vs)" "F b" "\<not> G b"
    "\<And>x. x \<in> set (us @ vs) \<Longrightarrow> G x = F x"
  shows "successively (\<lambda>a b. \<not> (G a \<and> G b)) (us @ b # vs)"
    "successively (\<lambda>a b. \<not> (G a \<and> G b)) (us @ b # c # vs)"
proof -
  have u: "successively (\<lambda>a b. \<not> (F a \<and> F b)) us" and v: "successively (\<lambda>a b. \<not> (F a \<and> F b)) vs"
    and h: "vs \<noteq> [] \<Longrightarrow> \<not> F (hd vs)"
    using assms(1,2) by (auto simp: successively_append_iff successively_Cons)
  have "successively (\<lambda>a b. \<not> (G a \<and> G b)) us" "successively (\<lambda>a b. \<not> (G a \<and> G b)) vs"
    using u v coalesced_cong [of us G F] coalesced_cong [of vs G F] assms(4) by auto
  moreover have "vs \<noteq> [] \<Longrightarrow> \<not> G (hd vs)" using h assms(4) by auto
  ultimately show "successively (\<lambda>a b. \<not> (G a \<and> G b)) (us @ b # vs)"
    "successively (\<lambda>a b. \<not> (G a \<and> G b)) (us @ b # c # vs)"
    using assms(3) by (auto simp: successively_append_iff successively_Cons)
qed

lemma malloc_take_inv:
  assumes inv: "heap_inv (us @ b # vs) h" and fit: "fits h n b" and n: "8 dvd n" "16 \<le> n"
  defines "h' \<equiv> malloc_take n b h" and "bs' \<equiv> malloc_blocks h n us b vs"
  shows "heap_shape bs' h'" "successively (\<lambda>a b. \<not> (is_free h' a \<and> is_free h' b)) bs'"
    "used_mem h' = used_total (heap_mems h') bs'"
proof -
  note i = heap_invD [OF inv]
  note s = heap_shapeD [OF i(1)]
  note e = malloc_take_effect [OF i(1) fit n, folded h'_def bs'_def]
  show sh: "heap_shape bs' h'" by (rule e(1))
  note s' = heap_shapeD [OF sh]
  have fb: "is_free h b" using fit by (simp add: fits_def)
  show "successively (\<lambda>a b. \<not> (is_free h' a \<and> is_free h' b)) bs'"
    using coalesced_malloc [OF i(2) fb, of "is_free h'"] e(2,4)
    by (auto simp: bs'_def malloc_blocks_def)
  have "used_total (heap_mems h') us = used_total (heap_mems h) us"
    "used_total (heap_mems h') vs = used_total (heap_mems h) vs"
    using e(4) by (auto intro!: used_total_cong)
  then have t: "used_total (heap_mems h') bs' =
      used_total (heap_mems h) (us @ b # vs) + (hm_next (heap_mems h' b) - b)"
    using e(2,5) fb by (auto simp: bs'_def malloc_blocks_def)
  moreover have "used_total (heap_mems h') bs' \<le> heap_end h'" using used_total_le [OF s'(1)] by simp
  ultimately show "used_mem h' = used_total (heap_mems h') bs'"
    using e(7) i(4) s'(4) by (simp add: add32_small)
qed

text \<open>The first of the remaining free blocks.\<close>

lemma first_free_in: "hd (filter F xs @ [e]) = e \<or> hd (filter F xs @ [e]) \<in> set xs \<and> F (hd (filter F xs @ [e]))"
proof (cases "filter F xs")
  case (Cons y ys)
  then have "y \<in> set xs \<and> F y" using filter_eq_ConsD [OF Cons] by auto
  then show ?thesis by (simp add: Cons)
qed simp

lemma first_free_le:
  assumes "sorted_wrt (<) xs" "x \<in> set xs" "F x"
  shows "hd (filter F xs @ [e]) \<le> (x :: nat)"
  using assms by (induction xs) (auto dest: less_imp_le)

lemma sorted_dropWhile_le:
  "x \<in> set (dropWhile (\<lambda>b. b \<noteq> p) xs) \<Longrightarrow> sorted_wrt (<) xs \<Longrightarrow> p \<le> (x :: nat)"
  by (induction xs) (auto split: if_splits)

text \<open>\<open>rt_malloc\<close> under the semaphore: the first block from \<open>lfree\<close> on that fits.\<close>

lemma malloc_locked_none:
  assumes "heap_inv bs h" "n \<le> mem_size_aligned h" "find (fits h n) (from_lfree bs h) = None"
  shows "malloc_locked n h = Some (None, h)"
  using malloc_search_lfree [OF assms(1,2)] assms(3) by (simp add: malloc_locked_def)

lemma malloc_locked_some:
  assumes inv: "heap_inv (us @ b # vs) h" and n: "n \<le> mem_size_aligned h" "8 dvd n" "16 \<le> n"
    and find: "find (fits h n) (from_lfree (us @ b # vs) h) = Some b"
  defines "bs' \<equiv> malloc_blocks h n us b vs"
  obtains h' where "malloc_locked n h = Some (Some (heap_ptr h + b + 16), h')" "heap_inv bs' h'"
    "same_heap h h'" "heap_mems h' = heap_mems (malloc_take n b h)"
    "lfree_lowest (us @ b # vs) h \<Longrightarrow> lfree_lowest bs' h'"
    "if b = lfree h then b < lfree h' else lfree h' = lfree h \<and> lfree h < b"
proof -
  let ?h = "malloc_take n b h"
  have fit: "fits h n b" using find by (auto simp: find_Some_iff)
  note i = heap_invD [OF inv]
  note t = malloc_take_inv [OF inv fit n(2,3), folded bs'_def]
  note e = malloc_take_effect [OF i(1) fit n(2,3), folded bs'_def]
  note s = heap_shapeD [OF t(1)]
  note sorted = heap_chain_sorted [OF s(1)]
  have same: "same_heap h ?h" "lfree ?h = lfree h" by (rule same_heap_malloc_take)+
  define ws where "ws = (if b + n + 48 \<le> hm_next (heap_mems h b) then (b + 16 + n) # vs else vs)"
  have ws: "bs' = us @ b # ws" "set ws \<subseteq> insert (b + 16 + n) (set vs)"
    "\<And>x. x \<in> set ws \<Longrightarrow> x \<notin> set vs \<Longrightarrow> x = b + 16 + n"
    by (auto simp: bs'_def malloc_blocks_def ws_def split: if_splits)
  have chain_b: "heap_chain (heap_mems ?h) b (b # ws) (heap_end ?h)"
    using s(1) by (auto simp: ws(1) heap_chain_append)
  let ?p = "hd (filter (is_free ?h) (b # ws) @ [heap_end ?h])"
  define h' where "h' = (if b = lfree h then ?h\<lparr>lfree := ?p\<rparr> else ?h)"
  have run: "malloc_locked n h = Some (Some (heap_ptr h + b + 16), h')"
    using malloc_search_lfree [OF inv n(1)] find same lfree_advance_aux [OF chain_b]
    by (auto simp: malloc_locked_def h'_def Let_def same_heap_def SIZEOF_STRUCT_MEM_def)
  have fr: "is_free h' = is_free ?h" "heap_mems h' = heap_mems ?h" "heap_end h' = heap_end ?h"
    by (auto simp: h'_def)
  have keep: "is_free ?h x = is_free h x" if "x \<in> set (us @ vs)" for x using e(4) [OF that] by simp
  have lf: "lfree h' = heap_end h' \<or> lfree h' \<in> set bs' \<and> is_free h' (lfree h')"
  proof (cases "b = lfree h")
    case True
    then show ?thesis using first_free_in [of "is_free ?h" "b # ws" "heap_end ?h"]
      by (auto simp: h'_def ws(1))
  next
    case False
    with i(3) same keep [of "lfree h"] show ?thesis
      by (auto simp: h'_def bs'_def malloc_blocks_def same_heap_def)
  qed
  have "heap_inv bs' h'" using t lf by (auto simp: heap_inv_def fr h'_def)
  moreover have "lfree_lowest bs' h'" if low: "lfree_lowest (us @ b # vs) h"
    unfolding lfree_lowest_def
  proof (intro ballI impI)
    fix x assume x: "x \<in> set bs'" "is_free h' x"
    have b_used: "\<not> is_free ?h b" using e(2) by simp
    show "lfree h' \<le> x"
    proof (cases "b = lfree h")
      case True
      have "x \<in> set (b # ws)"
      proof (rule ccontr)
        assume "x \<notin> set (b # ws)"
        with x(1) have u: "x \<in> set us" by (auto simp: ws(1))
        with low x(2) keep [of x] True have "b \<le> x" by (auto simp: lfree_lowest_def fr)
        with u sorted show False by (auto simp: ws(1) sorted_wrt_append)
      qed
      then show ?thesis using True x(2) sorted first_free_le [of "b # ws" x "is_free ?h"]
        by (auto simp: h'_def ws(1) sorted_wrt_append)
    next
      case False
      have "lfree h \<le> b" using low fit by (auto simp: lfree_lowest_def fits_def)
      then show ?thesis
        using False x low keep [of x] b_used ws(2,3)
        by (auto simp: h'_def same(2) ws(1) lfree_lowest_def fr)
    qed
  qed
  moreover have "same_heap h h'" using same(1) by (auto simp: same_heap_def h'_def)
  moreover have "if b = lfree h then b < lfree h' else lfree h' = lfree h \<and> lfree h < b"
  proof (cases "b = lfree h")
    case True
    have "b < ?p" using first_free_in [of "is_free ?h" ws "heap_end ?h"] e(2) sorted heap_chain_lt [OF chain_b, of b]
      by (auto simp: ws(1) sorted_wrt_append)
    with True show ?thesis by (simp add: h'_def)
  next
    case False
    have "b \<in> set (from_lfree (us @ b # vs) h)" using find by (metis find_Some_iff nth_mem)
    then have "lfree h \<le> b"
      using heap_chain_sorted [OF heap_shapeD(1) [OF i(1)]] by (rule sorted_dropWhile_le)
    with False same(2) show ?thesis by (simp add: h'_def)
  qed
  ultimately show ?thesis using that [OF run] fr(2) by blast
qed

section \<open>Release\<close>

text \<open>The blocks after \<open>plug_holes\<close> on the free block \<open>b\<close>: free neighbours are merged with it.\<close>

definition plug_after :: "rt_heap \<Rightarrow> nat list \<Rightarrow> nat list" where
  "plug_after h vs = (if vs \<noteq> [] \<and> is_free h (hd vs) then tl vs else vs)"

definition plug_blocks :: "rt_heap \<Rightarrow> nat list \<Rightarrow> nat \<Rightarrow> nat list \<Rightarrow> nat list" where
  "plug_blocks h us b vs =
     (if us \<noteq> [] \<and> is_free h (last us) then us else us @ [b]) @ plug_after h vs"

text \<open>What a step of \<open>plug_holes\<close> keeps: the flags, the blocks in use, and \<open>lfree\<close> does not rise.\<close>

definition plug_keeps :: "rt_heap \<Rightarrow> rt_heap \<Rightarrow> bool" where
  "plug_keeps h h' \<longleftrightarrow> same_heap h h' \<and> used_mem h' = used_mem h \<and> max_mem h' = max_mem h \<and>
     (\<forall>x. hm_used (heap_mems h' x) = hm_used (heap_mems h x)) \<and>
     (\<forall>x. \<not> is_free h x \<longrightarrow> hm_next (heap_mems h' x) = hm_next (heap_mems h x)) \<and> lfree h' \<le> lfree h \<and>
     (is_free h (lfree h) \<longrightarrow> is_free h' (lfree h'))"

lemma plug_keeps_refl: "plug_keeps h h"
  by (simp add: plug_keeps_def same_heap_def)

lemma plug_keeps_trans: "plug_keeps h h1 \<Longrightarrow> plug_keeps h1 h2 \<Longrightarrow> plug_keeps h h2"
  by (auto simp: plug_keeps_def same_heap_def)

lemma plug_keeps_free: "plug_keeps h h' \<Longrightarrow> is_free h' x = is_free h x"
  by (auto simp: plug_keeps_def)

lemma heap_merge_keeps:
  assumes "heap_shape (us @ a # b # vs) h" "is_free h a"
  shows "plug_keeps h (heap_merge a b h)"
proof -
  note m = heap_merge_shape [OF assms(1)]
  have "a < b" using heap_chain_sorted [OF heap_shapeD(1) [OF assms(1)]] by (auto simp: sorted_wrt_append)
  moreover have "hm_next (heap_mems (heap_merge a b h) x) = hm_next (heap_mems h x)" if "\<not> is_free h x" for x
    using m(3) [of x] that assms(2) by auto
  ultimately show ?thesis using m(2) assms(2) by (auto simp: plug_keeps_def same_heap_def)
qed

lemma plug_forward_effect:
  assumes sh: "heap_shape (us @ b # vs) h" and free: "is_free h b"
  shows "heap_shape (us @ b # plug_after h vs) (plug_forward b h)" "plug_keeps h (plug_forward b h)"
    "lfree h \<in> set (us @ b # vs) \<Longrightarrow> lfree (plug_forward b h) \<in> set (us @ b # plug_after h vs)"
    "lfree h = heap_end h \<Longrightarrow> lfree (plug_forward b h) = heap_end h"
proof -
  note s = heap_shapeD [OF sh]
  note a = heap_chain_around [OF s(1)]
  have all: "heap_shape (us @ b # plug_after h vs) (plug_forward b h) \<and> plug_keeps h (plug_forward b h) \<and>
    (lfree h \<in> set (us @ b # vs) \<longrightarrow> lfree (plug_forward b h) \<in> set (us @ b # plug_after h vs)) \<and>
    (lfree h = heap_end h \<longrightarrow> lfree (plug_forward b h) = heap_end h)"
  proof (cases vs)
    case Nil
    then have "hm_next (heap_mems h b) = heap_end h" using a(2) by simp
    then show ?thesis using sh Nil
      by (simp add: plug_forward_merge plug_after_def plug_keeps_refl)
  next
    case (Cons v ws)
    have v: "hm_next (heap_mems h b) = v" "v \<noteq> b" "v < heap_end h"
      using a(2,3) heap_chain_lt [OF a(2), of v] Cons by auto
    note sh' = sh [unfolded Cons]
    show ?thesis
    proof (cases "is_free h v")
      case True
      have "plug_forward b h = heap_merge b v h" using True v by (simp add: plug_forward_merge)
      then show ?thesis using heap_merge_shape(1) [OF sh'] heap_merge_keeps [OF sh' free] True Cons v
        by (auto simp: plug_after_def)
    next
      case False
      then show ?thesis using sh Cons v
        by (simp add: plug_forward_merge plug_after_def plug_keeps_refl)
    qed
  qed
  then show "heap_shape (us @ b # plug_after h vs) (plug_forward b h)" "plug_keeps h (plug_forward b h)"
    "lfree h \<in> set (us @ b # vs) \<Longrightarrow> lfree (plug_forward b h) \<in> set (us @ b # plug_after h vs)"
    "lfree h = heap_end h \<Longrightarrow> lfree (plug_forward b h) = heap_end h" by blast+
qed

lemma plug_backward_effect:
  assumes sh: "heap_shape (us @ b # vs) h" and free: "is_free h b"
  defines "bs \<equiv> (if us \<noteq> [] \<and> is_free h (last us) then us else us @ [b]) @ vs"
  shows "heap_shape bs (plug_backward b h) \<and> plug_keeps h (plug_backward b h) \<and>
    (lfree h \<in> set (us @ b # vs) \<longrightarrow> lfree (plug_backward b h) \<in> set bs) \<and>
    (lfree h = heap_end h \<longrightarrow> lfree (plug_backward b h) = heap_end h)"
proof (cases us rule: rev_cases)
  case Nil
  have "hm_prev (heap_mems h b) = b" using heap_shapeD(1,2) [OF sh] Nil by simp
  then show ?thesis using sh Nil by (simp add: plug_backward_merge bs_def plug_keeps_refl)
next
  case (snoc ws p)
  note s = heap_shapeD [OF sh]
  have p: "hm_prev (heap_mems h b) = p" "p \<noteq> b" "b < heap_end h"
    using s(2) heap_chain_sorted [OF s(1)] heap_chain_lt [OF s(1), of b] snoc
    by (auto simp: prev_chain_append sorted_wrt_append)
  have sh': "heap_shape (ws @ p # b # vs) h" using sh snoc by simp
  show ?thesis
  proof (cases "is_free h p")
    case True
    have "plug_backward b h = heap_merge p b h" using True p by (simp add: plug_backward_merge)
    then show ?thesis using heap_merge_shape(1) [OF sh'] heap_merge_keeps [OF sh' True] True snoc p
      by (auto simp: bs_def)
  next
    case False
    then show ?thesis using sh snoc p by (simp add: plug_backward_merge bs_def plug_keeps_refl)
  qed
qed

text \<open>The whole of \<open>plug_holes\<close> makes the invariant of a heap whose only fault is at \<open>b\<close>.\<close>

lemma coalesced_plug:
  assumes "successively (\<lambda>a b. \<not> (is_free h a \<and> is_free h b)) us"
    "successively (\<lambda>a b. \<not> (is_free h a \<and> is_free h b)) vs" "is_free h b"
  shows "successively (\<lambda>a b. \<not> (is_free h a \<and> is_free h b)) (plug_blocks h us b vs)"
proof -
  have after: "successively (\<lambda>a b. \<not> (is_free h a \<and> is_free h b)) (plug_after h vs)"
    "plug_after h vs \<noteq> [] \<Longrightarrow> \<not> is_free h (hd (plug_after h vs))"
    using assms(2) by (cases vs; auto simp: plug_after_def successively_Cons)+
  with assms(1,3) show ?thesis
    by (auto simp: plug_blocks_def successively_append_iff successively_Cons)
qed

lemma used_total_keeps:
  assumes "plug_keeps h h'"
  shows "used_total (heap_mems h') xs = used_total (heap_mems h) xs"
  using assms by (induction xs) (auto simp: plug_keeps_def)

lemma used_total_plug:
  assumes "is_free h b"
  shows "used_total (heap_mems h) (plug_blocks h us b vs) = used_total (heap_mems h) (us @ b # vs)"
  using assms by (cases vs) (auto simp: plug_blocks_def plug_after_def)

lemma plug_holes_effect:
  assumes sh: "heap_shape (us @ b # vs) h" and free: "is_free h b"
    and co: "successively (\<lambda>a b. \<not> (is_free h a \<and> is_free h b)) us"
      "successively (\<lambda>a b. \<not> (is_free h a \<and> is_free h b)) vs"
    and lf: "lfree h = heap_end h \<or> lfree h \<in> set (us @ b # vs) \<and> is_free h (lfree h)"
    and used: "used_mem h = used_total (heap_mems h) (us @ b # vs)"
  shows "heap_inv (plug_blocks h us b vs) (plug_holes b h)" "plug_keeps h (plug_holes b h)"
proof -
  let ?h1 = "plug_forward b h" and ?h2 = "plug_holes b h"
  note f = plug_forward_effect [OF sh free]
  note k1 = plug_keeps_free [OF f(2)]
  have end1: "heap_end ?h1 = heap_end h" using f(2) by (simp add: plug_keeps_def same_heap_def)
  have "is_free ?h1 b" using free by (simp only: k1)
  note g = plug_backward_effect [OF f(1) this, folded plug_holes_def]
  have bs: "(if us \<noteq> [] \<and> is_free ?h1 (last us) then us else us @ [b]) @ plug_after h vs = plug_blocks h us b vs"
    by (simp only: k1 plug_blocks_def)
  note g = g [unfolded bs]
  show k: "plug_keeps h ?h2" using f(2) g plug_keeps_trans by blast
  note k2 = plug_keeps_free [OF k]
  have "successively (\<lambda>a b. \<not> (is_free ?h2 a \<and> is_free ?h2 b)) (plug_blocks h us b vs)"
    using coalesced_plug [OF co free] by (simp only: k2)
  moreover have "lfree ?h2 = heap_end ?h2 \<or> lfree ?h2 \<in> set (plug_blocks h us b vs) \<and> is_free ?h2 (lfree ?h2)"
    using lf
  proof
    assume l: "lfree h = heap_end h"
    have "lfree ?h2 = heap_end ?h1" using g f(4) [OF l] end1 by simp
    then show ?thesis using k end1 by (simp add: plug_keeps_def same_heap_def)
  next
    assume l: "lfree h \<in> set (us @ b # vs) \<and> is_free h (lfree h)"
    have "lfree ?h2 \<in> set (plug_blocks h us b vs)" using g f(3) l by blast
    with l k show ?thesis unfolding plug_keeps_def by blast
  qed
  moreover have "used_mem ?h2 = used_total (heap_mems ?h2) (plug_blocks h us b vs)"
    using used_total_plug [OF free] used_total_keeps [OF k] used k by (simp add: plug_keeps_def)
  ultimately show "heap_inv (plug_blocks h us b vs) ?h2" using g unfolding heap_inv_def by blast
qed

definition free_mark :: "nat \<Rightarrow> rt_heap \<Rightarrow> rt_heap" where
  "free_mark b h =
     (upd_mem b (\<lambda>m. m\<lparr>hm_used := 0, hm_magic := HEAP_MAGIC\<rparr>) h)
       \<lparr>lfree := (if b < lfree h then b else lfree h),
        used_mem := used_mem h - (hm_next (heap_mems h b) - b)\<rparr>"

lemma free_mark_frame:
  "same_heap h (free_mark b h)" "max_mem (free_mark b h) = max_mem h"
  "hm_next (heap_mems (free_mark b h) x) = hm_next (heap_mems h x)"
  "is_free (free_mark b h) x = (x = b \<or> is_free h x)"
  "lfree (free_mark b h) = (if b < lfree h then b else lfree h)"
  by (auto simp: free_mark_def same_heap_def)

lemma free_locked_mark:
  assumes inv: "heap_inv (us @ b # vs) h" and used: "\<not> is_free h b"
  shows "free_locked b h = plug_holes b (free_mark b h)"
    "heap_shape (us @ b # vs) (free_mark b h)"
    "used_mem (free_mark b h) = used_total (heap_mems (free_mark b h)) (us @ b # vs)"
proof -
  note i = heap_invD [OF inv]
  note s = heap_shapeD [OF i(1)]
  note a = heap_chain_around [OF s(1)]
  have bnd: "b < 2 ^ 32" "heap_ptr h + b < 2 ^ 32" "hm_next (heap_mems h b) < 2 ^ 32"
    using a(3,4) s(4,6) by linarith+
  have tot: "used_total (heap_mems h) (us @ b # vs) \<le> heap_end h" using used_total_le [OF s(1)] by simp
  have le: "hm_next (heap_mems h b) - b \<le> used_mem h" using i(4) used by simp
  have u32: "used_mem h < 2 ^ 32" using tot i(4) s(4) by linarith
  show "free_locked b h = plug_holes b (free_mark b h)"
    using bnd a(3) le u32
    by (simp add: free_locked_def free_mark_def Let_def add32_small sub32_small upd_mem_def)
  show "heap_shape (us @ b # vs) (free_mark b h)"
    unfolding free_mark_def heap_shape_fields by (rule heap_shape_upd [OF i(1)]) auto
  have "used_total (heap_mems (free_mark b h)) xs = used_total (heap_mems h) xs" if "b \<notin> set xs" for xs
    using that by (intro used_total_cong) (auto simp: free_mark_def)
  moreover have "b \<notin> set us" "b \<notin> set vs" using heap_chain_sorted [OF s(1)] by (auto simp: sorted_wrt_append)
  ultimately show "used_mem (free_mark b h) = used_total (heap_mems (free_mark b h)) (us @ b # vs)"
    using used i(4) by (simp add: free_mark_def)
qed

lemma free_locked_effect:
  assumes inv: "heap_inv (us @ b # vs) h" and used: "\<not> is_free h b"
  defines "h' \<equiv> free_locked b h" and "bs' \<equiv> plug_blocks h us b vs"
  shows "heap_inv bs' h'" "same_heap h h'" "is_free h' x = (x = b \<or> is_free h x)"
    "\<And>x. x \<in> set (us @ vs) \<Longrightarrow> \<not> is_free h x \<Longrightarrow>
       x \<in> set bs' \<and> hm_used (heap_mems h' x) = hm_used (heap_mems h x) \<and>
       hm_next (heap_mems h' x) = hm_next (heap_mems h x)"
    "set bs' \<subseteq> set (us @ b # vs)"
    "lfree_lowest (us @ b # vs) h \<Longrightarrow> lfree_lowest bs' h'"
proof -
  let ?h = "free_mark b h"
  note i = heap_invD [OF inv]
  note s = heap_shapeD [OF i(1)]
  note m = free_locked_mark [OF inv used]
  note fm = free_mark_frame
  have nin: "b \<notin> set us" "b \<notin> set vs"
    using heap_chain_sorted [OF s(1)] by (auto simp: sorted_wrt_append)
  have co: "successively (\<lambda>a b. \<not> (is_free h a \<and> is_free h b)) us"
    "successively (\<lambda>a b. \<not> (is_free h a \<and> is_free h b)) vs"
    using i(2) by (auto simp: successively_append_iff successively_Cons)
  have keep: "is_free ?h x = is_free h x" if "x \<in> set us \<or> x \<in> set vs" for x
    using that nin by (auto simp: fm)
  have co': "successively (\<lambda>a b. \<not> (is_free ?h a \<and> is_free ?h b)) us"
    "successively (\<lambda>a b. \<not> (is_free ?h a \<and> is_free ?h b)) vs"
    using co coalesced_cong [of us "is_free ?h" "is_free h"] coalesced_cong [of vs "is_free ?h" "is_free h"] keep
    by blast+
  have pb: "plug_blocks ?h us b vs = bs'"
    using keep by (auto simp: bs'_def plug_blocks_def plug_after_def)
  have lf: "lfree ?h = heap_end ?h \<or> lfree ?h \<in> set (us @ b # vs) \<and> is_free ?h (lfree ?h)"
    using i(3) fm(1) [of h b] by (auto simp: fm(4,5) same_heap_def)
  have "is_free ?h b" by (simp add: fm(4))
  note p = plug_holes_effect [OF m(2) this co' lf m(3), unfolded pb, folded m(1), folded h'_def]
  show "heap_inv bs' h'" by (rule p(1))
  show "same_heap h h'" using p(2) fm(1) [of h b] by (auto simp: plug_keeps_def same_heap_def)
  show fr: "is_free h' x = (x = b \<or> is_free h x)" for x using plug_keeps_free [OF p(2), of x] by (simp add: fm(4))
  show sub: "set bs' \<subseteq> set (us @ b # vs)"
    by (auto simp: bs'_def plug_blocks_def plug_after_def dest: list.set_sel(2))
  show "x \<in> set bs' \<and> hm_used (heap_mems h' x) = hm_used (heap_mems h x) \<and>
       hm_next (heap_mems h' x) = hm_next (heap_mems h x)"
    if x: "x \<in> set (us @ vs)" "\<not> is_free h x" for x
  proof -
    have ne: "x \<noteq> b" using x nin by auto
    have "x \<in> set bs'" using x by (cases vs) (auto simp: bs'_def plug_blocks_def plug_after_def)
    moreover have "hm_used (heap_mems h' x) = hm_used (heap_mems ?h x)"
      "hm_next (heap_mems h' x) = hm_next (heap_mems ?h x)"
      using p(2) x(2) ne fm(4) [of b h x] by (auto simp: plug_keeps_def)
    ultimately show ?thesis using ne by (simp add: free_mark_def)
  qed
  show "lfree_lowest bs' h'" if low: "lfree_lowest (us @ b # vs) h"
    unfolding lfree_lowest_def
  proof (intro ballI impI)
    fix x assume x: "x \<in> set bs'" "is_free h' x"
    have "lfree h' \<le> lfree ?h" using p(2) by (simp add: plug_keeps_def)
    also have "lfree ?h \<le> x" using x sub fr [of x] low by (auto simp: fm(5) lfree_lowest_def)
    finally show "lfree h' \<le> x" .
  qed
qed

text \<open>The next links of a chain follow from its blocks.\<close>

lemma heap_chain_unique:
  assumes "heap_chain m b xs e" "heap_chain m' b xs e" "x \<in> set xs"
  shows "hm_next (m' x) = hm_next (m x)"
  using assms
proof (induction xs arbitrary: b)
  case (Cons y ys)
  have start: "hm_next (m b) = (case ys of [] \<Rightarrow> e | z # _ \<Rightarrow> z)" "hm_next (m' b) = (case ys of [] \<Rightarrow> e | z # _ \<Rightarrow> z)"
    using Cons.prems(1,2) by (cases ys; simp)+
  with Cons show ?case by auto
qed simp

lemma prev_chain_unique:
  assumes "prev_chain m p xs" "prev_chain m' p xs" "x \<in> set xs"
  shows "hm_prev (m' x) = hm_prev (m x)"
  using assms by (induction xs arbitrary: p) auto

lemma heap_shape_unique:
  assumes "heap_shape bs h" "heap_shape bs h'" "heap_end h' = heap_end h" "b \<in> set bs"
    "hm_used (heap_mems h' b) = hm_used (heap_mems h b)"
  shows "heap_mems h' b = heap_mems h b"
proof -
  note s = heap_shapeD [OF assms(1)] and s' = heap_shapeD [OF assms(2)]
  have "hm_next (heap_mems h' b) = hm_next (heap_mems h b)"
    using heap_chain_unique [OF s(1) _ assms(4)] s'(1) assms(3) by metis
  moreover have "hm_prev (heap_mems h' b) = hm_prev (heap_mems h b)"
    by (rule prev_chain_unique [OF s(2) s'(2) assms(4)])
  ultimately show ?thesis using s(9) s'(9) assms(4,5) by simp
qed

end
