(* ===== verification/HeapCalls.thy ===== *)
theory HeapCalls
  imports Heap
begin

text \<open>
  The calls of the heap, \<open>rt_malloc\<close>, \<open>rt_free\<close>, \<open>rt_realloc\<close> and \<open>rt_calloc\<close>, as a thread that finds
  the semaphore of the heap free sees them, and their properties.
\<close>

section \<open>Calls\<close>

lemma unat_and_minus_8: "unat (x AND - 8 :: u32) = unat x div 8 * 8"
proof -
  have m: "(- 8 :: u32) = NOT (mask 3)" by (simp add: mask_eq_exp_minus_1)
  have "x AND - 8 = push_bit 3 (drop_bit 3 x)"
    unfolding m by (rule bit_word_eqI)
      (auto simp: bit_and_iff bit_not_iff bit_mask_iff bit_push_bit_iff bit_drop_bit_eq)
  moreover have "push_bit 3 (drop_bit 3 x) + take_bit 3 x = x" by (rule bits_ident)
  ultimately have "x AND - 8 = x - take_bit 3 x" by (metis add_diff_cancel_right')
  then have "unat (x AND - 8) = unat (x - take_bit 3 x)" by (rule arg_cong)
  also have "\<dots> = unat x - unat x mod 8"
  proof -
    have t: "unat (take_bit 3 x) = unat x mod 8"
      by (simp add: unsigned_take_bit_eq take_bit_eq_mod [of 3 "unat x"])
    then have "take_bit 3 x \<le> x" by (simp add: word_le_nat_alt)
    with t show ?thesis by (simp add: unat_sub)
  qed
  finally show ?thesis by (simp add: minus_mod_eq_div_mult)
qed

lemma unat_RT_ALIGN: "unat (RT_ALIGN sz 8) = unat (sz + 7) div 8 * 8"
  using unat_and_minus_8 [of "sz + 7"] by (simp add: RT_ALIGN_def add.commute)

lemma RT_ALIGN_8:
  assumes "unat sz \<le> 2 ^ 32 - 8"
  shows "unat (RT_ALIGN sz 8) = (unat sz + 7) div 8 * 8"
proof -
  have "unat (sz + 7) = unat sz + 7" using assms by (simp add: unat_word_ariths(1))
  then show ?thesis by (simp add: unat_RT_ALIGN)
qed

lemma RT_ALIGN_8_wrap:
  assumes "2 ^ 32 - 8 < unat sz"
  shows "RT_ALIGN sz 8 = 0"
proof -
  have "unat sz < 2 ^ 32" using unsigned_less [of sz] by simp
  with assms have "unat (sz + 7) = unat sz + 7 - 2 ^ 32"
    by (simp add: unat_word_ariths(1) mod_if)
  with \<open>unat sz < 2 ^ 32\<close> assms have "unat (RT_ALIGN sz 8) = 0"
    by (simp add: unat_RT_ALIGN)
  then show ?thesis by (simp add: unsigned_eq_0_iff)
qed

text \<open>The semaphore of the heap is free and nobody waits for it.\<close>

definition heap_unlocked :: "kernel \<Rightarrow> rt_heap \<Rightarrow> bool" where
  "heap_unlocked k h \<longleftrightarrow> sem_value (sems k (heap_sem h)) > 0 \<and> queue k (SemQ (heap_sem h)) = []"

lemma heap_lock:
  assumes "heap_unlocked k h"
  obtains k1 where "rt_sem_take (heap_sem h) t k = (Some RT_EOK, k1)" "snd (rt_sem_release (heap_sem h) k1) = k"
proof -
  let ?s = "heap_sem h"
  let ?k = "upd_sem ?s (\<lambda>m. m\<lparr>sem_value := sem_value m - 1\<rparr>) k"
  have "rt_sem_take ?s t k = (Some RT_EOK, ?k)" using assms by (simp add: rt_sem_take_def heap_unlocked_def)
  moreover have "snd (rt_sem_release ?s ?k) = k"
    using assms by (simp add: rt_sem_release_def heap_unlocked_def upd_sem_def)
  ultimately show ?thesis by (rule that)
qed

lemma same_heap_unlocked: "same_heap h h' \<Longrightarrow> heap_unlocked k h' = heap_unlocked k h"
  by (simp add: heap_unlocked_def same_heap_def)

text \<open>The size a request is served with.\<close>

definition malloc_size :: "u32 \<Rightarrow> nat" where
  "malloc_size sz = (if unat (RT_ALIGN sz 8) < 16 then 16 else unat (RT_ALIGN sz 8))"

lemma malloc_size_props: "8 dvd malloc_size sz" "16 \<le> malloc_size sz"
  "unat sz \<le> 2 ^ 32 - 8 \<Longrightarrow> unat sz \<le> malloc_size sz"
proof -
  have "8 dvd unat (RT_ALIGN sz 8)" by (simp add: unat_RT_ALIGN)
  then show "8 dvd malloc_size sz" "16 \<le> malloc_size sz" by (auto simp: malloc_size_def)
  show "unat sz \<le> malloc_size sz" if "unat sz \<le> 2 ^ 32 - 8"
  proof -
    have "unat sz \<le> (unat sz + 7) div 8 * 8" by linarith
    with RT_ALIGN_8 [OF that] show ?thesis by (auto simp: malloc_size_def)
  qed
qed

definition malloc_refused :: "u32 \<Rightarrow> rt_heap \<Rightarrow> bool" where
  "malloc_refused sz h \<longleftrightarrow> sz = 0 \<or> mem_size_aligned h < unat (RT_ALIGN sz 8)"

lemma rt_malloc_unlocked:
  assumes inv: "heap_inv bs h" and k: "heap_unlocked k h"
  shows "rt_malloc sz k h =
    (if malloc_refused sz h then Some (Some None, k, h)
     else map_option (\<lambda>(p, h1). (Some p, k, h1)) (malloc_locked (malloc_size sz) h))"
proof -
  obtain k1 where k1: "rt_sem_take (heap_sem h) RT_WAITING_FOREVER k = (Some RT_EOK, k1)"
    "snd (rt_sem_release (heap_sem h) k1) = k" using heap_lock [OF k] by metis
  have hs: "heap_sem h1 = heap_sem h" if "malloc_locked n h = Some (p, h1)" for n p h1
    using that same_heap_malloc_take(1)
    by (auto simp: malloc_locked_def Let_def same_heap_def split: option.splits if_splits)
  show ?thesis using k1 hs
    by (auto simp: rt_malloc_def rt_malloc_wake_def malloc_refused_def malloc_size_def Let_def
      MIN_SIZE_ALIGNED_def split: option.splits)
qed

lemma rt_malloc_cases:
  assumes inv: "heap_inv bs h" and k: "heap_unlocked k h"
  obtains (refused) "malloc_refused sz h" "rt_malloc sz k h = Some (Some None, k, h)"
  | (full) "find (fits h (malloc_size sz)) (from_lfree bs h) = None" "rt_malloc sz k h = Some (Some None, k, h)"
  | (block) us b vs h' where "bs = us @ b # vs" "find (fits h (malloc_size sz)) (from_lfree bs h) = Some b"
      "rt_malloc sz k h = Some (Some (Some (heap_ptr h + b + 16)), k, h')"
      "heap_inv (malloc_blocks h (malloc_size sz) us b vs) h'" "same_heap h h'"
      "heap_mems h' = heap_mems (malloc_take (malloc_size sz) b h)"
      "lfree_lowest bs h \<Longrightarrow> lfree_lowest (malloc_blocks h (malloc_size sz) us b vs) h'"
      "if b = lfree h then b < lfree h' else lfree h' = lfree h \<and> lfree h < b"
proof (cases "malloc_refused sz h")
  case True
  then show ?thesis using refused rt_malloc_unlocked [OF inv k, of sz] by simp
next
  case False
  let ?n = "malloc_size sz"
  have n: "?n \<le> mem_size_aligned h"
    using False heap_shapeD(5) [OF heap_invD(1) [OF inv]] by (auto simp: malloc_refused_def malloc_size_def)
  note run = rt_malloc_unlocked [OF inv k, of sz]
  show ?thesis
  proof (cases "find (fits h ?n) (from_lfree bs h)")
    case None
    then show ?thesis using full malloc_locked_none [OF inv n] run False by simp
  next
    case (Some b)
    then have "b \<in> set (from_lfree bs h)" by (auto simp: find_Some_iff)
    then have "b \<in> set bs" by (rule set_dropWhileD)
    then obtain us vs where bs: "bs = us @ b # vs" using split_list by metis
    obtain h' where "malloc_locked ?n h = Some (Some (heap_ptr h + b + 16), h')"
      "heap_inv (malloc_blocks h ?n us b vs) h'" "same_heap h h'" "heap_mems h' = heap_mems (malloc_take ?n b h)"
      "lfree_lowest bs h \<Longrightarrow> lfree_lowest (malloc_blocks h ?n us b vs) h'"
      "if b = lfree h then b < lfree h' else lfree h' = lfree h \<and> lfree h < b"
      using malloc_locked_some [OF inv [unfolded bs] n malloc_size_props(1,2)] Some bs by metis
    then show ?thesis using block [OF bs Some] run False by simp
  qed
qed

text \<open>A block of the chain and another one do not overlap.\<close>

lemma heap_blocks_disjoint:
  assumes "heap_shape bs h" "b \<in> set bs" "c \<in> set bs" "c \<noteq> b"
  shows "hm_next (heap_mems h c) \<le> b \<or> hm_next (heap_mems h b) \<le> c"
proof -
  obtain us vs where bs: "bs = us @ b # vs" using assms(2) split_list by metis
  note a = heap_chain_around [OF heap_shapeD(1) [OF assms(1), unfolded bs]]
  have "c \<in> set us \<or> c \<in> set vs" using assms(3,4) bs by auto
  then show ?thesis using a(5,6) [of c] by blast
qed

text \<open>
  C17: The allocator is safe: on a well-formed heap whose semaphore is free \<open>rt_malloc\<close>
  returns, leaves the semaphore free and keeps the heap well formed.  A block it hands out was
  free, is aligned to eight bytes and has room for the request (as long as aligning the size
  does not wrap); every block that was in use keeps its extent and does not overlap the new
  one, and no data byte changes.  It returns a null pointer only for a request that is zero
  or larger than the heap, or when no free block from \<open>lfree\<close> on fits; with \<open>lfree\<close> the
  lowest free block the latter means that every free block is too small, except a last
  block of the heap that would fit exactly.
\<close>

theorem rt_malloc_safe:
  assumes inv: "heap_inv bs h" and k: "heap_unlocked k h"
  shows "\<exists>r h'. rt_malloc sz k h = Some (Some r, k, h') \<and> heap_unlocked k h' \<and> heap_byte h' = heap_byte h \<and>
    (case r of
       None \<Rightarrow> h' = h \<and> (malloc_refused sz h \<or>
         (\<forall>b \<in> set (from_lfree bs h). \<not> fits h (malloc_size sz) b) \<and>
         (lfree_lowest bs h \<longrightarrow> (\<forall>b \<in> set bs. is_free h b \<longrightarrow>
            hm_next (heap_mems h b) < b + 16 + malloc_size sz \<or> b + 16 + malloc_size sz = heap_end h)))
     | Some a \<Rightarrow> \<exists>b bs'. a = heap_ptr h + b + 16 \<and> 8 dvd a \<and> b \<in> set bs \<and> is_free h b \<and>
         heap_inv bs' h' \<and> b \<in> set bs' \<and> \<not> is_free h' b \<and>
         (unat sz \<le> 2 ^ 32 - 8 \<longrightarrow> a + unat sz \<le> heap_ptr h + hm_next (heap_mems h' b)) \<and>
         (lfree_lowest bs h \<longrightarrow> lfree_lowest bs' h') \<and>
         (\<forall>c \<in> set bs. \<not> is_free h c \<longrightarrow> c \<in> set bs' \<and> \<not> is_free h' c \<and>
            hm_next (heap_mems h' c) = hm_next (heap_mems h c) \<and>
            (hm_next (heap_mems h c) \<le> b \<or> hm_next (heap_mems h' b) \<le> c)))"
  using inv k
proof (cases rule: rt_malloc_cases [where sz = sz])
  case refused
  then show ?thesis using k by simp
next
  case full
  note s = heap_shapeD [OF heap_invD(1) [OF inv]]
  have no: "\<forall>b \<in> set (from_lfree bs h). \<not> fits h (malloc_size sz) b" using full(1) by (simp add: find_None_iff)
  have "hm_next (heap_mems h b) < b + 16 + malloc_size sz \<or> b + 16 + malloc_size sz = heap_end h"
    if "lfree_lowest bs h" "b \<in> set bs" "is_free h b" for b
  proof -
    have "\<not> fits h (malloc_size sz) b"
      using full(1) find_from_lfree [OF inv that(1)] that(2) by (auto simp: find_None_iff)
    with that(3) heap_chain_in [OF s(1) that(2)] s(3) show ?thesis by (auto simp: fits_def)
  qed
  with no full(2) k show ?thesis by auto
next
  case (block us b vs h')
  let ?n = "malloc_size sz" and ?bs = "malloc_blocks h (malloc_size sz) us b vs"
  note s = heap_shapeD [OF heap_invD(1) [OF inv]]
  note s' = heap_invD(1) [OF block(4)]
  have fit: "fits h ?n b" using block(2) by (auto simp: find_Some_iff)
  note e = malloc_take_effect [OF heap_invD(1) [OF inv, unfolded block(1)] fit malloc_size_props(1,2), folded block(6)]
  have b: "b \<in> set bs" "b \<in> set ?bs" by (simp_all add: block(1) malloc_blocks_def)
  have "8 dvd b" using heap_chain_dvd [OF s(1) _ b(1)] by simp
  then have al: "8 dvd heap_ptr h + b + 16" using s(7) by (intro dvd_add) auto
  have room: "heap_ptr h + b + 16 + unat sz \<le> heap_ptr h + hm_next (heap_mems h' b)" if "unat sz \<le> 2 ^ 32 - 8"
    using e(3) malloc_size_props(3) [OF that] by linarith
  have others: "c \<in> set ?bs \<and> \<not> is_free h' c \<and> hm_next (heap_mems h' c) = hm_next (heap_mems h c) \<and>
      (hm_next (heap_mems h c) \<le> b \<or> hm_next (heap_mems h' b) \<le> c)"
    if c: "c \<in> set bs" "\<not> is_free h c" for c
  proof -
    have "c \<noteq> b" using c fit by (auto simp: fits_def)
    then have uv: "c \<in> set (us @ vs)" using c(1) block(1) by auto
    then have "c \<in> set ?bs" by (auto simp: malloc_blocks_def)
    with heap_blocks_disjoint [OF s' b(2) _ \<open>c \<noteq> b\<close>] e(4) [OF uv] c(2) show ?thesis by auto
  qed
  have "\<exists>b' bs'. heap_ptr h + b + 16 = heap_ptr h + b' + 16 \<and> 8 dvd heap_ptr h + b + 16 \<and> b' \<in> set bs \<and> is_free h b' \<and>
         heap_inv bs' h' \<and> b' \<in> set bs' \<and> \<not> is_free h' b' \<and>
         (unat sz \<le> 2 ^ 32 - 8 \<longrightarrow> heap_ptr h + b + 16 + unat sz \<le> heap_ptr h + hm_next (heap_mems h' b')) \<and>
         (lfree_lowest bs h \<longrightarrow> lfree_lowest bs' h') \<and>
         (\<forall>c \<in> set bs. \<not> is_free h c \<longrightarrow> c \<in> set bs' \<and> \<not> is_free h' c \<and>
            hm_next (heap_mems h' c) = hm_next (heap_mems h c) \<and>
            (hm_next (heap_mems h c) \<le> b' \<or> hm_next (heap_mems h' b') \<le> c))"
    using b al room others block(4,7) e(2) fit by (intro exI [of _ b] exI [of _ ?bs]) (simp add: fits_def)
  moreover have "heap_unlocked k h'" "heap_byte h' = heap_byte h"
    using k same_heap_unlocked [OF block(5)] block(5) by (simp_all add: same_heap_def)
  ultimately show ?thesis using block(3) by (intro exI [of _ "Some (heap_ptr h + b + 16)"] exI [of _ h']) simp
qed

text \<open>A heap after \<open>rt_system_heap_init\<close>: one free block.\<close>

lemma heap_init_aux:
  fixes k :: kernel
  assumes "used_mem h = 0" "unat (RT_ALIGN b 8) + 48 \<le> unat (RT_ALIGN_DOWN e 8)"
  defines "r \<equiv> rt_system_heap_init b e k h"
  shows "heap_inv [0] (snd r)" "lfree_lowest [0] (snd r)" "heap_unlocked (fst r) (snd r)"
    "heap_ptr (snd r) = unat (RT_ALIGN b 8)"
    "mem_size_aligned (snd r) = unat (RT_ALIGN_DOWN e 8) - unat (RT_ALIGN b 8) - 32"
    "lfree (snd r) = 0" "heap_sem (snd r) = heap_sem h" "heap_end (snd r) = mem_size_aligned (snd r) + 16"
    "heap_mems (snd r) 0 = \<lparr>hm_magic = HEAP_MAGIC, hm_used = 0, hm_next = heap_end (snd r), hm_prev = 0\<rparr>"
proof -
  let ?b = "unat (RT_ALIGN b 8)" and ?e = "unat (RT_ALIGN_DOWN e 8)"
  have dv: "8 dvd ?b" "8 dvd ?e"
    using unat_and_minus_8 [of e] by (simp_all add: unat_RT_ALIGN RT_ALIGN_DOWN_def)
  have le: "?e < 2 ^ 32" using unsigned_less [of "RT_ALIGN_DOWN e 8"] by simp
  have run: "r = (snd (rt_sem_init (heap_sem h) ''heap'' 1 RT_IPC_FLAG_FIFO k), snd r)"
    "snd r = h\<lparr>mem_size_aligned := ?e - ?b - 32, heap_ptr := ?b, heap_end := ?e - ?b - 16,
       heap_mems := (heap_mems h)(0 := \<lparr>hm_magic = HEAP_MAGIC, hm_used = 0, hm_next = ?e - ?b - 16, hm_prev = 0\<rparr>,
         ?e - ?b - 16 := \<lparr>hm_magic = HEAP_MAGIC, hm_used = 1, hm_next = ?e - ?b - 16, hm_prev = ?e - ?b - 16\<rparr>),
       lfree := 0\<rparr>"
    using assms(2)
    by (simp_all add: r_def rt_system_heap_init_def Let_def SIZEOF_STRUCT_MEM_def upd_mem_def add.commute)
  have "8 dvd ?e - ?b - 16" using dv by (intro dvd_diff_nat) auto
  then show "heap_inv [0] (snd r)"
    using assms(1,2) le dv by (auto simp: run(2) heap_inv_def heap_shape_def)
  show "lfree_lowest [0] (snd r)" by (simp add: lfree_lowest_def run(2))
  have "fst r = snd (rt_sem_init (heap_sem h) ''heap'' 1 RT_IPC_FLAG_FIFO k)" using run(1) by (metis fst_conv)
  then show "heap_unlocked (fst r) (snd r)"
    by (simp add: run(2) heap_unlocked_def rt_sem_init_def Let_def upd_sem_def rt_ipc_object_init_def)
  show "heap_ptr (snd r) = ?b" "mem_size_aligned (snd r) = ?e - ?b - 32" "lfree (snd r) = 0"
    "heap_sem (snd r) = heap_sem h" "heap_end (snd r) = mem_size_aligned (snd r) + 16"
    "heap_mems (snd r) 0 = \<lparr>hm_magic = HEAP_MAGIC, hm_used = 0, hm_next = heap_end (snd r), hm_prev = 0\<rparr>"
    using assms(2) by (simp_all add: run(2))
qed

definition heap_zero :: rt_heap where
  "heap_zero = \<lparr>heap_ptr = 0, mem_size_aligned = 0,
     heap_mems = (\<lambda>_. \<lparr>hm_magic = 0, hm_used = 0, hm_next = 0, hm_prev = 0\<rparr>), lfree = 0, heap_end = 0,
     heap_sem = 9, used_mem = 0, max_mem = 0, heap_byte = (\<lambda>_. 0)\<rparr>"

definition heap_demo :: "kernel \<times> rt_heap" where
  "heap_demo = rt_system_heap_init 0x1001 0x1200 kernel_zero heap_zero"

lemma heap_demo_addr: "unat (RT_ALIGN 0x1001 8) = 4104" "unat (RT_ALIGN_DOWN 0x1200 8) = 4608"
  by (simp_all add: RT_ALIGN_def RT_ALIGN_DOWN_def)

lemma heap_demo_ok:
  "heap_inv [0] (snd heap_demo)" "lfree_lowest [0] (snd heap_demo)"
  "heap_unlocked (fst heap_demo) (snd heap_demo)"
  "heap_ptr (snd heap_demo) = 4104" "mem_size_aligned (snd heap_demo) = 472" "lfree (snd heap_demo) = 0"
  "heap_end (snd heap_demo) = 488"
  "heap_mems (snd heap_demo) 0 = \<lparr>hm_magic = HEAP_MAGIC, hm_used = 0, hm_next = 488, hm_prev = 0\<rparr>"
proof -
  have z: "used_mem heap_zero = 0" by (simp add: heap_zero_def)
  note i = heap_init_aux [OF z, of "0x1001" "0x1200" kernel_zero, folded heap_demo_def, unfolded heap_demo_addr]
  show "heap_inv [0] (snd heap_demo)" "lfree_lowest [0] (snd heap_demo)"
    "heap_unlocked (fst heap_demo) (snd heap_demo)"
    "heap_ptr (snd heap_demo) = 4104" "mem_size_aligned (snd heap_demo) = 472" "lfree (snd heap_demo) = 0"
    "heap_end (snd heap_demo) = 488"
    "heap_mems (snd heap_demo) 0 = \<lparr>hm_magic = HEAP_MAGIC, hm_used = 0, hm_next = 488, hm_prev = 0\<rparr>"
    using i by simp_all
qed

theorem rt_malloc_safe_witness:
  "heap_inv [0] (snd heap_demo) \<and> heap_unlocked (fst heap_demo) (snd heap_demo) \<and>
   (\<exists>r h'. rt_malloc 100 (fst heap_demo) (snd heap_demo) = Some (Some r, fst heap_demo, h') \<and>
      heap_unlocked (fst heap_demo) h')"
  using rt_malloc_safe [OF heap_demo_ok(1,3), of 100] heap_demo_ok(1,3) by blast

lemma rt_free_unlocked:
  assumes sh: "heap_shape bs h" and b: "b \<in> set bs" and k: "heap_unlocked k h"
    and same: "heap_sem (free_locked b h) = heap_sem h"
  shows "rt_free (Some (heap_ptr h + b + 16)) k h = (Some (), k, free_locked b h)"
proof -
  note s = heap_shapeD [OF sh]
  obtain k1 where k1: "rt_sem_take (heap_sem h) RT_WAITING_FOREVER k = (Some RT_EOK, k1)"
    "snd (rt_sem_release (heap_sem h) k1) = k" using heap_lock [OF k] by metis
  have le: "b + 24 \<le> heap_end h" using heap_chain_in [OF s(1) b] by linarith
  then have "sub32 (sub32 (heap_ptr h + b + 16) 16) (heap_ptr h) = b"
    using s(6) by (simp add: sub32_small)
  with k1 le same show ?thesis by (simp add: rt_free_def rt_free_wake_def Let_def SIZEOF_STRUCT_MEM_def)
qed

text \<open>Where \<open>plug_holes\<close> leaves \<open>lfree\<close> alone.\<close>

lemma plug_holes_lfree:
  assumes "lfree h = hm_next (heap_mems h b) \<Longrightarrow> hm_next (heap_mems h b) = heap_end h"
    "\<not> is_free h (hm_prev (heap_mems h b)) \<or> hm_prev (heap_mems h b) = b"
    "hm_next (heap_mems h b) \<noteq> b"
    "hm_next (heap_mems h b) = heap_end h \<or> hm_next (heap_mems h (hm_next (heap_mems h b))) \<noteq> b"
  shows "lfree (plug_holes b h) = lfree h"
proof -
  let ?h = "plug_forward b h"
  have "lfree ?h = lfree h" using assms(1) by (auto simp: plug_forward_merge Let_def)
  moreover have "hm_prev (heap_mems ?h b) = hm_prev (heap_mems h b)" "is_free ?h x = is_free h x" for x
    using assms(3,4) by (auto simp: plug_forward_merge Let_def heap_merge_mems split: if_splits)
  ultimately show ?thesis using assms(2) by (auto simp: plug_holes_def plug_backward_merge Let_def)
qed

section \<open>Release restores the heap\<close>

text \<open>The blocks after an allocation and the release of the same block are the old ones.\<close>

lemma plug_after_malloc:
  assumes inv: "heap_inv (us @ b # vs) h" and fit: "fits h n b" and n: "8 dvd n" "16 \<le> n"
    and mems: "heap_mems h1 = heap_mems (malloc_take n b h)"
  obtains ws where "malloc_blocks h n us b vs = us @ b # ws" "plug_blocks h1 us b ws = us @ b # vs"
    "us \<noteq> [] \<Longrightarrow> \<not> is_free h1 (last us)"
proof -
  note i = heap_invD [OF inv]
  note e = malloc_take_effect [OF i(1) fit n, folded mems]
  have fb: "is_free h b" using fit by (simp add: fits_def)
  have last: "us \<noteq> [] \<Longrightarrow> \<not> is_free h1 (last us)" and hd: "vs \<noteq> [] \<Longrightarrow> \<not> is_free h1 (hd vs)"
    using i(2) fb e(4) [of "last us"] e(4) [of "hd vs"]
    by (auto simp: successively_append_iff successively_Cons)
  let ?ws = "if b + n + 48 \<le> hm_next (heap_mems h b) then (b + 16 + n) # vs else vs"
  have "plug_blocks h1 us b ?ws = us @ b # vs"
    using last hd e(5) by (auto simp: plug_blocks_def plug_after_def)
  then show ?thesis using that [of ?ws] last by (simp add: malloc_blocks_def)
qed

lemma malloc_free_lfree:
  assumes inv: "heap_inv (us @ b # ws) h1" and used: "\<not> is_free h1 b"
    and prev: "us \<noteq> [] \<Longrightarrow> \<not> is_free h1 (last us)"
  shows "lfree (free_locked b h1) = (if b < lfree h1 then b else lfree h1)"
proof -
  let ?m = "free_mark b h1" and ?nx = "hm_next (heap_mems h1 b)"
  note i = heap_invD [OF inv]
  note m = free_locked_mark [OF inv used]
  note s = heap_shapeD [OF m(2)]
  note a = heap_chain_around [OF s(1), unfolded free_mark_frame(3)]
  have "lfree ?m \<noteq> hm_next (heap_mems ?m b)" using a(3) by (auto simp: free_mark_frame)
  moreover have "\<not> is_free ?m (hm_prev (heap_mems ?m b)) \<or> hm_prev (heap_mems ?m b) = b"
  proof (cases us rule: rev_cases)
    case Nil
    then show ?thesis using s(1,2) by simp
  next
    case (snoc xs p)
    have "hm_prev (heap_mems ?m b) = p" "p \<noteq> b"
      using s(2) heap_chain_sorted [OF s(1)] snoc by (auto simp: prev_chain_append sorted_wrt_append)
    with prev snoc show ?thesis by (simp add: free_mark_frame(4))
  qed
  moreover have "hm_next (heap_mems ?m b) \<noteq> b" using a(3) by (simp add: free_mark_frame)
  moreover have "?nx = heap_end ?m \<or> hm_next (heap_mems h1 ?nx) \<noteq> b"
  proof (cases ws)
    case (Cons w xs)
    have "?nx + 24 \<le> hm_next (heap_mems ?m ?nx)" using heap_chain_around(2) [OF s(1)] Cons
      by (auto simp: free_mark_frame)
    with a(3) show ?thesis by (simp add: free_mark_frame)
  qed (use a(2) in simp)
  ultimately have "lfree (plug_holes b ?m) = lfree ?m"
    by (intro plug_holes_lfree) (simp_all add: free_mark_frame(3))
  then show ?thesis by (simp add: m(1) free_mark_frame(5))
qed

text \<open>
  C18: Allocation and release are inverse: when \<open>rt_malloc\<close> hands out a block and \<open>rt_free\<close> takes
  it back, every header of the heap, \<open>lfree\<close>, the statistics of the memory in use, the data
  and the semaphore are as they were, whether or not the block had been split.
\<close>

theorem malloc_free_restores:
  assumes inv: "heap_inv bs h" and k: "heap_unlocked k h"
    and run: "rt_malloc sz k h = Some (Some (Some a), k1, h1)"
  shows "\<exists>h2. rt_free (Some a) k1 h1 = (Some (), k, h2) \<and> heap_inv bs h2 \<and>
    (\<forall>b \<in> set bs. heap_mems h2 b = heap_mems h b) \<and> lfree h2 = lfree h \<and> used_mem h2 = used_mem h \<and>
    same_heap h h2"
  using inv k
proof (cases rule: rt_malloc_cases [where sz = sz])
  case (block us b vs h')
  let ?n = "malloc_size sz" and ?h2 = "free_locked b h1"
  have eq: "a = heap_ptr h + b + 16" "k1 = k" "h1 = h'" using run block(3) by auto
  note inv' = inv [unfolded block(1)]
  have fit: "fits h ?n b" using block(2) by (auto simp: find_Some_iff)
  then have fb: "is_free h b" by (simp add: fits_def)
  note e = malloc_take_effect [OF heap_invD(1) [OF inv'] fit malloc_size_props(1,2), folded block(6), folded eq(3)]
  obtain ws where ws: "malloc_blocks h ?n us b vs = us @ b # ws" "plug_blocks h1 us b ws = bs"
    "us \<noteq> [] \<Longrightarrow> \<not> is_free h1 (last us)"
    using plug_after_malloc [OF inv' fit malloc_size_props(1,2)] block(1,6) eq(3) by metis
  have inv1: "heap_inv (us @ b # ws) h1" using block(4) ws(1) eq(3) by simp
  have used: "\<not> is_free h1 b" using e(2) by simp
  note f = free_locked_effect [OF inv1 used, unfolded ws(2)]
  have same: "same_heap h ?h2" using f(2) block(5) eq(3) by (simp add: same_heap_def)
  have "rt_free (Some a) k1 h1 = (Some (), k, ?h2)"
    using rt_free_unlocked [OF heap_invD(1) [OF inv1], of b k] k same_heap_unlocked [OF block(5)] block(5) f(2) eq
    by (simp add: same_heap_def)
  moreover have mems: "heap_mems ?h2 x = heap_mems h x" if x: "x \<in> set bs" for x
  proof (rule heap_shape_unique [OF heap_invD(1) [OF inv] heap_invD(1) [OF f(1)] _ x])
    show "heap_end ?h2 = heap_end h" using same by (simp add: same_heap_def)
    show "hm_used (heap_mems ?h2 x) = hm_used (heap_mems h x)"
    proof (cases "x = b")
      case True
      then show ?thesis using f(3) [of b] fb by simp
    next
      case False
      with x block(1) have uv: "x \<in> set (us @ vs)" by auto
      moreover have "set vs \<subseteq> set ws" using ws(1) by (auto simp: malloc_blocks_def split: if_splits)
      ultimately have "x \<in> set (us @ ws)" by auto
      with f(3) [of x] f(4) [of x] e(4) [OF uv] False show ?thesis by (cases "is_free h1 x") simp_all
    qed
  qed
  moreover have "used_mem ?h2 = used_mem h"
    using heap_invD(4) [OF f(1)] heap_invD(4) [OF inv] mems used_total_cong [of bs "heap_mems ?h2" "heap_mems h"] by simp
  moreover have "lfree ?h2 = lfree h"
    using malloc_free_lfree [OF inv1 used ws(3)] block(8) eq(3) by (auto split: if_splits)
  ultimately show ?thesis using f(1) same by blast
qed (use run in auto)

lemma heap_demo_malloc:
  obtains k1 h1 where
    "rt_malloc 100 (fst heap_demo) (snd heap_demo) = Some (Some (Some 4120), k1, h1)"
proof -
  have sz: "malloc_size 100 = 104" "\<not> malloc_refused 100 (snd heap_demo)"
    by (simp_all add: malloc_size_def malloc_refused_def RT_ALIGN_def heap_demo_ok)
  have fit: "find (fits (snd heap_demo) (malloc_size 100)) (from_lfree [0] (snd heap_demo)) = Some 0"
    by (simp add: sz(1) fits_def heap_demo_ok)
  from heap_demo_ok(1,3) show ?thesis
    by (cases rule: rt_malloc_cases [where sz = 100]) (use that fit sz(2) heap_demo_ok(4) in auto)
qed

theorem malloc_free_restores_witness:
  "\<exists>k1 h1 h2. rt_malloc 100 (fst heap_demo) (snd heap_demo) = Some (Some (Some 4120), k1, h1) \<and>
     rt_free (Some 4120) k1 h1 = (Some (), fst heap_demo, h2) \<and> heap_mems h2 0 = heap_mems (snd heap_demo) 0"
proof -
  obtain k1 h1 where run: "rt_malloc 100 (fst heap_demo) (snd heap_demo) = Some (Some (Some 4120), k1, h1)"
    by (rule heap_demo_malloc)
  with malloc_free_restores [OF heap_demo_ok(1,3) run] show ?thesis by auto
qed

text \<open>
  Aligning the size wraps: a request of more than \<open>2 ^ 32 - 8\<close> bytes is served like one of
  sixteen bytes, so that on a heap with a free block \<open>rt_malloc\<close> hands out a block that is far
  smaller than the caller asked for, where it should return a null pointer.
\<close>

theorem rt_malloc_size_wraps:
  assumes "2 ^ 32 - 8 < unat sz" "16 \<le> mem_size_aligned h"
  shows "rt_malloc sz k h = rt_malloc 16 k h"
proof -
  have "RT_ALIGN sz 8 = 0" by (rule RT_ALIGN_8_wrap [OF assms(1)])
  moreover have "sz \<noteq> 0" using assms(1) by auto
  ultimately show ?thesis using assms(2) by (simp add: rt_malloc_def Let_def MIN_SIZE_ALIGNED_def RT_ALIGN_def)
qed

theorem rt_malloc_size_wraps_witness:
  "2 ^ 32 - 8 < unat (0xffffffff :: u32) \<and>
   rt_malloc 0xffffffff (fst heap_demo) (snd heap_demo) = rt_malloc 16 (fst heap_demo) (snd heap_demo)"
  using rt_malloc_size_wraps [of "0xffffffff" "snd heap_demo" "fst heap_demo"] heap_demo_ok(5) by simp

section \<open>Reallocation\<close>

text \<open>\<open>rt_realloc\<close> on a smaller size: the rest of the block becomes a free block.\<close>

definition shrink :: "nat \<Rightarrow> nat \<Rightarrow> rt_heap \<Rightarrow> rt_heap" where
  "shrink b n h =
     heap_split b (b + 16 + n) (h\<lparr>used_mem := used_mem h - (hm_next (heap_mems h b) - b - 16 - n)\<rparr>)"

lemma shrink_effect:
  assumes inv: "heap_inv (us @ b # vs) h" and used: "\<not> is_free h b"
    and n: "8 dvd n" "0 < n" "b + n + 44 < hm_next (heap_mems h b)"
  shows "heap_shape (us @ b # (b + 16 + n) # vs) (shrink b n h)" "same_heap h (shrink b n h)"
    "lfree (shrink b n h) = lfree h" "is_free (shrink b n h) (b + 16 + n)"
    "hm_next (heap_mems (shrink b n h) b) = b + 16 + n"
    "hm_next (heap_mems (shrink b n h) (b + 16 + n)) = hm_next (heap_mems h b)"
    "\<And>x. x \<in> set (us @ b # vs) \<Longrightarrow> hm_used (heap_mems (shrink b n h) x) = hm_used (heap_mems h x)"
    "\<And>x. x \<in> set (us @ vs) \<Longrightarrow> hm_next (heap_mems (shrink b n h) x) = hm_next (heap_mems h x)"
    "used_mem (shrink b n h) = used_total (heap_mems (shrink b n h)) (us @ b # (b + 16 + n) # vs)"
proof -
  let ?h = "h\<lparr>used_mem := used_mem h - (hm_next (heap_mems h b) - b - 16 - n)\<rparr>"
  let ?nx = "hm_next (heap_mems h b)" and ?b2 = "b + 16 + n"
  note i = heap_invD [OF inv]
  note s = heap_shapeD [OF i(1)]
  note a = heap_chain_around [OF s(1)]
  have e: "heap_end ?h = add32 (mem_size_aligned ?h) 16" using s(3,4) by (simp add: add32_small)
  have dv: "8 dvd b" "8 \<le> n" using heap_chain_dvd [OF s(1), of b] n(1,2) by (auto dest: dvd_imp_le)
  show "heap_shape (us @ b # ?b2 # vs) (shrink b n h)"
    unfolding shrink_def using i(1) n dv by (intro heap_split_shape) auto
  show "same_heap h (shrink b n h)" "lfree (shrink b n h) = lfree h"
    by (simp_all add: shrink_def same_heap_def)
  have m: "heap_mems (shrink b n h) x =
    (if x = ?b2 then \<lparr>hm_magic = HEAP_MAGIC, hm_used = 0, hm_next = ?nx, hm_prev = b\<rparr>
     else if x = b then (heap_mems h b)\<lparr>hm_next := ?b2\<rparr>
     else if x = ?nx \<and> x \<noteq> heap_end h then (heap_mems h x)\<lparr>hm_prev := ?b2\<rparr> else heap_mems h x)" for x
    using heap_split_mems [OF _ _ _ e, of b ?b2 x] n(3) by (auto simp: shrink_def)
  show "is_free (shrink b n h) ?b2" "hm_next (heap_mems (shrink b n h) b) = ?b2"
    "hm_next (heap_mems (shrink b n h) ?b2) = ?nx" by (simp_all add: m)
  have ne: "x \<noteq> ?b2" if "x \<in> set (us @ b # vs)" for x
    using that a(5) [of x] a(6) [of x] n(3) by auto
  show u: "hm_used (heap_mems (shrink b n h) x) = hm_used (heap_mems h x)" if "x \<in> set (us @ b # vs)" for x
    using ne [OF that] by (auto simp: m)
  have nb: "x \<noteq> b" if "x \<in> set (us @ vs)" for x using that a(3) a(5) [of x] a(6) [of x] by auto
  show nx: "hm_next (heap_mems (shrink b n h) x) = hm_next (heap_mems h x)" if "x \<in> set (us @ vs)" for x
    using that nb [OF that] ne [of x] by (auto simp: m)
  have "used_total (heap_mems (shrink b n h)) xs = used_total (heap_mems h) xs" if "set xs \<subseteq> set (us @ vs)" for xs
    using that u nx by (intro used_total_cong) auto
  then show "used_mem (shrink b n h) = used_total (heap_mems (shrink b n h)) (us @ b # ?b2 # vs)"
    using used i(4) n(3) by (simp add: m) (simp add: shrink_def)
qed

lemma realloc_shrink_effect:
  assumes inv: "heap_inv (us @ b # vs) h" and used: "\<not> is_free h b"
    and n: "8 dvd n" "0 < n" "b + n + 44 < hm_next (heap_mems h b)"
  defines "b2 \<equiv> b + 16 + n" and "h' \<equiv> plug_holes (b + 16 + n) (shrink b n h)"
    and "bs' \<equiv> us @ b # (b + 16 + n) # plug_after h vs"
  shows "heap_inv bs' h'" "same_heap h h'" "is_free h' b2"
    "hm_next (heap_mems h' b) = b2" "hm_next (heap_mems h b) \<le> hm_next (heap_mems h' b2)"
    "\<And>x. x \<in> set (us @ b # vs) \<Longrightarrow> is_free h' x = is_free h x"
    "\<And>x. x \<in> set (us @ b # vs) \<Longrightarrow> \<not> is_free h x \<Longrightarrow> x \<in> set bs'"
    "\<And>x. x \<in> set (us @ vs) \<Longrightarrow> \<not> is_free h x \<Longrightarrow> hm_next (heap_mems h' x) = hm_next (heap_mems h x)"
    "lfree h = heap_end h \<Longrightarrow> lfree h' = heap_end h"
proof -
  let ?s = "shrink b n h"
  note i = heap_invD [OF inv]
  note e = shrink_effect [OF inv used n, folded b2_def]
  note s = heap_shapeD [OF e(1)]
  have "successively (\<lambda>a b. \<not> (is_free h a \<and> is_free h b)) (us @ [b])"
    "successively (\<lambda>a b. \<not> (is_free h a \<and> is_free h b)) vs"
    using i(2) by (auto simp: successively_append_iff successively_Cons)
  note old = this
  have fs: "is_free ?s x = is_free h x" if "x \<in> set us \<or> x = b \<or> x \<in> set vs" for x using e(7) [of x] that by auto
  have co: "successively (\<lambda>a b. \<not> (is_free ?s a \<and> is_free ?s b)) (us @ [b])"
    by (rule coalesced_cong [THEN iffD2, OF _ old(1)]) (rule fs, auto)
  have co': "successively (\<lambda>a b. \<not> (is_free ?s a \<and> is_free ?s b)) vs"
    by (rule coalesced_cong [THEN iffD2, OF _ old(2)]) (rule fs, auto)
  have lf: "lfree ?s = heap_end ?s \<or> lfree ?s \<in> set ((us @ [b]) @ b2 # vs) \<and> is_free ?s (lfree ?s)"
    using i(3) e(2,3,7) by (auto simp: same_heap_def)
  have sh: "heap_shape ((us @ [b]) @ b2 # vs) ?s" "used_mem ?s = used_total (heap_mems ?s) ((us @ [b]) @ b2 # vs)"
    using e(1,9) by simp_all
  have pb: "plug_blocks ?s (us @ [b]) b2 vs = bs'"
    using used e(7) [of b] e(7) [of "hd vs"] by (auto simp: plug_blocks_def plug_after_def bs'_def b2_def)
  note p = plug_holes_effect [OF sh(1) e(4) co co' lf sh(2), unfolded pb, folded b2_def]
  have h': "h' = plug_holes b2 ?s" by (simp add: h'_def b2_def)
  show inv': "heap_inv bs' h'" using p(1) by (simp add: h')
  show "same_heap h h'" using p(2) e(2) by (auto simp: h' plug_keeps_def same_heap_def)
  note fr = plug_keeps_free [OF p(2), folded h']
  show "is_free h' b2" using e(4) fr by simp
  show "is_free h' x = is_free h x" if "x \<in> set (us @ b # vs)" for x using fr [of x] e(7) [OF that] by simp
  show "hm_next (heap_mems h' b) = b2"
    using p(2) used e(5) e(7) [of b] by (simp add: h' plug_keeps_def)
  show "x \<in> set bs'" if "x \<in> set (us @ b # vs)" "\<not> is_free h x" for x
    using that by (cases vs) (auto simp: bs'_def plug_after_def)
  show "hm_next (heap_mems h' x) = hm_next (heap_mems h x)" if "x \<in> set (us @ vs)" "\<not> is_free h x" for x
    using p(2) that e(7) [of x] e(8) [of x] by (auto simp: h' plug_keeps_def)
  show "hm_next (heap_mems h b) \<le> hm_next (heap_mems h' b2)"
  proof -
    have "heap_chain (heap_mems h') (hm_next (heap_mems h' b2)) (plug_after h vs) (heap_end h')"
      using heap_shapeD(1) [OF heap_invD(1) [OF inv']] by (auto simp: bs'_def b2_def heap_chain_append)
    then have "hm_next (heap_mems h' b2) = (case plug_after h vs of [] \<Rightarrow> heap_end h' | x # _ \<Rightarrow> x)"
      by (cases "plug_after h vs") auto
    moreover have "heap_end h' = heap_end h" using p(2) e(2) by (simp add: h' plug_keeps_def same_heap_def)
    moreover note a = heap_chain_around [OF heap_shapeD(1) [OF i(1)]]
    moreover have "set (plug_after h vs) \<subseteq> set vs" by (auto simp: plug_after_def dest: list.set_sel(2))
    ultimately show ?thesis using a(4,6) by (cases "plug_after h vs") auto
  qed
  show "lfree h' = heap_end h" if "lfree h = heap_end h"
  proof -
    have pr: "hm_prev (heap_mems ?s b2) = b" using s(2) by (simp add: prev_chain_append)
    have "lfree (plug_holes b2 ?s) = lfree ?s"
    proof (rule plug_holes_lfree)
      show "hm_next (heap_mems ?s b2) = heap_end ?s" if "lfree ?s = hm_next (heap_mems ?s b2)"
        using that \<open>lfree h = heap_end h\<close> e(2,3) by (simp add: same_heap_def)
      show "\<not> is_free ?s (hm_prev (heap_mems ?s b2)) \<or> hm_prev (heap_mems ?s b2) = b2"
        using pr used e(7) [of b] by simp
      show "hm_next (heap_mems ?s b2) \<noteq> b2" using e(6) n(3) by (simp add: b2_def)
      show "hm_next (heap_mems ?s b2) = heap_end ?s \<or> hm_next (heap_mems ?s (hm_next (heap_mems ?s b2))) \<noteq> b2"
      proof (cases vs)
        case (Cons v ws)
        have "heap_chain (heap_mems ?s) (hm_next (heap_mems ?s b2)) (v # ws) (heap_end ?s)"
          using s(1) Cons by (auto simp: heap_chain_append)
        then show ?thesis using e(6) n(3) by (auto simp: b2_def)
      qed (use s(1) in \<open>auto simp: heap_chain_append\<close>)
    qed
    then show ?thesis using that e(2,3) by (simp add: h' same_heap_def)
  qed
qed

lemma rt_realloc_unlocked:
  assumes inv: "heap_inv bs h" and k: "heap_unlocked k h" and b: "b \<in> set bs" "\<not> is_free h b"
    and sz: "0 < unat (RT_ALIGN sz 8)" "unat (RT_ALIGN sz 8) \<le> mem_size_aligned h"
  defines "a \<equiv> heap_ptr h + b + 16" and "n \<equiv> unat (RT_ALIGN sz 8)"
    and "old \<equiv> hm_next (heap_mems h b) - b - 16"
  shows "rt_realloc (Some a) sz k h =
    (if old = n then Some (Some (Some a), k, h)
     else if n + 28 < old then Some (Some (Some a), k, plug_holes (b + 16 + n) (shrink b n h))
     else realloc_move a old (RT_ALIGN sz 8) k h)"
proof -
  note i = heap_invD [OF inv]
  note s = heap_shapeD [OF i(1)]
  obtain k1 where k1: "rt_sem_take (heap_sem h) RT_WAITING_FOREVER k = (Some RT_EOK, k1)"
    "snd (rt_sem_release (heap_sem h) k1) = k" using heap_lock [OF k] by metis
  have c: "b + 24 \<le> hm_next (heap_mems h b)" "hm_next (heap_mems h b) \<le> heap_end h"
    using heap_chain_in [OF s(1) b(1)] by auto
  have ptr: "sub32 (sub32 a 16) (heap_ptr h) = b" using c s(6) by (simp add: a_def sub32_small)
  have old: "sub32 (sub32 (hm_next (heap_mems h b)) b) 16 = old" using c s(4) by (simp add: old_def sub32_small)
  have n: "n \<le> mem_size_aligned h" "n + 32 \<le> 2 ^ 32" using sz(2) s(3,4) by (auto simp: n_def)
  have add: "add32 (add32 b 16) n = b + 16 + n" if "n + 28 < old"
    using that c s(4) by (auto simp: add32_small old_def)
  have le: "used_mem h < 2 ^ 32" "hm_next (heap_mems h b) - b \<le> used_mem h"
  proof -
    show "used_mem h < 2 ^ 32" using used_total_le [OF s(1)] i(4) s(4) by simp
    obtain us vs where "bs = us @ b # vs" using b(1) split_list by metis
    then show "hm_next (heap_mems h b) - b \<le> used_mem h" using i(4) b(2) by simp
  qed
  have add28: "add32 (add32 n 16) 12 = n + 28" using n(2) by (simp add: add32_small)
  have shr: "sub32 (used_mem h) (old - n) = used_mem h - (hm_next (heap_mems h b) - b - 16 - n)"
    using le c by (simp add: sub32_small old_def)
  have in_heap: "\<not> (a < heap_ptr h \<or> a \<ge> heap_ptr h + heap_end h)" using c by (simp add: a_def)
  have nz: "RT_ALIGN sz 8 \<noteq> 0" using sz(1) by auto
  have split: "heap_split b (add32 (add32 b 16) n) (h\<lparr>used_mem := sub32 (used_mem h) (old - n)\<rparr>) = shrink b n h"
    if "n + 28 < old" using add that shr by (simp add: shrink_def)
  show ?thesis
    using k1 nz in_heap ptr old add28 split add sz(2)
    by (auto simp: rt_realloc_def rt_realloc_wake_def Let_def heap_const_defs n_def [symmetric])
qed

lemma heap_inv_copy [simp]: "heap_inv bs (heap_copy d s n h) = heap_inv bs h"
  by (simp add: heap_inv_def heap_shape_def heap_copy_def)

lemma heap_copy_frame [simp]:
  "heap_mems (heap_copy d s n h) = heap_mems h" "heap_ptr (heap_copy d s n h) = heap_ptr h"
  "heap_end (heap_copy d s n h) = heap_end h" "heap_sem (heap_copy d s n h) = heap_sem h"
  "mem_size_aligned (heap_copy d s n h) = mem_size_aligned h"
  by (simp_all add: heap_copy_def)

text \<open>What \<open>rt_realloc\<close> promises for the block at offset \<open>b\<close> of \<open>h\<close> with \<open>old\<close> bytes of data.\<close>

definition realloc_ok ::
  "nat list \<Rightarrow> rt_heap \<Rightarrow> nat \<Rightarrow> nat \<Rightarrow> nat list \<Rightarrow> rt_heap \<Rightarrow> nat \<Rightarrow> bool" where
  "realloc_ok bs h b n bs' h' b' \<longleftrightarrow>
     heap_inv bs' h' \<and> b' \<in> set bs' \<and> \<not> is_free h' b' \<and> b' + 16 + n \<le> hm_next (heap_mems h' b') \<and>
     (\<forall>i < n. b + 16 + i < hm_next (heap_mems h b) \<longrightarrow>
        heap_byte h' (heap_ptr h + b' + 16 + i) = heap_byte h (heap_ptr h + b + 16 + i)) \<and>
     (\<forall>c \<in> set bs. \<not> is_free h c \<longrightarrow> c \<noteq> b \<longrightarrow>
        c \<in> set bs' \<and> \<not> is_free h' c \<and> hm_next (heap_mems h' c) = hm_next (heap_mems h c) \<and>
        (\<forall>i. c \<le> i \<longrightarrow> i < hm_next (heap_mems h c) \<longrightarrow>
           heap_byte h' (heap_ptr h + i) = heap_byte h (heap_ptr h + i)))"

lemma realloc_move_ok:
  assumes inv: "heap_inv bs h" and k: "heap_unlocked k h" and b: "b \<in> set bs" "\<not> is_free h b"
    and n: "unat nw \<le> 2 ^ 32 - 8"
  defines "a \<equiv> heap_ptr h + b + 16" and "old \<equiv> hm_next (heap_mems h b) - b - 16"
  shows "realloc_move a old nw k h = Some (Some None, k, h) \<or>
    (\<exists>b' bs' h'. realloc_move a old nw k h = Some (Some (Some (heap_ptr h + b' + 16)), k, h') \<and>
       realloc_ok bs h b (unat nw) bs' h' b')"
  using inv k
proof (cases rule: rt_malloc_cases [where sz = nw])
  case (block us c vs h1)
  let ?n = "malloc_size nw" and ?a = "heap_ptr h + c + 16"
  define m where "m = (if old < unat nw then old else unat nw)"
  define h2 where "h2 = heap_copy ?a a m h1"
  define bs1 where "bs1 = malloc_blocks h ?n us c vs"
  have fit: "fits h ?n c" using block(2) by (auto simp: find_Some_iff)
  note e = malloc_take_effect [OF heap_invD(1) [OF inv, unfolded block(1)] fit malloc_size_props(1,2), folded block(6)]
  have cb: "b \<noteq> c" using b(2) fit by (auto simp: fits_def)
  have keep: "x \<in> set bs1 \<and> \<not> is_free h1 x \<and> hm_next (heap_mems h1 x) = hm_next (heap_mems h x)"
    if "x \<in> set bs" "\<not> is_free h x" for x
  proof -
    have "x \<in> set (us @ vs)" using that fit block(1) by (auto simp: fits_def)
    then show ?thesis using e(4) [of x] that(2) by (auto simp: bs1_def malloc_blocks_def)
  qed
  have cin: "c \<in> set bs1" by (simp add: bs1_def malloc_blocks_def)
  have inv1: "heap_inv bs1 h1" using block(4) by (simp add: bs1_def)
  have inv2: "heap_inv bs1 h2" using inv1 by (simp add: h2_def)
  obtain us1 vs1 where bs1: "bs1 = us1 @ b # vs1" using keep [OF b] split_list by metis
  have used2: "\<not> is_free h2 b" using keep [OF b] by (simp add: h2_def)
  note f = free_locked_effect [OF inv2 [unfolded bs1] used2]
  define bs2 where "bs2 = plug_blocks h2 us1 b vs1"
  define h3 where "h3 = free_locked b h2"
  have same: "same_heap h h1" by (rule block(5))
  have ptr: "heap_ptr h2 = heap_ptr h" using same by (simp add: h2_def same_heap_def)
  have "rt_free (Some a) k h2 = (Some (), k, h3)"
    using rt_free_unlocked [OF heap_invD(1) [OF inv2], of b k] f(2) keep [OF b] k same
    by (simp add: a_def h3_def ptr same_heap_def h2_def heap_unlocked_def)
  then have run: "realloc_move a old nw k h = Some (Some (Some ?a), k, h3)"
    using block(3) by (simp add: realloc_move_def m_def h2_def Let_def)
  have others: "x \<in> set bs2 \<and> \<not> is_free h3 x \<and> hm_next (heap_mems h3 x) = hm_next (heap_mems h1 x)"
    if "x \<in> set bs1" "\<not> is_free h1 x" "x \<noteq> b" for x
    using f(4) [of x] that bs1 by (auto simp: bs2_def h3_def h2_def)
  have byte: "heap_byte h3 = heap_byte h2" using f(2) by (simp add: same_heap_def h3_def)
  have byte1: "heap_byte h1 = heap_byte h" using same by (simp add: same_heap_def)
  have used_c: "\<not> is_free h1 c" using e(2) by simp
  have room: "c + 16 + unat nw \<le> hm_next (heap_mems h1 c)"
    using e(3) malloc_size_props(3) [OF n] by linarith
  have data: "heap_byte h3 (?a + i) = heap_byte h (a + i)" if "i < unat nw" "b + 16 + i < hm_next (heap_mems h b)" for i
  proof -
    have "i < m" using that by (auto simp: m_def old_def)
    then show ?thesis by (simp add: byte h2_def heap_copy_def byte1 add.commute)
  qed
  have frame: "heap_byte h3 (heap_ptr h + i) = heap_byte h (heap_ptr h + i)"
    if x: "x \<in> set bs" "\<not> is_free h x" and i: "x \<le> i" "i < hm_next (heap_mems h x)" for x i
  proof -
    have "x \<noteq> c" using x fit by (auto simp: fits_def)
    then have "hm_next (heap_mems h1 x) \<le> c \<or> hm_next (heap_mems h1 c) \<le> x"
      using heap_blocks_disjoint [OF heap_invD(1) [OF inv1] cin, of x] keep [OF x] by blast
    moreover have "m \<le> unat nw" by (simp add: m_def)
    ultimately have "\<not> (?a \<le> heap_ptr h + i \<and> heap_ptr h + i < ?a + m)"
      using i keep [OF x] room by auto
    then show ?thesis unfolding byte h2_def heap_copy_def by (auto simp: byte1)
  qed
  have "realloc_ok bs h b (unat nw) bs2 h3 c"
    unfolding realloc_ok_def
  proof (intro conjI ballI impI allI)
    show "heap_inv bs2 h3" using f(1) by (simp add: bs2_def h3_def)
    show "c \<in> set bs2" "\<not> is_free h3 c" using others [OF cin used_c] cb by auto
    show "c + 16 + unat nw \<le> hm_next (heap_mems h3 c)" using others [OF cin used_c] cb room by auto
    show "heap_byte h3 (heap_ptr h + c + 16 + i) = heap_byte h (heap_ptr h + b + 16 + i)"
      if "i < unat nw" "b + 16 + i < hm_next (heap_mems h b)" for i using data [OF that] by (simp add: a_def)
    fix x assume x: "x \<in> set bs" "\<not> is_free h x" "x \<noteq> b"
    show "x \<in> set bs2" "\<not> is_free h3 x" "hm_next (heap_mems h3 x) = hm_next (heap_mems h x)"
      using others [of x] keep [OF x(1,2)] x(3) by auto
    show "heap_byte h3 (heap_ptr h + i) = heap_byte h (heap_ptr h + i)"
      if "x \<le> i" "i < hm_next (heap_mems h x)" for i using frame [OF x(1,2) that] .
  qed
  with run show ?thesis by blast
qed (auto simp: realloc_move_def)


text \<open>
  C19: Changing the size of a block keeps its data: on a well-formed heap \<open>rt_realloc\<close> of a
  block in use returns, leaves the semaphore free, and either fails and changes nothing, or
  hands out a block (the same or a new one) that has room for the new size and holds the
  data of the old block as far as both sizes reach.  The heap stays well formed, and every
  other block in use keeps its extent and its data.
\<close>

theorem rt_realloc_keeps_data:
  assumes inv: "heap_inv bs h" and k: "heap_unlocked k h" and b: "b \<in> set bs" "\<not> is_free h b"
    and sz: "0 < unat sz" "unat sz \<le> 2 ^ 32 - 8"
  shows "rt_realloc (Some (heap_ptr h + b + 16)) sz k h = Some (Some None, k, h) \<or>
    (\<exists>b' bs' h'. rt_realloc (Some (heap_ptr h + b + 16)) sz k h =
         Some (Some (Some (heap_ptr h + b' + 16)), k, h') \<and> realloc_ok bs h b (unat sz) bs' h' b')"
proof (cases "unat (RT_ALIGN sz 8) \<le> mem_size_aligned h")
  case False
  then show ?thesis by (simp add: rt_realloc_def Let_def)
next
  case True
  let ?n = "unat (RT_ALIGN sz 8)" and ?old = "hm_next (heap_mems h b) - b - 16"
  note s = heap_shapeD [OF heap_invD(1) [OF inv]]
  have n: "unat sz \<le> ?n" "8 dvd ?n" using RT_ALIGN_8 [OF sz(2)] by (linarith, simp)
  then have pos: "0 < ?n" using sz(1) by simp
  note run = rt_realloc_unlocked [OF inv k b pos True]
  have c: "b + 24 \<le> hm_next (heap_mems h b)" using heap_chain_in [OF s(1) b(1)] by simp
  have weaken: "realloc_ok bs h b (unat sz) bs' h' b'" if "realloc_ok bs h b ?n bs' h' b'" for bs' h' b'
    using that n(1) unfolding realloc_ok_def by auto
  consider (same) "?old = ?n" | (less) "?old \<noteq> ?n" "?n + 28 < ?old" | (move) "?old \<noteq> ?n" "\<not> ?n + 28 < ?old"
    by blast
  then show ?thesis
  proof cases
    case same
    have "realloc_ok bs h b ?n bs h b" using inv b same c by (auto simp: realloc_ok_def)
    with run same show ?thesis using weaken by auto
  next
    case less
    obtain us vs where bs: "bs = us @ b # vs" using b(1) split_list by metis
    have room: "b + ?n + 44 < hm_next (heap_mems h b)" using less(2) by linarith
    note e = realloc_shrink_effect [OF inv [unfolded bs] b(2) n(2) pos room]
    let ?h = "plug_holes (b + 16 + ?n) (shrink b ?n h)"
    have nx: "hm_next (heap_mems ?h x) = hm_next (heap_mems h x)" if "x \<in> set bs" "\<not> is_free h x" "x \<noteq> b" for x
      using e(8) [of x] that bs by auto
    have "realloc_ok bs h b ?n (us @ b # (b + 16 + ?n) # plug_after h vs) ?h b"
      unfolding realloc_ok_def using e(1,2,4,6,7) nx b bs by (auto simp: same_heap_def)
    with run less show ?thesis using weaken by auto
  next
    case move
    have "?n \<le> 2 ^ 32 - 8" using True s(3,4) by linarith
    note ok = realloc_move_ok [OF inv k b this]
    have "rt_realloc (Some (heap_ptr h + b + 16)) sz k h =
        realloc_move (heap_ptr h + b + 16) ?old (RT_ALIGN sz 8) k h" using run move by simp
    then show ?thesis using ok weaken by metis
  qed
qed

text \<open>A heap with one block in use, of 456 bytes, and no free block.\<close>

lemma heap_full:
  obtains k h where "heap_inv [0] h" "heap_unlocked k h" "\<not> is_free h 0" "lfree h = heap_end h"
    "heap_ptr h = 4104" "heap_end h = 488" "hm_next (heap_mems h 0) = 488" "mem_size_aligned h = 472"
proof -
  let ?k = "fst heap_demo" and ?h = "snd heap_demo"
  have sz: "malloc_size 456 = 456" "\<not> malloc_refused 456 ?h"
    by (simp_all add: malloc_size_def malloc_refused_def RT_ALIGN_def heap_demo_ok)
  have find: "find (fits ?h (malloc_size 456)) (from_lfree [0] ?h) = Some 0"
    by (simp add: sz(1) fits_def heap_demo_ok)
  from heap_demo_ok(1,3) show ?thesis
  proof (cases rule: rt_malloc_cases [where sz = 456])
    case (block us b vs h')
    have b: "b = 0" "us = []" "vs = []" using block(1,2) find by (auto simp: Cons_eq_append_conv)
    have bl: "malloc_blocks ?h (malloc_size 456) us b vs = [0]"
      by (simp add: malloc_blocks_def b sz(1) heap_demo_ok(8))
    have inv: "heap_inv [0] h'" using block(4) bl by simp
    have fit: "fits ?h (malloc_size 456) 0" by (simp add: sz(1) fits_def heap_demo_ok)
    have sh: "heap_shape ([] @ 0 # []) ?h" using heap_invD(1) [OF heap_demo_ok(1)] by simp
    note e = malloc_take_effect [OF sh fit malloc_size_props(1,2), folded block(6) [unfolded b]]
    have used: "\<not> is_free h' 0" using e(2) by simp
    then have "lfree h' = heap_end h'" using heap_invD(3) [OF inv] by auto
    moreover have "hm_next (heap_mems h' 0) = 488" using e(6) by (simp add: sz(1) heap_demo_ok(8))
    ultimately show ?thesis
      using that [OF inv _ used] block(5) same_heap_unlocked [OF block(5)] heap_demo_ok
      by (simp add: same_heap_def)
  qed (use find sz in auto)
qed

theorem rt_realloc_keeps_data_witness:
  "\<exists>k h. heap_inv [0] h \<and> heap_unlocked k h \<and> \<not> is_free h 0 \<and>
     (rt_realloc (Some (heap_ptr h + 0 + 16)) 100 k h = Some (Some None, k, h) \<or>
      (\<exists>b' bs' h'. rt_realloc (Some (heap_ptr h + 0 + 16)) 100 k h =
         Some (Some (Some (heap_ptr h + b' + 16)), k, h') \<and> realloc_ok [0] h 0 100 bs' h' b'))"
proof -
  obtain k h where h: "heap_inv [0] h" "heap_unlocked k h" "\<not> is_free h 0" by (rule heap_full)
  from rt_realloc_keeps_data [OF h(1,2) _ h(3), of 100] h show ?thesis
    by (intro exI [of _ k] exI [of _ h]) simp
qed

lemma rt_malloc_none:
  assumes "heap_inv bs h" "heap_unlocked k h" "find (fits h (malloc_size sz)) (from_lfree bs h) = None"
  shows "rt_malloc sz k h = Some (Some None, k, h)"
  using assms(1,2) by (cases rule: rt_malloc_cases [where sz = sz]) (use assms(3) in auto)

text \<open>
  \<open>rt_realloc\<close> loses memory: it does not lower \<open>lfree\<close> when it cuts a free block off the end
  of a block.  On a heap with no free block left, a block that is made smaller leaves a free
  block of at least twelve bytes behind, but \<open>lfree\<close> still says that the heap is full, and every
  following \<open>rt_malloc\<close> returns a null pointer.
\<close>

theorem rt_realloc_hides_block:
  assumes inv: "heap_inv bs h" and k: "heap_unlocked k h" and b: "b \<in> set bs" "\<not> is_free h b"
    and full: "lfree h = heap_end h"
    and sz: "0 < unat sz" "b + unat (RT_ALIGN sz 8) + 44 < hm_next (heap_mems h b)" "unat sz \<le> 2 ^ 32 - 8"
  shows "\<exists>bs' h'. rt_realloc (Some (heap_ptr h + b + 16)) sz k h = Some (Some (Some (heap_ptr h + b + 16)), k, h') \<and>
    heap_inv bs' h' \<and>
    (\<exists>c \<in> set bs'. is_free h' c \<and> c + 16 + 12 < hm_next (heap_mems h' c)) \<and>
    (\<forall>sz'. rt_malloc sz' k h' = Some (Some None, k, h'))"
proof -
  let ?n = "unat (RT_ALIGN sz 8)"
  let ?h = "plug_holes (b + 16 + ?n) (shrink b ?n h)"
  obtain us vs where bs: "bs = us @ b # vs" using b(1) split_list by metis
  note s = heap_shapeD [OF heap_invD(1) [OF inv]]
  have n: "unat sz \<le> ?n" "8 dvd ?n" using RT_ALIGN_8 [OF sz(3)] by (linarith, simp)
  then have pos: "0 < ?n" using sz(1) by simp
  have le: "hm_next (heap_mems h b) \<le> heap_end h" using heap_chain_in [OF s(1) b(1)] by simp
  have gt: "?n + 28 < hm_next (heap_mems h b) - b - 16" using sz(2) by linarith
  have "rt_realloc (Some (heap_ptr h + b + 16)) sz k h = Some (Some (Some (heap_ptr h + b + 16)), k, ?h)"
    using rt_realloc_unlocked [OF inv k b pos _] gt le s(3) by simp
  moreover note e = realloc_shrink_effect [OF inv [unfolded bs] b(2) n(2) pos sz(2)]
  let ?bs = "us @ b # (b + 16 + ?n) # plug_after h vs"
  have "\<exists>c \<in> set ?bs. is_free ?h c \<and> c + 16 + 12 < hm_next (heap_mems ?h c)"
    using e(3,5) sz(2) by (intro bexI [of _ "b + 16 + ?n"]) auto
  moreover have "rt_malloc sz' k ?h = Some (Some None, k, ?h)" for sz'
  proof -
    have "lfree ?h = heap_end ?h" using e(2) e(9) [OF full] by (simp add: same_heap_def)
    moreover have "x \<noteq> heap_end ?h" if "x \<in> set ?bs" for x
      using heap_chain_lt [OF heap_shapeD(1) [OF heap_invD(1) [OF e(1)]] that] by simp
    ultimately have none: "from_lfree ?bs ?h = []" unfolding dropWhile_eq_Nil_conv by metis
    have "heap_unlocked k ?h" using k same_heap_unlocked [OF e(2)] by simp
    with e(1) show ?thesis by (rule rt_malloc_none) (simp only: none find.simps)
  qed
  ultimately show ?thesis using e(1) by blast
qed

theorem rt_realloc_hides_block_witness:
  "\<exists>k h h'. heap_inv [0] h \<and> lfree h = heap_end h \<and>
     rt_realloc (Some (heap_ptr h + 0 + 16)) 100 k h = Some (Some (Some (heap_ptr h + 0 + 16)), k, h') \<and>
     (\<forall>sz'. rt_malloc sz' k h' = Some (Some None, k, h'))"
proof -
  obtain k h where h: "heap_inv [0] h" "heap_unlocked k h" "\<not> is_free h 0" "lfree h = heap_end h"
    "hm_next (heap_mems h 0) = 488" by (rule heap_full)
  have al: "unat (RT_ALIGN 100 8) = 104" by (simp add: RT_ALIGN_def)
  from rt_realloc_hides_block [OF h(1,2) _ h(3,4), of 100] h al show ?thesis by auto
qed

text \<open>
  On a heap with eight bytes of data a request is raised to sixteen bytes, the bound of the
  search wraps, and the search stays at the last header for ever.
\<close>

lemma malloc_search_stuck:
  assumes "malloc_search n p h = Some r" "hm_used (heap_mems h p) = 1" "hm_next (heap_mems h p) = p"
    "p < sub32 (mem_size_aligned h) n"
  shows False
proof -
  have "hm_used (heap_mems h p) = 1 \<longrightarrow> hm_next (heap_mems h p) = p \<longrightarrow> p < sub32 (mem_size_aligned h) n \<longrightarrow> False"
    using assms(1)
  proof (rule malloc_search.raw_induct [where
      P = "\<lambda>n p h r. hm_used (heap_mems h p) = 1 \<longrightarrow> hm_next (heap_mems h p) = p \<longrightarrow>
        p < sub32 (mem_size_aligned h) n \<longrightarrow> False", rotated], goal_cases)
    case (1 search n p h r)
    then show ?case by (auto simp: Let_def)
  qed
  with assms(2-4) show False by blast
qed

lemma rt_malloc_tiny_heap:
  assumes "mem_size_aligned h = 8" "lfree h = 0" "heap_unlocked k h"
    "heap_mems h 0 = \<lparr>hm_magic = HEAP_MAGIC, hm_used = 0, hm_next = 24, hm_prev = 0\<rparr>"
    "heap_mems h 24 = \<lparr>hm_magic = HEAP_MAGIC, hm_used = 1, hm_next = 24, hm_prev = 24\<rparr>"
  shows "rt_malloc 8 k h = None"
proof -
  have "malloc_search 16 24 h = None"
    using malloc_search_stuck [of 16 24 h] assms by (cases "malloc_search 16 24 h") (auto simp: sub32_def)
  then have "malloc_search 16 0 h = None"
    using assms by (subst malloc_search.simps) (simp add: sub32_def add32_def SIZEOF_STRUCT_MEM_def)
  moreover obtain k1 where "rt_sem_take (heap_sem h) RT_WAITING_FOREVER k = (Some RT_EOK, k1)"
    using heap_lock [OF assms(3)] by metis
  ultimately show ?thesis using assms
    by (simp add: rt_malloc_def rt_malloc_wake_def malloc_locked_def RT_ALIGN_def MIN_SIZE_ALIGNED_def)
qed

end
