(* ===== verification/KService.thy ===== *)
theory KService
  imports HeapCalls
begin

text \<open>
  The memory and string routines of kernel/kservice.c and the string routines of
  fix/fix_rtt.c that the boot loader uses.  Memory is a map from addresses to bytes; words
  are stored with the most significant byte first, as on the target.  A routine that only
  reads takes the bytes behind its pointers, \<open>f i\<close> being the byte \<open>i\<close> places behind the
  pointer; one that looks for the end of a string returns \<open>None\<close> if it never finds it.
  Plain \<open>char\<close> is signed.
\<close>

type_synonym memory = "nat \<Rightarrow> u8"

section \<open>Words in memory\<close>

definition store_word :: "nat \<Rightarrow> u32 \<Rightarrow> memory \<Rightarrow> memory" where
  "store_word a w m =
     m(a := ucast (drop_bit 24 w), a + 1 := ucast (drop_bit 16 w), a + 2 := ucast (drop_bit 8 w), a + 3 := ucast w)"

definition load_word :: "nat \<Rightarrow> memory \<Rightarrow> u32" where
  "load_word a m =
     push_bit 24 (ucast (m a)) OR push_bit 16 (ucast (m (a + 1))) OR push_bit 8 (ucast (m (a + 2))) OR ucast (m (a + 3))"

section \<open>Setting and copying memory\<close>

primrec memset_bytes :: "nat \<Rightarrow> nat \<Rightarrow> u8 \<Rightarrow> memory \<Rightarrow> memory" where
  "memset_bytes 0 p d m = m"
| "memset_bytes (Suc count) p d m = memset_bytes count (p + 1) d (m(p := d))"

text \<open>The two word loops, with the address and the count they leave.\<close>

fun memset_blocks :: "u32 \<Rightarrow> nat \<Rightarrow> nat \<Rightarrow> memory \<Rightarrow> nat \<times> nat \<times> memory" where
  "memset_blocks buffer p count m =
     (if count \<ge> 16
      then memset_blocks buffer (p + 16) (count - 16)
             (store_word (p + 12) buffer (store_word (p + 8) buffer
               (store_word (p + 4) buffer (store_word p buffer m))))
      else (p, count, m))"

fun memset_words :: "u32 \<Rightarrow> nat \<Rightarrow> nat \<Rightarrow> memory \<Rightarrow> nat \<times> nat \<times> memory" where
  "memset_words buffer p count m =
     (if count \<ge> 4 then memset_words buffer (p + 4) (count - 4) (store_word p buffer m) else (p, count, m))"

definition rt_memset :: "nat \<Rightarrow> u32 \<Rightarrow> nat \<Rightarrow> memory \<Rightarrow> memory" where
  "rt_memset s c count m =
     (let d = c AND 0xff
      in if \<not> count < 4 \<and> s mod 4 = 0
         then
           let b0 = push_bit 8 d OR d;
               buffer = b0 OR push_bit 16 b0;
               (p1, n1, m1) = memset_blocks buffer s count m;
               (p2, n2, m2) = memset_words buffer p1 n1 m1
           in memset_bytes n2 p2 (ucast d) m2
         else memset_bytes count s (ucast d) m)"

primrec memcpy_bytes :: "nat \<Rightarrow> nat \<Rightarrow> nat \<Rightarrow> memory \<Rightarrow> memory" where
  "memcpy_bytes 0 d s m = m"
| "memcpy_bytes (Suc len) d s m = memcpy_bytes len (d + 1) (s + 1) (m(d := m s))"

definition copy_word :: "nat \<Rightarrow> nat \<Rightarrow> memory \<Rightarrow> memory" where
  "copy_word d s m = store_word d (load_word s m) m"

fun memcpy_blocks :: "nat \<Rightarrow> nat \<Rightarrow> nat \<Rightarrow> memory \<Rightarrow> nat \<times> nat \<times> nat \<times> memory" where
  "memcpy_blocks d s len m =
     (if len \<ge> 16
      then memcpy_blocks (d + 16) (s + 16) (len - 16)
             (copy_word (d + 12) (s + 12) (copy_word (d + 8) (s + 8)
               (copy_word (d + 4) (s + 4) (copy_word d s m))))
      else (d, s, len, m))"

fun memcpy_words :: "nat \<Rightarrow> nat \<Rightarrow> nat \<Rightarrow> memory \<Rightarrow> nat \<times> nat \<times> nat \<times> memory" where
  "memcpy_words d s len m =
     (if len \<ge> 4 then memcpy_words (d + 4) (s + 4) (len - 4) (copy_word d s m) else (d, s, len, m))"

definition rt_memcpy :: "nat \<Rightarrow> nat \<Rightarrow> nat \<Rightarrow> memory \<Rightarrow> memory" where
  "rt_memcpy dst src count m =
     (if \<not> count < 16 \<and> src mod 4 = 0 \<and> dst mod 4 = 0
      then
        let (d1, s1, n1, m1) = memcpy_blocks dst src count m;
            (d2, s2, n2, m2) = memcpy_words d1 s1 n1 m1
        in memcpy_bytes n2 d2 s2 m2
      else memcpy_bytes count dst src m)"

text \<open>The downward loop of \<open>rt_memmove\<close>.\<close>

primrec memmove_down :: "nat \<Rightarrow> nat \<Rightarrow> nat \<Rightarrow> memory \<Rightarrow> memory" where
  "memmove_down 0 d s m = m"
| "memmove_down (Suc n) d s m = memmove_down n d s (m(d + n := m (s + n)))"

definition rt_memmove :: "nat \<Rightarrow> nat \<Rightarrow> nat \<Rightarrow> memory \<Rightarrow> memory" where
  "rt_memmove dest src n m =
     (if src < dest \<and> dest < src + n then memmove_down n dest src m else memcpy_bytes n dest src m)"

declare memset_blocks.simps [simp del] memset_words.simps [simp del]
  memcpy_blocks.simps [simp del] memcpy_words.simps [simp del]

section \<open>Comparing memory and strings\<close>

primrec memcmp_loop :: "(nat \<Rightarrow> u8) \<Rightarrow> (nat \<Rightarrow> u8) \<Rightarrow> nat \<Rightarrow> nat \<Rightarrow> int" where
  "memcmp_loop f g i 0 = 0"
| "memcmp_loop f g i (Suc count) =
     (let res = uint (f i) - uint (g i) in if res \<noteq> 0 then res else memcmp_loop f g (i + 1) count)"

definition rt_memcmp :: "(nat \<Rightarrow> u8) \<Rightarrow> (nat \<Rightarrow> u8) \<Rightarrow> nat \<Rightarrow> int" where
  "rt_memcmp f g count = memcmp_loop f g 0 count"

partial_function (option) strlen_loop :: "(nat \<Rightarrow> u8) \<Rightarrow> nat \<Rightarrow> nat option" where
  "strlen_loop f sc = (if f sc \<noteq> 0 then strlen_loop f (sc + 1) else Some sc)"

definition rt_strlen :: "(nat \<Rightarrow> u8) \<Rightarrow> nat option" where
  "rt_strlen f = strlen_loop f 0"

primrec strnlen_loop :: "(nat \<Rightarrow> u8) \<Rightarrow> nat \<Rightarrow> nat \<Rightarrow> nat" where
  "strnlen_loop f sc 0 = sc"
| "strnlen_loop f sc (Suc n) = (if f sc \<noteq> 0 then strnlen_loop f (sc + 1) n else sc)"

definition rt_strnlen :: "(nat \<Rightarrow> u8) \<Rightarrow> nat \<Rightarrow> nat" where
  "rt_strnlen f maxlen = strnlen_loop f 0 maxlen"

partial_function (option) strcmp_loop :: "(nat \<Rightarrow> u8) \<Rightarrow> (nat \<Rightarrow> u8) \<Rightarrow> nat \<Rightarrow> int option" where
  "strcmp_loop f g i =
     (if f i \<noteq> 0 \<and> f i = g i then strcmp_loop f g (i + 1) else Some (sint (f i) - sint (g i)))"

definition rt_strcmp :: "(nat \<Rightarrow> u8) \<Rightarrow> (nat \<Rightarrow> u8) \<Rightarrow> int option" where
  "rt_strcmp f g = strcmp_loop f g 0"

text \<open>The result of \<open>rt_strncmp\<close> is held in a \<open>signed char\<close>.\<close>

primrec strncmp_loop :: "(nat \<Rightarrow> u8) \<Rightarrow> (nat \<Rightarrow> u8) \<Rightarrow> nat \<Rightarrow> int \<Rightarrow> nat \<Rightarrow> int" where
  "strncmp_loop f g i res 0 = res"
| "strncmp_loop f g i res (Suc count) =
     (let r = signed_take_bit 7 (sint (f i) - sint (g i))
      in if r \<noteq> 0 \<or> f i = 0 then r else strncmp_loop f g (i + 1) r count)"

definition rt_strncmp :: "(nat \<Rightarrow> u8) \<Rightarrow> (nat \<Rightarrow> u8) \<Rightarrow> nat \<Rightarrow> int" where
  "rt_strncmp f g count = strncmp_loop f g 0 0 count"

text \<open>\<open>rt_strstr\<close>: the offset of the first occurrence, or \<open>Some None\<close> when there is none.\<close>

fun strstr_loop :: "(nat \<Rightarrow> u8) \<Rightarrow> (nat \<Rightarrow> u8) \<Rightarrow> nat \<Rightarrow> nat \<Rightarrow> nat \<Rightarrow> nat option" where
  "strstr_loop f g off l1 l2 =
     (if l1 \<ge> l2 \<and> l2 > 0
      then if rt_memcmp (\<lambda>i. f (off + i)) g l2 = 0 then Some off else strstr_loop f g (off + 1) (l1 - 1) l2
      else None)"

declare strstr_loop.simps [simp del]

definition rt_strstr :: "(nat \<Rightarrow> u8) \<Rightarrow> (nat \<Rightarrow> u8) \<Rightarrow> nat option option" where
  "rt_strstr f g =
     (case rt_strlen g of
        None \<Rightarrow> None
      | Some l2 \<Rightarrow>
          if l2 = 0 then Some (Some 0)
          else (case rt_strlen f of None \<Rightarrow> None | Some l1 \<Rightarrow> Some (strstr_loop f g 0 l1 l2)))"

partial_function (option) strchr_loop :: "(nat \<Rightarrow> u8) \<Rightarrow> u8 \<Rightarrow> nat \<Rightarrow> nat option" where
  "strchr_loop f c s = (if f s \<noteq> 0 \<and> f s \<noteq> c then strchr_loop f c (s + 1) else Some s)"

definition rt_strchr :: "(nat \<Rightarrow> u8) \<Rightarrow> u8 \<Rightarrow> nat option option" where
  "rt_strchr f c =
     (case strchr_loop f c 0 of
        None \<Rightarrow> None
      | Some s \<Rightarrow> Some (if f s \<noteq> c then None else Some s))"

section \<open>Copying strings\<close>

text \<open>The loop of \<open>rt_strncpy\<close> on the remaining count, and its padding with null bytes.\<close>

primrec strncpy_loop :: "nat \<Rightarrow> nat \<Rightarrow> nat \<Rightarrow> memory \<Rightarrow> memory" where
  "strncpy_loop 0 d s m = m"
| "strncpy_loop (Suc n) d s m =
     (let m1 = m(d := m s) in if m1 d = 0 then memset_bytes n (d + 1) 0 m1 else strncpy_loop n (d + 1) (s + 1) m1)"

definition rt_strncpy :: "nat \<Rightarrow> nat \<Rightarrow> nat \<Rightarrow> memory \<Rightarrow> memory" where
  "rt_strncpy dst src n m = strncpy_loop n dst src m"

definition rt_strcpy :: "nat \<Rightarrow> nat \<Rightarrow> memory \<Rightarrow> memory option" where
  "rt_strcpy dest src m =
     map_option (\<lambda>len. rt_strncpy dest src (len + 1) m) (rt_strlen (\<lambda>i. m (src + i)))"

section \<open>Aligned allocation and string duplication\<close>

text \<open>Both work on the data bytes of the heap.\<close>

definition rt_strdup :: "nat \<Rightarrow> kernel \<Rightarrow> rt_heap \<Rightarrow> (nat option option \<times> kernel \<times> rt_heap) option" where
  "rt_strdup s k h =
     (case rt_strlen (\<lambda>i. heap_byte h (s + i)) of
        None \<Rightarrow> None
      | Some l \<Rightarrow>
          let len = word_of_nat (l + 1) :: u32
          in case rt_malloc len k h of
               Some (Some (Some tmp), k1, h1) \<Rightarrow>
                 Some (Some (Some tmp), k1, h1\<lparr>heap_byte := rt_memcpy tmp s (unat len) (heap_byte h1)\<rparr>)
             | r \<Rightarrow> r)"

definition rt_malloc_align ::
  "u32 \<Rightarrow> u32 \<Rightarrow> kernel \<Rightarrow> rt_heap \<Rightarrow> (nat option option \<times> kernel \<times> rt_heap) option" where
  "rt_malloc_align sz align0 k h =
     (let align = (align0 + 3) AND NOT 3;
          align_size = ((sz + 3) AND NOT 3) + align
      in case rt_malloc align_size k h of
           Some (Some (Some p), k1, h1) \<Rightarrow>
             let ptr = word_of_nat p :: u32;
                 align_ptr = (if ptr AND (align - 1) = 0 then ptr + align
                              else (ptr + (align - 1)) AND NOT (align - 1))
             in Some (Some (Some (unat align_ptr)), k1,
                      h1\<lparr>heap_byte := store_word (unat (align_ptr - 4)) ptr (heap_byte h1)\<rparr>)
         | r \<Rightarrow> r)"

definition rt_free_align :: "nat \<Rightarrow> kernel \<Rightarrow> rt_heap \<Rightarrow> unit option \<times> kernel \<times> rt_heap" where
  "rt_free_align ptr k h =
     (let real_ptr = unat (load_word (ptr - 4) (heap_byte h))
      in rt_free (if real_ptr = 0 then None else Some real_ptr) k h)"

section \<open>Reference definitions\<close>

definition mem_fill :: "nat \<Rightarrow> u8 \<Rightarrow> nat \<Rightarrow> memory \<Rightarrow> memory" where
  "mem_fill s d n m = (\<lambda>a. if s \<le> a \<and> a < s + n then d else m a)"

definition mem_copy :: "nat \<Rightarrow> nat \<Rightarrow> nat \<Rightarrow> memory \<Rightarrow> memory" where
  "mem_copy d s n m = (\<lambda>a. if d \<le> a \<and> a < d + n then m (s + (a - d)) else m a)"

lemma mem_fill_0 [simp]: "mem_fill s d 0 m = m"
  by (auto simp: mem_fill_def fun_eq_iff)

lemma mem_fill_fill: "mem_fill (s + k) d n (mem_fill s d k m) = mem_fill s d (k + n) m"
  by (auto simp: mem_fill_def)

lemma mem_fill_1: "m(p := d) = mem_fill p d 1 m"
  by (auto simp: mem_fill_def)

lemma memset_bytes_fill: "memset_bytes n p d m = mem_fill p d n m"
  by (induction n arbitrary: p m) (simp_all add: mem_fill_1 mem_fill_fill [where k = 1, simplified])

lemma mem_copy_0 [simp]: "mem_copy d s 0 m = m"
  by (auto simp: mem_copy_def fun_eq_iff)

text \<open>Copying in two steps, when the first step leaves the source of the second alone.\<close>

lemma mem_copy_copy:
  assumes "d \<le> s \<or> s + k + n \<le> d"
  shows "mem_copy (d + k) (s + k) n (mem_copy d s k m) = mem_copy d s (k + n) m"
proof
  fix a
  show "mem_copy (d + k) (s + k) n (mem_copy d s k m) a = mem_copy d s (k + n) m a"
    using assms by (auto simp: mem_copy_def intro!: arg_cong [where f = m])
qed

lemma memcpy_bytes_copy:
  "d \<le> s \<or> s + n \<le> d \<Longrightarrow> memcpy_bytes n d s m = mem_copy d s n m"
proof (induction n arbitrary: d s m)
  case (Suc n)
  have one: "m(d := m s) = mem_copy d s 1 m" by (auto simp: mem_copy_def)
  have "d + 1 \<le> s + 1 \<or> s + 1 + n \<le> d + 1" using Suc.prems by auto
  from Suc.IH [OF this] have "memcpy_bytes (Suc n) d s m = mem_copy (d + 1) (s + 1) n (mem_copy d s 1 m)"
    by (simp add: one)
  also have "\<dots> = mem_copy d s (1 + n) m" using Suc.prems by (intro mem_copy_copy) auto
  finally show ?case by simp
qed simp

lemma memmove_down_copy: "s < d \<Longrightarrow> memmove_down n d s m = mem_copy d s n m"
proof (induction n arbitrary: m)
  case (Suc n)
  show ?case
  proof
    fix a
    show "memmove_down (Suc n) d s m a = mem_copy d s (Suc n) m a"
      using Suc by (auto simp: mem_copy_def intro!: arg_cong [where f = m])
  qed
qed simp

section \<open>Words\<close>

lemma load_word_bytes:
  "ucast (drop_bit 24 (load_word a m)) = m a" "ucast (drop_bit 16 (load_word a m)) = m (a + 1)"
  "ucast (drop_bit 8 (load_word a m)) = m (a + 2)" "ucast (load_word a m) = m (a + 3)"
  by (rule bit_word_eqI, auto simp: load_word_def bit_simps dest: bit_imp_le_length)+

lemma copy_word_copy: "copy_word d s m = mem_copy d s 4 m"
proof
  fix a
  consider "a = d" | "a = d + 1" | "a = d + 2" | "a = d + 3" | "\<not> (d \<le> a \<and> a < d + 4)" by linarith
  then show "copy_word d s m a = mem_copy d s 4 m a"
    by cases (auto simp: copy_word_def store_word_def mem_copy_def load_word_bytes)
qed

text \<open>The word \<open>rt_memset\<close> stores has the same four bytes.\<close>

definition rep_word :: "u32 \<Rightarrow> u32" where
  "rep_word d = (push_bit 8 d OR d) OR push_bit 16 (push_bit 8 d OR d)"

lemma rep_word_bytes:
  assumes "d = c AND 0xff"
  shows "ucast (drop_bit 24 (rep_word d)) = (ucast d :: u8)" "ucast (drop_bit 16 (rep_word d)) = (ucast d :: u8)"
    "ucast (drop_bit 8 (rep_word d)) = (ucast d :: u8)" "ucast (rep_word d) = (ucast d :: u8)"
proof -
  have d: "d = c AND mask 8" by (simp add: assms mask_eq_exp_minus_1)
  have hi: "\<not> bit d i" if "8 \<le> i" for i using that by (simp add: d bit_and_iff bit_mask_iff)
  show "ucast (drop_bit 24 (rep_word d)) = (ucast d :: u8)" "ucast (drop_bit 16 (rep_word d)) = (ucast d :: u8)"
    "ucast (drop_bit 8 (rep_word d)) = (ucast d :: u8)" "ucast (rep_word d) = (ucast d :: u8)"
    by (rule bit_word_eqI, auto simp: rep_word_def bit_simps hi dest: bit_imp_le_length)+
qed

lemma store_rep_word:
  assumes "d = c AND 0xff"
  shows "store_word p (rep_word d) m = mem_fill p (ucast d) 4 m"
proof
  fix a
  consider "a = p" | "a = p + 1" | "a = p + 2" | "a = p + 3" | "\<not> (p \<le> a \<and> a < p + 4)" by linarith
  then show "store_word p (rep_word d) m a = mem_fill p (ucast d) 4 m a"
    by cases (auto simp: store_word_def mem_fill_def rep_word_bytes [OF assms])
qed

section \<open>The routines are the reference definitions\<close>

lemma memset_blocks_fill:
  assumes "d = c AND 0xff" "memset_blocks (rep_word d) p n m = (p', n', m')"
  shows "p' + n' = p + n \<and> p \<le> p' \<and> m' = mem_fill p (ucast d) (p' - p) m"
  using assms(2)
proof (induction "rep_word d" p n m rule: memset_blocks.induct)
  case (1 p count m)
  show ?case
  proof (cases "16 \<le> count")
    case True
    have st: "store_word (p + 12) (rep_word d) (store_word (p + 8) (rep_word d)
        (store_word (p + 4) (rep_word d) (store_word p (rep_word d) m))) = mem_fill p (ucast d) 16 m"
      using mem_fill_fill [of p 4 "ucast d" 4 m] mem_fill_fill [of p 8 "ucast d" 4 m]
        mem_fill_fill [of p 12 "ucast d" 4 m] by (simp add: store_rep_word [OF assms(1)])
    from 1 True have "p' + n' = p + 16 + (count - 16) \<and> p + 16 \<le> p' \<and>
        m' = mem_fill (p + 16) (ucast d) (p' - (p + 16)) (mem_fill p (ucast d) 16 m)"
      by (simp add: memset_blocks.simps [of _ p] st)
    moreover have "p + 16 \<le> p' \<Longrightarrow> 16 + (p' - (p + 16)) = p' - p" by simp
    ultimately show ?thesis using True mem_fill_fill [of p 16 "ucast d" "p' - (p + 16)" m] by simp
  qed (use 1 in \<open>simp add: memset_blocks.simps [of _ p]\<close>)
qed

lemma memset_words_fill:
  assumes "d = c AND 0xff" "memset_words (rep_word d) p n m = (p', n', m')"
  shows "p' + n' = p + n \<and> p \<le> p' \<and> m' = mem_fill p (ucast d) (p' - p) m"
  using assms(2)
proof (induction "rep_word d" p n m rule: memset_words.induct)
  case (1 p count m)
  show ?case
  proof (cases "4 \<le> count")
    case True
    from 1 True have "p' + n' = p + 4 + (count - 4) \<and> p + 4 \<le> p' \<and>
        m' = mem_fill (p + 4) (ucast d) (p' - (p + 4)) (mem_fill p (ucast d) 4 m)"
      by (simp add: memset_words.simps [of _ p] store_rep_word [OF assms(1)])
    moreover have "p + 4 \<le> p' \<Longrightarrow> 4 + (p' - (p + 4)) = p' - p" by simp
    ultimately show ?thesis using True mem_fill_fill [of p 4 "ucast d" "p' - (p + 4)" m] by simp
  qed (use 1 in \<open>simp add: memset_words.simps [of _ p]\<close>)
qed

lemma rt_memset_fill: "rt_memset s c n m = mem_fill s (ucast c) n m"
proof -
  define d where "d = c AND 0xff"
  have d: "(ucast d :: u8) = ucast c"
  proof (rule bit_word_eqI)
    fix i assume i: "i < LENGTH(8)"
    have "d = c AND mask 8" by (simp add: d_def mask_eq_exp_minus_1)
    with i show "bit (ucast d :: u8) i = bit (ucast c :: u8) i" by (simp add: bit_ucast_iff bit_and_iff bit_mask_iff)
  qed
  obtain p1 n1 m1 where b: "memset_blocks (rep_word d) s n m = (p1, n1, m1)" by (metis surj_pair)
  obtain p2 n2 m2 where w: "memset_words (rep_word d) p1 n1 m1 = (p2, n2, m2)" by (metis surj_pair)
  note eb = memset_blocks_fill [OF d_def b] and ew = memset_words_fill [OF d_def w]
  have "mem_fill p2 (ucast c) n2 m2 = mem_fill s (ucast c) n m"
  proof -
    have "m2 = mem_fill s (ucast c) (p2 - s) m"
      using eb ew mem_fill_fill [of s "p1 - s" "ucast c" "p2 - p1" m] by (simp add: d)
    then show ?thesis using eb ew mem_fill_fill [of s "p2 - s" "ucast c" n2 m] by simp
  qed
  then show ?thesis using b w
    unfolding rt_memset_def Let_def d_def [symmetric] rep_word_def [symmetric]
    by (simp add: memset_bytes_fill d)
qed

lemma memcpy_blocks_copy:
  assumes "memcpy_blocks d s n m = (d', s', n', m')" "d \<le> s \<or> s + n \<le> d" "d mod 4 = 0" "s mod 4 = 0"
  shows "\<exists>k. d' = d + k \<and> s' = s + k \<and> k + n' = n \<and> m' = mem_copy d s k m"
  using assms
proof (induction d s n m rule: memcpy_blocks.induct)
  case (1 d s len m)
  show ?case
  proof (cases "16 \<le> len")
    case True
    have cp: "copy_word (d + 12) (s + 12) (copy_word (d + 8) (s + 8) (copy_word (d + 4) (s + 4) (copy_word d s m))) =
        mem_copy d s 16 m"
      using mem_copy_copy [of d s 4 4 m] mem_copy_copy [of d s 8 4 m] mem_copy_copy [of d s 12 4 m] True 1(3)
      by (auto simp: copy_word_copy)
    from 1(1) [OF True] 1(2-) True obtain k where "d' = d + 16 + k" "s' = s + 16 + k" "k + n' = len - 16"
        "m' = mem_copy (d + 16) (s + 16) k (mem_copy d s 16 m)"
      by (auto simp: memcpy_blocks.simps [of d] cp mod_add_self2)
    then show ?thesis using True 1(3) mem_copy_copy [of d s 16 k m]
      by (intro exI [of _ "16 + k"]) auto
  qed (use 1 in \<open>simp add: memcpy_blocks.simps [of d]\<close>)
qed

lemma memcpy_words_copy:
  assumes "memcpy_words d s n m = (d', s', n', m')" "d \<le> s \<or> s + n \<le> d"
  shows "\<exists>k. d' = d + k \<and> s' = s + k \<and> k + n' = n \<and> m' = mem_copy d s k m"
  using assms
proof (induction d s n m rule: memcpy_words.induct)
  case (1 d s len m)
  show ?case
  proof (cases "4 \<le> len")
    case True
    from 1(1) [OF True] 1(2-) True obtain k where "d' = d + 4 + k" "s' = s + 4 + k" "k + n' = len - 4"
        "m' = mem_copy (d + 4) (s + 4) k (mem_copy d s 4 m)"
      by (auto simp: memcpy_words.simps [of d] copy_word_copy)
    then show ?thesis using True 1(3) mem_copy_copy [of d s 4 k m]
      by (intro exI [of _ "4 + k"]) auto
  qed (use 1 in \<open>simp add: memcpy_words.simps [of d]\<close>)
qed

lemma rt_memcpy_copy:
  assumes "d \<le> s \<or> s + n \<le> d"
  shows "rt_memcpy d s n m = mem_copy d s n m"
proof -
  obtain d1 s1 n1 m1 where b: "memcpy_blocks d s n m = (d1, s1, n1, m1)" by (metis surj_pair)
  obtain d2 s2 n2 m2 where w: "memcpy_words d1 s1 n1 m1 = (d2, s2, n2, m2)" by (metis surj_pair)
  have "memcpy_bytes n2 d2 s2 m2 = mem_copy d s n m" if al: "s mod 4 = 0" "d mod 4 = 0"
  proof -
    obtain j where j: "d1 = d + j" "s1 = s + j" "j + n1 = n" "m1 = mem_copy d s j m"
      using memcpy_blocks_copy [OF b assms] al by auto
    obtain k where k: "d2 = d1 + k" "s2 = s1 + k" "k + n2 = n1" "m2 = mem_copy d1 s1 k m1"
      using memcpy_words_copy [OF w] assms j by auto
    have "m2 = mem_copy d s (j + k) m" using mem_copy_copy [of d s j k m] assms j k by auto
    moreover have "memcpy_bytes n2 d2 s2 m2 = mem_copy d2 s2 n2 m2" using assms j k by (intro memcpy_bytes_copy) auto
    ultimately show ?thesis using mem_copy_copy [of d s "j + k" n2 m] assms j k by (auto simp: add.assoc)
  qed
  with b w show ?thesis using memcpy_bytes_copy [OF assms] by (simp add: rt_memcpy_def Let_def)
qed

lemma rt_memmove_copy: "rt_memmove d s n m = mem_copy d s n m"
  using memmove_down_copy [of s d n m] memcpy_bytes_copy [of d s n m] by (auto simp: rt_memmove_def)

text \<open>
  C34: The memory routines are correct, whatever the alignment and the length: \<open>rt_memset\<close>, which
  stores sixteen and four bytes at a time where it can, sets exactly the given bytes to the
  low byte of its argument; \<open>rt_memcpy\<close>, which copies words where it can, copies exactly the
  given bytes when the areas are disjoint or the destination is below the source; and
  \<open>rt_memmove\<close> does so for areas that overlap in any way.
\<close>

theorem memory_routines_correct:
  "rt_memset s c n m = (\<lambda>a. if s \<le> a \<and> a < s + n then ucast c else m a) \<and>
   (d \<le> s \<or> s + n \<le> d \<longrightarrow> rt_memcpy d s n m = (\<lambda>a. if d \<le> a \<and> a < d + n then m (s + (a - d)) else m a)) \<and>
   rt_memmove d s n m = (\<lambda>a. if d \<le> a \<and> a < d + n then m (s + (a - d)) else m a)"
  using rt_memset_fill [of s c n m] rt_memcpy_copy [of d s n m] rt_memmove_copy [of d s n m]
  by (auto simp: mem_fill_def mem_copy_def)

theorem memory_routines_correct_witness:
  "rt_memset 8 0x1ff 21 (\<lambda>_. 0) = (\<lambda>a. if 8 \<le> a \<and> a < 29 then 0xff else 0) \<and>
   rt_memcpy 100 8 21 (\<lambda>a. word_of_nat a) =
     (\<lambda>a. if 100 \<le> a \<and> a < 121 then word_of_nat (8 + (a - 100)) else word_of_nat a)"
proof -
  have u: "ucast (0x1ff :: u32) = (0xff :: u8)" by code_simp
  show ?thesis
    using memory_routines_correct [of 8 "0x1ff" 21 "\<lambda>_. 0" 8, unfolded u] memory_routines_correct [of 8 0 21 "\<lambda>a. word_of_nat a" 100]
    by simp
qed

section \<open>Strings\<close>

text \<open>The bytes \<open>f\<close> behind a pointer begin with the string \<open>s\<close> and its null byte.\<close>

definition str_at :: "(nat \<Rightarrow> u8) \<Rightarrow> u8 list \<Rightarrow> bool" where
  "str_at f s \<longleftrightarrow> 0 \<notin> set s \<and> (\<forall>i < length s. f i = s ! i) \<and> f (length s) = 0"

lemma str_at_nonzero: "str_at f s \<Longrightarrow> i < length s \<Longrightarrow> f i \<noteq> 0"
  by (auto simp: str_at_def in_set_conv_nth)

lemma strlen_loop_str: "str_at f s \<Longrightarrow> i \<le> length s \<Longrightarrow> strlen_loop f i = Some (length s)"
proof (induction "length s - i" arbitrary: i)
  case 0
  then show ?case by (subst strlen_loop.simps) (simp add: str_at_def)
next
  case (Suc n)
  then show ?case using str_at_nonzero [of f s i] by (subst strlen_loop.simps) auto
qed

lemma rt_strlen_str: "str_at f s \<Longrightarrow> rt_strlen f = Some (length s)"
  by (simp add: rt_strlen_def strlen_loop_str)

lemma memcmp_loop_zero: "memcmp_loop f g i n = 0 \<longleftrightarrow> (\<forall>j < n. f (i + j) = g (i + j))"
proof (induction n arbitrary: i)
  case (Suc n)
  have "(\<forall>j < Suc n. f (i + j) = g (i + j)) \<longleftrightarrow> f i = g i \<and> (\<forall>j < n. f (i + 1 + j) = g (i + 1 + j))"
    by (auto simp: less_Suc_eq_0_disj)
  moreover have "uint (f i) - uint (g i) = 0 \<longleftrightarrow> f i = g i" by (simp add: word_uint_eq_iff)
  ultimately show ?case using Suc [of "i + 1"] by (simp only: memcmp_loop.simps Let_def) auto
qed simp

lemma rt_memcmp_zero: "rt_memcmp f g n = 0 \<longleftrightarrow> (\<forall>i < n. f i = g i)"
  using memcmp_loop_zero [of f g 0 n] by (simp add: rt_memcmp_def)

lemma strcmp_loop_str:
  assumes "str_at f s" "str_at g t" "i \<le> length s" "i \<le> length t" "take i s = take i t"
  shows "\<exists>r. strcmp_loop f g i = Some r \<and> (r = 0 \<longleftrightarrow> s = t)"
  using assms
proof (induction "length s - i" arbitrary: i)
  case 0
  then have i: "i = length s" by simp
  have "g i = 0 \<longleftrightarrow> i = length t"
    using 0(3,5) str_at_nonzero [of g t i] by (cases "i = length t") (auto simp: str_at_def)
  then have "g i = 0 \<longleftrightarrow> s = t" using 0 i by auto
  moreover have "f i = 0" using 0 i by (simp add: str_at_def)
  ultimately show ?case by (subst strcmp_loop.simps) (auto simp: signed_eq_0_iff)
next
  case (Suc n)
  then have i: "i < length s" by simp
  note nz = str_at_nonzero [OF Suc.prems(1) i]
  show ?case
  proof (cases "f i = g i")
    case True
    have it: "i < length t" using nz True Suc.prems(2,4) by (cases "i = length t") (auto simp: str_at_def)
    have "s ! i = t ! i" using True i it Suc.prems(1,2) by (simp add: str_at_def)
    then have "take (i + 1) s = take (i + 1) t" using i it Suc.prems(5) by (simp add: take_Suc_conv_app_nth)
    with Suc i it True nz show ?thesis by (subst strcmp_loop.simps) auto
  next
    case False
    have "s \<noteq> t" using False i Suc.prems(1,2) by (auto simp: str_at_def)
    moreover have "sint (f i) - sint (g i) \<noteq> 0" using False by (metis signed_word_eqI eq_iff_diff_eq_0)
    ultimately show ?thesis using False by (subst strcmp_loop.simps) auto
  qed
qed

lemma rt_strcmp_str:
  assumes "str_at f s" "str_at g t"
  shows "\<exists>r. rt_strcmp f g = Some r \<and> (r = 0 \<longleftrightarrow> s = t)"
  using strcmp_loop_str [OF assms, of 0] by (simp add: rt_strcmp_def)

lemma str_at_drop: "str_at f s \<Longrightarrow> n \<le> length s \<Longrightarrow> str_at (\<lambda>i. f (n + i)) (drop n s)"
  by (auto simp: str_at_def dest: in_set_dropD)

lemma takeWhile_all_length: "c \<notin> set s \<Longrightarrow> length (takeWhile (\<lambda>x. x \<noteq> c) s) = length s"
  by (induction s) auto

lemma length_takeWhile_at:
  "i < length s \<Longrightarrow> s ! i = c \<Longrightarrow> c \<notin> set (take i s) \<Longrightarrow> length (takeWhile (\<lambda>x. x \<noteq> c) s) = i"
  by (induction s arbitrary: i) (auto simp: nth_Cons take_Cons split: nat.splits)

lemma strchr_loop_str:
  assumes f: "str_at f s"
  shows "i \<le> length s \<Longrightarrow> c \<notin> set (take i s) \<Longrightarrow>
    strchr_loop f c i = Some (length (takeWhile (\<lambda>x. x \<noteq> c) s))"
proof (induction "length s - i" arbitrary: i)
  case 0
  then have i: "i = length s" by simp
  have c: "c \<notin> set s" using 0(3) by (simp add: i)
  have "f i = 0" using f by (simp add: i str_at_def)
  then have "strchr_loop f c i = Some i" by (subst strchr_loop.simps) simp
  then show ?case by (simp only: takeWhile_all_length [OF c] i)
next
  case (Suc n)
  have i: "i < length s" using Suc.hyps(2) by linarith
  have nz: "f i \<noteq> 0" by (rule str_at_nonzero [OF f i])
  have fi: "f i = s ! i" using f i by (simp add: str_at_def)
  show ?case
  proof (cases "s ! i = c")
    case True
    have "strchr_loop f c i = Some i" using True fi by (subst strchr_loop.simps) simp
    then show ?thesis by (simp only: length_takeWhile_at [OF i True Suc.prems(2)])
  next
    case False
    have c: "c \<notin> set (take (i + 1) s)" using Suc.prems(2) i False by (simp add: take_Suc_conv_app_nth)
    have "strchr_loop f c i = strchr_loop f c (i + 1)" using nz False fi by (subst strchr_loop.simps) simp
    also have "\<dots> = Some (length (takeWhile (\<lambda>x. x \<noteq> c) s))"
      by (rule Suc.hyps(1)) (use Suc.hyps(2) i c in simp_all)
    finally show ?thesis .
  qed
qed

lemma rt_strchr_str:
  assumes "str_at f s" "c \<noteq> 0"
  shows "rt_strchr f c = Some (if c \<in> set s then Some (length (takeWhile (\<lambda>x. x \<noteq> c) s)) else None)"
proof -
  let ?n = "length (takeWhile (\<lambda>x. x \<noteq> c) s)"
  have run: "strchr_loop f c 0 = Some ?n" using strchr_loop_str [OF assms(1), of 0 c] by simp
  show ?thesis
  proof (cases "c \<in> set s")
    case True
    have "?n < length s" using True by (induction s) auto
    then have "f ?n = c" using assms(1) nth_length_takeWhile [of "\<lambda>x. x \<noteq> c" s] by (simp add: str_at_def)
    with True run show ?thesis by (simp add: rt_strchr_def)
  next
    case False
    note takeWhile_all_length [OF False]
    with False run assms show ?thesis by (simp add: rt_strchr_def str_at_def)
  qed
qed

lemma strstr_loop_str:
  assumes f: "str_at f s" and g: "str_at g t" "t \<noteq> []" and l: "l1 = length s - off" "off \<le> length s"
  shows "strstr_loop f g off l1 (length t) =
    find (\<lambda>i. take (length t) (drop i s) = t) [off..<length s + 1 - length t]"
  using l
proof (induction l1 arbitrary: off)
  case 0
  then have "[off..<length s + 1 - length t] = []" using g(2) by (cases t) auto
  with 0 g(2) show ?case by (subst strstr_loop.simps) auto
next
  case (Suc l1)
  show ?case
  proof (cases "length t \<le> Suc l1")
    case True
    have le: "off + length t \<le> length s" using True Suc.prems by linarith
    have "f (off + i) = s ! (off + i)" "g i = t ! i" if "i < length t" for i
      using f g(1) le that by (simp_all add: str_at_def)
    then have "rt_memcmp (\<lambda>i. f (off + i)) g (length t) = 0 \<longleftrightarrow> (\<forall>i < length t. s ! (off + i) = t ! i)"
      by (simp add: rt_memcmp_zero)
    also have "\<dots> \<longleftrightarrow> take (length t) (drop off s) = t"
      using le by (subst list_eq_iff_nth_eq) (auto simp: min_def)
    finally have "rt_memcmp (\<lambda>i. f (off + i)) g (length t) = 0 \<longleftrightarrow> take (length t) (drop off s) = t" .
    moreover have "[off..<length s + 1 - length t] = off # [off + 1..<length s + 1 - length t]"
      using le g(2) by (subst upt_conv_Cons) (cases t; simp)+
    moreover have "off + 1 \<le> length s" "l1 = length s - (off + 1)" using Suc.prems by auto
    ultimately show ?thesis using True g(2) Suc.IH [of "off + 1"] by (subst strstr_loop.simps) simp
  next
    case False
    then have "find (\<lambda>i. take (length t) (drop i s) = t) [off..<length s + 1 - length t] = None"
      using Suc.prems by simp
    with False show ?thesis by (subst strstr_loop.simps) simp
  qed
qed

lemma rt_strstr_str:
  assumes "str_at f s" "str_at g t" "t \<noteq> []"
  shows "rt_strstr f g = Some (find (\<lambda>i. take (length t) (drop i s) = t) [0..<length s + 1 - length t])"
  using strstr_loop_str [OF assms, of "length s" 0] assms(3)
  by (simp add: rt_strstr_def rt_strlen_str [OF assms(1)] rt_strlen_str [OF assms(2)])

lemma rt_strcpy_str:
  assumes s: "str_at (\<lambda>i. m (src + i)) s" and dis: "dest + length s < src \<or> src + length s < dest"
  shows "rt_strcpy dest src m = Some (mem_copy dest src (length s + 1) m)"
proof -
  have "strncpy_loop n (dest + i) (src + i) (mem_copy dest src i m) = mem_copy dest src (length s + 1) m"
    if "n + i = length s + 1" for n i
    using that
  proof (induction n arbitrary: i)
    case (Suc n)
    let ?m = "mem_copy dest src i m"
    have one: "?m(dest + i := ?m (src + i)) = mem_copy dest src (i + 1) m"
      using dis Suc.prems by (auto simp: mem_copy_def fun_eq_iff)
    have val: "mem_copy dest src (i + 1) m (dest + i) = m (src + i)" by (simp add: mem_copy_def)
    show ?case
    proof (cases "m (src + i) = 0")
      case True
      then have "n = 0" using str_at_nonzero [OF s, of i] Suc.prems by (cases "i < length s") auto
      with True Suc.prems show ?thesis unfolding strncpy_loop.simps Let_def one val by simp
    next
      case False
      with Suc.IH [of "i + 1"] Suc.prems show ?thesis unfolding strncpy_loop.simps Let_def one val by simp
    qed
  qed simp
  from this [of "length s + 1" 0] show ?thesis
    by (simp add: rt_strcpy_def rt_strlen_str [OF s] rt_strncpy_def)
qed

end
