(* ===== verification/Sfud.thy ===== *)
theory Sfud
  imports KService
begin

text \<open>
  The serial flash driver (libs/sfud/sfud.c and the eraser choice of sfud_sfdp.c), as
  rtconfig.h configures it: with SFDP and the chip table, without QSPI and without the
  debug mode, so the assertions are compiled out.  The driver reaches the chip through the
  function pointers of its \<open>sfud_spi\<close>; they are fields of the record here and act on
  a state \<open>'s\<close> that belongs to the bus and the chip.  What a NOR flash chip does with the
  commands is the locale \<open>nor_flash\<close>.
\<close>

section \<open>Data (sfud_def.h, sfud_flash_def.h)\<close>

datatype sfud_err =
    SFUD_SUCCESS
  | SFUD_ERR_NOT_FOUND
  | SFUD_ERR_WRITE
  | SFUD_ERR_READ
  | SFUD_ERR_TIMEOUT
  | SFUD_ERR_ADDR_OUT_OF_BOUND

definition SFUD_CMD_WRITE_ENABLE :: u8 where "SFUD_CMD_WRITE_ENABLE = 0x06"
definition SFUD_CMD_WRITE_DISABLE :: u8 where "SFUD_CMD_WRITE_DISABLE = 0x04"
definition SFUD_CMD_READ_STATUS_REGISTER :: u8 where "SFUD_CMD_READ_STATUS_REGISTER = 0x05"
definition SFUD_CMD_PAGE_PROGRAM :: u8 where "SFUD_CMD_PAGE_PROGRAM = 0x02"
definition SFUD_CMD_AAI_WORD_PROGRAM :: u8 where "SFUD_CMD_AAI_WORD_PROGRAM = 0xAD"
definition SFUD_CMD_ERASE_CHIP :: u8 where "SFUD_CMD_ERASE_CHIP = 0xC7"
definition SFUD_CMD_READ_DATA :: u8 where "SFUD_CMD_READ_DATA = 0x03"

definition SFUD_STATUS_REGISTER_BUSY :: u8 where "SFUD_STATUS_REGISTER_BUSY = push_bit 0 1"
definition SFUD_STATUS_REGISTER_WEL :: u8 where "SFUD_STATUS_REGISTER_WEL = push_bit 1 1"

definition SFUD_WM_PAGE_256B :: u16 where "SFUD_WM_PAGE_256B = push_bit 0 1"
definition SFUD_WM_BYTE :: u16 where "SFUD_WM_BYTE = push_bit 1 1"
definition SFUD_WM_AAI :: u16 where "SFUD_WM_AAI = push_bit 2 1"
definition SFUD_WM_DUAL_BUFFER :: u16 where "SFUD_WM_DUAL_BUFFER = push_bit 3 1"

lemmas sfud_cmd_defs = SFUD_CMD_WRITE_ENABLE_def SFUD_CMD_WRITE_DISABLE_def SFUD_CMD_READ_STATUS_REGISTER_def
  SFUD_CMD_PAGE_PROGRAM_def SFUD_CMD_AAI_WORD_PROGRAM_def SFUD_CMD_ERASE_CHIP_def SFUD_CMD_READ_DATA_def

record sfud_flash_chip =
  chip_name :: "string option"
  mf_id :: u8
  type_id :: u8
  capacity_id :: u8
  capacity :: u32
  write_mode :: u16
  erase_gran :: u32
  erase_gran_cmd :: u8

record sfud_eraser =
  eraser_size :: u32
  eraser_cmd :: u8

record sfud_sfdp =
  available :: bool
  sfdp_major_rev :: u8
  sfdp_minor_rev :: u8
  sfdp_write_gran :: u16
  erase_4k :: bool
  erase_4k_cmd :: u8
  sr_is_non_vola :: bool
  vola_sr_we_cmd :: u8
  addr_3_byte :: bool
  addr_4_byte :: bool
  sfdp_capacity :: u32
  eraser :: "sfud_eraser list"

text \<open>
  \<open>wr\<close> sends a command and reads as many bytes as its second argument asks for.
\<close>

record 's sfud_spi =
  wr :: "u8 list \<Rightarrow> nat \<Rightarrow> 's \<Rightarrow> sfud_err \<times> u8 list \<times> 's"
  lock :: "('s \<Rightarrow> 's) option"
  unlock :: "('s \<Rightarrow> 's) option"

record 's sfud_flash =
  chip :: sfud_flash_chip
  spi :: "'s sfud_spi"
  init_ok :: bool
  addr_in_4_byte :: bool
  retry_delay :: "('s \<Rightarrow> 's) option"
  retry_times :: u32
  sfdp :: sfud_sfdp

section \<open>Bus and status register\<close>

definition spi_lock :: "'s sfud_flash \<Rightarrow> 's \<Rightarrow> 's" where
  "spi_lock flash s = (case lock (spi flash) of None \<Rightarrow> s | Some l \<Rightarrow> l s)"

definition spi_unlock :: "'s sfud_flash \<Rightarrow> 's \<Rightarrow> 's" where
  "spi_unlock flash s = (case unlock (spi flash) of None \<Rightarrow> s | Some u \<Rightarrow> u s)"

definition retry_wait :: "'s sfud_flash \<Rightarrow> 's \<Rightarrow> 's" where
  "retry_wait flash s = (case retry_delay flash of None \<Rightarrow> s | Some d \<Rightarrow> d s)"

definition sfud_read_status :: "'s sfud_flash \<Rightarrow> 's \<Rightarrow> sfud_err \<times> u8 list \<times> 's" where
  "sfud_read_status flash s = wr (spi flash) [SFUD_CMD_READ_STATUS_REGISTER] 1 s"

text \<open>The status byte is looked at only after a successful transfer of one byte.\<close>

definition set_write_enabled :: "'s sfud_flash \<Rightarrow> bool \<Rightarrow> 's \<Rightarrow> sfud_err \<times> 's" where
  "set_write_enabled flash enabled s =
    (case wr (spi flash) [if enabled then SFUD_CMD_WRITE_ENABLE else SFUD_CMD_WRITE_DISABLE] 0 s of (result, _, s) \<Rightarrow>
     if result \<noteq> SFUD_SUCCESS then (result, s)
     else case sfud_read_status flash s of (result, status, s) \<Rightarrow>
       if result \<noteq> SFUD_SUCCESS then (result, s)
       else if enabled \<and> status ! 0 AND SFUD_STATUS_REGISTER_WEL = 0 then (SFUD_ERR_WRITE, s)
       else if \<not> enabled \<and> status ! 0 AND SFUD_STATUS_REGISTER_WEL = 1 then (SFUD_ERR_WRITE, s)
       else (result, s))"

primrec wait_busy_loop :: "'s sfud_flash \<Rightarrow> nat \<Rightarrow> 's \<Rightarrow> sfud_err \<times> 's" where
  "wait_busy_loop flash 0 s =
    (case sfud_read_status flash s of (result, status, s) \<Rightarrow>
     if result = SFUD_SUCCESS \<and> status ! 0 AND SFUD_STATUS_REGISTER_BUSY = 0 then (result, s)
     else (SFUD_ERR_TIMEOUT, s))"
| "wait_busy_loop flash (Suc n) s =
    (case sfud_read_status flash s of (result, status, s) \<Rightarrow>
     if result = SFUD_SUCCESS \<and> status ! 0 AND SFUD_STATUS_REGISTER_BUSY = 0 then (result, s)
     else wait_busy_loop flash n (retry_wait flash s))"

definition wait_busy :: "'s sfud_flash \<Rightarrow> 's \<Rightarrow> sfud_err \<times> 's" where
  "wait_busy flash s = wait_busy_loop flash (unat (retry_times flash)) s"

definition make_adress_byte_array :: "'s sfud_flash \<Rightarrow> u32 \<Rightarrow> u8 list" where
  "make_adress_byte_array flash addr =
    (let len = if addr_in_4_byte flash then 4 else 3
     in map (\<lambda>i. ucast (drop_bit ((len - (i + 1)) * 8) addr)) [0..<len])"

section \<open>Read and erase\<close>

definition sfud_read :: "'s sfud_flash \<Rightarrow> u32 \<Rightarrow> u32 \<Rightarrow> 's \<Rightarrow> sfud_err \<times> u8 list \<times> 's" where
  "sfud_read flash addr sz s =
    (if capacity (chip flash) < addr + sz then (SFUD_ERR_ADDR_OUT_OF_BOUND, [], s)
     else case wait_busy flash (spi_lock flash s) of (result, s) \<Rightarrow>
       if result \<noteq> SFUD_SUCCESS then (result, [], spi_unlock flash s)
       else case wr (spi flash) (SFUD_CMD_READ_DATA # make_adress_byte_array flash addr) (unat sz) s of
         (result, data, s) \<Rightarrow> (result, data, spi_unlock flash s))"

definition chip_erase_cmd :: "'s sfud_flash \<Rightarrow> u8 list" where
  "chip_erase_cmd flash =
    (if write_mode (chip flash) AND SFUD_WM_DUAL_BUFFER \<noteq> 0 then [SFUD_CMD_ERASE_CHIP, 0x94, 0x80, 0x9A]
     else [SFUD_CMD_ERASE_CHIP])"

definition sfud_chip_erase :: "'s sfud_flash \<Rightarrow> 's \<Rightarrow> sfud_err \<times> 's" where
  "sfud_chip_erase flash s =
    (let (result, s) =
      (case set_write_enabled flash True (spi_lock flash s) of (result, s) \<Rightarrow>
       if result \<noteq> SFUD_SUCCESS then (result, s)
       else case wr (spi flash) (chip_erase_cmd flash) 0 s of (result, _, s) \<Rightarrow>
         if result \<noteq> SFUD_SUCCESS then (result, s) else wait_busy flash s)
     in (result, spi_unlock flash (snd (set_write_enabled flash False s))))"

text \<open>
  The choice of the eraser looks from the largest down to the smallest, entry 0.
\<close>

definition SFUD_SFDP_ERASE_TYPE_MAX_NUM :: nat where "SFUD_SFDP_ERASE_TYPE_MAX_NUM = 4"
definition SMALLEST_ERASER_INDEX :: nat where "SMALLEST_ERASER_INDEX = 0"

definition eraser_fits :: "sfud_eraser \<Rightarrow> u32 \<Rightarrow> u32 \<Rightarrow> bool" where
  "eraser_fits e addr erase_size = (eraser_size e \<noteq> 0 \<and> eraser_size e \<le> erase_size \<and> addr mod eraser_size e = 0)"

primrec suitable_eraser_from :: "sfud_eraser list \<Rightarrow> u32 \<Rightarrow> u32 \<Rightarrow> nat \<Rightarrow> nat" where
  "suitable_eraser_from er addr erase_size 0 = SMALLEST_ERASER_INDEX"
| "suitable_eraser_from er addr erase_size (Suc i) =
    (if eraser_fits (er ! Suc i) addr erase_size then Suc i else suitable_eraser_from er addr erase_size i)"

definition sfud_sfdp_get_suitable_eraser :: "'s sfud_flash \<Rightarrow> u32 \<Rightarrow> u32 \<Rightarrow> nat" where
  "sfud_sfdp_get_suitable_eraser flash addr erase_size =
    (let er = eraser (sfdp flash) in
     if addr mod eraser_size (er ! SMALLEST_ERASER_INDEX) \<noteq> 0 then SMALLEST_ERASER_INDEX
     else suitable_eraser_from er addr erase_size (SFUD_SFDP_ERASE_TYPE_MAX_NUM - 1))"

definition cur_eraser :: "'s sfud_flash \<Rightarrow> u32 \<Rightarrow> u32 \<Rightarrow> u8 \<times> u32" where
  "cur_eraser flash addr sz =
    (if available (sfdp flash) then
       let i = sfud_sfdp_get_suitable_eraser flash addr sz
       in (eraser_cmd (eraser (sfdp flash) ! i), eraser_size (eraser (sfdp flash) ! i))
     else (erase_gran_cmd (chip flash), erase_gran (chip flash)))"

text \<open>
  One turn of the loop of \<open>sfud_erase\<close>: enable, erase command, wait.
\<close>

definition erase_one :: "'s sfud_flash \<Rightarrow> u8 \<Rightarrow> u32 \<Rightarrow> 's \<Rightarrow> sfud_err \<times> 's" where
  "erase_one flash cmd addr s =
    (case set_write_enabled flash True s of (result, s) \<Rightarrow>
     if result \<noteq> SFUD_SUCCESS then (result, s)
     else case wr (spi flash) (cmd # make_adress_byte_array flash addr) 0 s of (result, _, s) \<Rightarrow>
       if result \<noteq> SFUD_SUCCESS then (result, s) else wait_busy flash s)"

text \<open>
  The bytes from an address to the end of its block of \<open>g\<close> bytes, as the loops of
  \<open>sfud_erase\<close> and \<open>page256_or_1_byte_write\<close> compute it.
\<close>

definition align_len :: "u32 \<Rightarrow> u32 \<Rightarrow> u32" where
  "align_len addr g = (if addr mod g \<noteq> 0 then g - addr mod g else g)"

lemma align_len_pos [simp]:
  assumes "g \<noteq> 0"
  shows "align_len addr g \<noteq> 0"
proof -
  have "addr mod g < g" using assms by (simp add: word_mod_less_divisor word_gt_0)
  then show ?thesis using assms by (auto simp: align_len_def word_gt_0)
qed

lemma loop_step_less:
  assumes "(len :: u32) \<noteq> 0" "len \<le> sz"
  shows "unat (sz - len) < unat sz"
  using assms unat_gt_0 [of len] by (simp add: unat_sub word_le_nat_alt)

text \<open>
  The remainder by an erase size of zero traps, which is \<open>None\<close>.
\<close>

function erase_loop :: "'s sfud_flash \<Rightarrow> u32 \<Rightarrow> u32 \<Rightarrow> 's \<Rightarrow> (sfud_err \<times> 's) option" where
  "erase_loop flash addr sz s =
    (if sz = 0 then Some (SFUD_SUCCESS, s)
     else if available (sfdp flash) \<and> eraser_size (eraser (sfdp flash) ! SMALLEST_ERASER_INDEX) = 0 then None
     else case cur_eraser flash addr sz of (cmd, cur_erase_size) \<Rightarrow>
       case erase_one flash cmd addr s of (result, s) \<Rightarrow>
       if result \<noteq> SFUD_SUCCESS then Some (result, s)
       else if cur_erase_size = 0 then None
       else let len = align_len addr cur_erase_size in
         if len < sz then erase_loop flash (addr + len) (sz - len) s else Some (result, s))"
  by pat_completeness auto

termination
  by (relation "measure (\<lambda>(_, _, sz, _). unat sz)") (auto intro!: loop_step_less)

declare erase_loop.simps [simp del]

definition sfud_erase :: "'s sfud_flash \<Rightarrow> u32 \<Rightarrow> u32 \<Rightarrow> 's \<Rightarrow> (sfud_err \<times> 's) option" where
  "sfud_erase flash addr sz s =
    (if capacity (chip flash) < addr + sz then Some (SFUD_ERR_ADDR_OUT_OF_BOUND, s)
     else if addr = 0 \<and> sz = capacity (chip flash) then Some (sfud_chip_erase flash s)
     else map_option (\<lambda>(result, s). (result, spi_unlock flash (snd (set_write_enabled flash False s))))
       (erase_loop flash addr sz (spi_lock flash s)))"

section \<open>Write\<close>

lemma gran_ucast [simp]: "(ucast (g :: u16) :: u32) = 0 \<longleftrightarrow> g = 0"
proof -
  have "unat g < 2 ^ LENGTH(16)" by (rule unsigned_less)
  then have "unat (ucast g :: u32) = unat g" by (simp add: unsigned_ucast_eq take_bit_nat_eq_self)
  then show ?thesis by (metis unat_eq_0)
qed

text \<open>
  The callers pass a granularity of 1 or 256; with 0 the source would divide by zero.
\<close>

function page_write_loop :: "'s sfud_flash \<Rightarrow> u32 \<Rightarrow> u32 \<Rightarrow> u16 \<Rightarrow> u8 list \<Rightarrow> 's \<Rightarrow> sfud_err \<times> 's" where
  "page_write_loop flash addr sz write_gran data s =
    (if sz = 0 \<or> write_gran = 0 then (SFUD_SUCCESS, s)
     else case set_write_enabled flash True s of (result, s) \<Rightarrow>
       if result \<noteq> SFUD_SUCCESS then (result, s)
       else let len = align_len addr (ucast write_gran); data_size = (if len < sz then len else sz) in
         case wr (spi flash) (SFUD_CMD_PAGE_PROGRAM # make_adress_byte_array flash addr @ take (unat data_size) data) 0 s of
           (result, _, s) \<Rightarrow>
         if result \<noteq> SFUD_SUCCESS then (result, s)
         else case wait_busy flash s of (result, s) \<Rightarrow>
           if result \<noteq> SFUD_SUCCESS then (result, s)
           else page_write_loop flash (addr + data_size) (sz - data_size) write_gran (drop (unat data_size) data) s)"
  by pat_completeness auto

termination
  by (relation "measure (\<lambda>(_, _, sz, _). unat sz)") (auto intro!: loop_step_less simp: unat_gt_0)

declare page_write_loop.simps [simp del]

definition page256_or_1_byte_write :: "'s sfud_flash \<Rightarrow> u32 \<Rightarrow> u32 \<Rightarrow> u16 \<Rightarrow> u8 list \<Rightarrow> 's \<Rightarrow> sfud_err \<times> 's" where
  "page256_or_1_byte_write flash addr sz write_gran data s =
    (if capacity (chip flash) < addr + sz then (SFUD_ERR_ADDR_OUT_OF_BOUND, s)
     else case page_write_loop flash addr sz write_gran data (spi_lock flash s) of (result, s) \<Rightarrow>
       (result, spi_unlock flash (snd (set_write_enabled flash False s))))"

text \<open>
  The loop of \<open>aai_write\<close> ends with the address, the size and the data that are left.
\<close>

function aai_loop :: "'s sfud_flash \<Rightarrow> bool \<Rightarrow> u32 \<Rightarrow> u32 \<Rightarrow> u8 list \<Rightarrow> 's \<Rightarrow> sfud_err \<times> u32 \<times> u32 \<times> u8 list \<times> 's" where
  "aai_loop flash first_write addr sz data s =
    (if sz < 2 then (SFUD_SUCCESS, addr, sz, data, s)
     else case wr (spi flash) (SFUD_CMD_AAI_WORD_PROGRAM #
         (if first_write then make_adress_byte_array flash addr else []) @ [data ! 0, data ! 1]) 0 s of (result, _, s) \<Rightarrow>
       if result \<noteq> SFUD_SUCCESS then (result, addr, sz, data, s)
       else case wait_busy flash s of (result, s) \<Rightarrow>
         if result \<noteq> SFUD_SUCCESS then (result, addr, sz, data, s)
         else aai_loop flash False (addr + 2) (sz - 2) (drop 2 data) s)"
  by pat_completeness auto

termination
  by (relation "measure (\<lambda>(_, _, _, sz, _). unat sz)") (auto intro!: loop_step_less simp: not_less)

declare aai_loop.simps [simp del]

definition aai_start :: "'s sfud_flash \<Rightarrow> u32 \<Rightarrow> u32 \<Rightarrow> u8 list \<Rightarrow> 's \<Rightarrow> sfud_err \<times> u32 \<times> u32 \<times> u8 list \<times> 's" where
  "aai_start flash addr sz data s =
    (if addr mod 2 \<noteq> 0 then
       case page256_or_1_byte_write flash addr 1 1 data s of (result, s) \<Rightarrow>
         if result \<noteq> SFUD_SUCCESS then (result, addr + 1, sz, drop 1 data, s)
         else (result, addr + 1, sz - 1, drop 1 data, s)
     else (SFUD_SUCCESS, addr, sz, data, s))"

definition aai_body :: "'s sfud_flash \<Rightarrow> u32 \<Rightarrow> u32 \<Rightarrow> u8 list \<Rightarrow> 's \<Rightarrow> sfud_err \<times> 's" where
  "aai_body flash addr sz data s =
    (case aai_start flash addr sz data s of (result, addr, sz, data, s) \<Rightarrow>
     if result \<noteq> SFUD_SUCCESS then (result, s)
     else case set_write_enabled flash True s of (result, s) \<Rightarrow>
       if result \<noteq> SFUD_SUCCESS then (result, s)
       else case aai_loop flash True addr sz data s of (result, addr, sz, data, s) \<Rightarrow>
         if result \<noteq> SFUD_SUCCESS then (result, s)
         else case set_write_enabled flash False s of (result, s) \<Rightarrow>
           if result = SFUD_SUCCESS \<and> sz = 1 then page256_or_1_byte_write flash addr 1 1 data s
           else (result, s))"

definition aai_write :: "'s sfud_flash \<Rightarrow> u32 \<Rightarrow> u32 \<Rightarrow> u8 list \<Rightarrow> 's \<Rightarrow> sfud_err \<times> 's" where
  "aai_write flash addr sz data s =
    (if capacity (chip flash) < addr + sz then (SFUD_ERR_ADDR_OUT_OF_BOUND, s)
     else case aai_body flash addr sz data (spi_lock flash s) of (result, s) \<Rightarrow>
       (result, spi_unlock flash (if result \<noteq> SFUD_SUCCESS then snd (set_write_enabled flash False s) else s)))"

definition sfud_write :: "'s sfud_flash \<Rightarrow> u32 \<Rightarrow> u32 \<Rightarrow> u8 list \<Rightarrow> 's \<Rightarrow> sfud_err \<times> 's" where
  "sfud_write flash addr sz data s =
    (if write_mode (chip flash) AND SFUD_WM_PAGE_256B \<noteq> 0 then page256_or_1_byte_write flash addr sz 256 data s
     else if write_mode (chip flash) AND SFUD_WM_AAI \<noteq> 0 then aai_write flash addr sz data s
     else (SFUD_SUCCESS, s))"

definition sfud_erase_write :: "'s sfud_flash \<Rightarrow> u32 \<Rightarrow> u32 \<Rightarrow> u8 list \<Rightarrow> 's \<Rightarrow> (sfud_err \<times> 's) option" where
  "sfud_erase_write flash addr sz data s =
    Option.bind (sfud_erase flash addr sz s) (\<lambda>(result, s).
      Some (if result = SFUD_SUCCESS then sfud_write flash addr sz data s else (result, s)))"

section \<open>The bus is held during transfers and given back\<close>

text \<open>
  \<open>depth\<close> counts how often the bus is taken and \<open>clean\<close> says that no transfer has gone out
  while nobody held it.
\<close>

locale spi_bus =
  fixes flash :: "'s sfud_flash" and depth :: "'s \<Rightarrow> int" and clean :: "'s \<Rightarrow> bool"
  assumes wr_depth: "depth (snd (snd (wr (spi flash) c n s))) = depth s"
    and wr_clean: "clean s \<Longrightarrow> 0 < depth s \<Longrightarrow> clean (snd (snd (wr (spi flash) c n s)))"
    and lock_depth: "depth (spi_lock flash s) = depth s + 1"
    and lock_clean: "clean s \<Longrightarrow> clean (spi_lock flash s)"
    and unlock_depth: "depth (spi_unlock flash s) = depth s - 1"
    and unlock_clean: "clean s \<Longrightarrow> clean (spi_unlock flash s)"
    and wait_depth: "depth (retry_wait flash s) = depth s"
    and wait_clean: "clean s \<Longrightarrow> clean (retry_wait flash s)"
begin

definition holds :: "int \<Rightarrow> 's \<Rightarrow> bool" where
  "holds d s \<longleftrightarrow> clean s \<and> depth s = d"

lemma holds_wr:
  assumes "wr (spi flash) c n s = (r, b, s')" "holds d s" "0 < d"
  shows "holds d s'"
  using assms wr_depth [of c n s] wr_clean [of s c n] by (simp add: holds_def)

lemma holds_lock: "holds d s \<Longrightarrow> holds (d + 1) (spi_lock flash s)"
  by (simp add: holds_def lock_depth lock_clean)

lemma holds_unlock: "holds (d + 1) s \<Longrightarrow> holds d (spi_unlock flash s)"
  by (simp add: holds_def unlock_depth unlock_clean)

lemma holds_set_write_enabled:
  assumes "set_write_enabled flash e s = (r, s')" "holds d s" "0 < d"
  shows "holds d s'"
  using assms unfolding set_write_enabled_def sfud_read_status_def
  by (auto split: prod.splits if_splits dest!: holds_wr)

lemma holds_wait_busy:
  assumes "wait_busy flash s = (r, s')" "holds d s" "0 < d"
  shows "holds d s'"
proof -
  have "holds d s'" if "wait_busy_loop flash n s = (r, s')" "holds d s" for n s
    using that
  proof (induction n arbitrary: s)
    case 0
    then show ?case using \<open>0 < d\<close> by (auto simp: sfud_read_status_def split: prod.splits if_splits dest!: holds_wr)
  next
    case (Suc n)
    obtain r1 b s1 where w: "wr (spi flash) [SFUD_CMD_READ_STATUS_REGISTER] (Suc 0) s = (r1, b, s1)" by (rule prod_cases3)
    have h: "holds d s1" by (rule holds_wr [OF w Suc.prems(2) \<open>0 < d\<close>])
    then have "holds d (retry_wait flash s1)" by (simp add: holds_def wait_depth wait_clean)
    then show ?case using Suc.prems(1) h Suc.IH by (auto simp: sfud_read_status_def w split: if_splits)
  qed
  then show ?thesis using assms unfolding wait_busy_def by blast
qed

lemmas holds_steps = holds_wr holds_set_write_enabled holds_wait_busy

lemma holds_disable: "holds d s \<Longrightarrow> 0 < d \<Longrightarrow> holds d (snd (set_write_enabled flash e s))"
  by (metis holds_set_write_enabled prod.collapse)

lemma holds_erase_one:
  assumes "erase_one flash cmd addr s = (r, s')" "holds d s" "0 < d"
  shows "holds d s'"
  using assms unfolding erase_one_def by (auto split: prod.splits if_splits dest!: holds_steps)

lemma holds_erase_loop:
  assumes "erase_loop flash addr sz s = Some (r, s')" "holds d s" "0 < d"
  shows "holds d s'"
  using assms
proof (induction "unat sz" arbitrary: addr sz s rule: less_induct)
  case less
  obtain cmd g where c: "cur_eraser flash addr sz = (cmd, g)" by (rule prod.exhaust)
  obtain r1 s1 where o1: "erase_one flash cmd addr s = (r1, s1)" by (rule prod.exhaust)
  have h: "holds d s1" by (rule holds_erase_one [OF o1 less.prems(2,3)])
  show ?case
  proof (cases "sz \<noteq> 0 \<and> r1 = SFUD_SUCCESS \<and> g \<noteq> 0 \<and> align_len addr g < sz")
    case True
    then have "unat (sz - align_len addr g) < unat sz" by (intro loop_step_less) auto
    from less.hyps [OF this _ h \<open>0 < d\<close>] show ?thesis
      using less.prems(1) True by (subst (asm) erase_loop.simps) (simp add: c o1 Let_def split: if_splits)
  next
    case False
    then show ?thesis
      using less.prems(1,2) h by (subst (asm) erase_loop.simps) (auto simp: c o1 Let_def split: if_splits)
  qed
qed

lemma holds_page_write_loop:
  assumes "page_write_loop flash addr sz g data s = (r, s')" "holds d s" "0 < d"
  shows "holds d s'"
  using assms
proof (induction "unat sz" arbitrary: addr sz data s rule: less_induct)
  case less
  define n where "n = (if align_len addr (ucast g) < sz then align_len addr (ucast g) else sz)"
  obtain r1 s1 where o1: "set_write_enabled flash True s = (r1, s1)" by (rule prod.exhaust)
  obtain r2 b s2 where o2: "wr (spi flash) (SFUD_CMD_PAGE_PROGRAM # make_adress_byte_array flash addr @ take (unat n) data) 0 s1 = (r2, b, s2)"
    by (rule prod_cases3)
  obtain r3 s3 where o3: "wait_busy flash s2 = (r3, s3)" by (rule prod.exhaust)
  have h1: "holds d s1" by (rule holds_set_write_enabled [OF o1 less.prems(2,3)])
  have h2: "holds d s2" by (rule holds_wr [OF o2 h1 \<open>0 < d\<close>])
  have h3: "holds d s3" by (rule holds_wait_busy [OF o3 h2 \<open>0 < d\<close>])
  show ?case
  proof (cases "sz = 0 \<or> g = 0")
    case True
    then show ?thesis using less.prems(1,2) by (subst (asm) page_write_loop.simps) auto
  next
    case False
    then have "unat (sz - n) < unat sz" by (auto intro!: loop_step_less simp: n_def unat_gt_0)
    from less.hyps [OF this _ h3 \<open>0 < d\<close>] show ?thesis
      using less.prems(1) False h1 h2 h3
      by (subst (asm) page_write_loop.simps) (simp add: o1 o2 o3 Let_def n_def [symmetric] split: if_splits)
  qed
qed

lemma holds_page_write:
  assumes "page256_or_1_byte_write flash addr sz g data s = (r, s')" "holds d s" "0 \<le> d"
  shows "holds d s'"
proof (cases "capacity (chip flash) < addr + sz")
  case False
  obtain r1 s1 where o1: "page_write_loop flash addr sz g data (spi_lock flash s) = (r1, s1)" by (rule prod.exhaust)
  have "holds (d + 1) s1" by (rule holds_page_write_loop [OF o1 holds_lock [OF assms(2)]]) (use assms(3) in simp)
  then have "holds d (spi_unlock flash (snd (set_write_enabled flash False s1)))"
    using assms(3) by (intro holds_unlock holds_disable) auto
  then show ?thesis using assms(1) False by (simp add: page256_or_1_byte_write_def o1)
qed (use assms in \<open>simp add: page256_or_1_byte_write_def\<close>)

lemma holds_aai_loop:
  assumes "aai_loop flash first addr sz data s = (r, addr', sz', data', s')" "holds d s" "0 < d"
  shows "holds d s'"
  using assms
proof (induction "unat sz" arbitrary: first addr sz data s rule: less_induct)
  case less
  obtain r2 b s2 where o2: "wr (spi flash) (SFUD_CMD_AAI_WORD_PROGRAM #
      (if first then make_adress_byte_array flash addr else []) @ [data ! 0, data ! 1]) 0 s = (r2, b, s2)"
    by (rule prod_cases3)
  obtain r3 s3 where o3: "wait_busy flash s2 = (r3, s3)" by (rule prod.exhaust)
  have h2: "holds d s2" by (rule holds_wr [OF o2 less.prems(2,3)])
  have h3: "holds d s3" by (rule holds_wait_busy [OF o3 h2 \<open>0 < d\<close>])
  show ?case
  proof (cases "sz < 2")
    case True
    then show ?thesis using less.prems(1,2) by (subst (asm) aai_loop.simps) auto
  next
    case False
    then have "unat (sz - 2) < unat sz" by (intro loop_step_less) (auto simp: not_less)
    from less.hyps [OF this _ h3 \<open>0 < d\<close>] show ?thesis
      using less.prems(1) [unfolded aai_loop.simps [of flash first addr sz data s] o2] False h2 h3
      by (simp add: o3 split: if_splits)
  qed
qed

lemma holds_aai_start:
  assumes "aai_start flash addr sz data s = (r, addr', sz', data', s')" "holds d s" "0 \<le> d"
  shows "holds d s'"
  using assms holds_page_write [of addr 1 1 data s _ _ d]
  by (auto simp: aai_start_def split: if_splits prod.splits)

lemma holds_aai_body:
  assumes "aai_body flash addr sz data s = (r, s')" "holds d s" "0 < d"
  shows "holds d s'"
  using assms unfolding aai_body_def
  by (auto split: if_splits prod.splits dest!: holds_aai_start [OF _ _ less_imp_le] holds_aai_loop holds_set_write_enabled
      holds_page_write [OF _ _ less_imp_le])

lemma holds_chip_erase:
  assumes "holds d s" "0 \<le> d"
  shows "holds d (snd (sfud_chip_erase flash s))"
proof -
  obtain r1 s1 where o1: "set_write_enabled flash True (spi_lock flash s) = (r1, s1)" by (rule prod.exhaust)
  obtain r2 b s2 where o2: "wr (spi flash) (chip_erase_cmd flash) 0 s1 = (r2, b, s2)" by (rule prod_cases3)
  obtain r3 s3 where o3: "wait_busy flash s2 = (r3, s3)" by (rule prod.exhaust)
  have pos: "0 < d + 1" using assms(2) by simp
  have h1: "holds (d + 1) s1" by (rule holds_set_write_enabled [OF o1 holds_lock [OF assms(1)] pos])
  have h2: "holds (d + 1) s2" by (rule holds_wr [OF o2 h1 pos])
  have h3: "holds (d + 1) s3" by (rule holds_wait_busy [OF o3 h2 pos])
  show ?thesis unfolding sfud_chip_erase_def
    using holds_unlock [OF holds_disable [OF h1 pos]] holds_unlock [OF holds_disable [OF h2 pos]]
      holds_unlock [OF holds_disable [OF h3 pos]]
    by (simp add: o1 o2 o3)
qed

lemma holds_erase:
  assumes "sfud_erase flash addr sz s = Some (r, s')" "holds d s" "0 \<le> d"
  shows "holds d s'"
proof -
  have "holds d (spi_unlock flash (snd (set_write_enabled flash False s1)))"
    if "erase_loop flash addr sz (spi_lock flash s) = Some (r1, s1)" for r1 s1
    using holds_erase_loop [OF that holds_lock [OF assms(2)]] assms(3) by (intro holds_unlock holds_disable) auto
  moreover have "holds d (snd (sfud_chip_erase flash s))" by (rule holds_chip_erase [OF assms(2,3)])
  ultimately show ?thesis using assms(1,2) by (auto simp: sfud_erase_def split: if_splits)
qed

lemma holds_read:
  assumes "holds d s" "0 \<le> d"
  shows "holds d (snd (snd (sfud_read flash addr sz s)))"
proof -
  obtain r1 s1 where o1: "wait_busy flash (spi_lock flash s) = (r1, s1)" by (rule prod.exhaust)
  obtain r2 b s2 where o2: "wr (spi flash) (SFUD_CMD_READ_DATA # make_adress_byte_array flash addr) (unat sz) s1 = (r2, b, s2)"
    by (rule prod_cases3)
  have pos: "0 < d + 1" using assms(2) by simp
  have h1: "holds (d + 1) s1" by (rule holds_wait_busy [OF o1 holds_lock [OF assms(1)] pos])
  have h2: "holds (d + 1) s2" by (rule holds_wr [OF o2 h1 pos])
  show ?thesis using assms(1) holds_unlock [OF h1] holds_unlock [OF h2] by (simp add: sfud_read_def o1 o2)
qed

lemma holds_write:
  assumes "holds d s" "0 \<le> d"
  shows "holds d (snd (sfud_write flash addr sz data s))"
proof -
  obtain r1 s1 where o1: "page256_or_1_byte_write flash addr sz 256 data s = (r1, s1)" by (rule prod.exhaust)
  obtain r2 s2 where o2: "aai_body flash addr sz data (spi_lock flash s) = (r2, s2)" by (rule prod.exhaust)
  have pos: "0 < d + 1" using assms(2) by simp
  have h2: "holds (d + 1) s2" by (rule holds_aai_body [OF o2 holds_lock [OF assms(1)] pos])
  show ?thesis
    using assms(1) holds_page_write [OF o1 assms] holds_unlock [OF h2] holds_unlock [OF holds_disable [OF h2 pos]]
    by (simp add: sfud_write_def aai_write_def o1 o2)
qed

lemma holds_erase_write:
  assumes "sfud_erase_write flash addr sz data s = Some (r, s')" "holds d s" "0 \<le> d"
  shows "holds d s'"
  using assms(1) holds_erase [OF _ assms(2,3)] holds_write [OF _ assms(3)]
  by (auto simp: sfud_erase_write_def bind_eq_Some_conv split: if_splits) (metis snd_conv)

end

section \<open>A NOR flash chip\<close>

text \<open>
  The address a command carries, most significant byte first.
\<close>

definition addr_of :: "u8 list \<Rightarrow> nat" where
  "addr_of a = fold (\<lambda>b n. 256 * n + unat b) a 0"

text \<open>
  Programming can only clear bits; erasing sets whole blocks to ones.
\<close>

definition program_cells :: "nat \<Rightarrow> u8 list \<Rightarrow> (nat \<Rightarrow> u8) \<Rightarrow> nat \<Rightarrow> u8" where
  "program_cells a d c x = (if a \<le> x \<and> x < a + length d then c x AND d ! (x - a) else c x)"

definition erase_cells :: "nat \<Rightarrow> nat \<Rightarrow> (nat \<Rightarrow> u8) \<Rightarrow> nat \<Rightarrow> u8" where
  "erase_cells e a c x = (if x div e = a div e then 0xFF else c x)"

lemma status_bits:
  "(b :: u8) AND SFUD_STATUS_REGISTER_BUSY = 0 \<longleftrightarrow> \<not> bit b 0"
  "b AND SFUD_STATUS_REGISTER_WEL = 0 \<longleftrightarrow> \<not> bit b 1"
  "b AND SFUD_STATUS_REGISTER_WEL \<noteq> 1"
proof -
  show "b AND SFUD_STATUS_REGISTER_BUSY = 0 \<longleftrightarrow> \<not> bit b 0"
    using and_exp_eq_0_iff_not_bit [of b 0] by (simp add: SFUD_STATUS_REGISTER_BUSY_def)
  show "b AND SFUD_STATUS_REGISTER_WEL = 0 \<longleftrightarrow> \<not> bit b 1"
    using and_exp_eq_0_iff_not_bit [of b 1] by (simp add: SFUD_STATUS_REGISTER_WEL_def)
  have "\<not> bit (b AND SFUD_STATUS_REGISTER_WEL) 0" by (simp add: SFUD_STATUS_REGISTER_WEL_def bit_and_iff bit_push_bit_iff)
  then show "b AND SFUD_STATUS_REGISTER_WEL \<noteq> 1" by (auto simp: bit_0)
qed

definition erased_range :: "nat \<Rightarrow> nat \<Rightarrow> nat \<Rightarrow> (nat \<Rightarrow> u8) \<Rightarrow> nat \<Rightarrow> u8" where
  "erased_range g a n c x = (if a div g \<le> x div g \<and> x div g \<le> (a + n - 1) div g then 0xFF else c x)"

lemma unat_byte: "unat (ucast (drop_bit k (a :: u32)) :: u8) = unat a div 2 ^ k mod 256"
proof -
  have "unat (drop_bit k a) = unat a div 2 ^ k" 
    using unsigned_less [of a, where ?'a = nat] by (simp add: unsigned_drop_bit_eq take_bit_nat_eq_self flip: drop_bit_eq_div)
  then show ?thesis by (simp add: unsigned_ucast_eq take_bit_eq_mod)
qed

lemma addr_of_bytes:
  assumes "addr_in_4_byte flash \<or> unat addr < 2 ^ 24"
  shows "addr_of (make_adress_byte_array flash addr) = unat addr"
proof -
  have u: "unat addr < 2 ^ 32" using unsigned_less [of addr] by simp
  have d: "unat addr div 2 ^ 8 div 256 = unat addr div 2 ^ 16" "unat addr div 2 ^ 16 div 256 = unat addr div 2 ^ 24"
    by (simp_all add: div_mult2_eq [symmetric])
  have t: "unat addr div 2 ^ 24 mod 256 = unat addr div 2 ^ 24" using u by (simp add: div_less_iff_less_mult)
  have e: "unat addr = 256 * (256 * (256 * (unat addr div 2 ^ 24) + unat addr div 2 ^ 16 mod 256) + unat addr div 2 ^ 8 mod 256) +
      unat addr mod 256"
    using d mult_div_mod_eq [of 256 "unat addr"] mult_div_mod_eq [of 256 "unat addr div 2 ^ 8"]
      mult_div_mod_eq [of 256 "unat addr div 2 ^ 16"] by simp
  show ?thesis
  proof (cases "addr_in_4_byte flash")
    case True
    have "make_adress_byte_array flash addr = map (\<lambda>k. ucast (drop_bit k addr)) [24, 16, 8, 0]"
      using True by (simp add: make_adress_byte_array_def upt_conv_Cons)
    then have "addr_of (make_adress_byte_array flash addr) = 256 * (256 * (256 * (unat addr div 2 ^ 24 mod 256) + unat addr div 2 ^ 16 mod 256) +
        unat addr div 2 ^ 8 mod 256) + unat addr div 2 ^ 0 mod 256"
      by (simp only: addr_of_def list.map fold_simps unat_byte mult_0_right add_0)
    then show ?thesis unfolding t using e by simp
  next
    case False
    then have z: "unat addr div 2 ^ 24 = 0" using assms by simp
    have "make_adress_byte_array flash addr = map (\<lambda>k. ucast (drop_bit k addr)) [16, 8, 0]"
      using False by (simp add: make_adress_byte_array_def upt_conv_Cons)
    then have "addr_of (make_adress_byte_array flash addr) = 256 * (256 * (unat addr div 2 ^ 16 mod 256) +
        unat addr div 2 ^ 8 mod 256) + unat addr div 2 ^ 0 mod 256"
      by (simp only: addr_of_def list.map fold_simps unat_byte mult_0_right add_0)
    then show ?thesis using e unfolding z by (simp only: mult_0_right add_0 power_0 div_by_1)
  qed
qed

lemma mod_to_end:
  assumes "a mod g + m = (g :: nat)"
  shows "a + m = g * (a div g + 1)"
proof -
  have "a + m = g * (a div g) + (a mod g + m)" by simp
  then show ?thesis unfolding assms by simp
qed

lemma erased_step_small:
  assumes "0 < g" "a mod g + m = g" "m < n"
  shows "erased_range g (a + m) (n - m) (erase_cells g a c) = erased_range g a n c"
proof -
  have m: "(a + m) div g = a div g + 1" using assms(1) mod_to_end [OF assms(2)] by simp
  then have "a div g + 1 \<le> (a + n - 1) div g" using div_le_mono [of "a + m" "a + n - 1" g] assms(3) by simp
  then show ?thesis using assms(3) m by (auto simp: erased_range_def erase_cells_def fun_eq_iff)
qed

lemma erased_last_small:
  assumes "0 < g" "a mod g + m = g" "n \<le> m" "0 < n"
  shows "erase_cells g a c = erased_range g a n c"
proof -
  have "a + n - 1 < g * (a div g + 1)" using mod_to_end [OF assms(2)] assms(3,4) by linarith
  then have "(a + n - 1) div g < a div g + 1" using assms(1) by (simp add: div_less_iff_less_mult mult.commute)
  moreover have "a div g \<le> (a + n - 1) div g" using assms(4) by (intro div_le_mono) simp
  ultimately have "(a + n - 1) div g = a div g" by simp
  then show ?thesis by (auto simp: erased_range_def erase_cells_def fun_eq_iff)
qed

lemma erased_whole:
  assumes "0 < g" "g dvd n" "0 < n"
  shows "(\<lambda>x. if x < n then 0xFF else c x) = erased_range g 0 n c"
proof -
  obtain k where k: "n = g * k" using assms(2) by (rule dvdE)
  have "(n - 1) div g = k - 1"
  proof -
    have "n - 1 = g * (k - 1) + (g - 1)" using assms(1,3) by (cases k) (auto simp: k)
    moreover have "(g * (k - 1) + (g - 1)) div g = k - 1" using assms(1) by (subst div_mult_self4) auto
    ultimately show ?thesis by simp
  qed
  moreover have "x div g \<le> k - 1 \<longleftrightarrow> x < n" for x
    using assms(1,3) by (cases k) (auto simp: k less_Suc_eq_le [symmetric] div_less_iff_less_mult mult.commute)
  ultimately show ?thesis by (simp add: erased_range_def fun_eq_iff)
qed

lemma erase_cells_large:
  assumes "0 < (g :: nat)" "0 < k" "a mod (g * k) = 0"
  shows "x div (g * k) = a div (g * k) \<longleftrightarrow> a div g \<le> x div g \<and> x div g < a div g + k"
proof -
  obtain q where q: "a = g * k * q" using assms(3) unfolding mod_eq_0_iff_dvd by (rule dvdE)
  have l: "a div g = k * q" "a div (g * k) = q" using assms(1,2) by (simp_all add: q mult.assoc)
  have "x div g div k = q \<longleftrightarrow> k * q \<le> x div g \<and> x div g < k * q + k"
  proof
    assume "x div g div k = q"
    then have "k * q + x div g mod k = x div g" using mult_div_mod_eq [of k "x div g"] by simp
    then show "k * q \<le> x div g \<and> x div g < k * q + k" using mod_less_divisor [OF assms(2), of "x div g"] by linarith
  next
    assume "k * q \<le> x div g \<and> x div g < k * q + k"
    then show "x div g div k = q" by (intro div_nat_eqI) (auto simp: mult.commute)
  qed
  then show ?thesis using assms(2) by (simp add: l div_mult2_eq)
qed

lemma erased_step_large:
  assumes "0 < g" "0 < k" "a mod (g * k) = 0" "g * k < n"
  shows "erased_range g (a + g * k) (n - g * k) (erase_cells (g * k) a c) = erased_range g a n c"
proof -
  have l: "(a + g * k) div g = a div g + k" using assms(1) by simp
  have "a div g + k \<le> (a + n - 1) div g" using l div_le_mono [of "a + g * k" "a + n - 1" g] assms(4) by simp
  then show ?thesis using assms(4) by (auto simp: erased_range_def erase_cells_def fun_eq_iff erase_cells_large [OF assms(1-3)] l)
qed

lemma erased_last_large:
  assumes "0 < g" "0 < k" "a mod (g * k) = 0"
  shows "erase_cells (g * k) a c = erased_range g a (g * k) c"
proof -
  have "g dvd a" using assms(3) by (metis dvd_mult_left mod_0_imp_dvd)
  then obtain q where q: "a = g * q" by (rule dvdE)
  have "a + g * k - 1 = g * (q + k - 1) + (g - 1)" using assms(1,2) by (cases k) (auto simp: q algebra_simps)
  moreover have "(g * (q + k - 1) + (g - 1)) div g = q + k - 1" using assms(1) by (subst div_mult_self4) auto
  ultimately have "(a + g * k - 1) div g = q + k - 1" by simp
  then have "(a + g * k - 1) div g = a div g + k - 1" using assms(1) by (simp add: q)
  then show ?thesis using assms(2) by (auto simp: erased_range_def erase_cells_def fun_eq_iff erase_cells_large [OF assms(1-3)])
qed
lemma unat_align_len:
  assumes "g \<noteq> 0"
  shows "unat a mod unat g + unat (align_len a g) = unat g"
proof -
  have "a mod g \<le> g" using assms by (intro less_imp_le word_mod_less_divisor) (simp add: word_gt_0)
  then have "unat (g - a mod g) = unat g - unat (a mod g)" by (simp add: unat_sub)
  moreover have "unat (a mod g) \<le> unat g" using \<open>a mod g \<le> g\<close> by (simp add: word_le_nat_alt)
  moreover have "unat (a mod g) = 0" if "a mod g = 0" using that by simp
  ultimately show ?thesis by (simp add: align_len_def unat_mod [symmetric] split: if_splits)
qed

text \<open>
  The erasers the driver has recorded are the ones the chip has, and \<open>g\<close> is the smallest.
\<close>

definition erasers_ok :: "'s sfud_flash \<Rightarrow> (u8 \<Rightarrow> nat) \<Rightarrow> nat \<Rightarrow> bool" where
  "erasers_ok flash esize g \<longleftrightarrow> 0 < g \<and>
    (if available (sfdp flash)
     then length (eraser (sfdp flash)) = SFUD_SFDP_ERASE_TYPE_MAX_NUM \<and> unat (eraser_size (eraser (sfdp flash) ! 0)) = g \<and>
       (\<forall>e \<in> set (eraser (sfdp flash)). eraser_size e \<noteq> 0 \<longrightarrow>
          esize (eraser_cmd e) = unat (eraser_size e) \<and> g dvd unat (eraser_size e))
     else unat (erase_gran (chip flash)) = g \<and> esize (erase_gran_cmd (chip flash)) = g)"

lemma suitable_eraser_from_fits:
  "suitable_eraser_from er addr sz n \<le> n \<and>
    (suitable_eraser_from er addr sz n = 0 \<or> eraser_fits (er ! suitable_eraser_from er addr sz n) addr sz)"
  by (induction n) (auto simp: SMALLEST_ERASER_INDEX_def)

lemma eraser_fits_nat:
  assumes "eraser_fits e addr sz"
  shows "unat (eraser_size e) \<le> unat sz" "unat addr mod unat (eraser_size e) = 0"
proof -
  show "unat (eraser_size e) \<le> unat sz" using assms by (simp add: eraser_fits_def word_le_nat_alt)
  have "addr mod eraser_size e = 0" using assms unfolding eraser_fits_def by blast
  then show "unat addr mod unat (eraser_size e) = 0" by (metis unat_mod unsigned_0)
qed

lemma cur_eraser_fits:
  assumes "erasers_ok flash esize g" "cur_eraser flash addr sz = (cmd, e)"
  shows "e \<noteq> 0" "esize cmd = unat e" "unat e = g \<or> unat addr mod unat e = 0 \<and> unat e \<le> unat sz \<and> g dvd unat e"
proof -
  have "e \<noteq> 0 \<and> esize cmd = unat e \<and> (unat e = g \<or> unat addr mod unat e = 0 \<and> unat e \<le> unat sz \<and> g dvd unat e)"
  proof (cases "available (sfdp flash)")
    case True
    define i where "i = sfud_sfdp_get_suitable_eraser flash addr sz"
    have f: "i < 4" "i = 0 \<or> eraser_fits (eraser (sfdp flash) ! i) addr sz"
      using suitable_eraser_from_fits [of "eraser (sfdp flash)" addr sz 3]
      by (auto simp: i_def sfud_sfdp_get_suitable_eraser_def Let_def SMALLEST_ERASER_INDEX_def SFUD_SFDP_ERASE_TYPE_MAX_NUM_def)
    have c: "cmd = eraser_cmd (eraser (sfdp flash) ! i)" "e = eraser_size (eraser (sfdp flash) ! i)"
      using assms(2) True by (simp_all add: cur_eraser_def i_def Let_def)
    have o: "length (eraser (sfdp flash)) = 4" "unat (eraser_size (eraser (sfdp flash) ! 0)) = g" "0 < g"
      "\<forall>e \<in> set (eraser (sfdp flash)). eraser_size e \<noteq> 0 \<longrightarrow> esize (eraser_cmd e) = unat (eraser_size e) \<and> g dvd unat (eraser_size e)"
      using assms(1) True by (auto simp: erasers_ok_def SFUD_SFDP_ERASE_TYPE_MAX_NUM_def)
    have n: "e \<noteq> 0" using f(2) o(2,3) by (auto simp: c eraser_fits_def)
    moreover have "esize cmd = unat e" "g dvd unat e" using o(1,4) f(1) n by (auto simp: c)
    moreover have "unat e = g \<or> unat addr mod unat e = 0 \<and> unat e \<le> unat sz"
      using f(2) o(2) eraser_fits_nat [of "eraser (sfdp flash) ! i" addr sz] by (auto simp: c)
    ultimately show ?thesis by auto
  next
    case False
    then show ?thesis using assms by (auto simp: cur_eraser_def erasers_ok_def)
  qed
  then show "e \<noteq> 0" "esize cmd = unat e" "unat e = g \<or> unat addr mod unat e = 0 \<and> unat e \<le> unat sz \<and> g dvd unat e" by auto
qed

lemma program_cells_split:
  assumes "m \<le> length d"
  shows "program_cells (a + m) (drop m d) (program_cells a (take m d) c) = program_cells a d c"
  using assms by (auto simp: program_cells_def fun_eq_iff not_less add.commute)

lemma align_len_page:
  assumes "g \<in> {1, 256}"
  shows "unat a mod 256 + unat (align_len a (ucast (g :: u16))) \<le> 256"
  using assms unat_align_len [of "ucast g" a] by auto

lemma in_bounds:
  assumes "unat addr + unat sz \<le> unat (cap :: u32)"
  shows "\<not> cap < addr + sz"
proof -
  have "unat addr + unat sz < 2 ^ LENGTH(32)" using assms unsigned_less [of cap, where ?'a = nat] by linarith
  then have "unat (addr + sz) = unat addr + unat sz" using unat_add_lem [of addr sz] by simp
  then show ?thesis using assms by (simp add: word_less_nat_alt)
qed

text \<open>What the chip holds after an erase and a write of the same range.\<close>

definition rewritten :: "nat \<Rightarrow> nat \<Rightarrow> u8 list \<Rightarrow> (nat \<Rightarrow> u8) \<Rightarrow> nat \<Rightarrow> u8" where
  "rewritten g a data c x =
    (if a \<le> x \<and> x < a + length data then data ! (x - a)
     else if a div g \<le> x div g \<and> x div g \<le> (a + length data - 1) div g then 0xFF else c x)"

lemma program_erased: "program_cells a data (erased_range g a (length data) c) = rewritten g a data c"
proof
  fix x
  have "(255 :: u8) AND v = v" for v
  proof -
    have "(255 :: u8) = -1" by simp
    then show ?thesis by (metis and.left_neutral)
  qed
  moreover have "a div g \<le> x div g" if "a \<le> x" using that by (rule div_le_mono)
  moreover have "x div g \<le> (a + length data - 1) div g" if "x < a + length data" using that by (intro div_le_mono) simp
  ultimately show "program_cells a data (erased_range g a (length data) c) x = rewritten g a data c x"
    by (simp add: program_cells_def erased_range_def rewritten_def)
qed

lemma rewritten_read: "map (\<lambda>i. rewritten g a data c (a + i)) [0..<length data] = data"
  by (rule nth_equalityI) (simp_all add: rewritten_def)

text \<open>
  The documented behaviour of a SPI NOR flash: \<open>cells\<close> is the memory, \<open>wel\<close> the write enable
  latch, \<open>busy\<close> the number of status reads a running operation still shows, \<open>esize\<close> the
  block size of the erase commands.  Every program or erase operation ends within the
  retries of the driver.
\<close>

locale nor_flash =
  fixes flash :: "'s sfud_flash" and cells :: "'s \<Rightarrow> nat \<Rightarrow> u8" and wel :: "'s \<Rightarrow> bool" and busy :: "'s \<Rightarrow> nat"
    and esize :: "u8 \<Rightarrow> nat"
  assumes status: "\<exists>b s'. wr (spi flash) [SFUD_CMD_READ_STATUS_REGISTER] 1 s = (SFUD_SUCCESS, [b], s') \<and>
      cells s' = cells s \<and> wel s' = wel s \<and> busy s' = busy s - 1 \<and> bit b 0 = (busy s \<noteq> 0) \<and> bit b 1 = wel s"
    and enable: "busy s = 0 \<Longrightarrow> \<exists>s'. wr (spi flash) [SFUD_CMD_WRITE_ENABLE] 0 s = (SFUD_SUCCESS, [], s') \<and>
      cells s' = cells s \<and> wel s' \<and> busy s' = 0"
    and disable: "busy s = 0 \<Longrightarrow> \<exists>s'. wr (spi flash) [SFUD_CMD_WRITE_DISABLE] 0 s = (SFUD_SUCCESS, [], s') \<and>
      cells s' = cells s \<and> \<not> wel s' \<and> busy s' = 0"
    and read_data: "busy s = 0 \<Longrightarrow> length a = (if addr_in_4_byte flash then 4 else 3) \<Longrightarrow>
      addr_of a + n \<le> unat (capacity (chip flash)) \<Longrightarrow>
      \<exists>s'. wr (spi flash) (SFUD_CMD_READ_DATA # a) n s = (SFUD_SUCCESS, map (\<lambda>i. cells s (addr_of a + i)) [0..<n], s') \<and>
      cells s' = cells s \<and> wel s' = wel s \<and> busy s' = 0"
    and page_program: "busy s = 0 \<Longrightarrow> wel s \<Longrightarrow> length a = (if addr_in_4_byte flash then 4 else 3) \<Longrightarrow>
      addr_of a mod 256 + length d \<le> 256 \<Longrightarrow> d \<noteq> [] \<Longrightarrow>
      addr_of a + length d \<le> unat (capacity (chip flash)) \<Longrightarrow>
      \<exists>b s'. wr (spi flash) (SFUD_CMD_PAGE_PROGRAM # a @ d) 0 s = (SFUD_SUCCESS, b, s') \<and>
      cells s' = program_cells (addr_of a) d (cells s) \<and> busy s' \<le> unat (retry_times flash)"
    and block_erase: "busy s = 0 \<Longrightarrow> wel s \<Longrightarrow> length a = (if addr_in_4_byte flash then 4 else 3) \<Longrightarrow>
      0 < esize cmd \<Longrightarrow> addr_of a < unat (capacity (chip flash)) \<Longrightarrow>
      \<exists>b s'. wr (spi flash) (cmd # a) 0 s = (SFUD_SUCCESS, b, s') \<and>
      cells s' = erase_cells (esize cmd) (addr_of a) (cells s) \<and> busy s' \<le> unat (retry_times flash)"
    and chip_erase: "busy s = 0 \<Longrightarrow> wel s \<Longrightarrow> \<exists>b s'. wr (spi flash) (chip_erase_cmd flash) 0 s = (SFUD_SUCCESS, b, s') \<and>
      cells s' = (\<lambda>x. if x < unat (capacity (chip flash)) then 0xFF else cells s x) \<and> busy s' \<le> unat (retry_times flash)"
    and bus: "cells (spi_lock flash s) = cells s" "busy (spi_lock flash s) = busy s"
      "cells (spi_unlock flash s) = cells s" "busy (spi_unlock flash s) = busy s"
      "cells (retry_wait flash s) = cells s" "busy (retry_wait flash s) \<le> busy s"
begin

text \<open>The chip with contents \<open>c\<close> and no operation running.\<close>

definition at_rest :: "(nat \<Rightarrow> u8) \<Rightarrow> 's \<Rightarrow> bool" where
  "at_rest c s \<longleftrightarrow> cells s = c \<and> busy s = 0"

lemma write_enabled:
  assumes "at_rest c s"
  shows "\<exists>s'. set_write_enabled flash e s = (SFUD_SUCCESS, s') \<and> at_rest c s' \<and> wel s' = e"
proof -
  have b: "busy s = 0" "cells s = c" using assms by (simp_all add: at_rest_def)
  obtain s1 where s1: "wr (spi flash) [if e then SFUD_CMD_WRITE_ENABLE else SFUD_CMD_WRITE_DISABLE] 0 s = (SFUD_SUCCESS, [], s1)"
    "cells s1 = c" "wel s1 = e" "busy s1 = 0"
    using enable [OF b(1)] disable [OF b(1)] b(2) by (cases e) auto
  obtain st s2 where s2: "wr (spi flash) [SFUD_CMD_READ_STATUS_REGISTER] 1 s1 = (SFUD_SUCCESS, [st], s2)"
    "cells s2 = c" "wel s2 = e" "busy s2 = 0" "bit st 1 = e"
    using status [of s1] s1 by auto
  then show ?thesis using s1 by (cases e) (auto simp: set_write_enabled_def sfud_read_status_def status_bits at_rest_def)
qed

lemma waits:
  assumes "busy s \<le> unat (retry_times flash)"
  shows "\<exists>s'. wait_busy flash s = (SFUD_SUCCESS, s') \<and> at_rest (cells s) s'"
proof -
  have "\<exists>s'. wait_busy_loop flash n s = (SFUD_SUCCESS, s') \<and> at_rest (cells s) s'" if "busy s \<le> n" for n
    using that
  proof (induction n arbitrary: s)
    case 0
    then obtain st s' where "wr (spi flash) [SFUD_CMD_READ_STATUS_REGISTER] 1 s = (SFUD_SUCCESS, [st], s')"
      "cells s' = cells s" "busy s' = 0" "\<not> bit st 0"
      using status [of s] by auto
    then show ?case by (auto simp: sfud_read_status_def status_bits at_rest_def)
  next
    case (Suc n)
    obtain st s' where s': "wr (spi flash) [SFUD_CMD_READ_STATUS_REGISTER] 1 s = (SFUD_SUCCESS, [st], s')"
      "cells s' = cells s" "busy s' = busy s - 1" "bit st 0 = (busy s \<noteq> 0)"
      using status [of s] by auto
    have "busy (retry_wait flash s') \<le> n" using bus(6) [of s'] s'(3) Suc.prems by linarith
    from Suc.IH [OF this] show ?case
      using s' by (auto simp: sfud_read_status_def status_bits at_rest_def bus)
  qed
  then show ?thesis using assms by (simp add: wait_busy_def)
qed

lemma erases_one:
  assumes "at_rest c s" "0 < esize cmd" "addr_of (make_adress_byte_array flash addr) < unat (capacity (chip flash))"
  shows "\<exists>s'. erase_one flash cmd addr s = (SFUD_SUCCESS, s') \<and>
    at_rest (erase_cells (esize cmd) (addr_of (make_adress_byte_array flash addr)) c) s'"
proof -
  obtain s1 where s1: "set_write_enabled flash True s = (SFUD_SUCCESS, s1)" "at_rest c s1" "wel s1"
    using write_enabled [OF assms(1), of True] by auto
  have "length (make_adress_byte_array flash addr) = (if addr_in_4_byte flash then 4 else 3)"
    by (simp add: make_adress_byte_array_def Let_def)
  from block_erase [OF _ s1(3) this assms(2,3)] s1(2) obtain b s2 where
    s2: "wr (spi flash) (cmd # make_adress_byte_array flash addr) 0 s1 = (SFUD_SUCCESS, b, s2)"
      "cells s2 = erase_cells (esize cmd) (addr_of (make_adress_byte_array flash addr)) c" "busy s2 \<le> unat (retry_times flash)"
    by (auto simp: at_rest_def)
  from waits [OF s2(3)] s2(2) show ?thesis by (auto simp: erase_one_def s1 s2)
qed

lemma erases_loop:
  assumes "erasers_ok flash esize g" "addr_in_4_byte flash \<or> unat (capacity (chip flash)) \<le> 2 ^ 24"
    and "at_rest c s" "sz \<noteq> 0" "unat addr + unat sz \<le> unat (capacity (chip flash))"
  shows "\<exists>s'. erase_loop flash addr sz s = Some (SFUD_SUCCESS, s') \<and> at_rest (erased_range g (unat addr) (unat sz) c) s'"
  using assms(3-5)
proof (induction "unat sz" arbitrary: addr sz s c rule: less_induct)
  case less
  obtain cmd e where ce: "cur_eraser flash addr sz = (cmd, e)" by (rule prod.exhaust)
  note f = cur_eraser_fits [OF assms(1) ce]
  have sz: "0 < unat sz" using less.prems(2) by (simp add: unat_gt_0)
  have ad: "addr_of (make_adress_byte_array flash addr) = unat addr"
    using assms(2) less.prems(3) sz by (intro addr_of_bytes) auto
  have "0 < esize cmd" using f(1,2) by (auto simp: unat_gt_0)
  moreover have "unat addr < unat (capacity (chip flash))" using less.prems(3) sz by linarith
  ultimately have "0 < esize cmd" "unat addr < unat (capacity (chip flash))" .
  from erases_one [OF less.prems(1) this(1), of addr] this(2) obtain s1 where
    s1: "erase_one flash cmd addr s = (SFUD_SUCCESS, s1)" "at_rest (erase_cells (unat e) (unat addr) c) s1"
    by (auto simp: ad f(2))
  have z: "\<not> (available (sfdp flash) \<and> eraser_size (eraser (sfdp flash) ! SMALLEST_ERASER_INDEX) = 0)"
    using assms(1) by (auto simp: erasers_ok_def SMALLEST_ERASER_INDEX_def)
  note al = unat_align_len [OF f(1), of addr]
  have g: "0 < g" using assms(1) by (simp add: erasers_ok_def)
  note unf = erase_loop.simps [of flash addr sz s]
  show ?case
  proof (cases "align_len addr e < sz")
    case True
    define m where "m = align_len addr e"
    have u: "unat (sz - m) = unat sz - unat m" "unat m < unat sz" 
      using True unat_sub [of m sz] by (simp_all add: m_def word_less_nat_alt word_le_nat_alt)
    have "unat addr + unat m < 2 ^ LENGTH(32)" using u(2) less.prems(3) unsigned_less [of "capacity (chip flash)", where ?'a = nat] by linarith
    then have ua: "unat (addr + m) = unat addr + unat m" using unat_add_lem [of addr m] by simp
    have lt: "unat (sz - m) < unat sz" by (rule loop_step_less) (use True f(1) in \<open>auto simp: m_def\<close>)
    have "sz - m \<noteq> 0" "unat (addr + m) + unat (sz - m) \<le> unat (capacity (chip flash))"
      using True less.prems(3) u ua by (auto simp: m_def)
    from less.hyps [OF lt s1(2) this] obtain s' where
      s': "erase_loop flash (addr + m) (sz - m) s1 = Some (SFUD_SUCCESS, s')"
      "at_rest (erased_range g (unat addr + unat m) (unat sz - unat m) (erase_cells (unat e) (unat addr) c)) s'"
      by (auto simp: ua u(1))
    have "erased_range g (unat addr + unat m) (unat sz - unat m) (erase_cells (unat e) (unat addr) c) =
        erased_range g (unat addr) (unat sz) c"
    proof (cases "unat e = g")
      case True
      then show ?thesis using erased_step_small [OF g _ u(2)] al by (simp add: m_def)
    next
      case False
      then obtain k where k: "unat e = g * k" "unat addr mod unat e = 0" using f(3) by (auto elim: dvdE)
      moreover have "unat m = g * k" using al k by (simp add: m_def)
      moreover have "0 < k" using k(1) f(1) by (cases k) (auto simp: unat_eq_0)
      ultimately show ?thesis using erased_step_large [OF g, of k "unat addr" "unat sz" c] u(2) by simp
    qed
    with s' show ?thesis using True f(1) less.prems(2) z by (simp add: unf ce s1 Let_def m_def)
  next
    case False
    then have le: "unat sz \<le> unat (align_len addr e)" by (simp add: word_less_nat_alt)
    have "erase_cells (unat e) (unat addr) c = erased_range g (unat addr) (unat sz) c"
    proof (cases "unat e = g")
      case True
      then show ?thesis using erased_last_small [OF g _ le sz] al by simp
    next
      case False
      then obtain k where k: "unat e = g * k" "unat addr mod unat e = 0" "unat e \<le> unat sz" using f(3) by (auto elim: dvdE)
      moreover have "0 < k" using k(1) f(1) by (cases k) (auto simp: unat_eq_0)
      moreover have "unat sz = g * k" using al k le by simp
      ultimately show ?thesis using erased_last_large [OF g, of k "unat addr" c] by simp
    qed
    then show ?thesis using s1 False f(1) less.prems(2) z by (simp add: unf ce Let_def)
  qed
qed

lemma writes_loop:
  assumes "g \<in> {1, 256}" "addr_in_4_byte flash \<or> unat (capacity (chip flash)) \<le> 2 ^ 24"
    and "at_rest c s" "length data = unat sz" "unat addr + unat sz \<le> unat (capacity (chip flash))"
  shows "\<exists>s'. page_write_loop flash addr sz g data s = (SFUD_SUCCESS, s') \<and> at_rest (program_cells (unat addr) data c) s'"
  using assms(3-5)
proof (induction "unat sz" arbitrary: addr sz data s c rule: less_induct)
  case less
  note unf = page_write_loop.simps [of flash addr sz g data s]
  show ?case
  proof (cases "sz = 0")
    case True
    then have "program_cells (unat addr) data c = c" using less.prems(2) by (auto simp: program_cells_def fun_eq_iff)
    then show ?thesis unfolding unf using less.prems(1) True by simp
  next
    case False
    have g: "g \<noteq> 0" using assms(1) by auto
    define m where "m = (if align_len addr (ucast g) < sz then align_len addr (ucast g) else sz)"
    have m: "m \<noteq> 0" "m \<le> sz" "unat m \<le> unat (align_len addr (ucast g))"
      using False g by (auto simp: m_def word_less_nat_alt word_le_nat_alt)
    then have mn: "0 < unat m" "unat m \<le> unat sz" by (simp_all add: unat_gt_0 word_le_nat_alt)
    obtain s1 where s1: "set_write_enabled flash True s = (SFUD_SUCCESS, s1)" "at_rest c s1" "wel s1"
      using write_enabled [OF less.prems(1), of True] by auto
    have ad: "addr_of (make_adress_byte_array flash addr) = unat addr"
      using assms(2) less.prems(3) mn by (intro addr_of_bytes) auto
    have le: "length (make_adress_byte_array flash addr) = (if addr_in_4_byte flash then 4 else 3)"
      by (simp add: make_adress_byte_array_def Let_def)
    have "busy s1 = 0" "unat addr mod 256 + length (take (unat m) data) \<le> 256" "take (unat m) data \<noteq> []"
      "unat addr + length (take (unat m) data) \<le> unat (capacity (chip flash))"
      using s1(2) align_len_page [OF assms(1), of addr] m(3) mn less.prems(2,3) by (auto simp: at_rest_def)
    from page_program [OF this(1) s1(3) le this(2) [folded ad] this(3) this(4) [folded ad]] s1(2) obtain b s2 where
      s2: "wr (spi flash) (SFUD_CMD_PAGE_PROGRAM # make_adress_byte_array flash addr @ take (unat m) data) 0 s1 = (SFUD_SUCCESS, b, s2)"
        "cells s2 = program_cells (unat addr) (take (unat m) data) c" "busy s2 \<le> unat (retry_times flash)"
      by (auto simp: ad at_rest_def)
    from waits [OF s2(3)] obtain s3 where
      s3: "wait_busy flash s2 = (SFUD_SUCCESS, s3)" "at_rest (program_cells (unat addr) (take (unat m) data) c) s3"
      by (auto simp: s2(2))
    have u: "unat (sz - m) = unat sz - unat m" using unat_sub [OF m(2)] .
    have "unat addr + unat m < 2 ^ LENGTH(32)"
      using mn less.prems(3) unsigned_less [of "capacity (chip flash)", where ?'a = nat] by linarith
    then have ua: "unat (addr + m) = unat addr + unat m" using unat_add_lem [of addr m] by simp
    have lt: "unat (sz - m) < unat sz" by (rule loop_step_less [OF m(1,2)])
    have "length (drop (unat m) data) = unat (sz - m)" "unat (addr + m) + unat (sz - m) \<le> unat (capacity (chip flash))"
      using less.prems(2,3) mn u ua by auto
    from less.hyps [OF lt s3(2) this] obtain s' where
      "page_write_loop flash (addr + m) (sz - m) g (drop (unat m) data) s3 = (SFUD_SUCCESS, s')"
      "at_rest (program_cells (unat addr) data c) s'"
      using program_cells_split [of "unat m" data "unat addr" c] mn less.prems(2) by (auto simp: ua)
    then show ?thesis using False g s1(1) s2(1) s3(1) by (simp add: unf Let_def m_def [symmetric])
  qed
qed

lemma released:
  assumes "at_rest c s"
  shows "at_rest c (spi_unlock flash (snd (set_write_enabled flash e s)))" "at_rest c (spi_lock flash s)"
    "at_rest c (spi_unlock flash s)"
  using assms write_enabled [OF assms, of e] by (auto simp: at_rest_def bus)

lemma page_writes:
  assumes "g \<in> {1, 256}" "addr_in_4_byte flash \<or> unat (capacity (chip flash)) \<le> 2 ^ 24"
    and "at_rest c s" "length data = unat sz" "unat addr + unat sz \<le> unat (capacity (chip flash))"
  shows "\<exists>s'. page256_or_1_byte_write flash addr sz g data s = (SFUD_SUCCESS, s') \<and> at_rest (program_cells (unat addr) data c) s'"
proof -
  note in_bounds [OF assms(5)]
  moreover obtain s1 where "page_write_loop flash addr sz g data (spi_lock flash s) = (SFUD_SUCCESS, s1)"
    "at_rest (program_cells (unat addr) data c) s1"
    using writes_loop [OF assms(1,2) released(2) [OF assms(3)] assms(4,5)] by auto
  ultimately show ?thesis using released(1) by (auto simp: page256_or_1_byte_write_def)
qed

lemma erases_chip:
  assumes "at_rest c s"
  shows "\<exists>s'. sfud_chip_erase flash s = (SFUD_SUCCESS, s') \<and>
    at_rest (\<lambda>x. if x < unat (capacity (chip flash)) then 0xFF else c x) s'"
proof -
  obtain s1 where s1: "set_write_enabled flash True (spi_lock flash s) = (SFUD_SUCCESS, s1)" "at_rest c s1" "wel s1"
    using write_enabled [OF released(2) [OF assms], of True] by auto
  then obtain b s2 where s2: "wr (spi flash) (chip_erase_cmd flash) 0 s1 = (SFUD_SUCCESS, b, s2)"
    "cells s2 = (\<lambda>x. if x < unat (capacity (chip flash)) then 0xFF else c x)" "busy s2 \<le> unat (retry_times flash)"
    using chip_erase [of s1] by (auto simp: at_rest_def)
  from waits [OF s2(3)] show ?thesis unfolding s2(2) using released(1) by (auto simp: sfud_chip_erase_def s1(1) s2(1))
qed

lemma erases:
  assumes "erasers_ok flash esize g" "addr_in_4_byte flash \<or> unat (capacity (chip flash)) \<le> 2 ^ 24"
    and "g dvd unat (capacity (chip flash))"
    and "at_rest c s" "sz \<noteq> 0" "unat addr + unat sz \<le> unat (capacity (chip flash))"
  shows "\<exists>s'. sfud_erase flash addr sz s = Some (SFUD_SUCCESS, s') \<and> at_rest (erased_range g (unat addr) (unat sz) c) s'"
proof (cases "addr = 0 \<and> sz = capacity (chip flash)")
  case True
  have "(\<lambda>x. if x < unat sz then 0xFF else c x) = erased_range g (unat addr) (unat sz) c"
    using erased_whole [of g "unat sz" c] assms(1,3,5) True by (simp add: erasers_ok_def unat_gt_0)
  then show ?thesis using erases_chip [OF assms(4)] True in_bounds [OF assms(6)] by (auto simp: sfud_erase_def)
next
  case False
  then show ?thesis
    using in_bounds [OF assms(6)] erases_loop [OF assms(1,2) released(2) [OF assms(4)] assms(5,6)] released(1)
    by (auto simp: sfud_erase_def)
qed

lemma reads:
  assumes "addr_in_4_byte flash \<or> unat (capacity (chip flash)) \<le> 2 ^ 24"
    and "at_rest c s" "sz \<noteq> 0" "unat addr + unat sz \<le> unat (capacity (chip flash))"
  shows "\<exists>s'. sfud_read flash addr sz s = (SFUD_SUCCESS, map (\<lambda>i. c (unat addr + i)) [0..<unat sz], s') \<and> at_rest c s'"
proof -
  have "busy (spi_lock flash s) \<le> unat (retry_times flash)" using assms(2) by (simp add: at_rest_def bus)
  from waits [OF this] obtain s1 where s1: "wait_busy flash (spi_lock flash s) = (SFUD_SUCCESS, s1)" "at_rest c s1"
    using assms(2) by (auto simp: at_rest_def bus)
  have ad: "addr_of (make_adress_byte_array flash addr) = unat addr"
    using assms(1,4) unat_gt_0 [of sz] assms(3) by (intro addr_of_bytes) auto
  have "length (make_adress_byte_array flash addr) = (if addr_in_4_byte flash then 4 else 3)"
    by (simp add: make_adress_byte_array_def Let_def)
  from read_data [OF _ this, of s1 "unat sz"] s1(2) assms(4) obtain s2 where
    "wr (spi flash) (SFUD_CMD_READ_DATA # make_adress_byte_array flash addr) (unat sz) s1 =
      (SFUD_SUCCESS, map (\<lambda>i. c (unat addr + i)) [0..<unat sz], s2)" "at_rest c s2"
    by (auto simp: ad at_rest_def)
  then show ?thesis using in_bounds [OF assms(4)] s1(1) released(3) by (auto simp: sfud_read_def)
qed

lemma writes:
  assumes "write_mode (chip flash) AND SFUD_WM_PAGE_256B \<noteq> 0" "addr_in_4_byte flash \<or> unat (capacity (chip flash)) \<le> 2 ^ 24"
    and "at_rest c s" "length data = unat sz" "unat addr + unat sz \<le> unat (capacity (chip flash))"
  shows "\<exists>s'. sfud_write flash addr sz data s = (SFUD_SUCCESS, s') \<and> at_rest (program_cells (unat addr) data c) s'"
  using assms(1) page_writes [OF _ assms(2-5), of 256] by (simp add: sfud_write_def)

end

section \<open>A chip\<close>

text \<open>
  The W25Q16BV of the chip table, with its three-byte addresses, pages of 256 bytes, blocks of
  4 and 64 Kbytes, its identification bytes, an area with the parameters it describes itself
  with, and a bus that counts its holders.  Commands sent while an operation runs
  are ignored, and so are writes without the write enable latch.
\<close>

record nor =
  nor_sfdp :: "u8 list"
  nor_cells :: "nat \<Rightarrow> u8"
  nor_wel :: bool
  nor_busy :: nat
  nor_depth :: int
  nor_clean :: bool

definition nor_esize :: "u8 \<Rightarrow> nat" where
  "nor_esize cmd = (if cmd = 0x20 then 4096 else if cmd = 0xD8 then 65536 else 0)"

definition nor_command :: "u8 \<Rightarrow> u8 list \<Rightarrow> u8 list \<Rightarrow> nat \<Rightarrow> nor \<Rightarrow> u8 list \<times> nor" where
  "nor_command cmd a d n s =
    (if cmd = 0x9F then (take n [0xEF, 0x40, 0x15], s)
     else if cmd = 0x5A then (take n (drop (addr_of a) (nor_sfdp s)), s)
     else if cmd = SFUD_CMD_READ_DATA then (map (\<lambda>i. nor_cells s (addr_of a + i)) [0..<n], s)
     else if nor_wel s \<and> cmd = SFUD_CMD_PAGE_PROGRAM then
       ([], s\<lparr>nor_cells := program_cells (addr_of a) d (nor_cells s), nor_wel := False, nor_busy := 2\<rparr>)
     else if nor_wel s \<and> 0 < nor_esize cmd then
       ([], s\<lparr>nor_cells := erase_cells (nor_esize cmd) (addr_of a) (nor_cells s), nor_wel := False, nor_busy := 5\<rparr>)
     else ([], s))"

definition nor_wr :: "u8 list \<Rightarrow> nat \<Rightarrow> nor \<Rightarrow> sfud_err \<times> u8 list \<times> nor" where
  "nor_wr c n s0 =
    (let s = s0\<lparr>nor_clean := nor_clean s0 \<and> 0 < nor_depth s0\<rparr> in
     if c = [SFUD_CMD_READ_STATUS_REGISTER] then
       (SFUD_SUCCESS, [of_bool (nor_busy s \<noteq> 0) OR push_bit 1 (of_bool (nor_wel s))], s\<lparr>nor_busy := nor_busy s - 1\<rparr>)
     else if nor_busy s \<noteq> 0 then (SFUD_SUCCESS, replicate n 0xFF, s)
     else if c = [SFUD_CMD_WRITE_ENABLE] then (SFUD_SUCCESS, [], s\<lparr>nor_wel := True\<rparr>)
     else if c = [SFUD_CMD_WRITE_DISABLE] then (SFUD_SUCCESS, [], s\<lparr>nor_wel := False\<rparr>)
     else if c = [SFUD_CMD_ERASE_CHIP] then
       (SFUD_SUCCESS, [], if nor_wel s then s\<lparr>nor_cells := (\<lambda>x. if x < 0x200000 then 0xFF else nor_cells s x),
          nor_wel := False, nor_busy := 9\<rparr> else s)
     else (SFUD_SUCCESS, nor_command (hd c) (take 3 (tl c)) (drop 3 (tl c)) n s))"

definition nor_spi :: "nor sfud_spi" where
  "nor_spi = \<lparr>wr = nor_wr, lock = Some (\<lambda>s. s\<lparr>nor_depth := nor_depth s + 1\<rparr>), unlock = Some (\<lambda>s. s\<lparr>nor_depth := nor_depth s - 1\<rparr>)\<rparr>"

definition w25q16 :: "nor sfud_flash" where
  "w25q16 = \<lparr>chip = \<lparr>chip_name = Some ''W25Q16BV'', mf_id = 0xEF, type_id = 0x40, capacity_id = 0x15, capacity = 0x200000,
      write_mode = SFUD_WM_PAGE_256B, erase_gran = 4096, erase_gran_cmd = 0x20\<rparr>,
    spi = nor_spi, init_ok = True, addr_in_4_byte = False, retry_delay = Some (\<lambda>s. s), retry_times = 600000,
    sfdp = \<lparr>available = True, sfdp_major_rev = 1, sfdp_minor_rev = 0, sfdp_write_gran = 256, erase_4k = True, erase_4k_cmd = 0x20,
      sr_is_non_vola = True, vola_sr_we_cmd = 0, addr_3_byte = True, addr_4_byte = False, sfdp_capacity = 0x200000,
      eraser = [\<lparr>eraser_size = 4096, eraser_cmd = 0x20\<rparr>, \<lparr>eraser_size = 65536, eraser_cmd = 0xD8\<rparr>,
        \<lparr>eraser_size = 0, eraser_cmd = 0\<rparr>, \<lparr>eraser_size = 0, eraser_cmd = 0\<rparr>]\<rparr>\<rparr>"

lemma length_3: "length a = 3 \<longleftrightarrow> (\<exists>x y z. a = [x, y, z])"
  by (auto simp: length_Suc_conv numeral_3_eq_3)

lemma nor_command_rest: "nor_depth (snd (nor_command cmd a d n s)) = nor_depth s" "nor_clean (snd (nor_command cmd a d n s)) = nor_clean s"
  by (simp_all add: nor_command_def)

lemma nor_spi_bus:
  assumes "spi flash = nor_spi" "retry_delay flash = Some (\<lambda>s. s)"
  shows "spi_bus flash nor_depth nor_clean"
  using assms by unfold_locales (auto simp: nor_spi_def nor_wr_def Let_def nor_command_rest spi_lock_def spi_unlock_def retry_wait_def)

lemma nor_spi_chip:
  assumes "spi flash = nor_spi" "retry_delay flash = Some (\<lambda>s. s)" "retry_times flash = 600000" "\<not> addr_in_4_byte flash"
    and "capacity (chip flash) = 0x200000" "write_mode (chip flash) AND SFUD_WM_DUAL_BUFFER = 0"
  shows "nor_flash flash nor_cells nor_wel nor_busy nor_esize"
proof -
  have f: "wr (spi flash) = nor_wr" "addr_in_4_byte flash = False" "capacity (chip flash) = 0x200000" "retry_times flash = 600000"
    "chip_erase_cmd flash = [SFUD_CMD_ERASE_CHIP]" "spi_lock flash s = s\<lparr>nor_depth := nor_depth s + 1\<rparr>"
    "spi_unlock flash s = s\<lparr>nor_depth := nor_depth s - 1\<rparr>" "retry_wait flash s = s" for s
    using assms by (simp_all add: nor_spi_def chip_erase_cmd_def spi_lock_def spi_unlock_def retry_wait_def)
  show ?thesis
  proof (unfold_locales, goal_cases)
    case 1
    show ?case by (simp add: f nor_wr_def Let_def bit_or_iff bit_push_bit_iff bit_of_bool_iff)
  qed (auto simp: f nor_wr_def Let_def sfud_cmd_defs length_3 nor_command_def nor_esize_def split: if_splits)
qed

lemma w25q16_fields [simp]:
  "spi w25q16 = nor_spi" "retry_delay w25q16 = Some (\<lambda>s. s)" "retry_times w25q16 = 600000" "addr_in_4_byte w25q16 = False"
  "capacity (chip w25q16) = 0x200000" "write_mode (chip w25q16) = 1"
  by (simp_all add: w25q16_def SFUD_WM_PAGE_256B_def)

interpretation w25q_bus: spi_bus w25q16 nor_depth nor_clean
  by (rule nor_spi_bus) simp_all

interpretation w25q: nor_flash w25q16 nor_cells nor_wel nor_busy nor_esize
  by (rule nor_spi_chip) (simp_all add: SFUD_WM_DUAL_BUFFER_def)

lemma w25q16_ok: "erasers_ok w25q16 nor_esize 4096"
  by (simp add: erasers_ok_def w25q16_def nor_esize_def SFUD_SFDP_ERASE_TYPE_MAX_NUM_def)

section \<open>Properties\<close>

text \<open>
  C23: The flash gives back what was written.  On a chip that behaves as a NOR flash and is at
  rest, with the erasers the driver has recorded, erasing a range inside the chip, writing it
  page by page and reading it succeeds and returns the data.  Afterwards the chip holds the
  data in the range, ones in the rest of the erase blocks the range touches, and everything
  else is as before; \<open>sfud_erase_write\<close> does the same in one call.
\<close>

theorem sfud_flash_roundtrip:
  assumes "nor_flash flash cells wel busy esize" "erasers_ok flash esize g"
    and "addr_in_4_byte flash \<or> unat (capacity (chip flash)) \<le> 2 ^ 24" "g dvd unat (capacity (chip flash))"
    and "write_mode (chip flash) AND SFUD_WM_PAGE_256B \<noteq> 0" "busy s = 0"
    and "length data = unat sz" "sz \<noteq> 0" "unat addr + unat sz \<le> unat (capacity (chip flash))"
  shows "\<exists>s1 s2 s3. sfud_erase flash addr sz s = Some (SFUD_SUCCESS, s1) \<and>
    sfud_write flash addr sz data s1 = (SFUD_SUCCESS, s2) \<and> sfud_erase_write flash addr sz data s = Some (SFUD_SUCCESS, s2) \<and>
    sfud_read flash addr sz s2 = (SFUD_SUCCESS, data, s3) \<and> cells s2 = cells s3 \<and> busy s3 = 0 \<and>
    cells s3 = rewritten g (unat addr) data (cells s)"
proof -
  note at_rest = nor_flash.at_rest_def [OF assms(1)]
  have r: "nor_flash.at_rest cells busy (cells s) s" using assms(6) by (simp add: at_rest)
  from nor_flash.erases [OF assms(1-4) r assms(8,9)] obtain s1 where
    s1: "sfud_erase flash addr sz s = Some (SFUD_SUCCESS, s1)"
      "nor_flash.at_rest cells busy (erased_range g (unat addr) (unat sz) (cells s)) s1" by blast
  from nor_flash.writes [OF assms(1,5,3) s1(2) assms(7,9)] obtain s2 where
    s2: "sfud_write flash addr sz data s1 = (SFUD_SUCCESS, s2)"
      "nor_flash.at_rest cells busy (rewritten g (unat addr) data (cells s)) s2"
    unfolding assms(7) [symmetric] program_erased by blast
  from nor_flash.reads [OF assms(1,3) s2(2) assms(8,9)] obtain s3 where
    s3: "sfud_read flash addr sz s2 = (SFUD_SUCCESS, data, s3)"
      "nor_flash.at_rest cells busy (rewritten g (unat addr) data (cells s)) s3"
    unfolding assms(7) [symmetric] rewritten_read by blast
  show ?thesis using s1 s2 s3 by (simp add: at_rest sfud_erase_write_def)
qed

theorem sfud_flash_roundtrip_witness:
  "\<exists>s2 s3. sfud_erase_write w25q16 0x1D000 5 [1, 2, 3, 4, 5] \<lparr>nor_sfdp = [], nor_cells = (\<lambda>_. 0), nor_wel = False, nor_busy = 0, nor_depth = 0, nor_clean = True\<rparr> =
      Some (SFUD_SUCCESS, s2) \<and> sfud_read w25q16 0x1D000 5 s2 = (SFUD_SUCCESS, [1, 2, 3, 4, 5], s3) \<and> nor_cells s3 0x1D005 = 0xFF"
proof -
  let ?s = "\<lparr>nor_sfdp = [], nor_cells = (\<lambda>_. 0), nor_wel = False, nor_busy = 0, nor_depth = 0, nor_clean = True\<rparr>"
  have "write_mode (chip w25q16) AND SFUD_WM_PAGE_256B \<noteq> 0" by (simp add: w25q16_def SFUD_WM_PAGE_256B_def)
  from sfud_flash_roundtrip [OF w25q.nor_flash_axioms w25q16_ok _ _ this, of ?s "[1, 2, 3, 4, 5]" 5 "0x1D000"]
  obtain s2 s3 where s: "sfud_erase_write w25q16 0x1D000 5 [1, 2, 3, 4, 5] ?s = Some (SFUD_SUCCESS, s2)"
    "sfud_read w25q16 0x1D000 5 s2 = (SFUD_SUCCESS, [1, 2, 3, 4, 5], s3)"
    "nor_cells s3 = rewritten 4096 0x1D000 [1, 2, 3, 4, 5] (nor_cells ?s)"
    by auto
  have "nor_cells s3 0x1D005 = 0xFF" unfolding s(3) by (simp add: rewritten_def)
  with s show ?thesis by blast
qed

text \<open>
  C28: The bus is used properly.  Whatever the chip answers, and on every path through read,
  erase, write and erase-with-write, no transfer goes out while the bus is not held, and each
  call gives the bus back as often as it took it.
\<close>

theorem sfud_bus_discipline:
  assumes "spi_bus flash depth clean" "clean s" "0 \<le> depth s"
    and "s' \<in> {snd (snd (sfud_read flash addr sz s)), snd (sfud_chip_erase flash s), snd (sfud_write flash addr sz data s)} \<or>
      Some s' \<in> {map_option snd (sfud_erase flash addr sz s), map_option snd (sfud_erase_write flash addr sz data s)}"
  shows "clean s' \<and> depth s' = depth s"
proof -
  note h = spi_bus.holds_def [OF assms(1)]
  have s: "spi_bus.holds depth clean (depth s) s" using assms(2) by (simp add: h)
  have "spi_bus.holds depth clean (depth s) s'"
    using assms(4) spi_bus.holds_read [OF assms(1) s assms(3)] spi_bus.holds_chip_erase [OF assms(1) s assms(3)]
      spi_bus.holds_write [OF assms(1) s assms(3)] spi_bus.holds_erase [OF assms(1) _ s assms(3)]
      spi_bus.holds_erase_write [OF assms(1) _ s assms(3)]
    by (auto simp: map_option_case split: option.splits)
  then show ?thesis by (simp add: h)
qed

theorem sfud_bus_discipline_witness:
  "nor_clean (snd (sfud_write w25q16 0x1D000 1 [7] \<lparr>nor_sfdp = [], nor_cells = (\<lambda>_. 0), nor_wel = False, nor_busy = 0, nor_depth = 0, nor_clean = True\<rparr>))"
  using sfud_bus_discipline [OF w25q_bus.spi_bus_axioms,
      of "\<lparr>nor_sfdp = [], nor_cells = (\<lambda>_. 0), nor_wel = False, nor_busy = 0, nor_depth = 0, nor_clean = True\<rparr>" _ "0x1D000" 1 "[7]"]
  by simp

end
