(* ===== verification/SfudInit.thy ===== *)
theory SfudInit
  imports Sfud "HOL-Library.Multiset"
begin

text \<open>
  Finding out what chip is on the bus (sfud.c: \<open>sfud_device_init\<close>, \<open>hardware_init\<close> and the
  calls they make; sfud_sfdp.c: the parameters a chip describes itself with).  The driver's
  record of the chip is changed here, so the operations return it next to the bus state.
\<close>

section \<open>Chip commands\<close>

definition SFUD_VOLATILE_SR_WRITE_ENABLE :: u8 where "SFUD_VOLATILE_SR_WRITE_ENABLE = 0x50"
definition SFUD_CMD_WRITE_STATUS_REGISTER :: u8 where "SFUD_CMD_WRITE_STATUS_REGISTER = 0x01"
definition SFUD_CMD_JEDEC_ID :: u8 where "SFUD_CMD_JEDEC_ID = 0x9F"
definition SFUD_CMD_READ_SFDP_REGISTER :: u8 where "SFUD_CMD_READ_SFDP_REGISTER = 0x5A"
definition SFUD_CMD_ENABLE_RESET :: u8 where "SFUD_CMD_ENABLE_RESET = 0x66"
definition SFUD_CMD_RESET :: u8 where "SFUD_CMD_RESET = 0x99"
definition SFUD_CMD_ENTER_4B_ADDRESS_MODE :: u8 where "SFUD_CMD_ENTER_4B_ADDRESS_MODE = 0xB7"
definition SFUD_CMD_EXIT_4B_ADDRESS_MODE :: u8 where "SFUD_CMD_EXIT_4B_ADDRESS_MODE = 0xE9"
definition SFUD_DUMMY_DATA :: u8 where "SFUD_DUMMY_DATA = 0xFF"

definition reset :: "'s sfud_flash \<Rightarrow> 's \<Rightarrow> sfud_err \<times> 's" where
  "reset flash s =
    (case wr (spi flash) [SFUD_CMD_ENABLE_RESET] 0 s of (result, _, s) \<Rightarrow>
     if result \<noteq> SFUD_SUCCESS then (result, s)
     else case wait_busy flash s of (_, s) \<Rightarrow>
       case wr (spi flash) [SFUD_CMD_RESET] 0 s of (result, _, s) \<Rightarrow>
       if result = SFUD_SUCCESS then wait_busy flash s else (result, s))"

definition read_jedec_id :: "'s sfud_flash \<Rightarrow> 's \<Rightarrow> sfud_err \<times> 's sfud_flash \<times> 's" where
  "read_jedec_id flash s =
    (case wr (spi flash) [SFUD_CMD_JEDEC_ID] 3 s of (result, recv_data, s) \<Rightarrow>
     if result = SFUD_SUCCESS
     then (result, flash\<lparr>chip := (chip flash)\<lparr>mf_id := recv_data ! 0, type_id := recv_data ! 1, capacity_id := recv_data ! 2\<rparr>\<rparr>, s)
     else (result, flash, s))"

definition set_4_byte_address_mode :: "'s sfud_flash \<Rightarrow> bool \<Rightarrow> 's \<Rightarrow> sfud_err \<times> 's sfud_flash \<times> 's" where
  "set_4_byte_address_mode flash enabled s =
    (case set_write_enabled flash True s of (result, s) \<Rightarrow>
     if result \<noteq> SFUD_SUCCESS then (result, flash, s)
     else case wr (spi flash) [if enabled then SFUD_CMD_ENTER_4B_ADDRESS_MODE else SFUD_CMD_EXIT_4B_ADDRESS_MODE] 0 s of
       (result, _, s) \<Rightarrow> (result, if result = SFUD_SUCCESS then flash\<lparr>addr_in_4_byte := enabled\<rparr> else flash, s))"

definition sfud_write_status :: "'s sfud_flash \<Rightarrow> bool \<Rightarrow> u8 \<Rightarrow> 's \<Rightarrow> sfud_err \<times> 's" where
  "sfud_write_status flash is_volatile status s =
    (case (if is_volatile
        then (case wr (spi flash) [SFUD_VOLATILE_SR_WRITE_ENABLE] 0 s of (result, _, s) \<Rightarrow> (result, s))
        else set_write_enabled flash True s) of (result, s) \<Rightarrow>
     if result = SFUD_SUCCESS
     then (case wr (spi flash) [SFUD_CMD_WRITE_STATUS_REGISTER, status] 0 s of (result, _, s) \<Rightarrow> (result, s))
     else (result, s))"

section \<open>SFDP parameters (sfud_sfdp.c)\<close>

definition SUPPORT_MAX_SFDP_MAJOR_REV :: u8 where "SUPPORT_MAX_SFDP_MAJOR_REV = 1"
definition BASIC_TABLE_LEN :: u8 where "BASIC_TABLE_LEN = 9"

record sfdp_para_header =
  para_id :: u8
  para_minor_rev :: u8
  para_major_rev :: u8
  para_len :: u8
  para_ptp :: u32

definition read_sfdp_data :: "'s sfud_flash \<Rightarrow> u32 \<Rightarrow> nat \<Rightarrow> 's \<Rightarrow> sfud_err \<times> u8 list \<times> 's" where
  "read_sfdp_data flash addr n s =
    wr (spi flash) [SFUD_CMD_READ_SFDP_REGISTER, ucast (drop_bit 16 addr), ucast (drop_bit 8 addr), ucast addr, SFUD_DUMMY_DATA] n s"

definition read_sfdp_header :: "'s sfud_flash \<Rightarrow> 's \<Rightarrow> bool \<times> 's sfud_flash \<times> 's" where
  "read_sfdp_header flash0 s =
    (let flash = flash0\<lparr>sfdp := (sfdp flash0)\<lparr>available := False\<rparr>\<rparr> in
     case read_sfdp_data flash 0 8 s of (result, header, s) \<Rightarrow>
     if result \<noteq> SFUD_SUCCESS then (False, flash, s)
     else if \<not> (header ! 0 = 0x53 \<and> header ! 1 = 0x46 \<and> header ! 2 = 0x44 \<and> header ! 3 = 0x50) then (False, flash, s)
     else (header ! 5 \<le> SUPPORT_MAX_SFDP_MAJOR_REV,
       flash\<lparr>sfdp := (sfdp flash)\<lparr>sfdp_minor_rev := header ! 4, sfdp_major_rev := header ! 5\<rparr>\<rparr>, s))"

definition read_basic_header :: "'s sfud_flash \<Rightarrow> 's \<Rightarrow> bool \<times> sfdp_para_header \<times> 's" where
  "read_basic_header flash s =
    (case read_sfdp_data flash 8 8 s of (result, header, s) \<Rightarrow>
     let h = \<lparr>para_id = header ! 0, para_minor_rev = header ! 1, para_major_rev = header ! 2, para_len = header ! 3,
       para_ptp = ucast (header ! 4) OR push_bit 8 (ucast (header ! 5)) OR push_bit 16 (ucast (header ! 6))\<rparr>
     in (result = SFUD_SUCCESS \<and> para_major_rev h \<le> SUPPORT_MAX_SFDP_MAJOR_REV \<and> BASIC_TABLE_LEN \<le> para_len h, h, s))"

text \<open>
  A shift of the 32-bit one takes the low five bits of the count, as the processor's shift
  instruction does; the C standard leaves counts from 32 on open.
\<close>

definition shift_one :: "nat \<Rightarrow> u32" where
  "shift_one n = push_bit (n mod 32) 1"

definition parse_erase_4k :: "u8 list \<Rightarrow> sfud_sfdp \<Rightarrow> sfud_sfdp option" where
  "parse_erase_4k table p =
    (if table ! 0 AND 3 = 1 then Some (p\<lparr>erase_4k_cmd := table ! 1, erase_4k := True\<rparr>)
     else if table ! 0 AND 3 = 3 then Some (p\<lparr>erase_4k_cmd := table ! 1, erase_4k := False\<rparr>)
     else None)"

definition parse_write_gran :: "u8 list \<Rightarrow> sfud_sfdp \<Rightarrow> sfud_sfdp" where
  "parse_write_gran table p = p\<lparr>sfdp_write_gran := (if bit (table ! 0) 2 then 256 else 1)\<rparr>"

definition parse_volatile :: "u8 list \<Rightarrow> sfud_sfdp \<Rightarrow> sfud_sfdp" where
  "parse_volatile table p =
    (if bit (table ! 0) 3
     then p\<lparr>sr_is_non_vola := False,
       vola_sr_we_cmd := (if bit (table ! 0) 4 then SFUD_CMD_WRITE_ENABLE else SFUD_VOLATILE_SR_WRITE_ENABLE)\<rparr>
     else p\<lparr>sr_is_non_vola := True\<rparr>)"

definition parse_address :: "u8 list \<Rightarrow> sfud_sfdp \<Rightarrow> bool \<times> sfud_sfdp" where
  "parse_address table p =
    (let n = drop_bit 1 (table ! 2 AND 6) in
     (n \<noteq> 3, p\<lparr>addr_3_byte := n = 0 \<or> n = 1, addr_4_byte := n = 1 \<or> n = 2\<rparr>))"

definition parse_capacity :: "u8 list \<Rightarrow> sfud_sfdp \<Rightarrow> bool \<times> sfud_sfdp" where
  "parse_capacity table p =
    (let temp = push_bit 24 (ucast (table ! 7)) OR push_bit 16 (ucast (table ! 6)) OR push_bit 8 (ucast (table ! 5)) OR
       (ucast (table ! 4) :: u32) in
     if \<not> bit (table ! 7) 7 then (True, p\<lparr>sfdp_capacity := 1 + drop_bit 3 temp\<rparr>)
     else let temp = temp AND 0x7FFFFFFF in
       if 35 < temp then (False, p\<lparr>sfdp_capacity := 0\<rparr>)
       else (True, p\<lparr>sfdp_capacity := shift_one (unat (temp - 3))\<rparr>))"

text \<open>
  The four erase types stand at offset 28 of the table; the ones in use are packed at the
  front and sorted by exchanging.
\<close>

definition table_eraser :: "u8 list \<Rightarrow> nat \<Rightarrow> sfud_eraser" where
  "table_eraser table i = \<lparr>eraser_size = shift_one (unat (table ! (28 + 2 * i))), eraser_cmd = table ! (28 + 2 * i + 1)\<rparr>"

primrec load_erasers :: "u8 list \<Rightarrow> nat list \<Rightarrow> nat \<Rightarrow> sfud_eraser list \<Rightarrow> sfud_eraser list" where
  "load_erasers table [] j er = er"
| "load_erasers table (i # is) j er =
    (if table ! (28 + 2 * i) \<noteq> 0
     then load_erasers table is (j + 1)
       (er[j := table_eraser table i])
     else load_erasers table is j er)"

definition swap_eraser :: "nat \<Rightarrow> nat \<Rightarrow> sfud_eraser list \<Rightarrow> sfud_eraser list" where
  "swap_eraser i j er =
    (if eraser_size (er ! j) \<noteq> 0 \<and> eraser_size (er ! j) < eraser_size (er ! i) then er[i := er ! j, j := er ! i] else er)"

definition sort_pass :: "nat \<Rightarrow> sfud_eraser list \<Rightarrow> sfud_eraser list" where
  "sort_pass i er =
    (if eraser_size (er ! i) \<noteq> 0 then fold (swap_eraser i) [i + 1..<SFUD_SFDP_ERASE_TYPE_MAX_NUM] er else er)"

definition sort_erasers :: "sfud_eraser list \<Rightarrow> sfud_eraser list" where
  "sort_erasers er = fold sort_pass [0..<SFUD_SFDP_ERASE_TYPE_MAX_NUM] er"

definition parse_basic_table :: "u8 list \<Rightarrow> sfud_sfdp \<Rightarrow> bool \<times> sfud_sfdp" where
  "parse_basic_table table p =
    (case parse_erase_4k table p of
       None \<Rightarrow> (False, p\<lparr>erase_4k_cmd := table ! 1\<rparr>)
     | Some p \<Rightarrow>
       case parse_address table (parse_volatile table (parse_write_gran table p)) of (ok, p) \<Rightarrow>
       if \<not> ok then (False, p)
       else case parse_capacity table p of (ok, p) \<Rightarrow>
         if \<not> ok then (False, p)
         else (True, p\<lparr>eraser := sort_erasers (load_erasers table [0..<SFUD_SFDP_ERASE_TYPE_MAX_NUM] 0 (eraser p)),
           available := True\<rparr>))"

definition read_basic_table :: "'s sfud_flash \<Rightarrow> sfdp_para_header \<Rightarrow> 's \<Rightarrow> bool \<times> 's sfud_flash \<times> 's" where
  "read_basic_table flash basic_header s =
    (case read_sfdp_data flash (para_ptp basic_header) (unat BASIC_TABLE_LEN * 4) s of (result, table, s) \<Rightarrow>
     if result \<noteq> SFUD_SUCCESS then (False, flash, s)
     else case parse_basic_table table (sfdp flash) of (ok, p) \<Rightarrow> (ok, flash\<lparr>sfdp := p\<rparr>, s))"

definition sfud_read_sfdp :: "'s sfud_flash \<Rightarrow> 's \<Rightarrow> bool \<times> 's sfud_flash \<times> 's" where
  "sfud_read_sfdp flash s =
    (case read_sfdp_header flash s of (ok, flash, s) \<Rightarrow>
     if \<not> ok then (False, flash, s)
     else case read_basic_header flash s of (ok, basic_header, s) \<Rightarrow>
       if \<not> ok then (False, flash, s) else read_basic_table flash basic_header s)"

section \<open>Initialisation\<close>

text \<open>
  \<open>sfud_spi_port_init\<close> of the SPI glue sets the function pointers and the retries; the
  functions themselves are parameters.
\<close>

definition sfud_spi_port_init :: "'s sfud_spi \<Rightarrow> ('s \<Rightarrow> 's) \<Rightarrow> 's sfud_flash \<Rightarrow> 's sfud_flash" where
  "sfud_spi_port_init port delay flash = flash\<lparr>spi := port, retry_delay := Some delay, retry_times := 60 * 10000\<rparr>"

definition flash_chip_table :: "sfud_flash_chip list" where
  "flash_chip_table =
    map (\<lambda>(name, mf, ty, cid, cap, mode, gran, cmd). \<lparr>chip_name = Some name, mf_id = mf, type_id = ty, capacity_id = cid,
        capacity = cap, write_mode = mode, erase_gran = gran, erase_gran_cmd = cmd\<rparr>)
     [(''AT45DB161E'', 0x1F, 0x26, 0x00, 2 * 1024 * 1024, SFUD_WM_BYTE OR SFUD_WM_DUAL_BUFFER, 512, 0x81),
      (''W25Q40BV'', 0xEF, 0x40, 0x13, 512 * 1024, SFUD_WM_PAGE_256B, 4096, 0x20),
      (''W25Q16BV'', 0xEF, 0x40, 0x15, 2 * 1024 * 1024, SFUD_WM_PAGE_256B, 4096, 0x20),
      (''W25Q128BV'', 0xEF, 0x40, 0x18, 16 * 1024 * 1024, SFUD_WM_PAGE_256B, 4096, 0x20),
      (''W25Q256FV'', 0xEF, 0x40, 0x19, 32 * 1024 * 1024, SFUD_WM_PAGE_256B, 4096, 0x20),
      (''SST25VF016B'', 0xBF, 0x25, 0x41, 2 * 1024 * 1024, SFUD_WM_BYTE OR SFUD_WM_AAI, 4096, 0x20),
      (''M25P32'', 0x20, 0x20, 0x16, 4 * 1024 * 1024, SFUD_WM_PAGE_256B, 64 * 1024, 0xD8),
      (''M25P80'', 0x20, 0x20, 0x14, 1 * 1024 * 1024, SFUD_WM_PAGE_256B, 64 * 1024, 0xD8),
      (''M25P40'', 0x20, 0x20, 0x13, 512 * 1024, SFUD_WM_PAGE_256B, 64 * 1024, 0xD8),
      (''EN25Q32B'', 0x1C, 0x30, 0x16, 4 * 1024 * 1024, SFUD_WM_PAGE_256B, 4096, 0x20),
      (''GD25Q64B'', 0xC8, 0x40, 0x17, 8 * 1024 * 1024, SFUD_WM_PAGE_256B, 4096, 0x20),
      (''GD25Q16B'', 0xC8, 0x40, 0x15, 2 * 1024 * 1024, SFUD_WM_PAGE_256B, 4096, 0x20),
      (''S25FL216K'', 0x01, 0x40, 0x15, 2 * 1024 * 1024, SFUD_WM_PAGE_256B, 4096, 0x20),
      (''S25FL032P'', 0x01, 0x02, 0x15, 4 * 1024 * 1024, SFUD_WM_PAGE_256B, 4096, 0x20),
      (''A25L080'', 0x37, 0x30, 0x14, 1 * 1024 * 1024, SFUD_WM_PAGE_256B, 4096, 0x20),
      (''F25L004'', 0x8C, 0x20, 0x13, 512 * 1024, SFUD_WM_BYTE OR SFUD_WM_AAI, 4096, 0x20),
      (''PCT25VF016B'', 0xBF, 0x25, 0x41, 2 * 1024 * 1024, SFUD_WM_BYTE OR SFUD_WM_AAI, 4096, 0x20)]"

definition chip_unknown :: "sfud_flash_chip \<Rightarrow> bool" where
  "chip_unknown c \<longleftrightarrow> capacity c = 0 \<or> write_mode c = 0 \<or> erase_gran c = 0 \<or> erase_gran_cmd c = 0"

definition smaller_eraser :: "sfud_eraser \<Rightarrow> sfud_flash_chip \<Rightarrow> sfud_flash_chip" where
  "smaller_eraser e c =
    (if eraser_size e \<noteq> 0 \<and> eraser_size e < erase_gran c
     then c\<lparr>erase_gran := eraser_size e, erase_gran_cmd := eraser_cmd e\<rparr> else c)"

definition chip_from_sfdp :: "sfud_sfdp \<Rightarrow> sfud_flash_chip \<Rightarrow> sfud_flash_chip" where
  "chip_from_sfdp p c =
    fold smaller_eraser (tl (eraser p))
      (c\<lparr>chip_name := None, capacity := sfdp_capacity p,
        write_mode := (if sfdp_write_gran p = 1 then SFUD_WM_BYTE else SFUD_WM_PAGE_256B),
        erase_gran := eraser_size (eraser p ! 0), erase_gran_cmd := eraser_cmd (eraser p ! 0)\<rparr>)"

definition chip_from_table :: "sfud_flash_chip \<Rightarrow> sfud_flash_chip" where
  "chip_from_table c =
    (case find (\<lambda>t. mf_id t = mf_id c \<and> type_id t = type_id c \<and> capacity_id t = capacity_id c) flash_chip_table of
       None \<Rightarrow> c
     | Some t \<Rightarrow> c\<lparr>chip_name := chip_name t, capacity := capacity t, write_mode := write_mode t,
         erase_gran := erase_gran t, erase_gran_cmd := erase_gran_cmd t\<rparr>)"

definition identify_chip :: "'s sfud_flash \<Rightarrow> 's \<Rightarrow> sfud_err \<times> 's sfud_flash \<times> 's" where
  "identify_chip flash s =
    (if chip_unknown (chip flash) then
       case read_jedec_id flash s of (result, flash, s) \<Rightarrow>
       if result \<noteq> SFUD_SUCCESS then (result, flash, s)
       else case sfud_read_sfdp flash s of (ok, flash, s) \<Rightarrow>
         (SFUD_SUCCESS, flash\<lparr>chip := if ok then chip_from_sfdp (sfdp flash) (chip flash) else chip_from_table (chip flash)\<rparr>, s)
     else (SFUD_SUCCESS, flash, s))"

definition prepare_chip :: "'s sfud_flash \<Rightarrow> 's \<Rightarrow> sfud_err \<times> 's sfud_flash \<times> 's" where
  "prepare_chip flash s =
    (case reset flash s of (result, s) \<Rightarrow>
     if result \<noteq> SFUD_SUCCESS then (result, flash, s)
     else case (if write_mode (chip flash) AND SFUD_WM_AAI \<noteq> 0 then sfud_write_status flash True 0 s else (SFUD_SUCCESS, s)) of
       (result, s) \<Rightarrow>
       if result \<noteq> SFUD_SUCCESS then (result, flash, s)
       else if push_bit 24 1 < capacity (chip flash) then set_4_byte_address_mode flash True s
       else (result, flash\<lparr>addr_in_4_byte := False\<rparr>, s))"

definition hardware_init :: "'s sfud_spi \<Rightarrow> ('s \<Rightarrow> 's) \<Rightarrow> 's sfud_flash \<Rightarrow> 's \<Rightarrow> sfud_err \<times> 's sfud_flash \<times> 's" where
  "hardware_init port delay flash s =
    (case identify_chip (sfud_spi_port_init port delay flash) s of (result, flash, s) \<Rightarrow>
     if result \<noteq> SFUD_SUCCESS then (result, flash, s)
     else if chip_unknown (chip flash) then (SFUD_ERR_NOT_FOUND, flash, s)
     else prepare_chip flash s)"

definition software_init :: "'s sfud_flash \<Rightarrow> sfud_err" where
  "software_init flash = SFUD_SUCCESS"

definition sfud_device_init :: "'s sfud_spi \<Rightarrow> ('s \<Rightarrow> 's) \<Rightarrow> 's sfud_flash \<Rightarrow> 's \<Rightarrow> sfud_err \<times> 's sfud_flash \<times> 's" where
  "sfud_device_init port delay flash s =
    (case hardware_init port delay flash s of (result, flash, s) \<Rightarrow>
     let result = (if result = SFUD_SUCCESS then software_init flash else result)
     in (result, flash\<lparr>init_ok := result = SFUD_SUCCESS\<rparr>, s))"

section \<open>The eraser table\<close>

lemma swap_eraser_set: "i < length er \<Longrightarrow> j < length er \<Longrightarrow> set (swap_eraser i j er) = set er"
  by (simp add: swap_eraser_def set_swap)

lemma swap_eraser_other: "k \<noteq> i \<Longrightarrow> k \<noteq> j \<Longrightarrow> swap_eraser i j er ! k = er ! k"
  by (simp add: swap_eraser_def)

lemma length_swap_eraser [simp]: "length (swap_eraser i j er) = length er"
  by (simp add: swap_eraser_def)

lemma swap_pass:
  assumes "distinct js" "i \<notin> set js" "i < length er" "\<forall>j \<in> set js. j < length er" "eraser_size (er ! i) \<noteq> 0"
  shows "set (fold (swap_eraser i) js er) = set er \<and> length (fold (swap_eraser i) js er) = length er \<and>
    (\<forall>k. k \<noteq> i \<longrightarrow> k \<notin> set js \<longrightarrow> fold (swap_eraser i) js er ! k = er ! k) \<and>
    eraser_size (fold (swap_eraser i) js er ! i) \<noteq> 0 \<and> eraser_size (fold (swap_eraser i) js er ! i) \<le> eraser_size (er ! i) \<and>
    (\<forall>j \<in> set js. eraser_size (fold (swap_eraser i) js er ! j) \<noteq> 0 \<longrightarrow>
      eraser_size (fold (swap_eraser i) js er ! i) \<le> eraser_size (fold (swap_eraser i) js er ! j))"
  using assms
proof (induction js arbitrary: er)
  case (Cons j js)
  let ?e = "swap_eraser i j er"
  have e: "eraser_size (?e ! i) \<noteq> 0" "eraser_size (?e ! i) \<le> eraser_size (er ! i)"
    "eraser_size (?e ! j) \<noteq> 0 \<longrightarrow> eraser_size (?e ! i) \<le> eraser_size (?e ! j)"
    using Cons.prems by (auto simp: swap_eraser_def nth_list_update)
  have p: "distinct js" "i \<notin> set js" "i < length ?e" "\<forall>j \<in> set js. j < length ?e" using Cons.prems by auto
  note IH = Cons.IH [OF p e(1)]
  have "fold (swap_eraser i) js ?e ! j = ?e ! j" using IH Cons.prems(1,2) by auto
  with IH e show ?case using Cons.prems swap_eraser_set [of i er j] swap_eraser_other [of _ i j er]
    by (auto intro: order_trans)
qed simp

lemma sort_pass_ok:
  assumes "length er = SFUD_SFDP_ERASE_TYPE_MAX_NUM" "i < SFUD_SFDP_ERASE_TYPE_MAX_NUM"
  shows "set (sort_pass i er) = set er" "length (sort_pass i er) = length er" "k < i \<Longrightarrow> sort_pass i er ! k = er ! k"
    "eraser_size (er ! i) \<noteq> 0 \<Longrightarrow> eraser_size (sort_pass i er ! i) \<noteq> 0 \<and>
      (\<forall>j \<in> {i + 1..<SFUD_SFDP_ERASE_TYPE_MAX_NUM}. eraser_size (sort_pass i er ! j) \<noteq> 0 \<longrightarrow>
        eraser_size (sort_pass i er ! i) \<le> eraser_size (sort_pass i er ! j))"
  using swap_pass [of "[i + 1..<SFUD_SFDP_ERASE_TYPE_MAX_NUM]" i er] assms by (auto simp: sort_pass_def)

lemma sort_passes_keep:
  assumes "length er = SFUD_SFDP_ERASE_TYPE_MAX_NUM" "\<forall>i \<in> set is. 0 < i \<and> i < SFUD_SFDP_ERASE_TYPE_MAX_NUM"
  shows "set (fold sort_pass is er) = set er \<and> length (fold sort_pass is er) = length er \<and> fold sort_pass is er ! 0 = er ! 0"
  using assms by (induction "is" arbitrary: er) (simp_all add: sort_pass_ok)

lemma sort_erasers_ok:
  assumes "length er = SFUD_SFDP_ERASE_TYPE_MAX_NUM"
  shows "set (sort_erasers er) = set er" "length (sort_erasers er) = SFUD_SFDP_ERASE_TYPE_MAX_NUM"
    "eraser_size (er ! 0) \<noteq> 0 \<Longrightarrow> e \<in> set er \<Longrightarrow> eraser_size e \<noteq> 0 \<Longrightarrow>
      eraser_size (sort_erasers er ! 0) \<noteq> 0 \<and> eraser_size (sort_erasers er ! 0) \<le> eraser_size e"
proof -
  let ?e = "sort_pass 0 er"
  have u: "sort_erasers er = fold sort_pass [1..<SFUD_SFDP_ERASE_TYPE_MAX_NUM] ?e"
    by (simp add: sort_erasers_def upt_conv_Cons SFUD_SFDP_ERASE_TYPE_MAX_NUM_def)
  have l: "length ?e = SFUD_SFDP_ERASE_TYPE_MAX_NUM" "set ?e = set er"
    using sort_pass_ok(1,2) [OF assms, of 0] assms by (simp_all add: SFUD_SFDP_ERASE_TYPE_MAX_NUM_def)
  have k: "set (sort_erasers er) = set ?e" "length (sort_erasers er) = length ?e" "sort_erasers er ! 0 = ?e ! 0"
    unfolding u using sort_passes_keep [OF l(1), of "[1..<SFUD_SFDP_ERASE_TYPE_MAX_NUM]"] by auto
  show "set (sort_erasers er) = set er" "length (sort_erasers er) = SFUD_SFDP_ERASE_TYPE_MAX_NUM" using k l by simp_all
  assume nz: "eraser_size (er ! 0) \<noteq> 0" "e \<in> set er" "eraser_size e \<noteq> 0"
  then obtain j where j: "j < SFUD_SFDP_ERASE_TYPE_MAX_NUM" "e = ?e ! j" using l by (metis in_set_conv_nth)
  have "eraser_size (?e ! 0) \<noteq> 0 \<and> (\<forall>j \<in> {1..<SFUD_SFDP_ERASE_TYPE_MAX_NUM}. eraser_size (?e ! j) \<noteq> 0 \<longrightarrow>
      eraser_size (?e ! 0) \<le> eraser_size (?e ! j))"
    using sort_pass_ok(4) [OF assms _ nz(1)] by (simp add: SFUD_SFDP_ERASE_TYPE_MAX_NUM_def)
  then show "eraser_size (sort_erasers er ! 0) \<noteq> 0 \<and> eraser_size (sort_erasers er ! 0) \<le> eraser_size e"
    using j nz(3) k(3) by (cases "j = 0") auto
qed

text \<open>
  The table after the sort: the used entries in front, by increasing size, and zero entries
  behind them.
\<close>

definition erasers_sorted :: "sfud_eraser list \<Rightarrow> bool" where
  "erasers_sorted er \<longleftrightarrow> (\<exists>m \<le> length er. sorted (map eraser_size (take m er)) \<and>
     (\<forall>k < length er. eraser_size (er ! k) \<noteq> 0 \<longleftrightarrow> k < m))"

lemma swap_eraser_mset: "i < length er \<Longrightarrow> j < length er \<Longrightarrow> mset (swap_eraser i j er) = mset er"
  by (simp add: swap_eraser_def mset_swap)

lemma swap_eraser_used:
  assumes "i < length er" "j < length er" "eraser_size (er ! i) \<noteq> 0"
  shows "eraser_size (swap_eraser i j er ! k) \<noteq> 0 \<longleftrightarrow> eraser_size (er ! k) \<noteq> 0"
  using assms by (auto simp: swap_eraser_def nth_list_update split: if_splits)

lemma swap_fold:
  assumes "i < length er" "\<forall>j \<in> set js. j < length er" "eraser_size (er ! i) \<noteq> 0"
  shows "mset (fold (swap_eraser i) js er) = mset er \<and>
    (\<forall>k. eraser_size (fold (swap_eraser i) js er ! k) \<noteq> 0 \<longleftrightarrow> eraser_size (er ! k) \<noteq> 0)"
  using assms
proof (induction js arbitrary: er)
  case (Cons j js)
  note u = swap_eraser_used [of i er j]
  have "eraser_size (swap_eraser i j er ! i) \<noteq> 0" using u Cons.prems by auto
  then show ?case using Cons.IH [of "swap_eraser i j er"] Cons.prems u swap_eraser_mset [of i er j] by auto
qed simp

lemma sort_pass_perm:
  assumes "length er = SFUD_SFDP_ERASE_TYPE_MAX_NUM" "i < SFUD_SFDP_ERASE_TYPE_MAX_NUM"
  shows "mset (sort_pass i er) = mset er" "eraser_size (sort_pass i er ! k) \<noteq> 0 \<longleftrightarrow> eraser_size (er ! k) \<noteq> 0"
    "set (drop i (sort_pass i er)) = set (drop i er)"
proof -
  show m: "mset (sort_pass i er) = mset er" and "eraser_size (sort_pass i er ! k) \<noteq> 0 \<longleftrightarrow> eraser_size (er ! k) \<noteq> 0"
    using swap_fold [of i er "[i + 1..<SFUD_SFDP_ERASE_TYPE_MAX_NUM]"] assms by (auto simp: sort_pass_def)
  have "take i (sort_pass i er) = take i er"
    using sort_pass_ok(2,3) [OF assms] by (intro nth_equalityI) auto
  then have "mset (drop i (sort_pass i er)) = mset (drop i er)"
    using m by (metis append_take_drop_id mset_append add_left_cancel)
  then show "set (drop i (sort_pass i er)) = set (drop i er)" by (rule mset_eq_setD)
qed

text \<open>After \<open>i\<close> passes the first \<open>i\<close> entries are in place.\<close>

definition sorted_upto :: "nat \<Rightarrow> nat \<Rightarrow> sfud_eraser list \<Rightarrow> bool" where
  "sorted_upto i m er \<longleftrightarrow> length er = SFUD_SFDP_ERASE_TYPE_MAX_NUM \<and> m \<le> SFUD_SFDP_ERASE_TYPE_MAX_NUM \<and>
     (\<forall>k < SFUD_SFDP_ERASE_TYPE_MAX_NUM. eraser_size (er ! k) \<noteq> 0 \<longleftrightarrow> k < m) \<and>
     (\<forall>a b. a < i \<longrightarrow> a < b \<longrightarrow> b < m \<longrightarrow> eraser_size (er ! a) \<le> eraser_size (er ! b))"

lemma sorted_upto_step:
  assumes s: "sorted_upto i m er" and i: "i < SFUD_SFDP_ERASE_TYPE_MAX_NUM"
  shows "sorted_upto (i + 1) m (sort_pass i er)"
proof -
  let ?e = "sort_pass i er"
  have l: "length er = SFUD_SFDP_ERASE_TYPE_MAX_NUM" and m: "m \<le> SFUD_SFDP_ERASE_TYPE_MAX_NUM"
    and u: "\<And>k. k < SFUD_SFDP_ERASE_TYPE_MAX_NUM \<Longrightarrow> eraser_size (er ! k) \<noteq> 0 \<longleftrightarrow> k < m"
    and o: "\<And>a b. a < i \<Longrightarrow> a < b \<Longrightarrow> b < m \<Longrightarrow> eraser_size (er ! a) \<le> eraser_size (er ! b)"
    using s by (simp_all add: sorted_upto_def)
  note p = sort_pass_ok [OF l i] and q = sort_pass_perm [OF l i]
  have "eraser_size (?e ! a) \<le> eraser_size (?e ! b)" if ab: "a < i + 1" "a < b" "b < m" for a b
  proof (cases "a = i")
    case True
    then have "eraser_size (er ! i) \<noteq> 0" "eraser_size (?e ! b) \<noteq> 0" using u [of i] u [of b] q(2) ab m by auto
    then show ?thesis using p(4) True ab m by auto
  next
    case False
    then have a: "a < i" using ab by simp
    show ?thesis
    proof (cases "b < i")
      case True
      then show ?thesis using p(3) a o [OF a ab(2,3)] by simp
    next
      case False
      have "b - i < length (drop i ?e)" "drop i ?e ! (b - i) = ?e ! b" using False ab m l p(2) by simp_all
      then have "?e ! b \<in> set (drop i ?e)" by (metis nth_mem)
      then obtain c where c: "c < length (drop i er)" "?e ! b = drop i er ! c" unfolding q(3) by (metis in_set_conv_nth)
      then have c': "?e ! b = er ! (i + c)" "i + c < SFUD_SFDP_ERASE_TYPE_MAX_NUM" using l i by simp_all
      have "eraser_size (?e ! b) \<noteq> 0" using q(2) [of b] u [of b] ab m by simp
      then have "i + c < m" using u [OF c'(2)] c'(1) by simp
      then show ?thesis using o [OF a, of "i + c"] a p(3) c'(1) by simp
    qed
  qed
  then show ?thesis using l m u p(2) q(2) by (simp add: sorted_upto_def)
qed

lemma sort_erasers_sorted:
  assumes "sorted_upto 0 m er"
  shows "sorted_upto SFUD_SFDP_ERASE_TYPE_MAX_NUM m (sort_erasers er)" "mset (sort_erasers er) = mset er"
proof -
  have "sorted_upto i m (fold sort_pass [0..<i] er) \<and> mset (fold sort_pass [0..<i] er) = mset er" if "i \<le> SFUD_SFDP_ERASE_TYPE_MAX_NUM" for i
    using that
  proof (induction i)
    case (Suc i)
    then have ih: "sorted_upto i m (fold sort_pass [0..<i] er)" "mset (fold sort_pass [0..<i] er) = mset er"
      and i: "i < SFUD_SFDP_ERASE_TYPE_MAX_NUM" by simp_all
    have "length (fold sort_pass [0..<i] er) = SFUD_SFDP_ERASE_TYPE_MAX_NUM" using ih(1) by (simp add: sorted_upto_def)
    from sorted_upto_step [OF ih(1) i] sort_pass_perm(1) [OF this i] ih(2) show ?case by simp
  qed (use assms in simp)
  then show "sorted_upto SFUD_SFDP_ERASE_TYPE_MAX_NUM m (sort_erasers er)" "mset (sort_erasers er) = mset er"
    by (simp_all add: sort_erasers_def)
qed

lemma sorted_upto_erasers: "sorted_upto SFUD_SFDP_ERASE_TYPE_MAX_NUM m er \<Longrightarrow> erasers_sorted er"
  by (auto simp: sorted_upto_def erasers_sorted_def sorted_iff_nth_mono_less intro!: exI [of _ m])

text \<open>Every eraser the driver has is one of the table, and the table sizes are powers of two.\<close>

lemma load_erasers_set:
  "set (load_erasers table is j er) \<subseteq> set er \<union> table_eraser table ` {i \<in> set is. table ! (28 + 2 * i) \<noteq> 0}"
proof (induction "is" arbitrary: j er)
  case (Cons i "is")
  show ?case
    using Cons.IH [of "j + 1" "er[j := table_eraser table i]"] Cons.IH [of j er]
      set_update_subset_insert [of er j "table_eraser table i"] by (simp, blast)
qed simp

lemma length_load_erasers [simp]: "length (load_erasers table is j er) = length er"
  by (induction "is" arbitrary: j er) simp_all

lemma load_erasers_later: "0 < j \<Longrightarrow> load_erasers table is j er ! 0 = er ! 0"
  by (induction "is" arbitrary: j er) simp_all

lemma load_erasers_first:
  assumes "er \<noteq> []"
  shows "load_erasers table is 0 er = er \<or> (\<exists>i. load_erasers table is 0 er ! 0 = table_eraser table i)"
  using assms
proof (induction "is")
  case (Cons i "is")
  then show ?case using load_erasers_later [of 1 table "is" "er[0 := table_eraser table i]"] by auto
qed simp

lemma shift_one_dvd:
  assumes "shift_one m \<le> shift_one n"
  shows "unat (shift_one m) dvd unat (shift_one n)" "shift_one m \<noteq> 0"
proof -
  have u: "unat (shift_one k) = 2 ^ (k mod 32)" for k
  proof -
    have "(2 :: nat) ^ (k mod 32) < 2 ^ 32" by (intro power_strict_increasing) auto
    moreover have "shift_one k = of_nat (2 ^ (k mod 32))" by (simp add: shift_one_def push_bit_eq_mult)
    ultimately show ?thesis by (simp only: unsigned_of_nat) (simp add: take_bit_nat_eq_self)
  qed
  have "(2 :: nat) ^ (m mod 32) \<le> 2 ^ (n mod 32)" using assms by (simp add: word_le_nat_alt u)
  then have "m mod 32 \<le> n mod 32" by simp
  then show "unat (shift_one m) dvd unat (shift_one n)" by (simp add: u le_imp_power_dvd)
  show "shift_one m \<noteq> 0" using u [of m] by (metis power_eq_0_iff unat_eq_0 zero_neq_numeral)
qed

section \<open>The record of the chip\<close>

text \<open>
  What the driver relies on after initialisation: the chip parameters are set, every address
  of the chip can be sent, and when the chip described itself the table of erasers is sorted
  and the first, the smallest, divides the others.
\<close>

definition sfdp_wf :: "'s sfud_flash \<Rightarrow> bool" where
  "sfdp_wf flash \<longleftrightarrow> (available (sfdp flash) \<longrightarrow> length (eraser (sfdp flash)) = SFUD_SFDP_ERASE_TYPE_MAX_NUM \<and>
      erasers_sorted (eraser (sfdp flash)) \<and> eraser_size (eraser (sfdp flash) ! 0) = erase_gran (chip flash) \<and>
      write_mode (chip flash) = (if sfdp_write_gran (sfdp flash) = 1 then SFUD_WM_BYTE else SFUD_WM_PAGE_256B) \<and>
      (\<forall>e \<in> set (eraser (sfdp flash)). eraser_size e \<noteq> 0 \<longrightarrow> unat (erase_gran (chip flash)) dvd unat (eraser_size e)))"

definition flash_wf :: "'s sfud_flash \<Rightarrow> bool" where
  "flash_wf flash \<longleftrightarrow> \<not> chip_unknown (chip flash) \<and> (addr_in_4_byte flash \<or> unat (capacity (chip flash)) \<le> 2 ^ 24) \<and>
    sfdp_wf flash"

definition zero_eraser :: sfud_eraser where
  "zero_eraser = \<lparr>eraser_size = 0, eraser_cmd = 0\<rparr>"

text \<open>The used entries of the table of the chip, packed at the front.\<close>

lemma load_erasers_packed:
  assumes "j + length is \<le> length er"
  shows "load_erasers table is j er =
    (let us = map (table_eraser table) (filter (\<lambda>i. table ! (28 + 2 * i) \<noteq> 0) is) in take j er @ us @ drop (j + length us) er)"
  using assms
proof (induction "is" arbitrary: j er)
  case (Cons i "is")
  let ?e = "table_eraser table i"
  have j: "j < length er" using Cons.prems by simp
  then have "er[j := ?e] = take j er @ [?e] @ drop (j + 1) er" by (simp add: upd_conv_take_nth_drop)
  then have "take (j + 1) (er[j := ?e]) = take j er @ [?e]" "drop (j + 1 + n) (er[j := ?e]) = drop (j + 1 + n) er" for n
    using j by (simp_all add: add.commute)
  then show ?case using Cons.IH [of "j + 1" "er[j := ?e]"] Cons.IH [of j er] Cons.prems by (simp add: Let_def)
qed simp

definition table_erasers :: "u8 list \<Rightarrow> sfud_eraser list" where
  "table_erasers table = map (table_eraser table) (filter (\<lambda>i. table ! (28 + 2 * i) \<noteq> 0) [0..<SFUD_SFDP_ERASE_TYPE_MAX_NUM])"

lemma loaded_erasers_sorted:
  fixes table
  defines "er \<equiv> sort_erasers (load_erasers table [0..<SFUD_SFDP_ERASE_TYPE_MAX_NUM] 0 (replicate SFUD_SFDP_ERASE_TYPE_MAX_NUM zero_eraser))"
  shows "erasers_sorted er" "mset (filter (\<lambda>e. eraser_size e \<noteq> 0) er) = mset (table_erasers table)"
proof -
  let ?us = "table_erasers table"
  define l where "l = load_erasers table [0..<SFUD_SFDP_ERASE_TYPE_MAX_NUM] 0 (replicate SFUD_SFDP_ERASE_TYPE_MAX_NUM zero_eraser)"
  have n: "length ?us \<le> SFUD_SFDP_ERASE_TYPE_MAX_NUM"
    unfolding table_erasers_def using length_filter_le [of _ "[0..<SFUD_SFDP_ERASE_TYPE_MAX_NUM]"] by simp
  have l: "l = ?us @ replicate (SFUD_SFDP_ERASE_TYPE_MAX_NUM - length ?us) zero_eraser"
    unfolding l_def by (subst load_erasers_packed) (simp_all add: Let_def table_erasers_def)
  have u: "eraser_size e \<noteq> 0" if "e \<in> set ?us" for e
    using that shift_one_dvd(2) [OF order_refl] by (auto simp: table_erasers_def table_eraser_def)
  have "sorted_upto 0 (length ?us) l"
    using n u nth_mem [of _ ?us] by (auto simp: sorted_upto_def l nth_append zero_eraser_def)
  note s = sort_erasers_sorted [OF this]
  show "erasers_sorted er" using sorted_upto_erasers [OF s(1)] by (simp add: er_def l_def)
  have "mset (filter (\<lambda>e. eraser_size e \<noteq> 0) er) = filter_mset (\<lambda>e. eraser_size e \<noteq> 0) (mset l)"
    using s(2) by (simp add: er_def l_def)
  also have "\<dots> = mset (filter (\<lambda>e. eraser_size e \<noteq> 0) l)" by simp
  also have "filter (\<lambda>e. eraser_size e \<noteq> 0) l = ?us" using u by (simp add: l zero_eraser_def filter_id_conv)
  finally show "mset (filter (\<lambda>e. eraser_size e \<noteq> 0) er) = mset ?us" .
qed

lemma parsed_erasers:
  assumes "eraser p = replicate SFUD_SFDP_ERASE_TYPE_MAX_NUM zero_eraser" "\<not> available p" "parse_basic_table table p = (ok, p')"
  shows "available p' = ok" "sfdp_write_gran p' = (if bit (table ! 0) 2 then 256 else 1) \<or> \<not> ok"
    "ok \<Longrightarrow> eraser p' = sort_erasers (load_erasers table [0..<SFUD_SFDP_ERASE_TYPE_MAX_NUM] 0 (eraser p))"
  using assms
  by (auto simp: parse_basic_table_def parse_erase_4k_def parse_write_gran_def parse_volatile_def parse_address_def
      parse_capacity_def Let_def split: if_splits option.splits)

lemma first_eraser_divides:
  fixes table
  defines "er \<equiv> sort_erasers (load_erasers table [0..<SFUD_SFDP_ERASE_TYPE_MAX_NUM] 0 (replicate SFUD_SFDP_ERASE_TYPE_MAX_NUM zero_eraser))"
  shows "length er = SFUD_SFDP_ERASE_TYPE_MAX_NUM"
    "e \<in> set er \<Longrightarrow> eraser_size e \<noteq> 0 \<Longrightarrow> (\<exists>i < SFUD_SFDP_ERASE_TYPE_MAX_NUM. e = table_eraser table i) \<and>
      eraser_size (er ! 0) \<noteq> 0 \<and> eraser_size (er ! 0) \<le> eraser_size e \<and> unat (eraser_size (er ! 0)) dvd unat (eraser_size e)"
proof -
  define z where "z = replicate SFUD_SFDP_ERASE_TYPE_MAX_NUM zero_eraser"
  define l where "l = load_erasers table [0..<SFUD_SFDP_ERASE_TYPE_MAX_NUM] 0 z"
  have len: "length l = SFUD_SFDP_ERASE_TYPE_MAX_NUM" by (simp add: l_def z_def)
  have er: "er = sort_erasers l" by (simp add: er_def l_def z_def)
  show "length er = SFUD_SFDP_ERASE_TYPE_MAX_NUM" using sort_erasers_ok(2) [OF len] by (simp add: er)
  have from_table: "\<exists>i < SFUD_SFDP_ERASE_TYPE_MAX_NUM. e = table_eraser table i" if "e \<in> set l" "eraser_size e \<noteq> 0" for e
    using load_erasers_set [of table "[0..<SFUD_SFDP_ERASE_TYPE_MAX_NUM]" 0 z] that
    by (auto simp: l_def z_def zero_eraser_def split: if_splits)
  assume e: "e \<in> set er" "eraser_size e \<noteq> 0"
  then have el: "e \<in> set l" using sort_erasers_ok(1) [OF len] by (simp add: er)
  have "l \<noteq> z" using el e(2) by (auto simp: z_def zero_eraser_def)
  then obtain i where "l ! 0 = table_eraser table i"
    using load_erasers_first [of z table "[0..<SFUD_SFDP_ERASE_TYPE_MAX_NUM]"]
    by (auto simp: l_def z_def SFUD_SFDP_ERASE_TYPE_MAX_NUM_def)
  then have "eraser_size (l ! 0) \<noteq> 0" using shift_one_dvd(2) [OF order_refl] by (simp add: table_eraser_def)
  note first = sort_erasers_ok(3) [OF len this el e(2), folded er]
  have "er ! 0 \<in> set l" using sort_erasers_ok(1,2) [OF len] nth_mem [of 0 er] by (simp add: er SFUD_SFDP_ERASE_TYPE_MAX_NUM_def)
  with first obtain m n where "er ! 0 = table_eraser table m" "e = table_eraser table n" using from_table el e(2) by blast
  then show "(\<exists>i < SFUD_SFDP_ERASE_TYPE_MAX_NUM. e = table_eraser table i) \<and>
      eraser_size (er ! 0) \<noteq> 0 \<and> eraser_size (er ! 0) \<le> eraser_size e \<and> unat (eraser_size (er ! 0)) dvd unat (eraser_size e)"
    using first from_table [OF el e(2)] shift_one_dvd(1) by (simp add: table_eraser_def)
qed

lemma fold_smaller_eraser:
  assumes "\<forall>e \<in> set es. eraser_size e \<noteq> 0 \<longrightarrow> erase_gran c \<le> eraser_size e"
  shows "fold smaller_eraser es c = c"
  using assms by (induction es) (auto simp: smaller_eraser_def)

lemma read_sfdp_record:
  assumes "eraser (sfdp flash) = replicate SFUD_SFDP_ERASE_TYPE_MAX_NUM zero_eraser" "sfud_read_sfdp flash s = (ok, flash', s')"
  shows "available (sfdp flash') = ok" "chip flash' = chip flash" "spi flash' = spi flash"
    "ok \<Longrightarrow> \<exists>table. eraser (sfdp flash') =
      sort_erasers (load_erasers table [0..<SFUD_SFDP_ERASE_TYPE_MAX_NUM] 0 (replicate SFUD_SFDP_ERASE_TYPE_MAX_NUM zero_eraser))"
proof -
  obtain ok1 f1 s1 where h: "read_sfdp_header flash s = (ok1, f1, s1)" by (rule prod_cases3)
  have f1: "eraser (sfdp f1) = replicate SFUD_SFDP_ERASE_TYPE_MAX_NUM zero_eraser" "\<not> available (sfdp f1)"
    "chip f1 = chip flash" "spi f1 = spi flash"
    using h assms(1) by (auto simp: read_sfdp_header_def Let_def split: prod.splits if_splits)
  obtain ok2 b s2 where bh: "read_basic_header f1 s1 = (ok2, b, s2)" by (rule prod_cases3)
  obtain r t s3 where d: "read_sfdp_data f1 (para_ptp b) (unat BASIC_TABLE_LEN * 4) s2 = (r, t, s3)" by (rule prod_cases3)
  obtain ok3 p where p: "parse_basic_table t (sfdp f1) = (ok3, p)" by (rule prod.exhaust)
  note pe = parsed_erasers [OF f1(1,2) p]
  have "flash' = f1 \<and> \<not> ok \<or> ok1 \<and> ok2 \<and> r = SFUD_SUCCESS \<and> flash' = f1\<lparr>sfdp := p\<rparr> \<and> ok = ok3"
    using assms(2) by (auto simp: sfud_read_sfdp_def h bh read_basic_table_def d p split: if_splits)
  then show "available (sfdp flash') = ok" "chip flash' = chip flash" "spi flash' = spi flash"
    "ok \<Longrightarrow> \<exists>table. eraser (sfdp flash') =
      sort_erasers (load_erasers table [0..<SFUD_SFDP_ERASE_TYPE_MAX_NUM] 0 (replicate SFUD_SFDP_ERASE_TYPE_MAX_NUM zero_eraser))"
    using f1 pe by auto
qed

lemma identified:
  assumes "eraser (sfdp flash) = replicate SFUD_SFDP_ERASE_TYPE_MAX_NUM zero_eraser" "\<not> available (sfdp flash)"
    and "identify_chip flash s = (r, flash', s')"
  shows "sfdp_wf flash'"
proof (cases "chip_unknown (chip flash)")
  case True
  obtain r1 f1 s1 where j: "read_jedec_id flash s = (r1, f1, s1)" by (rule prod_cases3)
  have f1: "sfdp f1 = sfdp flash" using j by (auto simp: read_jedec_id_def split: prod.splits if_splits)
  obtain ok f2 s2 where d: "sfud_read_sfdp f1 s1 = (ok, f2, s2)" by (rule prod_cases3)
  note rr = read_sfdp_record [OF _ d, unfolded f1, OF assms(1)]
  consider "flash' = f1" | "\<not> ok" "sfdp flash' = sfdp f2" | "ok" "flash' = f2\<lparr>chip := chip_from_sfdp (sfdp f2) (chip f2)\<rparr>"
    using assms(3) True by (auto simp: identify_chip_def j d split: if_splits)
  then show ?thesis
  proof cases
    case 3
    define er where "er = eraser (sfdp f2)"
    from rr(4) [OF 3(1)] obtain table where er: "er =
        sort_erasers (load_erasers table [0..<SFUD_SFDP_ERASE_TYPE_MAX_NUM] 0 (replicate SFUD_SFDP_ERASE_TYPE_MAX_NUM zero_eraser))"
      unfolding er_def by blast
    note fd = first_eraser_divides [where table = table, folded er]
    have "\<forall>e \<in> set (tl er). eraser_size e \<noteq> 0 \<longrightarrow> eraser_size (er ! 0) \<le> eraser_size e" 
      using fd(2) by (cases er) auto
    then have "erase_gran (chip flash') = eraser_size (er ! 0)"
      "write_mode (chip flash') = (if sfdp_write_gran (sfdp f2) = 1 then SFUD_WM_BYTE else SFUD_WM_PAGE_256B)"
      by (simp_all add: 3(2) chip_from_sfdp_def fold_smaller_eraser er_def)
    then show ?thesis using fd loaded_erasers_sorted(1) [where table = table, folded er] by (auto simp: sfdp_wf_def 3(2) er_def)
  qed (use assms(2) f1 rr(1) in \<open>auto simp: sfdp_wf_def\<close>)
qed (use assms in \<open>auto simp: identify_chip_def sfdp_wf_def\<close>)

lemma prepared:
  assumes "prepare_chip flash s = (SFUD_SUCCESS, flash', s')"
  shows "chip flash' = chip flash" "sfdp flash' = sfdp flash" "spi flash' = spi flash" "retry_times flash' = retry_times flash"
    "addr_in_4_byte flash' \<or> unat (capacity (chip flash)) \<le> 2 ^ 24"
  using assms
  by (auto simp: prepare_chip_def set_4_byte_address_mode_def word_less_nat_alt split: prod.splits if_splits)

lemma device_init_wf:
  assumes "eraser (sfdp flash) = replicate SFUD_SFDP_ERASE_TYPE_MAX_NUM zero_eraser" "\<not> available (sfdp flash)"
    and "sfud_device_init port delay flash s = (SFUD_SUCCESS, flash', s')"
  shows "init_ok flash'" "flash_wf flash'"
proof -
  have z: "eraser (sfdp (sfud_spi_port_init port delay flash)) = replicate SFUD_SFDP_ERASE_TYPE_MAX_NUM zero_eraser"
    "\<not> available (sfdp (sfud_spi_port_init port delay flash))"
    using assms(1,2) by (simp_all add: sfud_spi_port_init_def)
  obtain r1 f1 s1 where i: "identify_chip (sfud_spi_port_init port delay flash) s = (r1, f1, s1)" by (rule prod_cases3)
  obtain r2 f2 s2 where p: "prepare_chip f1 s1 = (r2, f2, s2)" by (rule prod_cases3)
  have c: "r1 = SFUD_SUCCESS" "\<not> chip_unknown (chip f1)" "r2 = SFUD_SUCCESS" "flash' = f2\<lparr>init_ok := True\<rparr>"
    using assms(3) by (auto simp: sfud_device_init_def hardware_init_def software_init_def i p Let_def split: if_splits)
  show "init_ok flash'" by (simp add: c)
  show "flash_wf flash'"
    using identified [OF z i] prepared [OF p [unfolded c(3)]] c(2) by (simp add: flash_wf_def sfdp_wf_def c(4))
qed

lemma cur_eraser_nonzero:
  assumes "flash_wf flash" "cur_eraser flash addr sz = (cmd, e)"
  shows "e \<noteq> 0"
proof (cases "available (sfdp flash)")
  case True
  have "eraser_size (eraser (sfdp flash) ! 0) \<noteq> 0" using assms(1) True by (simp add: flash_wf_def sfdp_wf_def chip_unknown_def)
  then show ?thesis
    using assms(2) True suitable_eraser_from_fits [of "eraser (sfdp flash)" addr sz 3]
    by (auto simp: cur_eraser_def sfud_sfdp_get_suitable_eraser_def Let_def SMALLEST_ERASER_INDEX_def
        SFUD_SFDP_ERASE_TYPE_MAX_NUM_def eraser_fits_def split: if_splits)
qed (use assms in \<open>simp add: cur_eraser_def flash_wf_def chip_unknown_def\<close>)

lemma erase_loop_returns:
  assumes "flash_wf flash"
  shows "erase_loop flash addr sz s \<noteq> None"
proof (induction "unat sz" arbitrary: addr sz s rule: less_induct)
  case less
  obtain cmd e where c: "cur_eraser flash addr sz = (cmd, e)" by (rule prod.exhaust)
  obtain r s1 where o: "erase_one flash cmd addr s = (r, s1)" by (rule prod.exhaust)
  have e: "e \<noteq> 0" by (rule cur_eraser_nonzero [OF assms c])
  have z: "\<not> (available (sfdp flash) \<and> eraser_size (eraser (sfdp flash) ! SMALLEST_ERASER_INDEX) = 0)"
    using assms by (auto simp: flash_wf_def sfdp_wf_def chip_unknown_def SMALLEST_ERASER_INDEX_def)
  have "erase_loop flash (addr + align_len addr e) (sz - align_len addr e) s1 \<noteq> None" if "align_len addr e < sz"
    using less.hyps [OF loop_step_less] that e by auto
  then show ?case using e z by (subst erase_loop.simps) (auto simp: c o Let_def)
qed

lemma sfud_erase_returns:
  assumes "flash_wf flash"
  shows "sfud_erase flash addr sz s \<noteq> None"
  using erase_loop_returns [OF assms] by (simp add: sfud_erase_def)

section \<open>A chip that describes itself\<close>

text \<open>
  A chip of 2 Mbytes with blocks of 4 and 64 Kbytes whose parameters announce single byte
  writes, behind a device record as the probe clears it.
\<close>

definition byte_table :: "u8 list" where
  "byte_table = [0xE1, 0x20, 0, 0xFF, 0xFF, 0xFF, 0xFF, 0, 0, 0, 0, 0, 0, 0, 0, 0, 0, 0, 0, 0, 0, 0, 0, 0, 0, 0, 0, 0,
    12, 0x20, 16, 0xD8, 0, 0, 0, 0]"

definition byte_chip :: nor where
  "byte_chip = \<lparr>nor_sfdp = [0x53, 0x46, 0x44, 0x50, 0, 1, 0, 0xFF, 0, 0, 1, 9, 16, 0, 0, 0xFF] @ byte_table,
    nor_cells = (\<lambda>_. 0), nor_wel = False, nor_busy = 0, nor_depth = 0, nor_clean = True\<rparr>"

definition blank_sfdp :: sfud_sfdp where
  "blank_sfdp = \<lparr>available = False, sfdp_major_rev = 0, sfdp_minor_rev = 0, sfdp_write_gran = 0, erase_4k = False, erase_4k_cmd = 0,
    sr_is_non_vola = False, vola_sr_we_cmd = 0, addr_3_byte = False, addr_4_byte = False, sfdp_capacity = 0,
    eraser = replicate SFUD_SFDP_ERASE_TYPE_MAX_NUM zero_eraser\<rparr>"

definition blank_flash :: "nor sfud_flash" where
  "blank_flash = \<lparr>chip = \<lparr>chip_name = None, mf_id = 0, type_id = 0, capacity_id = 0, capacity = 0, write_mode = 0, erase_gran = 0,
      erase_gran_cmd = 0\<rparr>,
    spi = nor_spi, init_ok = False, addr_in_4_byte = False, retry_delay = None, retry_times = 0, sfdp = blank_sfdp\<rparr>"

definition byte_sfdp :: sfud_sfdp where
  "byte_sfdp = \<lparr>available = True, sfdp_major_rev = 1, sfdp_minor_rev = 0, sfdp_write_gran = 1, erase_4k = True, erase_4k_cmd = 0x20,
    sr_is_non_vola = True, vola_sr_we_cmd = 0, addr_3_byte = True, addr_4_byte = False, sfdp_capacity = 0x200000,
    eraser = [\<lparr>eraser_size = 4096, eraser_cmd = 0x20\<rparr>, \<lparr>eraser_size = 65536, eraser_cmd = 0xD8\<rparr>, zero_eraser, zero_eraser]\<rparr>"

definition byte_flash :: "nor sfud_flash" where
  "byte_flash = \<lparr>chip = \<lparr>chip_name = None, mf_id = 0xEF, type_id = 0x40, capacity_id = 0x15, capacity = 0x200000,
      write_mode = SFUD_WM_BYTE, erase_gran = 4096, erase_gran_cmd = 0x20\<rparr>,
    spi = nor_spi, init_ok = True, addr_in_4_byte = False, retry_delay = Some (\<lambda>s. s), retry_times = 600000, sfdp = byte_sfdp\<rparr>"

lemma byte_table_parsed:
  "parse_basic_table byte_table (blank_sfdp\<lparr>sfdp_major_rev := 1\<rparr>) = (True, byte_sfdp)"
  by code_simp

definition byte_chip_used :: nor where
  "byte_chip_used = byte_chip\<lparr>nor_clean := False\<rparr>"

lemma nor_idle:
  assumes "spi flash = nor_spi" "nor_busy s = 0"
  shows "wait_busy flash s = (SFUD_SUCCESS, s\<lparr>nor_clean := nor_clean s \<and> 0 < nor_depth s\<rparr>)"
proof -
  have "sfud_read_status flash s = (SFUD_SUCCESS, [push_bit 1 (of_bool (nor_wel s))], s\<lparr>nor_clean := nor_clean s \<and> 0 < nor_depth s\<rparr>)"
    using assms by (simp add: sfud_read_status_def nor_spi_def nor_wr_def Let_def)
  moreover have "push_bit 1 (of_bool b) AND SFUD_STATUS_REGISTER_BUSY = 0" for b
    by (cases b) (simp_all add: SFUD_STATUS_REGISTER_BUSY_def)
  ultimately show ?thesis by (cases "unat (retry_times flash)") (simp_all add: wait_busy_def)
qed

lemma nor_other:
  assumes "spi flash = nor_spi" "c = cmd # a" "cmd \<notin> {SFUD_CMD_READ_STATUS_REGISTER, SFUD_CMD_WRITE_ENABLE, SFUD_CMD_WRITE_DISABLE, SFUD_CMD_ERASE_CHIP}"
  shows "wr (spi flash) c n byte_chip = (SFUD_SUCCESS, nor_command cmd (take 3 a) (drop 3 a) n byte_chip_used)"
    "wr (spi flash) c n byte_chip_used = (SFUD_SUCCESS, nor_command cmd (take 3 a) (drop 3 a) n byte_chip_used)"
  using assms by (auto simp: nor_spi_def nor_wr_def byte_chip_used_def byte_chip_def Let_def)

definition byte_found :: "nor sfud_flash" where
  "byte_found = blank_flash\<lparr>chip := (chip blank_flash)\<lparr>mf_id := 0xEF, type_id := 0x40, capacity_id := 0x15\<rparr>,
    retry_delay := Some (\<lambda>s. s), retry_times := 600000\<rparr>"

lemma byte_jedec:
  "read_jedec_id (sfud_spi_port_init nor_spi (\<lambda>s. s) blank_flash) byte_chip = (SFUD_SUCCESS, byte_found, byte_chip_used)"
proof -
  have "spi (sfud_spi_port_init nor_spi (\<lambda>s. s) blank_flash) = nor_spi" by (simp add: sfud_spi_port_init_def)
  note nor_other(1) [OF this refl, of SFUD_CMD_JEDEC_ID "[]" 3]
  moreover have "nor_command SFUD_CMD_JEDEC_ID [] [] 3 byte_chip_used = ([0xEF, 0x40, 0x15], byte_chip_used)"
    by (simp add: nor_command_def SFUD_CMD_JEDEC_ID_def)
  ultimately show ?thesis
    by (simp add: read_jedec_id_def sfud_cmd_defs SFUD_CMD_JEDEC_ID_def byte_found_def sfud_spi_port_init_def blank_flash_def)
qed

lemma byte_data:
  assumes "spi flash = nor_spi" "unat addr < 2 ^ 24"
  shows "read_sfdp_data flash addr n byte_chip_used = (SFUD_SUCCESS, take n (drop (unat addr) (nor_sfdp byte_chip)), byte_chip_used)"
proof -
  define f where "f = flash\<lparr>addr_in_4_byte := False\<rparr>"
  have b: "make_adress_byte_array f addr = [ucast (drop_bit 16 addr), ucast (drop_bit 8 addr), ucast addr]"
    by (simp add: make_adress_byte_array_def f_def upt_conv_Cons)
  have "addr_of (make_adress_byte_array f addr) = unat addr" using assms(2) by (intro addr_of_bytes) simp
  then show ?thesis
    using nor_other(2) [OF assms(1) refl, of SFUD_CMD_READ_SFDP_REGISTER
        "[ucast (drop_bit 16 addr), ucast (drop_bit 8 addr), ucast addr, SFUD_DUMMY_DATA]" n]
    by (simp add: read_sfdp_data_def b nor_command_def SFUD_CMD_READ_SFDP_REGISTER_def sfud_cmd_defs byte_chip_used_def)
qed

lemma byte_read_sfdp: "sfud_read_sfdp byte_found byte_chip_used = (True, byte_found\<lparr>sfdp := byte_sfdp\<rparr>, byte_chip_used)"
proof -
  define f where "f = byte_found\<lparr>sfdp := blank_sfdp\<lparr>sfdp_major_rev := 1\<rparr>\<rparr>"
  have sp: "spi byte_found = nor_spi" "spi f = nor_spi" "sfdp byte_found = blank_sfdp"
    by (simp_all add: byte_found_def blank_flash_def f_def)
  have h: "read_sfdp_header byte_found byte_chip_used = (True, f, byte_chip_used)"
    using sp by (simp add: read_sfdp_header_def Let_def byte_data f_def byte_chip_def SUPPORT_MAX_SFDP_MAJOR_REV_def blank_sfdp_def)
  have "\<exists>b. read_basic_header f byte_chip_used = (True, b, byte_chip_used) \<and> para_ptp b = 16"
    using sp by (simp add: read_basic_header_def Let_def byte_data byte_chip_def SUPPORT_MAX_SFDP_MAJOR_REV_def BASIC_TABLE_LEN_def)
  then obtain b where b: "read_basic_header f byte_chip_used = (True, b, byte_chip_used)" "para_ptp b = 16" by blast
  have "read_sfdp_data f (para_ptp b) (unat BASIC_TABLE_LEN * 4) byte_chip_used = (SFUD_SUCCESS, byte_table, byte_chip_used)"
    using sp by (simp add: byte_data b(2) byte_chip_def byte_table_def BASIC_TABLE_LEN_def)
  then have "read_basic_table f b byte_chip_used = (True, byte_found\<lparr>sfdp := byte_sfdp\<rparr>, byte_chip_used)"
    by (simp add: read_basic_table_def f_def byte_table_parsed)
  then show ?thesis by (simp add: sfud_read_sfdp_def h b(1))
qed

lemma byte_prepared:
  assumes "spi flash = nor_spi" "write_mode (chip flash) = SFUD_WM_BYTE" "capacity (chip flash) = 0x200000"
  shows "prepare_chip flash byte_chip_used = (SFUD_SUCCESS, flash\<lparr>addr_in_4_byte := False\<rparr>, byte_chip_used)"
proof -
  have w: "wait_busy flash byte_chip_used = (SFUD_SUCCESS, byte_chip_used)"
    using nor_idle [OF assms(1), of byte_chip_used] by (simp add: byte_chip_used_def byte_chip_def)
  have "wr (spi flash) [cmd] 0 byte_chip_used = (SFUD_SUCCESS, [], byte_chip_used)" if "cmd \<in> {SFUD_CMD_ENABLE_RESET, SFUD_CMD_RESET}" for cmd
    using that nor_other(2) [OF assms(1) refl, of cmd "[]" 0]
    by (auto simp: nor_command_def nor_esize_def sfud_cmd_defs SFUD_CMD_ENABLE_RESET_def SFUD_CMD_RESET_def)
  then show ?thesis
    using assms by (simp add: prepare_chip_def reset_def w SFUD_WM_BYTE_def SFUD_WM_AAI_def)
qed

lemma byte_init: "sfud_device_init nor_spi (\<lambda>s. s) blank_flash byte_chip = (SFUD_SUCCESS, byte_flash, byte_chip_used)"
proof -
  define f where "f = byte_flash\<lparr>init_ok := False\<rparr>"
  have "chip_unknown (chip (sfud_spi_port_init nor_spi (\<lambda>s. s) blank_flash))"
    by (simp add: chip_unknown_def sfud_spi_port_init_def blank_flash_def)
  then have i: "identify_chip (sfud_spi_port_init nor_spi (\<lambda>s. s) blank_flash) byte_chip = (SFUD_SUCCESS, f, byte_chip_used)"
    by (simp add: identify_chip_def byte_jedec byte_read_sfdp)
      (simp add: f_def chip_from_sfdp_def byte_flash_def byte_sfdp_def byte_found_def blank_flash_def smaller_eraser_def
        zero_eraser_def)
  moreover have "\<not> chip_unknown (chip f)" by (simp add: f_def byte_flash_def chip_unknown_def SFUD_WM_BYTE_def)
  moreover have "prepare_chip f byte_chip_used = (SFUD_SUCCESS, f, byte_chip_used)"
    using byte_prepared [of f] by (simp add: f_def byte_flash_def)
  ultimately show ?thesis by (simp add: sfud_device_init_def hardware_init_def software_init_def f_def byte_flash_def)
qed

text \<open>On a sorted table the search from the end finds the largest eraser that fits.\<close>

lemma suitable_eraser_largest:
  assumes s: "\<And>a b. a < b \<Longrightarrow> b \<le> n \<Longrightarrow> eraser_size (er ! b) \<noteq> 0 \<Longrightarrow> eraser_size (er ! a) \<le> eraser_size (er ! b)"
    and "j \<le> n" "eraser_fits (er ! j) addr sz"
  shows "eraser_size (er ! j) \<le> eraser_size (er ! suitable_eraser_from er addr sz n)"
  using assms
proof (induction n)
  case (Suc n)
  show ?case
  proof (cases "eraser_fits (er ! Suc n) addr sz")
    case True
    then show ?thesis using Suc.prems(1) [of j "Suc n"] Suc.prems(2) by (cases "j = Suc n") (auto simp: eraser_fits_def)
  next
    case False
    then have "j \<le> n" using Suc.prems(2,3) by (cases "j = Suc n") auto
    then show ?thesis using False Suc.IH Suc.prems(1,3) by simp
  qed
qed (simp add: SMALLEST_ERASER_INDEX_def)

lemma cur_eraser_largest:
  assumes "available (sfdp flash)" "erasers_sorted (eraser (sfdp flash))" "length (eraser (sfdp flash)) = SFUD_SFDP_ERASE_TYPE_MAX_NUM"
    and d: "\<And>e. e \<in> set (eraser (sfdp flash)) \<Longrightarrow> eraser_size e \<noteq> 0 \<Longrightarrow> unat (eraser_size (eraser (sfdp flash) ! 0)) dvd unat (eraser_size e)"
    and e: "e \<in> set (eraser (sfdp flash))" "eraser_fits e addr sz"
  shows "eraser_size e \<le> snd (cur_eraser flash addr sz)"
proof -
  let ?er = "eraser (sfdp flash)"
  obtain m where m: "m \<le> length ?er" "sorted (map eraser_size (take m ?er))" "\<And>k. k < length ?er \<Longrightarrow> eraser_size (?er ! k) \<noteq> 0 \<longleftrightarrow> k < m"
    using assms(2) by (auto simp: erasers_sorted_def)
  obtain j where j: "j < length ?er" "e = ?er ! j" using e(1) by (metis in_set_conv_nth)
  have nz: "eraser_size e \<noteq> 0" "addr mod eraser_size e = 0" using e(2) by (simp_all add: eraser_fits_def)
  have "unat addr mod unat (eraser_size e) = 0" using nz(2) by (metis unat_0 unat_mod)
  then have "unat addr mod unat (eraser_size (?er ! 0)) = 0" using d [OF e(1) nz(1)] by (metis dvd_trans mod_0_imp_dvd dvd_imp_mod_0)
  then have z: "addr mod eraser_size (?er ! SMALLEST_ERASER_INDEX) = 0" by (simp add: SMALLEST_ERASER_INDEX_def unat_eq_0 [symmetric] unat_mod)
  have s: "eraser_size (?er ! a) \<le> eraser_size (?er ! b)" if "a < b" "b \<le> SFUD_SFDP_ERASE_TYPE_MAX_NUM - 1" "eraser_size (?er ! b) \<noteq> 0" for a b
  proof -
    have "b < length ?er" using that(2) assms(3) by (simp add: SFUD_SFDP_ERASE_TYPE_MAX_NUM_def)
    then have "b < m" using that(3) m(3) by simp
    then show ?thesis using m(1,2) that(1) by (auto simp: sorted_iff_nth_mono_less)
  qed
  have "eraser_size (?er ! j) \<le> eraser_size (?er ! suitable_eraser_from ?er addr sz (SFUD_SFDP_ERASE_TYPE_MAX_NUM - 1))"
    by (rule suitable_eraser_largest [OF s]) (use j e(2) assms(3) in \<open>auto simp: SFUD_SFDP_ERASE_TYPE_MAX_NUM_def\<close>)
  then show ?thesis using assms(1) z j(2) by (simp add: cur_eraser_def sfud_sfdp_get_suitable_eraser_def Let_def)
qed

section \<open>Properties\<close>

text \<open>
  C24: A chip that was initialised can be used.  Whatever bytes the chip answers, when
  \<open>sfud_device_init\<close> reports success on a device record that was cleared before, the record is
  well-formed and an erase of any range ends without a division by zero.  When the chip
  described itself, the eraser table is sorted by size with the unused entries behind, and
  the eraser chosen for a range is the largest that fits.  If the recorded erase commands are
  the ones of the chip they are a table the erase routine covers every range with.  The used
  entries of the sorted table are those of the table the chip sent, each as often.
\<close>

theorem sfud_device_init_usable:
  assumes "eraser (sfdp flash) = replicate SFUD_SFDP_ERASE_TYPE_MAX_NUM zero_eraser" "\<not> available (sfdp flash)"
    and "sfud_device_init port delay flash s = (SFUD_SUCCESS, flash', s')"
  shows "init_ok flash' \<and> flash_wf flash' \<and> (\<forall>addr sz t. sfud_erase flash' addr sz t \<noteq> None) \<and>
    (available (sfdp flash') \<longrightarrow> erasers_sorted (eraser (sfdp flash')) \<and>
      (\<forall>e \<in> set (eraser (sfdp flash')). \<forall>addr sz. eraser_fits e addr sz \<longrightarrow> eraser_size e \<le> snd (cur_eraser flash' addr sz))) \<and>
    ((if available (sfdp flash') then \<forall>e \<in> set (eraser (sfdp flash')). eraser_size e \<noteq> 0 \<longrightarrow> esize (eraser_cmd e) = unat (eraser_size e)
      else esize (erase_gran_cmd (chip flash')) = unat (erase_gran (chip flash'))) \<longrightarrow>
     erasers_ok flash' esize (unat (erase_gran (chip flash')))) \<and>
    (\<forall>table p p'. eraser p = replicate SFUD_SFDP_ERASE_TYPE_MAX_NUM zero_eraser \<longrightarrow> parse_basic_table table p = (True, p') \<longrightarrow>
      erasers_sorted (eraser p') \<and> mset (filter (\<lambda>e. eraser_size e \<noteq> 0) (eraser p')) = mset (table_erasers table))"
proof (intro conjI)
  note w = device_init_wf [OF assms]
  show "init_ok flash'" "flash_wf flash'" by (rule w)+
  show "\<forall>addr sz t. sfud_erase flash' addr sz t \<noteq> None" using sfud_erase_returns [OF w(2)] by blast
  show "available (sfdp flash') \<longrightarrow> erasers_sorted (eraser (sfdp flash')) \<and>
      (\<forall>e \<in> set (eraser (sfdp flash')). \<forall>addr sz. eraser_fits e addr sz \<longrightarrow> eraser_size e \<le> snd (cur_eraser flash' addr sz))"
    using w(2) cur_eraser_largest [of flash'] by (simp add: flash_wf_def sfdp_wf_def)
  have "0 < unat (erase_gran (chip flash'))" using w(2) by (simp add: flash_wf_def chip_unknown_def unat_gt_0)
  then show "(if available (sfdp flash') then \<forall>e \<in> set (eraser (sfdp flash')). eraser_size e \<noteq> 0 \<longrightarrow> esize (eraser_cmd e) = unat (eraser_size e)
      else esize (erase_gran_cmd (chip flash')) = unat (erase_gran (chip flash'))) \<longrightarrow>
     erasers_ok flash' esize (unat (erase_gran (chip flash')))"
    using w(2) by (auto simp: flash_wf_def sfdp_wf_def erasers_ok_def)
  have "eraser p' = sort_erasers (load_erasers table [0..<SFUD_SFDP_ERASE_TYPE_MAX_NUM] 0 (eraser p))"
    if "parse_basic_table table p = (True, p')" for table p p'
    using that by (auto simp: parse_basic_table_def parse_erase_4k_def parse_write_gran_def parse_volatile_def parse_address_def
      parse_capacity_def Let_def split: if_splits option.splits)
  then show "\<forall>table p p'. eraser p = replicate SFUD_SFDP_ERASE_TYPE_MAX_NUM zero_eraser \<longrightarrow> parse_basic_table table p = (True, p') \<longrightarrow>
      erasers_sorted (eraser p') \<and> mset (filter (\<lambda>e. eraser_size e \<noteq> 0) (eraser p')) = mset (table_erasers table)"
    using loaded_erasers_sorted by simp
qed

theorem sfud_device_init_usable_witness:
  "\<exists>flash' s'. sfud_device_init nor_spi (\<lambda>s. s) blank_flash byte_chip = (SFUD_SUCCESS, flash', s') \<and> erasers_ok flash' nor_esize 4096"
proof -
  have "eraser (sfdp blank_flash) = replicate SFUD_SFDP_ERASE_TYPE_MAX_NUM zero_eraser" "\<not> available (sfdp blank_flash)"
    by (simp_all add: blank_flash_def blank_sfdp_def)
  from sfud_device_init_usable [OF this byte_init, of nor_esize] byte_init show ?thesis
    by (auto simp: byte_flash_def byte_sfdp_def nor_esize_def zero_eraser_def)
qed

text \<open>
  C29: A chip that describes itself as writable by single bytes loses what is written.  The
  initialisation records the byte mode for it, which \<open>sfud_write\<close> does not handle: erase with
  write reports success, and afterwards the range reads as ones, whatever the data was.
\<close>

theorem sfud_byte_chip_loses_data:
  assumes "eraser (sfdp flash) = replicate SFUD_SFDP_ERASE_TYPE_MAX_NUM zero_eraser" "\<not> available (sfdp flash)"
    and "sfud_device_init port delay flash s = (SFUD_SUCCESS, flash', s')"
    and "available (sfdp flash')" "sfdp_write_gran (sfdp flash') = 1"
    and "nor_flash flash' cells wel busy esize" "erasers_ok flash' esize (unat (erase_gran (chip flash')))"
    and "unat (erase_gran (chip flash')) dvd unat (capacity (chip flash'))" "busy t = 0"
    and "sz \<noteq> 0" "unat addr + unat sz \<le> unat (capacity (chip flash'))"
  shows "\<exists>t1 t2. sfud_erase_write flash' addr sz data t = Some (SFUD_SUCCESS, t1) \<and>
    sfud_read flash' addr sz t1 = (SFUD_SUCCESS, replicate (unat sz) 0xFF, t2)"
proof -
  note w = device_init_wf(2) [OF assms(1-3)]
  let ?g = "unat (erase_gran (chip flash'))"
  have m: "write_mode (chip flash') = SFUD_WM_BYTE" using w assms(4,5) by (simp add: flash_wf_def sfdp_wf_def)
  have a: "addr_in_4_byte flash' \<or> unat (capacity (chip flash')) \<le> 2 ^ 24" using w by (simp add: flash_wf_def)
  have "nor_flash.at_rest cells busy (cells t) t" using assms(9) by (simp add: nor_flash.at_rest_def [OF assms(6)])
  from nor_flash.erases [OF assms(6,7) a assms(8) this assms(10,11)] obtain t1 where
    t1: "sfud_erase flash' addr sz t = Some (SFUD_SUCCESS, t1)"
      "nor_flash.at_rest cells busy (erased_range ?g (unat addr) (unat sz) (cells t)) t1" by blast
  from nor_flash.reads [OF assms(6) a t1(2) assms(10,11)] obtain t2 where
    "sfud_read flash' addr sz t1 = (SFUD_SUCCESS, map (\<lambda>i. erased_range ?g (unat addr) (unat sz) (cells t) (unat addr + i)) [0..<unat sz], t2)"
    by blast
  moreover have "map (\<lambda>i. erased_range ?g (unat addr) (unat sz) (cells t) (unat addr + i)) [0..<unat sz] = replicate (unat sz) 0xFF"
    by (rule nth_equalityI) (auto simp: erased_range_def intro!: div_le_mono)
  moreover have "sfud_write flash' addr sz data t1 = (SFUD_SUCCESS, t1)"
    by (simp add: sfud_write_def m SFUD_WM_BYTE_def SFUD_WM_PAGE_256B_def SFUD_WM_AAI_def)
  ultimately show ?thesis using t1(1) by (simp add: sfud_erase_write_def)
qed

theorem sfud_byte_chip_loses_data_witness:
  "\<exists>flash t1 t2. sfud_device_init nor_spi (\<lambda>s. s) blank_flash byte_chip = (SFUD_SUCCESS, flash, byte_chip_used) \<and>
    sfud_erase_write flash 0x1000 3 [1, 2, 3] byte_chip_used = Some (SFUD_SUCCESS, t1) \<and>
    sfud_read flash 0x1000 3 t1 = (SFUD_SUCCESS, [0xFF, 0xFF, 0xFF], t2)"
proof -
  have z: "eraser (sfdp blank_flash) = replicate SFUD_SFDP_ERASE_TYPE_MAX_NUM zero_eraser" "\<not> available (sfdp blank_flash)"
    by (simp_all add: blank_flash_def blank_sfdp_def)
  have f: "available (sfdp byte_flash)" "sfdp_write_gran (sfdp byte_flash) = 1" "erase_gran (chip byte_flash) = 4096"
    "capacity (chip byte_flash) = 0x200000"
    by (simp_all add: byte_flash_def byte_sfdp_def)
  have n: "nor_flash byte_flash nor_cells nor_wel nor_busy nor_esize"
    by (rule nor_spi_chip) (simp_all add: byte_flash_def SFUD_WM_BYTE_def SFUD_WM_DUAL_BUFFER_def)
  have e: "erasers_ok byte_flash nor_esize (unat (erase_gran (chip byte_flash)))"
    by (simp add: erasers_ok_def byte_flash_def byte_sfdp_def nor_esize_def zero_eraser_def SFUD_SFDP_ERASE_TYPE_MAX_NUM_def)
  have "nor_busy byte_chip_used = 0" by (simp add: byte_chip_used_def byte_chip_def)
  moreover have "replicate (unat (3 :: u32)) (0xFF :: u8) = [0xFF, 0xFF, 0xFF]" by code_simp
  ultimately show ?thesis
    using sfud_byte_chip_loses_data [OF z byte_init f(1,2) n e, of byte_chip_used 3 "0x1000" "[1, 2, 3]"] byte_init by (simp add: f)
qed

end
