(* ===== verification/Env.thy ===== *)
theory Env
  imports SfudInit
begin

text \<open>
  The environment (env/env.c): a list of strings \<open>name=value\<close> that is kept in a region of the
  flash (board/tl-wr810n_v2/flash/flash.c).  The chain of nodes from \<open>head\<close> is a list; a node
  has its address, its string and the bytes of memory behind the string's terminator.  The
  results of the allocator are arguments: the address of the new block and what lies behind
  its cleared bytes, or nothing.
\<close>

section \<open>Nodes and control block\<close>

record env_node =
  node_ptr :: u32
  node_str :: "u8 list"
  node_rest :: "nat \<Rightarrow> u8"

definition node_data :: "env_node \<Rightarrow> nat \<Rightarrow> u8" where
  "node_data nd i =
    (if i < length (node_str nd) then node_str nd ! i else if i = length (node_str nd) then 0 else node_rest nd i)"

record env_ctb =
  env_flag :: u32
  env_length :: u32
  env_free :: u32
  env_count :: u32
  env_head :: "env_node list"

definition ENV_ENABLE :: u32 where "ENV_ENABLE = 1"

type_synonym block = "u32 \<times> (nat \<Rightarrow> u8)"

definition env_is_end :: "(nat \<Rightarrow> u8) \<Rightarrow> nat \<Rightarrow> bool" where
  "env_is_end b p \<longleftrightarrow> b p = 0 \<and> b (p + 1) = 0"

definition env_node_add :: "env_node \<Rightarrow> env_ctb \<Rightarrow> env_ctb" where
  "env_node_add new_node e = e\<lparr>env_head := env_head e @ [new_node],
    env_free := env_free e - (of_nat (length (node_str new_node)) + 1), env_count := env_count e + 1\<rparr>"

primrec unlink_node :: "u32 \<Rightarrow> env_node list \<Rightarrow> env_node list option" where
  "unlink_node p [] = None"
| "unlink_node p (nd # nds) = (if node_ptr nd = p then Some nds else map_option (Cons nd) (unlink_node p nds))"

definition env_node_delete :: "env_node \<Rightarrow> env_ctb \<Rightarrow> env_ctb" where
  "env_node_delete del_node e =
    (case unlink_node (node_ptr del_node) (env_head e) of
       None \<Rightarrow> e
     | Some nds \<Rightarrow> e\<lparr>env_head := nds,
         env_free := env_free e + (of_nat (length (node_str del_node)) + 1), env_count := env_count e - 1\<rparr>)"

definition env_node_search :: "u8 list \<Rightarrow> env_ctb \<Rightarrow> env_node option" where
  "env_node_search name e =
    find (\<lambda>nd. node_data nd (length name) = 0x3D \<and> rt_memcmp (node_data nd) (\<lambda>i. name ! i) (length name) = 0) (env_head e)"

section \<open>Variables\<close>

definition env_set :: "block option \<Rightarrow> u8 list \<Rightarrow> u8 list \<Rightarrow> env_ctb \<Rightarrow> env_ctb" where
  "env_set new name data e =
    (let e = (case env_node_search name e of None \<Rightarrow> e | Some nd \<Rightarrow> env_node_delete nd e) in
     case new of
       None \<Rightarrow> e
     | Some (p, rest) \<Rightarrow> env_node_add \<lparr>node_ptr = p, node_str = name @ [0x3D] @ data, node_rest = rest\<rparr> e)"

definition env_unset :: "u8 list \<Rightarrow> env_ctb \<Rightarrow> env_ctb" where
  "env_unset name e = (case env_node_search name e of None \<Rightarrow> e | Some nd \<Rightarrow> env_node_delete nd e)"

definition env_get :: "u8 list \<Rightarrow> env_ctb \<Rightarrow> u8 list option" where
  "env_get name e = map_option (\<lambda>nd. drop (length name + 1) (node_str nd)) (env_node_search name e)"

section \<open>Reading and saving\<close>

function env_parse :: "(nat \<Rightarrow> u8) \<Rightarrow> nat \<Rightarrow> (nat \<Rightarrow> block option) \<Rightarrow> nat \<Rightarrow> env_ctb \<Rightarrow> env_ctb option" where
  "env_parse b len new p e =
    (if len \<le> p \<or> env_is_end b p then Some e
     else case rt_strlen (\<lambda>i. b (p + 1 + i)) of
       None \<Rightarrow> None
     | Some n \<Rightarrow> (case new (length (env_head e)) of
         None \<Rightarrow> Some e
       | Some (q, rest) \<Rightarrow>
           env_parse b len new (p + 1 + n)
             (env_node_add \<lparr>node_ptr = q, node_str = map (\<lambda>i. b (p + 1 + i)) [0..<n], node_rest = rest\<rparr> e)))"
  by pat_completeness auto

termination
  by (relation "measure (\<lambda>(_, len, _, p, _). len - p)") auto

declare env_parse.simps [simp del]

definition env_init :: "u32 \<Rightarrow> u32 \<Rightarrow> (nat \<Rightarrow> u8) option \<Rightarrow> (nat \<Rightarrow> block option) \<Rightarrow> (u8 list \<Rightarrow> 's \<Rightarrow> u8 list \<times> 's) \<Rightarrow>
    env_ctb \<Rightarrow> 's \<Rightarrow> env_ctb option \<times> 's" where
  "env_init board_flag board_length buf new board_read e s =
    (let e = e\<lparr>env_flag := board_flag\<rparr>;
         e = (if env_flag e = ENV_ENABLE then e\<lparr>env_length := board_length\<rparr> else e) in
     if env_length e = 0 then (Some e, s)
     else case buf of
       None \<Rightarrow> (Some e, s)
     | Some beyond \<Rightarrow>
         case board_read (replicate (unat (env_length e)) 0) s of (tmp_buf, s) \<Rightarrow>
         let b = (\<lambda>i. if i < unat (env_length e) then tmp_buf ! i else beyond i);
             e = e\<lparr>env_free := env_length e - 4\<rparr>
         in if b 0 \<noteq> 0x45 \<or> b 1 \<noteq> 0x4E \<or> b 2 \<noteq> 0x56 \<or> b 3 \<noteq> 0 then (Some e, s)
            else (env_parse b (unat (env_length e)) new 3 e, s))"

primrec env_fill :: "nat \<Rightarrow> env_node list \<Rightarrow> u8 list \<Rightarrow> u8 list" where
  "env_fill p [] buf = buf"
| "env_fill p (nd # nds) buf =
    (let tmp_len = length (node_str nd) in
     if p + tmp_len < length buf then env_fill (p + tmp_len + 1) nds (blit buf p (node_str nd @ [0])) else buf)"

definition env_image :: "env_ctb \<Rightarrow> u8 list" where
  "env_image e = env_fill 4 (env_head e) (blit (replicate (unat (env_length e)) 0) 0 [0x45, 0x4E, 0x56, 0])"

definition env_save :: "bool \<Rightarrow> (u8 list \<Rightarrow> 's \<Rightarrow> 's option) \<Rightarrow> env_ctb \<Rightarrow> 's \<Rightarrow> 's option" where
  "env_save buf board_write e s =
    (if env_length e = 0 \<or> \<not> buf then Some s else board_write (env_image e) s)"

section \<open>The flash region of the board\<close>

definition board_get_env_flag :: u32 where "board_get_env_flag = 1"
definition board_get_env_length :: u32 where "board_get_env_length = 0x2000"

text \<open>
  Without a flash driver the region is read through the memory map, \<open>mapped\<close>.
\<close>

definition board_get_env_read :: "'s sfud_flash option \<Rightarrow> u8 list \<Rightarrow> u8 list \<Rightarrow> 's \<Rightarrow> u8 list \<times> 's" where
  "board_get_env_read sfud_dev mapped buffer s =
    (case sfud_dev of
       None \<Rightarrow> (blit buffer 0 mapped, s)
     | Some dev \<Rightarrow> (case sfud_read dev 0x1D000 0x2000 s of (_, data, s) \<Rightarrow> (blit buffer 0 data, s)))"

definition board_get_env_write :: "'s sfud_flash option \<Rightarrow> u8 list \<Rightarrow> 's \<Rightarrow> 's option" where
  "board_get_env_write sfud_dev buffer s =
    (case sfud_dev of
       None \<Rightarrow> Some s
     | Some dev \<Rightarrow> map_option (\<lambda>(_, s). snd (sfud_write dev 0x1D000 0x2000 buffer s)) (sfud_erase dev 0x1D000 0x2000 s))"

section \<open>The shell command\<close>

text \<open>The strings \<open>set\<close>, \<open>get\<close>, \<open>unset\<close>, \<open>list\<close> and \<open>save\<close>.\<close>

definition str_set :: "u8 list" where "str_set = [0x73, 0x65, 0x74]"
definition str_get :: "u8 list" where "str_get = [0x67, 0x65, 0x74]"
definition str_unset :: "u8 list" where "str_unset = [0x75, 0x6E, 0x73, 0x65, 0x74]"
definition str_list :: "u8 list" where "str_list = [0x6C, 0x69, 0x73, 0x74]"
definition str_save :: "u8 list" where "str_save = [0x73, 0x61, 0x76, 0x65]"

datatype env_reply =
    Env_done
  | Env_value "u8 list" "u8 list"
  | Env_not_found "u8 list"
  | Env_listing u32 u32 u32 "u8 list list"
  | Env_too_few_arg
  | Env_valid_cmd

definition env_list :: "env_ctb \<Rightarrow> env_reply" where
  "env_list e = Env_listing (env_length e) (env_free e) (env_count e) (map node_str (env_head e))"

definition env_command :: "block option \<Rightarrow> bool \<Rightarrow> (u8 list \<Rightarrow> 's \<Rightarrow> 's option) \<Rightarrow> u8 list list \<Rightarrow> env_ctb \<Rightarrow> 's \<Rightarrow>
    (env_reply \<times> env_ctb \<times> 's) option" where
  "env_command new buf board_write argv e s =
    (if length argv < 2 then Some (Env_too_few_arg, e, s)
     else if argv ! 1 = str_set then
       (if length argv < 4 then Some (Env_too_few_arg, e, s) else Some (Env_done, env_set new (argv ! 2) (argv ! 3) e, s))
     else if argv ! 1 = str_get then
       (if length argv < 3 then Some (Env_too_few_arg, e, s)
        else case env_get (argv ! 2) e of
          Some data \<Rightarrow> Some (Env_value (argv ! 2) data, e, s)
        | None \<Rightarrow> Some (Env_not_found (argv ! 2), e, s))
     else if argv ! 1 = str_unset then
       (if length argv < 3 then Some (Env_too_few_arg, e, s) else Some (Env_done, env_unset (argv ! 2) e, s))
     else if argv ! 1 = str_list then Some (env_list e, e, s)
     else if argv ! 1 = str_save then map_option (\<lambda>s. (Env_done, e, s)) (env_save buf board_write e s)
     else Some (Env_valid_cmd, e, s))"

section \<open>The environment as a map\<close>

definition has_name :: "env_node \<Rightarrow> bool" where
  "has_name nd \<longleftrightarrow> 0x3D \<in> set (node_str nd)"

definition node_name :: "env_node \<Rightarrow> u8 list" where
  "node_name nd = takeWhile (\<lambda>c. c \<noteq> 0x3D) (node_str nd)"

definition node_value :: "env_node \<Rightarrow> u8 list" where
  "node_value nd = drop (length (node_name nd) + 1) (node_str nd)"

definition variables :: "env_node list \<Rightarrow> (u8 list \<times> u8 list) list" where
  "variables nds = map (\<lambda>nd. (node_name nd, node_value nd)) (filter has_name nds)"

definition env_abs :: "env_ctb \<Rightarrow> u8 list \<rightharpoonup> u8 list" where
  "env_abs e = map_of (variables (env_head e))"

definition env_size :: "env_node list \<Rightarrow> nat" where
  "env_size nds = sum_list (map (\<lambda>nd. length (node_str nd) + 1) nds)"

definition env_inv :: "env_ctb \<Rightarrow> bool" where
  "env_inv e \<longleftrightarrow> distinct (map node_ptr (env_head e)) \<and> distinct (map fst (variables (env_head e))) \<and>
    (\<forall>nd \<in> set (env_head e). node_str nd \<noteq> [] \<and> 0 \<notin> set (node_str nd)) \<and>
    env_count e = of_nat (length (env_head e)) \<and> env_free e = env_length e - 4 - of_nat (env_size (env_head e))"

definition legal_name :: "u8 list \<Rightarrow> bool" where
  "legal_name name \<longleftrightarrow> 0 \<notin> set name \<and> 0x3D \<notin> set name"

lemma takeWhile_name:
  assumes "0x3D \<notin> set name"
  shows "takeWhile (\<lambda>c. c \<noteq> (0x3D :: u8)) (name @ 0x3D # v) = name"
proof -
  have "takeWhile (\<lambda>c. c \<noteq> (0x3D :: u8)) (name @ 0x3D # v) = name @ takeWhile (\<lambda>c. c \<noteq> 0x3D) (0x3D # v)"
    using assms by (intro takeWhile_append2) auto
  then show ?thesis by simp
qed

lemma named_iff:
  assumes "0x3D \<notin> set name"
  shows "has_name nd \<and> node_name nd = name \<longleftrightarrow> (\<exists>v. node_str nd = name @ 0x3D # v)"
proof
  assume r: "has_name nd \<and> node_name nd = name"
  then obtain ys zs where y: "node_str nd = ys @ 0x3D # zs" "0x3D \<notin> set ys" unfolding has_name_def using split_list_first by metis
  then have "ys = name" using r takeWhile_name [OF y(2), of zs] by (simp add: node_name_def)
  then show "\<exists>v. node_str nd = name @ 0x3D # v" using y(1) by blast
next
  assume "\<exists>v. node_str nd = name @ 0x3D # v"
  then obtain v where "node_str nd = name @ 0x3D # v" by blast
  then show "has_name nd \<and> node_name nd = name" using takeWhile_name [OF assms, of v] by (simp add: has_name_def node_name_def)
qed

text \<open>
  The comparison looks at the byte behind the length of the name first, which may lie behind
  the end of a shorter string; the bytes found there never make a difference.
\<close>

lemma node_matches:
  assumes "legal_name name"
  shows "node_data nd (length name) = 0x3D \<and> rt_memcmp (node_data nd) (\<lambda>i. name ! i) (length name) = 0 \<longleftrightarrow>
    has_name nd \<and> node_name nd = name"
proof -
  have "node_data nd (length name) = 0x3D \<and> (\<forall>i < length name. node_data nd i = name ! i) \<longleftrightarrow> (\<exists>v. node_str nd = name @ 0x3D # v)"
  proof
    assume l: "node_data nd (length name) = 0x3D \<and> (\<forall>i < length name. node_data nd i = name ! i)"
    have "\<not> length (node_str nd) < length name"
    proof
      assume 2: "length (node_str nd) < length name"
      then have "name ! length (node_str nd) = 0" using l by (metis less_irrefl node_data_def)
      moreover have "name ! length (node_str nd) \<in> set name" using 2 by (rule nth_mem)
      ultimately show False using assms by (simp add: legal_name_def)
    qed
    moreover have "length (node_str nd) \<noteq> length name" using l by (auto simp: node_data_def)
    ultimately have lt: "length name < length (node_str nd)" by simp
    then have "take (length name) (node_str nd) = name" using l by (intro nth_equalityI) (auto simp: node_data_def)
    then have "node_str nd = name @ 0x3D # drop (Suc (length name)) (node_str nd)"
      using id_take_nth_drop [OF lt] l lt by (simp add: node_data_def)
    then show "\<exists>v. node_str nd = name @ 0x3D # v" by blast
  next
    assume "\<exists>v. node_str nd = name @ 0x3D # v"
    then obtain v where "node_str nd = name @ 0x3D # v" by blast
    then show "node_data nd (length name) = 0x3D \<and> (\<forall>i < length name. node_data nd i = name ! i)"
      by (simp add: node_data_def nth_append)
  qed
  then show ?thesis using named_iff [of name nd] assms by (simp add: rt_memcmp_zero legal_name_def)
qed

lemma search_named:
  assumes "legal_name name"
  shows "env_node_search name e = find (\<lambda>nd. has_name nd \<and> node_name nd = name) (env_head e)"
  unfolding env_node_search_def using node_matches [OF assms] by simp

lemma env_get_abs:
  assumes "legal_name name"
  shows "env_get name e = env_abs e name"
proof -
  have "map_option (\<lambda>nd. drop (length name + 1) (node_str nd)) (find (\<lambda>nd. has_name nd \<and> node_name nd = name) nds) =
      map_of (variables nds) name" for nds
    by (induction nds) (auto simp: variables_def node_value_def)
  then show ?thesis by (simp add: env_get_def search_named [OF assms] env_abs_def)
qed

lemma find_SomeD: "find P xs = Some x \<Longrightarrow> P x \<and> x \<in> set xs"
  by (induction xs) (auto split: if_splits)

lemma unlink_at:
  assumes "distinct (map node_ptr (xs @ nd # ys))"
  shows "unlink_node (node_ptr nd) (xs @ nd # ys) = Some (xs @ ys)"
  using assms by (induction xs) auto

lemma map_of_without:
  assumes "distinct (map fst (xs @ (k, v) # ys))"
  shows "map_of (xs @ ys) = (map_of (xs @ (k, v) # ys))(k := None)"
proof
  fix x
  have "k \<notin> fst ` set xs" "k \<notin> fst ` set ys" using assms by auto
  then have "map_of xs k = None" "map_of ys k = None" by (simp_all add: map_of_eq_None_iff)
  then show "map_of (xs @ ys) x = ((map_of (xs @ (k, v) # ys))(k := None)) x" by (auto simp: map_add_def split: option.splits)
qed

text \<open>What a call removes: nothing, or the one node of that name.\<close>

lemma search_split:
  assumes "env_inv e" "legal_name name"
  obtains "env_node_search name e = None" "env_abs e name = None"
  | xs nd ys where "env_node_search name e = Some nd" "env_head e = xs @ nd # ys" "has_name nd" "node_name nd = name"
      "env_node_delete nd e = e\<lparr>env_head := xs @ ys, env_free := env_free e + (of_nat (length (node_str nd)) + 1),
        env_count := env_count e - 1\<rparr>"
proof (cases "env_node_search name e")
  case None
  then show ?thesis using that(1) env_get_abs [OF assms(2), of e] by (simp add: env_get_def)
next
  case (Some nd)
  then have f: "nd \<in> set (env_head e)" "has_name nd" "node_name nd = name"
    unfolding search_named [OF assms(2)] by (auto dest: find_SomeD)
  obtain xs ys where h: "env_head e = xs @ nd # ys" using split_list [OF f(1)] by blast
  have "unlink_node (node_ptr nd) (env_head e) = Some (xs @ ys)" unfolding h
    using assms(1) h by (intro unlink_at) (simp add: env_inv_def)
  then show ?thesis by (intro that(2) [OF Some h f(2,3)]) (simp add: env_node_delete_def)
qed

lemma env_unset_ok:
  assumes "env_inv e" "legal_name name"
  shows "env_inv (env_unset name e)" "env_abs (env_unset name e) = (env_abs e)(name := None)"
    "\<forall>q \<in> set (env_head (env_unset name e)). q \<in> set (env_head e) \<and> env_node_search name e \<noteq> Some q"
    "env_length (env_unset name e) = env_length e"
proof -
  have "env_inv (env_unset name e) \<and> env_abs (env_unset name e) = (env_abs e)(name := None) \<and>
    (\<forall>q \<in> set (env_head (env_unset name e)). q \<in> set (env_head e) \<and> env_node_search name e \<noteq> Some q) \<and> env_length (env_unset name e) = env_length e"
  proof (rule search_split [OF assms], goal_cases)
    case 1
    then show ?case using assms(1) by (simp add: env_unset_def fun_upd_idem)
  next
    case (2 xs nd ys)
    have u: "env_unset name e = e\<lparr>env_head := xs @ ys, env_free := env_free e + (of_nat (length (node_str nd)) + 1),
        env_count := env_count e - 1\<rparr>"
      using 2(1,5) by (simp add: env_unset_def)
    have v: "variables (xs @ nd # ys) = variables xs @ (name, node_value nd) # variables ys" "variables (xs @ ys) = variables xs @ variables ys"
      using 2(3,4) by (simp_all add: variables_def)
    have d: "distinct (map fst (variables xs @ (name, node_value nd) # variables ys))" "distinct (map node_ptr (xs @ nd # ys))"
      "\<forall>nd \<in> set (xs @ nd # ys). node_str nd \<noteq> [] \<and> 0 \<notin> set (node_str nd)"
      "env_count e = of_nat (length (xs @ nd # ys))" "env_free e = env_length e - 4 - of_nat (env_size (xs @ nd # ys))"
      using assms(1) unfolding env_inv_def 2(2) v by auto
    have "env_abs (env_unset name e) = (env_abs e)(name := None)"
      using map_of_without [OF d(1)] by (simp add: env_abs_def u 2(2) v)
    moreover have "env_inv (env_unset name e)"
      unfolding env_inv_def u using d by (simp add: v(2) env_size_def)
    moreover have "nd \<notin> set (xs @ ys)" using d(2) by auto
    ultimately show ?case using 2(1) by (auto simp: u 2(2))
  qed
  then show "env_inv (env_unset name e)" "env_abs (env_unset name e) = (env_abs e)(name := None)"
    "\<forall>q \<in> set (env_head (env_unset name e)). q \<in> set (env_head e) \<and> env_node_search name e \<noteq> Some q"
    "env_length (env_unset name e) = env_length e" by auto
qed

lemma env_set_unset:
  "env_set None name data e = env_unset name e"
  "env_set (Some (p, rest)) name data e =
    env_node_add \<lparr>node_ptr = p, node_str = name @ [0x3D] @ data, node_rest = rest\<rparr> (env_unset name e)"
  by (simp_all add: env_set_def env_unset_def)

lemma env_node_add_ok:
  fixes rest
  assumes "env_inv e" "legal_name name" "0 \<notin> set data" "p \<notin> set (map node_ptr (env_head e))" "env_abs e name = None"
  defines "nd \<equiv> \<lparr>node_ptr = p, node_str = name @ [0x3D] @ data, node_rest = rest\<rparr>"
  shows "env_inv (env_node_add nd e)" "env_abs (env_node_add nd e) = (env_abs e)(name \<mapsto> data)"
proof -
  have n: "has_name nd" "node_name nd = name"
    using named_iff [of name nd] assms(2) by (auto simp: legal_name_def nd_def)
  then have v: "node_value nd = data" by (simp add: node_value_def nd_def)
  have vs: "variables (env_head e @ [nd]) = variables (env_head e) @ [(name, data)]" using n v by (simp add: variables_def)
  have k: "name \<notin> fst ` set (variables (env_head e))" using assms(5) by (simp add: env_abs_def map_of_eq_None_iff)
  show "env_abs (env_node_add nd e) = (env_abs e)(name \<mapsto> data)"
    using assms(5) by (auto simp: env_abs_def env_node_add_def vs map_add_def fun_eq_iff split: option.splits)
  show "env_inv (env_node_add nd e)"
  proof -
    have "node_ptr nd = p" "node_str nd = name @ [0x3D] @ data" by (simp_all add: nd_def)
    then show ?thesis
      using assms(1-4) k unfolding env_inv_def env_node_add_def by (simp add: vs env_size_def legal_name_def)
  qed
qed

section \<open>The image in the flash\<close>

definition flat :: "u8 list list \<Rightarrow> u8 list" where
  "flat strs = concat (map (\<lambda>str. str @ [0]) strs)"

lemma length_flat: "length (flat (map node_str nds)) = env_size nds"
  by (induction nds) (simp_all add: flat_def env_size_def)

lemma env_fill_flat:
  assumes "p + env_size nds \<le> length buf"
  shows "env_fill p nds buf = blit buf p (flat (map node_str nds))"
  using assms
proof (induction nds arbitrary: p buf)
  case Nil
  then show ?case by (simp add: flat_def blit_def)
next
  case (Cons nd nds)
  let ?s = "node_str nd @ [0]" and ?r = "flat (map node_str nds)"
  have sz: "env_size (nd # nds) = length ?s + env_size nds" by (simp add: env_size_def)
  have "blit (blit buf p ?s) (p + length ?s) ?r = blit buf p (?s @ ?r)"
    using Cons.prems by (simp add: blit_def sz drop_append ac_simps)
  moreover have "env_fill (p + length (node_str nd) + 1) nds (blit buf p ?s) = blit (blit buf p ?s) (p + length ?s) ?r"
    using Cons.IH [of "p + length ?s" "blit buf p ?s"] Cons.prems by (simp add: sz)
  ultimately show ?case using Cons.prems by (simp add: sz Let_def flat_def)
qed

lemma env_image_flat:
  assumes "4 + env_size (env_head e) \<le> unat (env_length e)"
  shows "env_image e = [0x45, 0x4E, 0x56, 0] @ flat (map node_str (env_head e)) @
    replicate (unat (env_length e) - (4 + env_size (env_head e))) 0"
  unfolding env_image_def using assms
  by (subst env_fill_flat) (simp_all add: blit_def length_flat numeral_eq_Suc)

lemma env_parse_steps:
  assumes "\<forall>str \<in> set strs. str \<noteq> [] \<and> 0 \<notin> set str" "\<forall>k. new k \<noteq> None" "b p = 0"
    and "\<forall>i < length (flat strs). b (p + 1 + i) = flat strs ! i" "p + length (flat strs) \<le> len"
  shows "\<exists>nds. map node_str nds = strs \<and> map node_ptr nds = map (\<lambda>k. fst (the (new k))) [length (env_head e)..<length (env_head e) + length strs] \<and>
    b (p + length (flat strs)) = 0 \<and> env_parse b len new p e = env_parse b len new (p + length (flat strs)) (fold env_node_add nds e)"
  using assms
proof (induction strs arbitrary: p e)
  case Nil
  then show ?case by (simp add: flat_def)
next
  case (Cons str strs)
  let ?r = "flat strs"
  have fl: "flat (str # strs) = str @ 0 # ?r" by (simp add: flat_def)
  obtain q rest where q: "new (length (env_head e)) = Some (q, rest)" using Cons.prems(2) by (metis not_None_eq surj_pair)
  have at: "b (p + 1 + i) = (str @ 0 # ?r) ! i" if "i < length str + 1 + length ?r" for i
    using Cons.prems(4) that by (simp add: fl)
  have s: "str_at (\<lambda>i. b (p + 1 + i)) str"
    using Cons.prems(1) at by (auto simp: str_at_def nth_append)
  have m: "map (\<lambda>i. b (p + 1 + i)) [0..<length str] = str" using s by (intro nth_equalityI) (auto simp: str_at_def)
  have ne: "\<not> env_is_end b p" using Cons.prems(1) at [of 0] by (cases str) (auto simp: env_is_end_def)
  define nd where "nd = \<lparr>node_ptr = q, node_str = str, node_rest = rest\<rparr>"
  have step: "env_parse b len new p e = env_parse b len new (p + 1 + length str) (env_node_add nd e)"
    unfolding env_parse.simps [of b len new p e] rt_strlen_str [OF s] q option.case prod.case m nd_def
    using ne Cons.prems(5) by (simp add: fl)
  have "b (p + 1 + length str) = 0" using at [of "length str"] by simp
  moreover have "\<forall>i < length ?r. b (p + 1 + length str + 1 + i) = ?r ! i"
    using at [of "length str + 1 + i" for i] by (auto simp: nth_append add.assoc)
  moreover have "p + 1 + length str + length ?r \<le> len" using Cons.prems(5) by (simp add: fl)
  moreover have h: "length (env_head (env_node_add nd e)) = Suc (length (env_head e))" by (simp add: env_node_add_def)
  ultimately obtain nds where n: "map node_str nds = strs"
    "map node_ptr nds = map (\<lambda>k. fst (the (new k))) [Suc (length (env_head e))..<Suc (length (env_head e)) + length strs]"
    "b (p + 1 + length str + length ?r) = 0"
    "env_parse b len new (p + 1 + length str) (env_node_add nd e) =
      env_parse b len new (p + 1 + length str + length ?r) (fold env_node_add nds (env_node_add nd e))"
    using Cons.IH [of "p + 1 + length str" "env_node_add nd e"] Cons.prems(1,2) unfolding h by auto
  have "[length (env_head e)..<length (env_head e) + length (str # strs)] =
      length (env_head e) # [Suc (length (env_head e))..<Suc (length (env_head e)) + length strs]"
    by (subst upt_conv_Cons) auto
  moreover have "p + length (flat (str # strs)) = p + 1 + length str + length ?r" by (simp add: fl)
  moreover have "env_parse b len new p e = env_parse b len new (p + 1 + length str + length ?r) (fold env_node_add (nd # nds) e)"
    using step n(4) by simp
  moreover have "node_str nd = str" "node_ptr nd = fst (the (new (length (env_head e))))" by (simp_all add: nd_def q)
  ultimately show ?case using n(1-3) by (intro exI [of _ "nd # nds"] conjI) (simp_all add: add.assoc del: upt.simps)
qed

lemma fold_env_node_add:
  "env_head (fold env_node_add nds e) = env_head e @ nds" "env_length (fold env_node_add nds e) = env_length e"
  "env_count (fold env_node_add nds e) = env_count e + of_nat (length nds)"
  "env_free (fold env_node_add nds e) = env_free e - of_nat (env_size nds)"
  by (induction nds arbitrary: e) (simp_all add: env_node_add_def env_size_def diff_diff_eq)

lemma variables_strs: "variables nds = map (\<lambda>str. (takeWhile (\<lambda>c. c \<noteq> 0x3D) str, drop (length (takeWhile (\<lambda>c. c \<noteq> 0x3D) str) + 1) str))
    (filter (\<lambda>str. 0x3D \<in> set str) (map node_str nds))"
  by (induction nds) (simp_all add: variables_def has_name_def node_name_def node_value_def)

lemma env_size_strs: "env_size nds = sum_list (map (\<lambda>str. length str + 1) (map node_str nds))"
  by (simp add: env_size_def comp_def)

text \<open>Reading an image with room for the end mark gives the variables it was made from.\<close>

lemma env_init_image:
  assumes "env_inv e" "4 + env_size (env_head e) < unat (env_length e)" "\<forall>k. new k \<noteq> None" "inj_on (\<lambda>k. fst (the (new k))) {..<length (env_head e)}"
    and "env_head e0 = []" "env_count e0 = 0" "read (replicate (unat (env_length e)) 0) s = (env_image e, s')"
  shows "\<exists>e'. env_init ENV_ENABLE (env_length e) (Some beyond) new read e0 s = (Some e', s') \<and>
    env_inv e' \<and> env_abs e' = env_abs e \<and> env_list e' = env_list e"
proof -
  let ?L = "unat (env_length e)" and ?strs = "map node_str (env_head e)"
  define b where "b = (\<lambda>i. if i < ?L then env_image e ! i else beyond i)"
  define e1 where "e1 = e0\<lparr>env_flag := ENV_ENABLE, env_length := env_length e, env_free := env_length e - 4\<rparr>"
  have lf: "length (flat ?strs) = env_size (env_head e)" by (rule length_flat)
  have im: "env_image e = [0x45, 0x4E, 0x56, 0] @ flat ?strs @ replicate (?L - (4 + env_size (env_head e))) 0"
    using assms(2) by (intro env_image_flat) simp
  have b4: "b (4 + i) = (flat ?strs @ replicate (?L - (4 + env_size (env_head e))) 0) ! i" if "4 + i < ?L" for i
    using that by (simp add: b_def im)
  have hd: "b 0 = 0x45" "b 1 = 0x4E" "b 2 = 0x56" "b 3 = 0" using assms(2) by (simp_all add: b_def im)
  have "\<forall>str \<in> set ?strs. str \<noteq> [] \<and> 0 \<notin> set str" using assms(1) by (auto simp: env_inv_def)
  moreover have "\<forall>i < length (flat ?strs). b (3 + 1 + i) = flat ?strs ! i"
    using b4 assms(2) lf by (simp add: nth_append)
  moreover have "b (3 + 1 + length (flat ?strs)) = 0"
    using b4 [of "length (flat ?strs)"] assms(2) lf by (simp add: nth_append)
  moreover have "3 + length (flat ?strs) \<le> ?L" using assms(2) lf by simp
  ultimately obtain nds where n: "map node_str nds = ?strs"
    "map node_ptr nds = map (\<lambda>k. fst (the (new k))) [length (env_head e1)..<length (env_head e1) + length ?strs]"
    "b (3 + length (flat ?strs)) = 0" "b (3 + 1 + length (flat ?strs)) = 0"
    "env_parse b ?L new 3 e1 = env_parse b ?L new (3 + length (flat ?strs)) (fold env_node_add nds e1)"
    using env_parse_steps [of ?strs new b 3 ?L e1] assms(3) hd(4) by blast
  have parsed: "env_parse b ?L new 3 e1 = Some (fold env_node_add nds e1)"
    unfolding n(5) using n(3,4) by (subst env_parse.simps) (simp add: env_is_end_def)
  define e' where "e' = fold env_node_add nds e1"
  have f: "env_head e' = nds" "env_length e' = env_length e" "env_count e' = of_nat (length nds)"
    "env_free e' = env_length e - 4 - of_nat (env_size nds)"
    using assms(5,6) by (simp_all add: e'_def fold_env_node_add e1_def)
  have len: "length nds = length (env_head e)" using n(1) by (metis length_map)
  have v: "variables nds = variables (env_head e)" "env_size nds = env_size (env_head e)"
    using n(1) by (simp_all only: variables_strs env_size_strs)
  have "env_inv e'"
    unfolding env_inv_def f
  proof (intro conjI)
    show "distinct (map node_ptr nds)" 
      unfolding n(2) using assms(4,5) by (simp add: distinct_map e1_def lessThan_atLeast0)
    show "distinct (map fst (variables nds))" using assms(1) by (simp add: v env_inv_def)
    show "\<forall>nd \<in> set nds. node_str nd \<noteq> [] \<and> 0 \<notin> set (node_str nd)"
      using \<open>\<forall>str \<in> set ?strs. str \<noteq> [] \<and> 0 \<notin> set str\<close> by (simp flip: n(1))
  qed simp_all
  moreover have "env_init ENV_ENABLE (env_length e) (Some beyond) new read e0 s = (Some e', s')"
    using assms(2,7) hd parsed by (auto simp: env_init_def Let_def b_def e1_def e'_def)
  moreover have "env_list e' = env_list e" using assms(1) len v(2) n(1) by (simp add: env_list_def f env_inv_def)
  ultimately show ?thesis by (auto simp: env_abs_def f v)
qed

section \<open>Properties\<close>

text \<open>
  C26: The environment is a map.  For names without an equals sign reading a variable gives
  the value of the map; setting one maps the name to the new value and changes no other name;
  unsetting removes it; the entries stay distinct and the counters of entries and free bytes
  exact.  When the allocation of the new entry fails, setting a variable has removed it.  The
  allocator may answer with any block but those of the entries that stay: the old entry of
  the name was freed before, so its block may be the new one.
\<close>

theorem env_refines_map:
  assumes "env_inv e" "legal_name name" "0 \<notin> set data"
    and "\<forall>nd \<in> set (env_head e). node_ptr nd = p \<longrightarrow> env_node_search name e = Some nd"
  shows "env_get name e = env_abs e name \<and>
    env_inv (env_set (Some (p, rest)) name data e) \<and> env_abs (env_set (Some (p, rest)) name data e) = (env_abs e)(name \<mapsto> data) \<and>
    env_inv (env_unset name e) \<and> env_abs (env_unset name e) = (env_abs e)(name := None) \<and>
    env_inv (env_set None name data e) \<and> env_abs (env_set None name data e) = (env_abs e)(name := None)"
proof -
  note u = env_unset_ok [OF assms(1,2)]
  have "p \<notin> set (map node_ptr (env_head (env_unset name e)))" using u(3) assms(4) by auto
  moreover have "env_abs (env_unset name e) name = None" by (simp add: u(2))
  ultimately show ?thesis
    using env_node_add_ok [OF u(1) assms(2,3), of p rest] u(1,2) env_get_abs [OF assms(2), of e]
    by (simp add: env_set_unset)
qed

definition boot_env :: env_ctb where
  "boot_env = \<lparr>env_flag = 1, env_length = 0x2000, env_free = 0x1FF8, env_count = 1,
    env_head = [\<lparr>node_ptr = 0x81000100, node_str = [0x61, 0x3D, 0x31], node_rest = (\<lambda>_. 0xAA)\<rparr>]\<rparr>"

lemma boot_env_inv: "env_inv boot_env" "env_abs boot_env = [[0x61] \<mapsto> [0x31]]"
  by (simp_all add: env_inv_def boot_env_def variables_def has_name_def node_name_def node_value_def env_size_def env_abs_def)

theorem env_refines_map_witness:
  "env_abs (env_set (Some (0x81000100, \<lambda>_. 0)) [0x61] [0x32] boot_env) = [[0x61] \<mapsto> [0x32]] \<and>
   env_get [0x61] (env_set (Some (0x81000200, \<lambda>_. 0)) [0x62] [0x32] boot_env) = Some [0x31] \<and>
   env_abs (env_set (Some (0x81000200, \<lambda>_. 0)) [0x62] [0x32] boot_env) [0x62] = Some [0x32]"
proof -
  have n: "legal_name [0x61]" "legal_name [0x62]" "0 \<notin> set [0x32 :: u8]" by (simp_all add: legal_name_def)
  have "\<forall>nd \<in> set (env_head boot_env). node_ptr nd = 0x81000100 \<longrightarrow> env_node_search [0x61] boot_env = Some nd"
    by (simp add: search_named [OF n(1)]) (simp add: boot_env_def has_name_def node_name_def)
  note o = env_refines_map [OF boot_env_inv(1) n(1,3) this, of "\<lambda>_. 0"]
  have "\<forall>nd \<in> set (env_head boot_env). node_ptr nd = 0x81000200 \<longrightarrow> env_node_search [0x62] boot_env = Some nd"
    by (simp add: boot_env_def)
  note r = env_refines_map [OF boot_env_inv(1) n(2,3) this, of "\<lambda>_. 0"]
  have "env_get [0x61] e = env_abs e [0x61]" for e by (rule env_get_abs [OF n(1)])
  then show ?thesis using r o by (simp add: boot_env_inv(2))
qed

text \<open>
  C25: The environment survives a restart.  With a flash driver on a NOR flash that holds the
  region, saving an environment that leaves room for the end mark and reading it back into an
  empty one gives the same variables in the same order, and nothing outside the erase blocks
  of the region has changed.
\<close>

theorem env_survives_restart:
  assumes "nor_flash flash cells wel busy esize" "erasers_ok flash esize g"
    and "addr_in_4_byte flash \<or> unat (capacity (chip flash)) \<le> 2 ^ 24" "g dvd unat (capacity (chip flash))"
    and "write_mode (chip flash) AND SFUD_WM_PAGE_256B \<noteq> 0" "busy s = 0" "0x1F000 \<le> unat (capacity (chip flash))"
    and "env_inv e" "env_length e = board_get_env_length" "4 + env_size (env_head e) < 0x2000"
    and "\<forall>k. new k \<noteq> None" "inj_on (\<lambda>k. fst (the (new k))) {..<length (env_head e)}" "env_head e0 = []" "env_count e0 = 0"
  shows "\<exists>s1 e' s2. env_save True (board_get_env_write (Some flash)) e s = Some s1 \<and>
    env_init board_get_env_flag board_get_env_length (Some beyond) new (board_get_env_read (Some flash) mapped) e0 s1 = (Some e', s2) \<and>
    env_inv e' \<and> env_abs e' = env_abs e \<and> env_list e' = env_list e \<and>
    cells s2 = rewritten g 0x1D000 (env_image e) (cells s)"
proof -
  have len: "unat (env_length e) = 0x2000" by (simp add: assms(9) board_get_env_length_def)
  have il: "length (env_image e) = unat (0x2000 :: u32)"
    using assms(10) by (subst env_image_flat) (simp_all add: len length_flat)
  have sz: "(0x2000 :: u32) \<noteq> 0" "unat (0x1D000 :: u32) + unat (0x2000 :: u32) \<le> unat (capacity (chip flash))" using assms(7) by simp_all
  note at_rest = nor_flash.at_rest_def [OF assms(1)]
  have r: "nor_flash.at_rest cells busy (cells s) s" using assms(6) by (simp add: at_rest)
  from nor_flash.erases [OF assms(1-4) r sz] obtain t1 where
    t1: "sfud_erase flash 0x1D000 0x2000 s = Some (SFUD_SUCCESS, t1)"
      "nor_flash.at_rest cells busy (erased_range g (unat (0x1D000 :: u32)) (unat (0x2000 :: u32)) (cells s)) t1" by blast
  let ?c = "rewritten g (unat (0x1D000 :: u32)) (env_image e) (cells s)"
  from nor_flash.writes [OF assms(1,5,3) t1(2) il sz(2)] obtain s1 where
    s1: "sfud_write flash 0x1D000 0x2000 (env_image e) t1 = (SFUD_SUCCESS, s1)" "nor_flash.at_rest cells busy ?c s1"
    unfolding il [symmetric] program_erased by blast
  from nor_flash.reads [OF assms(1,3) s1(2) sz] obtain s2 where
    s2: "sfud_read flash 0x1D000 0x2000 s1 = (SFUD_SUCCESS, env_image e, s2)" "nor_flash.at_rest cells busy ?c s2"
    unfolding il [symmetric] rewritten_read by blast
  have "board_get_env_read (Some flash) mapped (replicate (unat (env_length e)) 0) s1 = (env_image e, s2)"
    using il by (simp add: board_get_env_read_def s2(1) blit_def len)
  from env_init_image [where read = "board_get_env_read (Some flash) mapped", OF assms(8) _ assms(11-14) this, of beyond] assms(10) obtain e' where
    "env_init ENV_ENABLE (env_length e) (Some beyond) new (board_get_env_read (Some flash) mapped) e0 s1 = (Some e', s2)"
    "env_inv e'" "env_abs e' = env_abs e" "env_list e' = env_list e"
    by (auto simp: len)
  moreover have "env_save True (board_get_env_write (Some flash)) e s = Some s1"
    by (simp add: env_save_def board_get_env_write_def t1(1) s1(1) assms(9) board_get_env_length_def)
  moreover have "cells s2 = rewritten g 0x1D000 (env_image e) (cells s)" using s2(2) by (simp add: at_rest)
  ultimately show ?thesis using assms(9) by (auto simp: board_get_env_flag_def ENV_ENABLE_def)
qed

theorem env_survives_restart_witness:
  "\<exists>s1 e' s2. env_save True (board_get_env_write (Some w25q16)) boot_env
      \<lparr>nor_sfdp = [], nor_cells = (\<lambda>_. 0), nor_wel = False, nor_busy = 0, nor_depth = 0, nor_clean = True\<rparr> = Some s1 \<and>
    env_init board_get_env_flag board_get_env_length (Some (\<lambda>_. 7)) (\<lambda>k. Some (0x81000000 + of_nat k, \<lambda>_. 0))
      (board_get_env_read (Some w25q16) []) (boot_env\<lparr>env_head := [], env_count := 0\<rparr>) s1 = (Some e', s2) \<and>
    env_abs e' [0x61] = Some [0x31]"
proof -
  let ?s = "\<lparr>nor_sfdp = [], nor_cells = (\<lambda>_. 0), nor_wel = False, nor_busy = 0, nor_depth = 0, nor_clean = True\<rparr>"
  have "write_mode (chip w25q16) AND SFUD_WM_PAGE_256B \<noteq> 0" by (simp add: SFUD_WM_PAGE_256B_def)
  moreover have "inj_on (\<lambda>k. fst (the (Some (0x81000000 + of_nat k :: u32, \<lambda>_ :: nat. 0 :: u8)))) {..<length (env_head boot_env)}"
    by (simp add: boot_env_def inj_on_def)
  ultimately show ?thesis
    using env_survives_restart [OF w25q.nor_flash_axioms w25q16_ok, of ?s boot_env
        "\<lambda>k. Some (0x81000000 + of_nat k, \<lambda>_. 0)" "boot_env\<lparr>env_head := [], env_count := 0\<rparr>" "\<lambda>_. 7" "[]"] boot_env_inv
    by (auto simp: env_size_def board_get_env_length_def) (auto simp: boot_env_def)
qed

text \<open>
  C27: A full environment is read with what lies behind the buffer.  When the entries fill the
  region to the last byte there is no end mark, and reading the image takes the bytes behind
  the buffer for one more entry.
\<close>

theorem env_full_overruns:
  assumes "env_inv e" "4 + env_size (env_head e) = unat (env_length e)" "\<forall>k. new k \<noteq> None"
    and "env_head e0 = []" "read (replicate (unat (env_length e)) 0) s = (env_image e, s')"
    and "str_at (\<lambda>i. beyond (unat (env_length e) + i)) junk" "junk \<noteq> []"
  shows "\<exists>e'. env_init ENV_ENABLE (env_length e) (Some beyond) new read e0 s = (Some e', s') \<and>
    map node_str (env_head e') = map node_str (env_head e) @ [junk]"
proof -
  let ?L = "unat (env_length e)" and ?strs = "map node_str (env_head e)"
  define b where "b = (\<lambda>i. if i < ?L then env_image e ! i else beyond i)"
  define e1 where "e1 = e0\<lparr>env_flag := ENV_ENABLE, env_length := env_length e, env_free := env_length e - 4\<rparr>"
  have lf: "length (flat ?strs) = env_size (env_head e)" by (rule length_flat)
  have im: "env_image e = [0x45, 0x4E, 0x56, 0] @ flat ?strs" using env_image_flat [of e] assms(2) by simp
  have hd: "b 0 = 0x45" "b 1 = 0x4E" "b 2 = 0x56" "b 3 = 0" using assms(2) by (simp_all add: b_def im)
  have "\<forall>str \<in> set ?strs. str \<noteq> [] \<and> 0 \<notin> set str" using assms(1) by (auto simp: env_inv_def)
  moreover have "\<forall>i < length (flat ?strs). b (3 + 1 + i) = flat ?strs ! i"
    using assms(2) lf by (auto simp: b_def im)
  moreover have "3 + length (flat ?strs) \<le> ?L" using assms(2) lf by simp
  ultimately obtain nds where n: "map node_str nds = ?strs"
    "env_parse b ?L new 3 e1 = env_parse b ?L new (3 + length (flat ?strs)) (fold env_node_add nds e1)"
    using env_parse_steps [of ?strs new b 3 ?L e1] assms(3) hd(4) by blast
  define e2 where "e2 = fold env_node_add nds e1"
  define p where "p = 3 + length (flat ?strs)"
  have p: "p + 1 = ?L" using assms(2) lf by (simp add: p_def)
  have bj: "(\<lambda>i. b (p + 1 + i)) = (\<lambda>i. beyond (?L + i))" by (rule ext, unfold p) (simp add: b_def)
  have len: "rt_strlen (\<lambda>i. b (p + 1 + i)) = Some (length junk)" unfolding bj by (rule rt_strlen_str [OF assms(6)])
  have "beyond ?L \<noteq> 0" using str_at_nonzero [OF assms(6), of 0] assms(7) by simp
  then have ne: "\<not> env_is_end b p" using p by (simp add: env_is_end_def b_def)
  have j: "map (\<lambda>i. b (p + 1 + i)) [0..<length junk] = junk"
    unfolding bj using assms(6) by (intro nth_equalityI) (auto simp: str_at_def)
  obtain q rest where q: "new (length (env_head e2)) = Some (q, rest)" using assms(3) by (metis not_None_eq surj_pair)
  have "env_parse b ?L new 3 e1 = env_parse b ?L new (p + 1 + length junk) (env_node_add \<lparr>node_ptr = q, node_str = junk, node_rest = rest\<rparr> e2)"
    unfolding n(2) e2_def [symmetric] p_def [symmetric] env_parse.simps [of b ?L new p e2] len q option.case prod.case j using ne p by simp
  also have "\<dots> = Some (env_node_add \<lparr>node_ptr = q, node_str = junk, node_rest = rest\<rparr> e2)"
    using p by (subst env_parse.simps) simp
  finally show ?thesis
    using assms(2,4,5) hd n(1)
    by (auto simp: env_init_def Let_def b_def e1_def e2_def env_node_add_def fold_env_node_add)
qed

theorem env_full_overruns_witness:
  "\<exists>e'. env_init ENV_ENABLE 8 (Some (\<lambda>i. if i = 8 then 0x7A else 0)) (\<lambda>k. Some (of_nat k, \<lambda>_. 0))
      (\<lambda>_ s. (env_image (boot_env\<lparr>env_length := 8, env_free := 0\<rparr>), s)) (boot_env\<lparr>env_head := [], env_count := 0\<rparr>) () = (Some e', ()) \<and>
    map node_str (env_head e') = [[0x61, 0x3D, 0x31], [0x7A]]"
proof -
  let ?e = "boot_env\<lparr>env_length := 8, env_free := 0\<rparr>"
  have i: "env_inv ?e" using boot_env_inv(1) by (simp add: env_inv_def boot_env_def env_size_def)
  have "4 + env_size (env_head ?e) = unat (env_length ?e)" by (simp add: boot_env_def env_size_def)
  moreover have "str_at (\<lambda>i. if unat (8 :: u32) + i = 8 then 0x7A else 0) [0x7A]" by (simp add: str_at_def)
  ultimately show ?thesis
    using env_full_overruns [OF i, of "\<lambda>k. Some (of_nat k, \<lambda>_. 0)" "boot_env\<lparr>env_head := [], env_count := 0\<rparr>"
        "\<lambda>_ s. (env_image ?e, s)" "()" "()" "\<lambda>i. if i = 8 then 0x7A else 0" "[0x7A]"]
    by (auto simp: boot_env_def)
qed

end
