(* ===== verification/Fifo.thy ===== *)
theory Fifo
  imports RtPrelude
begin

text \<open>
  The contract the kernel's bounded queues share: the ring buffer of
  drivers/ipc/ringbuffer.c, and the mailbox and the message queue of kernel/ipc.c.  A
  provider stores at most \<open>cap\<close> elements, refuses one more when it is full, refuses to
  read when it is empty, and hands elements out in the order they were stored.  What a
  client relies on is proved once here, from the laws alone: any sequence of stores and
  reads behaves as on a list.
\<close>

section \<open>Sequences of operations\<close>

datatype 'a fifo_op = Put 'a | Get

text \<open>The outcome of one operation: whether a store was accepted, or what a read gave.\<close>

datatype 'a fifo_res = Stored bool | Read "'a option"

text \<open>Running operations on a provider.\<close>

fun fifo_run ::
  "('s \<Rightarrow> 'a \<Rightarrow> 's option) \<Rightarrow> ('s \<Rightarrow> ('a \<times> 's) option) \<Rightarrow> 's \<Rightarrow> 'a fifo_op list \<Rightarrow> 'a fifo_res list \<times> 's"
where
  "fifo_run put get s [] = ([], s)"
| "fifo_run put get s (Put x # ops) =
     (case put s x of
        None \<Rightarrow> (let (rs, t) = fifo_run put get s ops in (Stored False # rs, t))
      | Some s' \<Rightarrow> (let (rs, t) = fifo_run put get s' ops in (Stored True # rs, t)))"
| "fifo_run put get s (Get # ops) =
     (case get s of
        None \<Rightarrow> (let (rs, t) = fifo_run put get s ops in (Read None # rs, t))
      | Some (x, s') \<Rightarrow> (let (rs, t) = fifo_run put get s' ops in (Read (Some x) # rs, t)))"

text \<open>The same sequence on the specification: a list of at most \<open>cap\<close> elements.\<close>

fun queue_run :: "nat \<Rightarrow> 'a list \<Rightarrow> 'a fifo_op list \<Rightarrow> 'a fifo_res list \<times> 'a list" where
  "queue_run cap q [] = ([], q)"
| "queue_run cap q (Put x # ops) =
     (if length q < cap
      then (let (rs, t) = queue_run cap (q @ [x]) ops in (Stored True # rs, t))
      else (let (rs, t) = queue_run cap q ops in (Stored False # rs, t)))"
| "queue_run cap q (Get # ops) =
     (case q of
        [] \<Rightarrow> (let (rs, t) = queue_run cap [] ops in (Read None # rs, t))
      | x # q' \<Rightarrow> (let (rs, t) = queue_run cap q' ops in (Read (Some x) # rs, t)))"

lemma queue_run_bounded: "length q \<le> cap \<Longrightarrow> length (snd (queue_run cap q ops)) \<le> cap"
  by (induction cap q ops rule: queue_run.induct) (auto split: list.splits prod.splits)

section \<open>The contract\<close>

locale bounded_fifo =
  fixes invar :: "'s \<Rightarrow> bool"
    and content :: "'s \<Rightarrow> 'a list"
    and cap :: "'s \<Rightarrow> nat"
    and put :: "'s \<Rightarrow> 'a \<Rightarrow> 's option"
    and get :: "'s \<Rightarrow> ('a \<times> 's) option"
  assumes bounded: "invar s \<Longrightarrow> length (content s) \<le> cap s"
    and put_full: "invar s \<Longrightarrow> length (content s) = cap s \<Longrightarrow> put s x = None"
    and put_ok: "invar s \<Longrightarrow> length (content s) < cap s \<Longrightarrow>
      \<exists>s'. put s x = Some s' \<and> invar s' \<and> content s' = content s @ [x] \<and> cap s' = cap s"
    and get_empty: "invar s \<Longrightarrow> content s = [] \<Longrightarrow> get s = None"
    and get_ok: "invar s \<Longrightarrow> content s = x # xs \<Longrightarrow>
      \<exists>s'. get s = Some (x, s') \<and> invar s' \<and> content s' = xs \<and> cap s' = cap s"
begin

text \<open>A provider behaves as the list on every sequence of operations.\<close>

lemma run_refines:
  assumes "invar s"
  shows "\<exists>rs s'. fifo_run put get s ops = (rs, s') \<and> invar s' \<and> cap s' = cap s \<and>
    queue_run (cap s) (content s) ops = (rs, content s')"
  using assms
proof (induction ops arbitrary: s)
  case Nil
  then show ?case by simp
next
  case (Cons op ops)
  show ?case
  proof (cases op)
    case (Put x)
    show ?thesis
    proof (cases "length (content s) < cap s")
      case True
      with put_ok [OF Cons.prems, of x] obtain s1 where
        s1: "put s x = Some s1" "invar s1" "content s1 = content s @ [x]" "cap s1 = cap s"
        by blast
      with Cons.IH [OF s1(2)] True Put show ?thesis by fastforce
    next
      case False
      with bounded [OF Cons.prems] have "put s x = None"
        by (intro put_full [OF Cons.prems]) simp
      with Cons.IH [OF Cons.prems] False Put show ?thesis by fastforce
    qed
  next
    case Get
    show ?thesis
    proof (cases "content s")
      case Nil
      with Cons.IH [OF Cons.prems] get_empty [OF Cons.prems] Get show ?thesis by fastforce
    next
      case (Cons x xs)
      with get_ok [OF \<open>invar s\<close>] obtain s1 where
        s1: "get s = Some (x, s1)" "invar s1" "content s1 = xs" "cap s1 = cap s"
        by blast
      with Cons.IH [OF s1(2)] Cons Get show ?thesis by fastforce
    qed
  qed
qed

text \<open>What is stored into an empty queue with room comes back whole and in order.\<close>

lemma put_all_get_all:
  assumes "invar s" "content s = []" "length xs \<le> cap s"
  shows "fst (fifo_run put get s (map Put xs @ map (\<lambda>_. Get) xs)) =
    map (\<lambda>_. Stored True) xs @ map (\<lambda>x. Read (Some x)) xs"
proof -
  have gets: "fst (queue_run c ys (map (\<lambda>_. Get) ys)) = map (\<lambda>x. Read (Some x)) ys" for c and ys :: "'a list"
    by (induction ys) (auto simp: case_prod_beta)
  have puts: "fst (queue_run c q (map Put ys @ ops)) =
      map (\<lambda>_. Stored True) ys @ fst (queue_run c (q @ ys) ops)"
    if "length q + length ys \<le> c" for c q and ys :: "'a list" and ops
    using that by (induction ys arbitrary: q) (auto simp: case_prod_beta)
  from run_refines [OF assms(1), of "map Put xs @ map (\<lambda>_. Get) xs"] assms(2)
  have "fst (fifo_run put get s (map Put xs @ map (\<lambda>_. Get) xs)) =
      fst (queue_run (cap s) [] (map Put xs @ map (\<lambda>_. Get) xs))"
    by force
  also have "\<dots> = map (\<lambda>_. Stored True) xs @ map (\<lambda>x. Read (Some x)) xs"
    using puts [of "[]" xs "cap s"] gets [of "cap s" xs] assms(3) by simp
  finally show ?thesis .
qed

end

end
