(* ===== verification/RingBuffer.thy ===== *)
theory RingBuffer
  imports Fifo
begin

text \<open>
  The byte ring buffer of drivers/ipc/ringbuffer.c.  The two mirror bits are one-bit
  fields and are modelled as booleans (\<open>~\<close> on them is negation); the two indices are
  fifteen-bit fields, so every store into them is reduced modulo \<open>2 ^ 15\<close>;
  \<open>buffer_size\<close> is a 16-bit signed integer and its differences are computed in int, as
  C's promotions do.  The pool is the list of the bytes behind \<open>buffer_ptr\<close>.
\<close>

section \<open>State and operations\<close>

record rt_ringbuffer =
  buffer_ptr :: "u8 list"
  read_mirror :: bool
  read_index :: nat
  write_mirror :: bool
  write_index :: nat
  buffer_size :: int

datatype rt_ringbuffer_state =
  RT_RINGBUFFER_EMPTY | RT_RINGBUFFER_FULL | RT_RINGBUFFER_HALFFULL

definition rt_ringbuffer_status :: "rt_ringbuffer \<Rightarrow> rt_ringbuffer_state" where
  "rt_ringbuffer_status rb =
     (if read_index rb = write_index rb
      then (if read_mirror rb = write_mirror rb then RT_RINGBUFFER_EMPTY else RT_RINGBUFFER_FULL)
      else RT_RINGBUFFER_HALFFULL)"

text \<open>\<open>sz\<close> is the \<open>rt_int16_t\<close> argument; \<open>& ~7\<close> on it is done in int.\<close>

definition rt_ringbuffer_init :: "u8 list \<Rightarrow> int \<Rightarrow> rt_ringbuffer" where
  "rt_ringbuffer_init pool sz =
     \<lparr>buffer_ptr = pool, read_mirror = False, read_index = 0,
      write_mirror = False, write_index = 0, buffer_size = sz AND NOT (8 - 1)\<rparr>"

definition rt_ringbuffer_data_len :: "rt_ringbuffer \<Rightarrow> int" where
  "rt_ringbuffer_data_len rb =
     (case rt_ringbuffer_status rb of
        RT_RINGBUFFER_EMPTY \<Rightarrow> 0
      | RT_RINGBUFFER_FULL \<Rightarrow> buffer_size rb
      | RT_RINGBUFFER_HALFFULL \<Rightarrow>
          (if write_index rb > read_index rb then int (write_index rb) - int (read_index rb)
           else buffer_size rb - (int (read_index rb) - int (write_index rb))))"

definition rt_ringbuffer_space_len :: "rt_ringbuffer \<Rightarrow> int" where
  "rt_ringbuffer_space_len rb = buffer_size rb - rt_ringbuffer_data_len rb"

text \<open>
  \<open>rt_ringbuffer_put(rb, ptr, length)\<close>; \<open>ptr\<close> is the list of the \<open>length\<close> source bytes.
\<close>

definition rt_ringbuffer_put :: "rt_ringbuffer \<Rightarrow> u8 list \<Rightarrow> nat \<times> rt_ringbuffer" where
  "rt_ringbuffer_put rb ptr =
     (let sz = rt_ringbuffer_space_len rb in
      if sz = 0 then (0, rb)
      else
        let len = (if sz < int (length ptr) then nat sz else length ptr);
            w = write_index rb;
            room = buffer_size rb - int w
        in if room > int len
           then (len, rb\<lparr>buffer_ptr := blit (buffer_ptr rb) w (take len ptr),
                         write_index := (w + len) mod 2 ^ 15\<rparr>)
           else (len, rb\<lparr>buffer_ptr :=
                           blit (blit (buffer_ptr rb) w (take (nat room) ptr)) 0
                             (take (len - nat room) (drop (nat room) ptr)),
                         write_mirror := \<not> write_mirror rb,
                         write_index := (len - nat room) mod 2 ^ 15\<rparr>))"

definition rt_ringbuffer_put_force :: "rt_ringbuffer \<Rightarrow> u8 list \<Rightarrow> nat \<times> rt_ringbuffer" where
  "rt_ringbuffer_put_force rb ptr0 =
     (let space_length = rt_ringbuffer_space_len rb;
          ptr = (if int (length ptr0) > buffer_size rb
                 then drop (length ptr0 - nat (buffer_size rb)) ptr0 else ptr0);
          len = length ptr;
          w = write_index rb;
          room = buffer_size rb - int w
      in if room > int len
         then
           let rb1 = rb\<lparr>buffer_ptr := blit (buffer_ptr rb) w ptr,
                        write_index := (w + len) mod 2 ^ 15\<rparr>
           in (len, if int len > space_length then rb1\<lparr>read_index := write_index rb1\<rparr> else rb1)
         else
           let rb1 = rb\<lparr>buffer_ptr :=
                          blit (blit (buffer_ptr rb) w (take (nat room) ptr)) 0
                            (take (len - nat room) (drop (nat room) ptr)),
                        write_mirror := \<not> write_mirror rb,
                        write_index := (len - nat room) mod 2 ^ 15\<rparr>
           in (len, if int len > space_length
                    then rb1\<lparr>read_mirror := \<not> read_mirror rb1, read_index := write_index rb1\<rparr>
                    else rb1))"

text \<open>\<open>rt_ringbuffer_get(rb, ptr, length)\<close>; the bytes written to \<open>ptr\<close> are returned.\<close>

definition rt_ringbuffer_get :: "rt_ringbuffer \<Rightarrow> nat \<Rightarrow> u8 list \<times> rt_ringbuffer" where
  "rt_ringbuffer_get rb req =
     (let sz = rt_ringbuffer_data_len rb in
      if sz = 0 then ([], rb)
      else
        let len = (if sz < int req then nat sz else req);
            r = read_index rb;
            room = buffer_size rb - int r
        in if room > int len
           then (take len (drop r (buffer_ptr rb)),
                 rb\<lparr>read_index := (r + len) mod 2 ^ 15\<rparr>)
           else (take (nat room) (drop r (buffer_ptr rb)) @ take (len - nat room) (buffer_ptr rb),
                 rb\<lparr>read_mirror := \<not> read_mirror rb,
                    read_index := (len - nat room) mod 2 ^ 15\<rparr>))"

definition rt_ringbuffer_putchar :: "rt_ringbuffer \<Rightarrow> u8 \<Rightarrow> nat \<times> rt_ringbuffer" where
  "rt_ringbuffer_putchar rb ch =
     (if rt_ringbuffer_space_len rb = 0 then (0, rb)
      else
        let rb1 = rb\<lparr>buffer_ptr := (buffer_ptr rb)[write_index rb := ch]\<rparr>
        in if int (write_index rb1) = buffer_size rb1 - 1
           then (1, rb1\<lparr>write_mirror := \<not> write_mirror rb1, write_index := 0\<rparr>)
           else (1, rb1\<lparr>write_index := (write_index rb1 + 1) mod 2 ^ 15\<rparr>))"

definition rt_ringbuffer_putchar_force :: "rt_ringbuffer \<Rightarrow> u8 \<Rightarrow> nat \<times> rt_ringbuffer" where
  "rt_ringbuffer_putchar_force rb ch =
     (let old_state = rt_ringbuffer_status rb;
          rb1 = rb\<lparr>buffer_ptr := (buffer_ptr rb)[write_index rb := ch]\<rparr>
      in if int (write_index rb1) = buffer_size rb1 - 1
         then
           let rb2 = rb1\<lparr>write_mirror := \<not> write_mirror rb1, write_index := 0\<rparr>
           in (1, if old_state = RT_RINGBUFFER_FULL
                  then rb2\<lparr>read_mirror := \<not> read_mirror rb2, read_index := write_index rb2\<rparr>
                  else rb2)
         else
           let rb2 = rb1\<lparr>write_index := (write_index rb1 + 1) mod 2 ^ 15\<rparr>
           in (1, if old_state = RT_RINGBUFFER_FULL
                  then rb2\<lparr>read_index := write_index rb2\<rparr> else rb2))"

definition rt_ringbuffer_getchar :: "rt_ringbuffer \<Rightarrow> (u8 option) \<times> rt_ringbuffer" where
  "rt_ringbuffer_getchar rb =
     (if rt_ringbuffer_data_len rb = 0 then (None, rb)
      else
        let ch = buffer_ptr rb ! read_index rb
        in if int (read_index rb) = buffer_size rb - 1
           then (Some ch, rb\<lparr>read_mirror := \<not> read_mirror rb, read_index := 0\<rparr>)
           else (Some ch, rb\<lparr>read_index := (read_index rb + 1) mod 2 ^ 15\<rparr>))"

definition rt_ringbuffer_reset :: "rt_ringbuffer \<Rightarrow> rt_ringbuffer" where
  "rt_ringbuffer_reset rb =
     rb\<lparr>read_mirror := False, read_index := 0, write_mirror := False, write_index := 0\<rparr>"

section \<open>Invariant and abstraction\<close>

text \<open>
  Both indices stay inside the buffer, the write position is at or ahead of the read
  position on the same side of the mirror and at or behind it on the other side.
\<close>

definition rb_wf :: "rt_ringbuffer \<Rightarrow> bool" where
  "rb_wf rb \<longleftrightarrow>
     0 < buffer_size rb \<and> buffer_size rb < 2 ^ 15 \<and>
     buffer_size rb \<le> int (length (buffer_ptr rb)) \<and>
     int (read_index rb) < buffer_size rb \<and> int (write_index rb) < buffer_size rb \<and>
     (if read_mirror rb = write_mirror rb then read_index rb \<le> write_index rb
      else write_index rb \<le> read_index rb)"

definition rb_cap :: "rt_ringbuffer \<Rightarrow> nat" where
  "rb_cap rb = nat (buffer_size rb)"

definition rb_len :: "rt_ringbuffer \<Rightarrow> nat" where
  "rb_len rb = (if read_mirror rb = write_mirror rb then write_index rb - read_index rb
                else rb_cap rb - read_index rb + write_index rb)"

text \<open>The bytes stored, oldest first.\<close>

definition rb_data :: "rt_ringbuffer \<Rightarrow> u8 list" where
  "rb_data rb =
     map (\<lambda>i. buffer_ptr rb ! ((read_index rb + i) mod rb_cap rb)) [0..<rb_len rb]"

lemma mod_add_wrap: "(a::nat) < c \<Longrightarrow> b \<le> c \<Longrightarrow> (a + b) mod c = (if a + b < c then a + b else a + b - c)"
  by (auto simp: mod_if)

lemma rb_wf_nat:
  assumes "rb_wf rb"
  shows "0 < rb_cap rb" "rb_cap rb < 2 ^ 15" "int (rb_cap rb) = buffer_size rb"
    "rb_cap rb \<le> length (buffer_ptr rb)" "read_index rb < rb_cap rb" "write_index rb < rb_cap rb"
  using assms by (auto simp: rb_wf_def rb_cap_def)

lemma rb_wf_iff:
  "rb_wf rb \<longleftrightarrow>
     0 < rb_cap rb \<and> rb_cap rb < 2 ^ 15 \<and> int (rb_cap rb) = buffer_size rb \<and>
     rb_cap rb \<le> length (buffer_ptr rb) \<and> read_index rb < rb_cap rb \<and> write_index rb < rb_cap rb \<and>
     (if read_mirror rb = write_mirror rb then read_index rb \<le> write_index rb
      else write_index rb \<le> read_index rb)"
  by (auto simp: rb_wf_def rb_cap_def)

lemma rb_cap_update [simp]:
  "rb_cap (rb\<lparr>write_index := i\<rparr>) = rb_cap rb" "rb_cap (rb\<lparr>read_index := i\<rparr>) = rb_cap rb"
  "rb_cap (rb\<lparr>write_mirror := b\<rparr>) = rb_cap rb" "rb_cap (rb\<lparr>read_mirror := b\<rparr>) = rb_cap rb"
  "rb_cap (rb\<lparr>buffer_ptr := p\<rparr>) = rb_cap rb"
  by (simp_all add: rb_cap_def)

lemma rb_wf_order:
  assumes "rb_wf rb"
  shows "read_mirror rb = write_mirror rb \<Longrightarrow> read_index rb \<le> write_index rb"
    "read_mirror rb \<noteq> write_mirror rb \<Longrightarrow> write_index rb \<le> read_index rb"
  using assms by (simp_all add: rb_wf_def)

lemma rb_len_le_cap: "rb_wf rb \<Longrightarrow> rb_len rb \<le> rb_cap rb"
  using rb_wf_nat[of rb] rb_wf_order[of rb]
  by (cases "read_mirror rb = write_mirror rb") (auto simp: rb_len_def)

lemma length_rb_data [simp]: "length (rb_data rb) = rb_len rb"
  by (simp add: rb_data_def)

lemma write_index_eq:
  "rb_wf rb \<Longrightarrow> write_index rb = (read_index rb + rb_len rb) mod rb_cap rb"
  using rb_wf_nat[of rb] rb_wf_order[of rb]
  by (cases "read_mirror rb = write_mirror rb") (simp_all add: rb_len_def)

lemma data_len_eq: "rb_wf rb \<Longrightarrow> rt_ringbuffer_data_len rb = int (rb_len rb)"
  using rb_wf_nat[of rb] rb_wf_order[of rb]
  by (cases "read_mirror rb = write_mirror rb")
    (auto simp: rt_ringbuffer_data_len_def rt_ringbuffer_status_def rb_len_def)

lemma space_len_eq: "rb_wf rb \<Longrightarrow> rt_ringbuffer_space_len rb = int (rb_cap rb - rb_len rb)"
  using rb_len_le_cap[of rb] rb_wf_nat(3)[of rb]
  by (simp add: rt_ringbuffer_space_len_def data_len_eq of_nat_diff)

definition ring_write :: "'a list \<Rightarrow> nat \<Rightarrow> nat \<Rightarrow> 'a list \<Rightarrow> 'a list" where
  "ring_write buf c w xs =
     (if c - w > length xs then blit buf w xs
      else blit (blit buf w (take (c - w) xs)) 0 (drop (c - w) xs))"

lemma length_ring_write [simp]:
  "w < c \<Longrightarrow> length xs \<le> c \<Longrightarrow> c \<le> length buf \<Longrightarrow> length (ring_write buf c w xs) = length buf"
  by (auto simp: ring_write_def)

lemma nth_ring_write_new:
  assumes "w < c" "length xs \<le> c" "c \<le> length buf" "i < length xs"
  shows "ring_write buf c w xs ! ((w + i) mod c) = xs ! i"
  using assms by (auto simp: ring_write_def nth_blit mod_add_wrap)

lemma nth_ring_write_old:
  assumes "w < c" "length xs \<le> c" "c \<le> length buf" "length xs \<le> k" "k < c"
  shows "ring_write buf c w xs ! ((w + k) mod c) = buf ! ((w + k) mod c)"
  using assms by (auto simp: ring_write_def nth_blit mod_add_wrap)

text \<open>
  Advancing the write position by \<open>n\<close> free bytes, and the read position by \<open>n\<close> stored
  bytes, as all the operations do it: past the end of the buffer the mirror bit flips.
\<close>

definition advance_write :: "nat \<Rightarrow> rt_ringbuffer \<Rightarrow> rt_ringbuffer" where
  "advance_write n rb =
     (if rb_cap rb - write_index rb > n then rb\<lparr>write_index := write_index rb + n\<rparr>
      else rb\<lparr>write_mirror := \<not> write_mirror rb,
              write_index := n - (rb_cap rb - write_index rb)\<rparr>)"

definition advance_read :: "nat \<Rightarrow> rt_ringbuffer \<Rightarrow> rt_ringbuffer" where
  "advance_read n rb =
     (if rb_cap rb - read_index rb > n then rb\<lparr>read_index := read_index rb + n\<rparr>
      else rb\<lparr>read_mirror := \<not> read_mirror rb,
              read_index := n - (rb_cap rb - read_index rb)\<rparr>)"

lemma advance_simps [simp]:
  "rb_cap (advance_write n rb) = rb_cap rb" "buffer_ptr (advance_write n rb) = buffer_ptr rb"
  "read_index (advance_write n rb) = read_index rb"
  "rb_cap (advance_read n rb) = rb_cap rb" "buffer_ptr (advance_read n rb) = buffer_ptr rb"
  by (simp_all add: advance_write_def advance_read_def)

lemma advance_write:
  assumes wf: "rb_wf rb" and n: "n \<le> rb_cap rb - rb_len rb"
  shows "rb_wf (advance_write n rb) \<and> rb_len (advance_write n rb) = rb_len rb + n"
proof (cases "read_mirror rb = write_mirror rb")
  case True
  with wf n show ?thesis
    by (cases "n < rb_cap rb - write_index rb")
      (auto simp: advance_write_def rb_len_def rb_wf_iff)
next
  case False
  with wf n show ?thesis
    by (cases "n < rb_cap rb - write_index rb")
      (auto simp: advance_write_def rb_len_def rb_wf_iff)
qed

lemma advance_read:
  assumes wf: "rb_wf rb" and n: "n \<le> rb_len rb"
  shows "rb_wf (advance_read n rb)" "rb_len (advance_read n rb) = rb_len rb - n"
    "read_index (advance_read n rb) = (read_index rb + n) mod rb_cap rb"
proof -
  have nc: "n \<le> rb_cap rb" using n rb_len_le_cap [OF wf] by simp
  have "rb_wf (advance_read n rb) \<and> rb_len (advance_read n rb) = rb_len rb - n"
  proof (cases "read_mirror rb = write_mirror rb")
    case True
    then have "n < rb_cap rb - read_index rb"
      using wf n by (auto simp: rb_len_def rb_wf_iff)
    with True wf n show ?thesis
      by (auto simp: advance_read_def rb_len_def rb_wf_iff)
  next
    case False
    with wf n show ?thesis
      by (cases "n < rb_cap rb - read_index rb")
        (auto simp: advance_read_def rb_len_def rb_wf_iff)
  qed
  then show "rb_wf (advance_read n rb)" "rb_len (advance_read n rb) = rb_len rb - n" by auto
  show "read_index (advance_read n rb) = (read_index rb + n) mod rb_cap rb"
    using nc rb_wf_nat [OF wf] by (auto simp: advance_read_def mod_add_wrap)
qed

lemma rb_data_nth:
  "i < rb_len rb \<Longrightarrow> rb_data rb ! i = buffer_ptr rb ! ((read_index rb + i) mod rb_cap rb)"
  by (simp add: rb_data_def)

lemma rb_wf_buffer:
  "length p = length (buffer_ptr rb) \<Longrightarrow> rb_wf (rb\<lparr>buffer_ptr := p\<rparr>) = rb_wf rb"
  by (simp add: rb_wf_def)

lemma rb_len_buffer [simp]: "rb_len (rb\<lparr>buffer_ptr := p\<rparr>) = rb_len rb"
  by (simp add: rb_len_def)

text \<open>Storing \<open>xs\<close> at the write position appends \<open>xs\<close> to the data.\<close>

lemma ring_store:
  assumes wf: "rb_wf rb" and xs: "length xs \<le> rb_cap rb - rb_len rb"
  defines "rb1 \<equiv> rb\<lparr>buffer_ptr := ring_write (buffer_ptr rb) (rb_cap rb) (write_index rb) xs\<rparr>"
  shows "rb_wf (advance_write (length xs) rb1)"
    "rb_data (advance_write (length xs) rb1) = rb_data rb @ xs"
    "rb_cap (advance_write (length xs) rb1) = rb_cap rb"
proof -
  note nat = rb_wf_nat [OF wf]
  let ?c = "rb_cap rb" and ?w = "write_index rb" and ?r = "read_index rb" and ?n = "rb_len rb"
  let ?rb2 = "advance_write (length xs) rb1"
  have n: "?n \<le> ?c" by (rule rb_len_le_cap [OF wf])
  have wf1: "rb_wf rb1" using wf nat xs by (simp add: rb1_def rb_wf_buffer)
  have len1: "rb_len rb1 = ?n" "rb_cap rb1 = ?c" by (simp_all add: rb1_def)
  have adv: "rb_wf ?rb2 \<and> rb_len ?rb2 = rb_len rb1 + length xs"
    using wf1 xs by (intro advance_write) (simp_all add: len1)
  then show "rb_wf ?rb2" ..
  show cap: "rb_cap ?rb2 = ?c" by (simp add: rb1_def)
  have old: "ring_write (buffer_ptr rb) ?c ?w xs ! ((?r + i) mod ?c) = buffer_ptr rb ! ((?r + i) mod ?c)"
    if i: "i < ?n" for i
  proof -
    have "(?w + (?c - ?n + i)) mod ?c = (?r + ?n + (?c - ?n + i)) mod ?c"
      by (simp only: write_index_eq [OF wf] mod_add_left_eq)
    also have "?r + ?n + (?c - ?n + i) = ?r + i + ?c" using n by simp
    finally have eq: "(?w + (?c - ?n + i)) mod ?c = (?r + i) mod ?c" by simp
    have "length xs \<le> ?c - ?n + i" "?c - ?n + i < ?c" using i xs n by simp_all
    then show ?thesis
      using nth_ring_write_old [of ?w ?c xs "buffer_ptr rb" "?c - ?n + i"] xs nat
      unfolding eq by simp
  qed
  have new: "ring_write (buffer_ptr rb) ?c ?w xs ! ((?r + (?n + i)) mod ?c) = xs ! i"
    if i: "i < length xs" for i
  proof -
    have "(?r + (?n + i)) mod ?c = (?w + i) mod ?c"
      by (simp only: write_index_eq [OF wf] mod_add_left_eq add.assoc)
    then show ?thesis
      using nth_ring_write_new [of ?w ?c xs "buffer_ptr rb" i] i xs nat n by simp
  qed
  show "rb_data ?rb2 = rb_data rb @ xs"
  proof (rule nth_equalityI)
    show "length (rb_data ?rb2) = length (rb_data rb @ xs)"
      using adv by (simp add: len1)
    fix i assume "i < length (rb_data ?rb2)"
    then have i: "i < ?n + length xs" using adv by (simp add: len1)
    have "rb_data ?rb2 ! i = ring_write (buffer_ptr rb) ?c ?w xs ! ((?r + i) mod ?c)"
      using i adv by (simp add: rb_data_nth len1) (simp add: rb1_def)
    also have "\<dots> = (rb_data rb @ xs) ! i"
    proof (cases "i < ?n")
      case True
      then show ?thesis using old [OF True] by (simp add: nth_append rb_data_nth)
    next
      case False
      with i new [of "i - ?n"] show ?thesis by (simp add: nth_append)
    qed
    finally show "rb_data ?rb2 ! i = (rb_data rb @ xs) ! i" .
  qed
qed

text \<open>Reading \<open>n\<close> stored bytes removes them from the front of the data.\<close>

lemma ring_fetch:
  assumes wf: "rb_wf rb" and n: "n \<le> rb_len rb"
  shows "rb_wf (advance_read n rb)" "rb_data (advance_read n rb) = drop n (rb_data rb)"
    "rb_cap (advance_read n rb) = rb_cap rb"
proof -
  note adv = advance_read [OF assms]
  show "rb_wf (advance_read n rb)" by (rule adv)
  show "rb_data (advance_read n rb) = drop n (rb_data rb)"
  proof (rule nth_equalityI)
    show "length (rb_data (advance_read n rb)) = length (drop n (rb_data rb))"
      by (simp add: adv)
    fix i assume "i < length (rb_data (advance_read n rb))"
    then have i: "i < rb_len rb - n" by (simp add: adv)
    then show "rb_data (advance_read n rb) ! i = drop n (rb_data rb) ! i"
      using n by (simp add: rb_data_nth adv mod_add_left_eq add.assoc)
  qed
qed simp

subsection \<open>The operations on the stored bytes\<close>

lemma put_eq:
  fixes ptr :: "u8 list"
  assumes wf: "rb_wf rb"
  defines "n \<equiv> min (length ptr) (rb_cap rb - rb_len rb)"
  shows "rt_ringbuffer_put rb ptr =
    (n, if rb_len rb = rb_cap rb then rb
        else advance_write n (rb\<lparr>buffer_ptr :=
               ring_write (buffer_ptr rb) (rb_cap rb) (write_index rb) (take n ptr)\<rparr>))"
proof -
  note nat = rb_wf_nat [OF wf]
  have le: "rb_len rb \<le> rb_cap rb" by (rule rb_len_le_cap [OF wf])
  have sz: "rt_ringbuffer_space_len rb = int (rb_cap rb - rb_len rb)" by (rule space_len_eq [OF wf])
  have len: "(if int (rb_cap rb - rb_len rb) < int (length ptr)
              then nat (int (rb_cap rb - rb_len rb)) else length ptr) = n"
    by (auto simp: n_def)
  have room: "buffer_size rb - int (write_index rb) = int (rb_cap rb - write_index rb)"
    using nat by simp
  have n: "n \<le> rb_cap rb" "length (take n ptr) = n" by (auto simp: n_def)
  show ?thesis
  proof (cases "rb_len rb = rb_cap rb")
    case True
    then show ?thesis by (simp add: rt_ringbuffer_put_def sz n_def)
  next
    case False
    then have nz: "int (rb_cap rb - rb_len rb) \<noteq> 0" using le by simp
    show ?thesis
      unfolding rt_ringbuffer_put_def Let_def sz len room
      using nat n False nz
      by (simp add: drop_take ring_write_def advance_write_def min_absorb2 del: of_nat_diff)
  qed
qed

lemma put_aux:
  assumes wf: "rb_wf rb" and put: "rt_ringbuffer_put rb ptr = (n, rb')"
  shows "n = min (length ptr) (rb_cap rb - rb_len rb)" "rb_wf rb'"
    "rb_data rb' = rb_data rb @ take n ptr" "rb_cap rb' = rb_cap rb"
proof -
  show n: "n = min (length ptr) (rb_cap rb - rb_len rb)"
    using put by (simp add: put_eq [OF wf] split: if_splits)
  have len: "length (take n ptr) = n" "length (take n ptr) \<le> rb_cap rb - rb_len rb"
    by (simp_all add: n)
  note store = ring_store [OF wf len(2), unfolded len(1)]
  show "rb_wf rb'" "rb_data rb' = rb_data rb @ take n ptr" "rb_cap rb' = rb_cap rb"
    using put store wf by (auto simp: put_eq [OF wf] n [symmetric] split: if_splits) (simp_all add: n)
qed

lemma get_bytes:
  assumes wf: "rb_wf rb" and n: "n \<le> rb_len rb"
  shows "(if rb_cap rb - read_index rb > n then take n (drop (read_index rb) (buffer_ptr rb))
          else take (rb_cap rb - read_index rb) (drop (read_index rb) (buffer_ptr rb))
               @ take (n - (rb_cap rb - read_index rb)) (buffer_ptr rb)) = take n (rb_data rb)"
    (is "?l = _")
proof (rule nth_equalityI)
  note nat = rb_wf_nat [OF wf] and le = rb_len_le_cap [OF wf]
  show "length ?l = length (take n (rb_data rb))" using nat le n by auto
  fix i assume "i < length ?l"
  then have i: "i < n" using nat le n by (auto split: if_splits)
  have "(read_index rb + i) mod rb_cap rb =
      (if read_index rb + i < rb_cap rb then read_index rb + i else read_index rb + i - rb_cap rb)"
    using nat le n i by (intro mod_add_wrap) auto
  then show "?l ! i = take n (rb_data rb) ! i"
    using i n nat le by (auto simp: rb_data_nth nth_append add.commute)
qed

lemma get_eq:
  fixes req :: nat
  assumes wf: "rb_wf rb"
  defines "n \<equiv> min req (rb_len rb)"
  shows "rt_ringbuffer_get rb req =
    (take (n) (rb_data rb), if rb_len rb = 0 then rb else advance_read (n) rb)"
proof -
  note nat = rb_wf_nat [OF wf]
  have sz: "rt_ringbuffer_data_len rb = int (rb_len rb)" by (rule data_len_eq [OF wf])
  have len: "(if int (rb_len rb) < int req then nat (int (rb_len rb)) else req) = n"
    by (auto simp: n_def)
  have room: "buffer_size rb - int (read_index rb) = int (rb_cap rb - read_index rb)"
    using nat by simp
  have n: "n \<le> rb_len rb" "n \<le> rb_cap rb"
    using rb_len_le_cap [OF wf] by (auto simp: n_def)
  show ?thesis
  proof (cases "rb_len rb = 0")
    case True
    then show ?thesis by (simp add: rt_ringbuffer_get_def sz n_def)
  next
    case False
    show ?thesis
      unfolding rt_ringbuffer_get_def Let_def sz len room get_bytes [OF wf n(1), symmetric]
      using nat n False by (simp add: advance_read_def del: of_nat_diff)
  qed
qed

lemma get_aux:
  assumes wf: "rb_wf rb" and get: "rt_ringbuffer_get rb req = (bytes, rb')"
  shows "bytes = take req (rb_data rb)" "rb_wf rb'" "rb_data rb' = drop req (rb_data rb)"
    "rb_cap rb' = rb_cap rb"
proof -
  have n: "min req (rb_len rb) \<le> rb_len rb" by simp
  have tk: "take (min req (rb_len rb)) (rb_data rb) = take req (rb_data rb)"
    "drop (min req (rb_len rb)) (rb_data rb) = drop req (rb_data rb)"
    by (simp_all add: min_def)
  have e: "rb_len rb = 0 \<Longrightarrow> rb_data rb = []" by (simp add: rb_data_def)
  show "bytes = take req (rb_data rb)" "rb_wf rb'" "rb_data rb' = drop req (rb_data rb)"
    "rb_cap rb' = rb_cap rb"
    using get wf ring_fetch [OF wf n] e by (auto simp: get_eq [OF wf] tk split: if_splits)
qed

text \<open>The single-byte operations are the block operations on one byte.\<close>

lemma putchar_eq_put:
  assumes wf: "rb_wf rb"
  shows "rt_ringbuffer_putchar rb ch = rt_ringbuffer_put rb [ch]"
proof -
  note nat = rb_wf_nat [OF wf]
  have blit1: "blit (buffer_ptr rb) (write_index rb) [ch] = (buffer_ptr rb)[write_index rb := ch]"
    using nat by (simp add: blit_def upd_conv_take_nth_drop)
  show ?thesis
    using nat rb_len_le_cap [OF wf]
    by (auto simp: rt_ringbuffer_putchar_def put_eq [OF wf] space_len_eq [OF wf] Let_def
        ring_write_def advance_write_def blit1 min_def)
qed

lemma getchar_eq_get:
  assumes wf: "rb_wf rb"
  shows "rt_ringbuffer_getchar rb =
    (case rt_ringbuffer_get rb 1 of (bytes, rb') \<Rightarrow> (if bytes = [] then None else Some (hd bytes), rb'))"
proof -
  note nat = rb_wf_nat [OF wf]
  have hd: "rb_len rb \<noteq> 0 \<Longrightarrow> hd (rb_data rb) = buffer_ptr rb ! read_index rb"
    using nat by (cases "rb_len rb") (simp_all add: rb_data_def upt_conv_Cons del: upt_Suc)
  have ne: "rb_len rb \<noteq> 0 \<Longrightarrow> rb_data rb \<noteq> []" by (metis length_rb_data list.size(3))
  show ?thesis
    using nat hd ne
    by (auto simp: rt_ringbuffer_getchar_def get_eq [OF wf] data_len_eq [OF wf]
        advance_read_def min_def Let_def)
qed

text \<open>Overwriting one byte when full drops the oldest byte.\<close>

lemma rb_full_status:
  "rb_wf rb \<Longrightarrow> rt_ringbuffer_status rb = RT_RINGBUFFER_FULL \<longleftrightarrow> rb_len rb = rb_cap rb"
  using rb_wf_nat [of rb] rb_wf_order [of rb]
  by (cases "read_mirror rb = write_mirror rb") (auto simp: rt_ringbuffer_status_def rb_len_def)

lemma putchar_force_full:
  assumes wf: "rb_wf rb" and full: "rb_len rb = rb_cap rb"
  shows "rt_ringbuffer_putchar_force rb ch =
    rt_ringbuffer_putchar (snd (rt_ringbuffer_getchar rb)) ch"
proof -
  note nat = rb_wf_nat [OF wf]
  have eq: "read_mirror rb \<noteq> write_mirror rb" "read_index rb = write_index rb"
    using full nat rb_wf_order [OF wf] by (auto simp: rb_len_def split: if_splits)
  have st: "rt_ringbuffer_status rb = RT_RINGBUFFER_FULL"
    using full by (simp add: rb_full_status [OF wf])
  have c: "buffer_size rb = int (rb_cap rb)" using nat by simp
  have wf1: "rb_wf (advance_read 1 rb)" and len1: "rb_len (advance_read 1 rb) = rb_cap rb - 1"
    using advance_read [OF wf, of 1] full nat by auto
  have sp: "rt_ringbuffer_space_len (advance_read 1 rb) \<noteq> 0"
    using space_len_eq [OF wf1] len1 nat by simp
  have g: "snd (rt_ringbuffer_getchar rb) = advance_read 1 rb"
    using full nat by (simp add: getchar_eq_get [OF wf] get_eq [OF wf])
  show ?thesis
    using eq sp nat unfolding g
    by (auto simp: rt_ringbuffer_putchar_force_def rt_ringbuffer_putchar_def st Let_def
        advance_read_def)
qed

lemma putchar_force_room:
  assumes wf: "rb_wf rb" and room: "rb_len rb \<noteq> rb_cap rb"
  shows "rt_ringbuffer_putchar_force rb ch = rt_ringbuffer_putchar rb ch"
  using rb_full_status [OF wf] room space_len_eq [OF wf] rb_len_le_cap [OF wf]
  by (simp add: rt_ringbuffer_putchar_force_def rt_ringbuffer_putchar_def Let_def)

text \<open>
  The block overwrite: the bytes are stored as by \<open>rt_ringbuffer_put\<close>; when they do not
  fit, the read position is moved onto the write position and the read mirror is flipped
  with the write mirror.
\<close>

lemma put_force_eq:
  assumes wf: "rb_wf rb" and len: "length ptr \<le> rb_cap rb"
  defines "rb1 \<equiv> advance_write (length ptr)
    (rb\<lparr>buffer_ptr := ring_write (buffer_ptr rb) (rb_cap rb) (write_index rb) ptr\<rparr>)"
  shows "rt_ringbuffer_put_force rb ptr = (length ptr,
    if length ptr > rb_cap rb - rb_len rb
    then (if length ptr < rb_cap rb - write_index rb then rb1\<lparr>read_index := write_index rb1\<rparr>
          else rb1\<lparr>read_mirror := \<not> read_mirror rb, read_index := write_index rb1\<rparr>)
    else rb1)"
proof -
  note nat = rb_wf_nat [OF wf]
  have sz: "buffer_size rb = int (rb_cap rb)" using nat by simp
  have room: "int (rb_cap rb) - int (write_index rb) = int (rb_cap rb - write_index rb)"
    using nat by simp
  show ?thesis
    unfolding rt_ringbuffer_put_force_def Let_def sz space_len_eq [OF wf] room rb1_def
      advance_write_def ring_write_def
    using nat len by (simp del: of_nat_diff)
qed

lemma put_force_overwrite:
  assumes wf: "rb_wf rb" and m: "read_mirror rb \<noteq> write_mirror rb"
    and len: "rb_cap rb - rb_len rb < length ptr" "length ptr \<le> rb_cap rb"
  shows "rt_ringbuffer_put_force rb ptr =
    rt_ringbuffer_put (advance_read (length ptr - (rb_cap rb - rb_len rb)) rb) ptr"
proof -
  note nat = rb_wf_nat [OF wf]
  let ?d = "length ptr - (rb_cap rb - rb_len rb)"
  let ?rb = "advance_read ?d rb"
  have d: "?d \<le> rb_len rb" using len rb_len_le_cap [OF wf] by simp
  note adv = advance_read [OF wf d]
  have n: "rb_len rb = rb_cap rb - read_index rb + write_index rb" "write_index rb \<le> read_index rb"
    using m rb_wf_order [OF wf] by (simp_all add: rb_len_def)
  have dn: "?d = length ptr + write_index rb - read_index rb" using n nat by simp
  have room: "rb_cap ?rb - rb_len ?rb = length ptr" "rb_len ?rb \<noteq> rb_cap ?rb"
    using adv len rb_len_le_cap [OF wf] by auto
  have put: "rt_ringbuffer_put ?rb ptr =
      (length ptr, advance_write (length ptr) (?rb\<lparr>buffer_ptr :=
         ring_write (buffer_ptr rb) (rb_cap rb) (write_index ?rb) ptr\<rparr>))"
    using room by (simp add: put_eq [OF adv(1)])
  have w: "write_index ?rb = write_index rb" by (simp add: advance_read_def)
  have wr: "(?d < rb_cap rb - read_index rb) = (length ptr < rb_cap rb - write_index rb)"
    "read_index rb + ?d = write_index rb + length ptr"
    using n nat len by auto
  show ?thesis
  proof (cases "length ptr < rb_cap rb - write_index rb")
    case True
    then show ?thesis
      unfolding put w put_force_eq [OF wf len(2)]
      using len wr by (simp add: advance_write_def advance_read_def)
  next
    case False
    moreover have "?d - (rb_cap rb - read_index rb) = length ptr - (rb_cap rb - write_index rb)"
      using False wr nat by simp
    ultimately show ?thesis
      unfolding put w put_force_eq [OF wf len(2)]
      using len wr(1) by (simp add: advance_write_def advance_read_def)
  qed
qed

lemma put_force_same_side:
  assumes wf: "rb_wf rb" and m: "read_mirror rb = write_mirror rb"
    and len: "rb_cap rb - rb_len rb < length ptr" "length ptr \<le> rb_cap rb"
  shows "rb_data (snd (rt_ringbuffer_put_force rb ptr)) = []"
proof -
  have "\<not> length ptr < rb_cap rb - write_index rb"
    using m len rb_wf_order [OF wf] rb_wf_nat [OF wf] by (simp add: rb_len_def)
  then have "snd (rt_ringbuffer_put_force rb ptr) =
      (let rb1 = advance_write (length ptr)
         (rb\<lparr>buffer_ptr := ring_write (buffer_ptr rb) (rb_cap rb) (write_index rb) ptr\<rparr>)
       in rb1\<lparr>read_mirror := \<not> read_mirror rb, read_index := write_index rb1\<rparr>)"
    using len by (simp add: put_force_eq [OF wf len(2)] Let_def)
  with \<open>\<not> length ptr < _\<close> show ?thesis
    using m by (simp add: rb_data_def rb_len_def advance_write_def Let_def)
qed

subsection \<open>The ring buffer is a bounded queue of bytes\<close>

text \<open>The single-byte calls in the form of the contract: a refused call gives \<open>None\<close>.\<close>

definition rb_put1 :: "rt_ringbuffer \<Rightarrow> u8 \<Rightarrow> rt_ringbuffer option" where
  "rb_put1 rb ch = (case rt_ringbuffer_putchar rb ch of (n, rb') \<Rightarrow> if n = 0 then None else Some rb')"

definition rb_get1 :: "rt_ringbuffer \<Rightarrow> (u8 \<times> rt_ringbuffer) option" where
  "rb_get1 rb = (case rt_ringbuffer_getchar rb of (None, _) \<Rightarrow> None | (Some ch, rb') \<Rightarrow> Some (ch, rb'))"

lemma rb_len_0 [simp]: "rb_data rb = [] \<longleftrightarrow> rb_len rb = 0"
  by (simp add: rb_data_def)

lemma rb_put1_ok:
  assumes wf: "rb_wf rb" and room: "rb_len rb < rb_cap rb"
  shows "\<exists>rb'. rb_put1 rb ch = Some rb' \<and> rb_wf rb' \<and> rb_data rb' = rb_data rb @ [ch] \<and> rb_cap rb' = rb_cap rb"
proof -
  obtain n rb' where p: "rt_ringbuffer_put rb [ch] = (n, rb')" by fastforce
  note q = put_aux [OF wf p]
  have "n = 1" using q(1) room by simp
  with p q show ?thesis by (simp add: rb_put1_def putchar_eq_put [OF wf])
qed

lemma rb_get1_ok:
  assumes wf: "rb_wf rb" and d: "rb_data rb = x # xs"
  shows "\<exists>rb'. rb_get1 rb = Some (x, rb') \<and> rb_wf rb' \<and> rb_data rb' = xs \<and> rb_cap rb' = rb_cap rb"
proof -
  obtain bytes rb' where p: "rt_ringbuffer_get rb 1 = (bytes, rb')" by fastforce
  from get_aux [OF wf p] d p show ?thesis by (simp add: rb_get1_def getchar_eq_get [OF wf])
qed

interpretation ring: bounded_fifo rb_wf rb_data rb_cap rb_put1 rb_get1
proof unfold_locales
  show "length (rb_data s) \<le> rb_cap s" if "rb_wf s" for s
    using rb_len_le_cap [OF that] by simp
  show "rb_put1 s x = None" if "rb_wf s" "length (rb_data s) = rb_cap s" for s x
    using that put_eq [OF that(1), of "[x]"] by (simp add: rb_put1_def putchar_eq_put)
  show "rb_get1 s = None" if "rb_wf s" "rb_data s = []" for s
    using that get_eq [OF that(1), of 1] by (simp add: rb_get1_def getchar_eq_get)
qed (use rb_put1_ok rb_get1_ok in auto)

lemma and_neg_8: "(k::int) AND - 8 = k - k mod 8"
proof -
  have m: "- 8 = NOT (mask 3 :: int)" by (simp add: mask_eq_exp_minus_1)
  have "k AND - 8 = push_bit 3 (drop_bit 3 k)"
    unfolding m by (rule bit_eqI) (auto simp: bit_simps)
  moreover have "push_bit 3 (drop_bit 3 k) + k mod 8 = k"
    using bits_ident [of 3 k] by (simp add: take_bit_eq_mod)
  ultimately show ?thesis by simp
qed

lemma init_aux:
  assumes "8 \<le> sz" "sz < 2 ^ 15" "sz \<le> int (length pool)"
  shows "rb_wf (rt_ringbuffer_init pool sz)" "rb_data (rt_ringbuffer_init pool sz) = []"
    "int (rb_cap (rt_ringbuffer_init pool sz)) = sz - sz mod 8"
proof -
  have "0 < sz - sz mod 8" using assms by presburger
  moreover have "0 \<le> sz mod 8" by simp
  then have "sz - sz mod 8 < 2 ^ 15" "sz - sz mod 8 \<le> int (length pool)" using assms by linarith+
  ultimately show "rb_wf (rt_ringbuffer_init pool sz)" "rb_data (rt_ringbuffer_init pool sz) = []"
    "int (rb_cap (rt_ringbuffer_init pool sz)) = sz - sz mod 8"
    using assms by (simp_all add: rt_ringbuffer_init_def rb_wf_def rb_cap_def rb_len_def and_neg_8)
qed

lemmas rb_eval = rb_wf_def rb_data_def rb_len_def rb_cap_def upt_rec

section \<open>Properties\<close>

text \<open>
  C39: From initialisation on, any sequence of single-byte stores and reads on the ring
  buffer gives the results of the same sequence on a queue whose capacity is the size
  rounded down to a multiple of eight: bytes come out in the order they went in, none is
  lost, a full buffer refuses, an empty one gives nothing, and the state stays well formed.
\<close>

theorem ringbuffer_refines_queue:
  assumes "8 \<le> sz" "sz < 2 ^ 15" "sz \<le> int (length pool)"
  shows "\<exists>rs rb. fifo_run rb_put1 rb_get1 (rt_ringbuffer_init pool sz) ops = (rs, rb) \<and>
    rb_wf rb \<and> queue_run (nat (sz - sz mod 8)) [] ops = (rs, rb_data rb)"
  using ring.run_refines [OF init_aux(1) [OF assms], of ops] init_aux(2,3) [OF assms]
  by (metis nat_int)

theorem ringbuffer_refines_queue_witness:
  "\<exists>rs rb. fifo_run rb_put1 rb_get1 (rt_ringbuffer_init (replicate 8 0) 8)
       [Put 1, Put 2, Get, Put 3, Get, Get, Get] = (rs, rb) \<and> rb_wf rb \<and>
     rs = [Stored True, Stored True, Read (Some 1), Stored True, Read (Some 2), Read (Some 3), Read None]"
proof -
  let ?ops = "[Put 1, Put 2, Get, Put 3, Get, Get, Get] :: u8 fifo_op list"
  have "queue_run (nat (8 - 8 mod 8)) [] ?ops =
      ([Stored True, Stored True, Read (Some 1), Stored True, Read (Some 2), Read (Some 3), Read None], [])"
    by simp
  moreover have "(8::int) \<le> 8" "(8::int) < 2 ^ 15" "8 \<le> int (length (replicate 8 (0::u8)))" by simp_all
  note ringbuffer_refines_queue [OF this, of ?ops]
  ultimately show ?thesis by (metis Pair_inject)
qed

text \<open>
  A block store takes as many bytes as there is room for and reports how many, and
  appends exactly those to the stored bytes; a block read returns the oldest bytes, at
  most as many as asked for, and leaves the rest.  Both keep the state well formed.
\<close>

theorem ringbuffer_put_get:
  assumes "rb_wf rb"
  shows "(case rt_ringbuffer_put rb ptr of (n, rb') \<Rightarrow>
      n = min (length ptr) (rb_cap rb - rb_len rb) \<and> rb_wf rb' \<and> rb_data rb' = rb_data rb @ take n ptr) \<and>
    (case rt_ringbuffer_get rb req of (bytes, rb') \<Rightarrow>
      bytes = take req (rb_data rb) \<and> rb_wf rb' \<and> rb_data rb' = drop req (rb_data rb))"
  using put_aux [OF assms] get_aux [OF assms] by (auto split: prod.split)

theorem ringbuffer_put_get_witness:
  "let rb = \<lparr>buffer_ptr = [1, 2, 3, 4, 5, 6, 0, 0], read_mirror = False, read_index = 4,
     write_mirror = False, write_index = 6, buffer_size = 8\<rparr> in
   fst (rt_ringbuffer_put rb [7, 8, 9, 10, 11, 12, 13]) = 6 \<and>
   rb_data (snd (rt_ringbuffer_put rb [7, 8, 9, 10, 11, 12, 13])) = [5, 6, 7, 8, 9, 10, 11, 12]"
proof -
  define rb where "rb =
    \<lparr>buffer_ptr = [1, 2, 3, 4, 5, 6, 0, 0], read_mirror = False, read_index = 4,
     write_mirror = False, write_index = 6, buffer_size = 8\<rparr>"
  have "rb_wf rb" "rb_data rb = [5, 6]" "rb_cap rb = 8" "rb_len rb = 2"
    by (simp_all add: rb_def rb_eval)
  then have "fst (rt_ringbuffer_put rb [7, 8, 9, 10, 11, 12, 13]) = 6 \<and>
   rb_data (snd (rt_ringbuffer_put rb [7, 8, 9, 10, 11, 12, 13])) = [5, 6, 7, 8, 9, 10, 11, 12]"
    using ringbuffer_put_get [of rb "[7, 8, 9, 10, 11, 12, 13]" 0] by (auto split: prod.splits)
  then show ?thesis by (simp only: rb_def Let_def)
qed

text \<open>
  The single-byte overwrite always stores the byte; on a full buffer it drops exactly
  the oldest one.
\<close>

theorem ringbuffer_putchar_force:
  assumes "rb_wf rb"
  shows "case rt_ringbuffer_putchar_force rb ch of (n, rb') \<Rightarrow>
    n = 1 \<and> rb_wf rb' \<and>
    rb_data rb' = (if rb_len rb = rb_cap rb then tl (rb_data rb) else rb_data rb) @ [ch]"
proof (cases "rb_len rb = rb_cap rb")
  case True
  note nat = rb_wf_nat [OF assms]
  obtain bytes rb1 where g: "rt_ringbuffer_get rb 1 = (bytes, rb1)" by fastforce
  note ga = get_aux [OF assms g]
  obtain n rb' where p: "rt_ringbuffer_put rb1 [ch] = (n, rb')" by fastforce
  note pa = put_aux [OF ga(2) p]
  have "rb_len rb1 = rb_cap rb - 1" using ga(3) True by (metis length_drop length_rb_data)
  then have "n = 1" using pa(1) ga(4) nat by simp
  with True pa ga g p show ?thesis
    by (simp add: putchar_force_full [OF assms True] getchar_eq_get [OF assms]
        putchar_eq_put [OF ga(2)] drop_Suc)
next
  case False
  obtain n rb' where p: "rt_ringbuffer_put rb [ch] = (n, rb')" by fastforce
  note pa = put_aux [OF assms p]
  have "n = 1" using pa(1) False rb_len_le_cap [OF assms] by simp
  with False pa p show ?thesis
    by (simp add: putchar_force_room [OF assms False] putchar_eq_put [OF assms])
qed

theorem ringbuffer_putchar_force_witness:
  "let rb = \<lparr>buffer_ptr = [1, 2, 3, 4, 5, 6, 7, 8], read_mirror = False, read_index = 0,
     write_mirror = True, write_index = 0, buffer_size = 8\<rparr> in
   rb_data (snd (rt_ringbuffer_putchar_force rb 9)) = [2, 3, 4, 5, 6, 7, 8, 9]"
proof -
  define rb where "rb =
    \<lparr>buffer_ptr = [1, 2, 3, 4, 5, 6, 7, 8], read_mirror = False, read_index = 0,
     write_mirror = True, write_index = 0, buffer_size = 8\<rparr>"
  have "rb_wf rb" "rb_data rb = [1, 2, 3, 4, 5, 6, 7, 8]" "rb_cap rb = 8" "rb_len rb = 8"
    by (simp_all add: rb_def rb_eval)
  then have "rb_data (snd (rt_ringbuffer_putchar_force rb 9)) = [2, 3, 4, 5, 6, 7, 8, 9]"
    using ringbuffer_putchar_force [of rb 9] by (auto split: prod.splits)
  then show ?thesis by (simp only: rb_def Let_def)
qed

text \<open>
  The block overwrite of at most a buffer's length.  If the bytes fit it is the block
  store.  If they do not and the write position has wrapped past the read position, it
  keeps the newest bytes, a buffer full of them.  If they do not fit and it has not
  wrapped, the read mirror is flipped along with the write mirror and the buffer is left
  empty: the new bytes and the old ones are lost.
\<close>

theorem ringbuffer_put_force:
  assumes "rb_wf rb" "length ptr \<le> rb_cap rb"
  shows "rb_data (snd (rt_ringbuffer_put_force rb ptr)) =
    (if length ptr \<le> rb_cap rb - rb_len rb then rb_data rb @ ptr
     else if read_mirror rb = write_mirror rb then []
     else drop (rb_len rb + length ptr - rb_cap rb) (rb_data rb @ ptr))"
proof -
  consider "length ptr \<le> rb_cap rb - rb_len rb"
    | "rb_cap rb - rb_len rb < length ptr" "read_mirror rb = write_mirror rb"
    | "rb_cap rb - rb_len rb < length ptr" "read_mirror rb \<noteq> write_mirror rb" by linarith
  then show ?thesis
  proof cases
    case 1
    then show ?thesis using ring_store [OF assms(1) 1] by (simp add: put_force_eq [OF assms])
  next
    case 2
    then show ?thesis using put_force_same_side [OF assms(1) 2(2,1) assms(2)] by simp
  next
    case 3
    let ?d = "length ptr - (rb_cap rb - rb_len rb)"
    have d: "?d \<le> rb_len rb" "?d = rb_len rb + length ptr - rb_cap rb"
      using 3 assms rb_len_le_cap [OF assms(1)] by auto
    note f = ring_fetch [OF assms(1) d(1)]
    obtain n rb' where p: "rt_ringbuffer_put (advance_read ?d rb) ptr = (n, rb')" by fastforce
    note pa = put_aux [OF f(1) p]
    have "n = length ptr"
      using pa(1) f(3) advance_read(2) [OF assms(1) d(1)] 3 assms(2) rb_len_le_cap [OF assms(1)] by simp
    with 3 pa f(2) p d show ?thesis
      by (simp add: put_force_overwrite [OF assms(1) 3(2,1) assms(2)])
  qed
qed

theorem ringbuffer_put_force_witness:
  "let rb = \<lparr>buffer_ptr = [1, 2, 3, 4, 5, 0, 0, 0], read_mirror = False, read_index = 0,
     write_mirror = False, write_index = 5, buffer_size = 8\<rparr> in
   rb_data rb = [1, 2, 3, 4, 5] \<and> rb_data (snd (rt_ringbuffer_put_force rb [6, 7, 8, 9, 10])) = []"
proof -
  define rb where "rb =
    \<lparr>buffer_ptr = [1, 2, 3, 4, 5, 0, 0, 0], read_mirror = False, read_index = 0,
     write_mirror = False, write_index = 5, buffer_size = 8\<rparr>"
  have "rb_wf rb" "rb_data rb = [1, 2, 3, 4, 5]" "rb_cap rb = 8" "rb_len rb = 5"
    "read_mirror rb = write_mirror rb"
    by (simp_all add: rb_def rb_eval)
  then have "rb_data rb = [1, 2, 3, 4, 5] \<and> rb_data (snd (rt_ringbuffer_put_force rb [6, 7, 8, 9, 10])) = []"
    using ringbuffer_put_force [of rb "[6, 7, 8, 9, 10]"] by (auto split: prod.splits)
  then show ?thesis by (simp only: rb_def Let_def)
qed

end
