(* ===== verification/RtList.thy ===== *)
theory RtList
  imports RtPrelude "HOL-Library.Monad_Syntax"
begin

text \<open>
  The intrusive lists of kernel/rtservice.h on an explicit store: a node is an address, and
  the store holds its links.  Every kernel queue (ready table, suspend lists, timer lists,
  object containers) is such a circular doubly linked list with a head node.  The lemmas
  show that the pointer operations implement operations on lists of nodes, and that they
  leave every list they do not touch alone; this is what lets the kernel theories model a
  queue as a HOL list.
\<close>

section \<open>Doubly linked lists\<close>

type_synonym node = nat

record rt_list_store =
  nxt :: "node \<Rightarrow> node"
  prv :: "node \<Rightarrow> node"

definition set_nxt :: "node \<Rightarrow> node \<Rightarrow> rt_list_store \<Rightarrow> rt_list_store" where
  "set_nxt a b s = s\<lparr>nxt := (nxt s)(a := b)\<rparr>"

definition set_prv :: "node \<Rightarrow> node \<Rightarrow> rt_list_store \<Rightarrow> rt_list_store" where
  "set_prv a b s = s\<lparr>prv := (prv s)(a := b)\<rparr>"

definition rt_list_init :: "node \<Rightarrow> rt_list_store \<Rightarrow> rt_list_store" where
  "rt_list_init l s = set_nxt l l (set_prv l l s)"

text \<open>The four assignments in the order of the source; each reads the store it meets.\<close>

definition rt_list_insert_after :: "node \<Rightarrow> node \<Rightarrow> rt_list_store \<Rightarrow> rt_list_store" where
  "rt_list_insert_after l n s =
     (let s1 = set_prv (nxt s l) n s;
          s2 = set_nxt n (nxt s1 l) s1;
          s3 = set_nxt l n s2
      in set_prv n l s3)"

definition rt_list_insert_before :: "node \<Rightarrow> node \<Rightarrow> rt_list_store \<Rightarrow> rt_list_store" where
  "rt_list_insert_before l n s =
     (let s1 = set_nxt (prv s l) n s;
          s2 = set_prv n (prv s1 l) s1;
          s3 = set_prv l n s2
      in set_nxt n l s3)"

definition rt_list_remove :: "node \<Rightarrow> rt_list_store \<Rightarrow> rt_list_store" where
  "rt_list_remove n s =
     (let s1 = set_prv (nxt s n) (prv s n) s;
          s2 = set_nxt (prv s1 n) (nxt s1 n) s1
      in set_nxt n n (set_prv n n s2))"

definition rt_list_isempty :: "node \<Rightarrow> rt_list_store \<Rightarrow> bool" where
  "rt_list_isempty l s \<longleftrightarrow> nxt s l = l"

text \<open>The counting loop; on a list that does not come back to \<open>l\<close> it never ends (\<open>None\<close>).\<close>

partial_function (option) rt_list_len_loop :: "rt_list_store \<Rightarrow> node \<Rightarrow> node \<Rightarrow> nat \<Rightarrow> nat option" where
  "rt_list_len_loop s l p len =
     (if nxt s p \<noteq> l then rt_list_len_loop s l (nxt s p) (len + 1) else Some len)"

definition rt_list_len :: "node \<Rightarrow> rt_list_store \<Rightarrow> nat option" where
  "rt_list_len l s = rt_list_len_loop s l l 0"

section \<open>Singly linked lists\<close>

text \<open>A link is an address or \<open>None\<close> for \<open>RT_NULL\<close>.\<close>

type_synonym rt_slist_store = "node \<Rightarrow> node option"

definition rt_slist_init :: "node \<Rightarrow> rt_slist_store \<Rightarrow> rt_slist_store" where
  "rt_slist_init l s = s(l := None)"

partial_function (option) rt_slist_tail :: "rt_slist_store \<Rightarrow> node \<Rightarrow> node option" where
  "rt_slist_tail s l = (case s l of None \<Rightarrow> Some l | Some n \<Rightarrow> rt_slist_tail s n)"

definition rt_slist_append :: "node \<Rightarrow> node \<Rightarrow> rt_slist_store \<Rightarrow> rt_slist_store option" where
  "rt_slist_append l n s = do { node \<leftarrow> rt_slist_tail s l; Some (s(node := Some n, n := None)) }"

definition rt_slist_insert :: "node \<Rightarrow> node \<Rightarrow> rt_slist_store \<Rightarrow> rt_slist_store" where
  "rt_slist_insert l n s = (let s1 = s(n := s l) in s1(l := Some n))"

partial_function (option) rt_slist_len_loop :: "rt_slist_store \<Rightarrow> node option \<Rightarrow> nat \<Rightarrow> nat option" where
  "rt_slist_len_loop s p len =
     (case p of None \<Rightarrow> Some len | Some a \<Rightarrow> rt_slist_len_loop s (s a) (len + 1))"

definition rt_slist_len :: "node \<Rightarrow> rt_slist_store \<Rightarrow> nat option" where
  "rt_slist_len l s = rt_slist_len_loop s (s l) 0"

text \<open>The loop of \<open>rt_slist_remove\<close> stops at the node before \<open>n\<close>, or at the last node.\<close>

partial_function (option) rt_slist_find_prev :: "rt_slist_store \<Rightarrow> node \<Rightarrow> node \<Rightarrow> node option" where
  "rt_slist_find_prev s n p =
     (case s p of
        None \<Rightarrow> Some p
      | Some q \<Rightarrow> if q \<noteq> n then rt_slist_find_prev s n q else Some p)"

definition rt_slist_remove :: "node \<Rightarrow> node \<Rightarrow> rt_slist_store \<Rightarrow> rt_slist_store option" where
  "rt_slist_remove l n s =
     do { p \<leftarrow> rt_slist_find_prev s n l;
          Some (case s p of None \<Rightarrow> s | Some q \<Rightarrow> s(p := s q)) }"

definition rt_slist_first :: "node \<Rightarrow> rt_slist_store \<Rightarrow> node option" where
  "rt_slist_first l s = s l"

definition rt_slist_next :: "node \<Rightarrow> rt_slist_store \<Rightarrow> node option" where
  "rt_slist_next n s = s n"

definition rt_slist_isempty :: "node \<Rightarrow> rt_slist_store \<Rightarrow> bool" where
  "rt_slist_isempty l s \<longleftrightarrow> s l = None"

section \<open>Representation predicates\<close>

text \<open>\<open>seg s a xs b\<close>: from \<open>a\<close> the links lead through \<open>xs\<close> to \<open>b\<close>, forwards and backwards.\<close>

fun seg :: "rt_list_store \<Rightarrow> node \<Rightarrow> node list \<Rightarrow> node \<Rightarrow> bool" where
  "seg s a [] b \<longleftrightarrow> nxt s a = b \<and> prv s b = a"
| "seg s a (x # xs) b \<longleftrightarrow> nxt s a = x \<and> prv s x = a \<and> seg s x xs b"

definition dlist :: "rt_list_store \<Rightarrow> node \<Rightarrow> node list \<Rightarrow> bool" where
  "dlist s h xs \<longleftrightarrow> distinct (h # xs) \<and> seg s h xs h"

fun sseg :: "rt_slist_store \<Rightarrow> node \<Rightarrow> node list \<Rightarrow> bool" where
  "sseg s a [] \<longleftrightarrow> s a = None"
| "sseg s a (x # xs) \<longleftrightarrow> s a = Some x \<and> sseg s x xs"

definition slist :: "rt_slist_store \<Rightarrow> node \<Rightarrow> node list \<Rightarrow> bool" where
  "slist s h xs \<longleftrightarrow> distinct (h # xs) \<and> sseg s h xs"

section \<open>Lemmas: doubly linked lists\<close>

lemma store_simps [simp]:
  "nxt (set_nxt a b s) = (nxt s)(a := b)" "prv (set_nxt a b s) = prv s"
  "prv (set_prv a b s) = (prv s)(a := b)" "nxt (set_prv a b s) = nxt s"
  by (simp_all add: set_nxt_def set_prv_def)

lemma seg_append: "seg s a (xs @ y # ys) b \<longleftrightarrow> seg s a xs y \<and> seg s y ys b"
  by (induction xs arbitrary: a) auto

lemma seg_frame:
  assumes "\<And>c. c \<in> insert a (set xs) \<Longrightarrow> nxt s' c = nxt s c"
    and "\<And>c. c \<in> insert b (set xs) \<Longrightarrow> prv s' c = prv s c"
  shows "seg s' a xs b = seg s a xs b"
  using assms by (induction xs arbitrary: a) auto

lemma seg_next: "seg s a xs b \<Longrightarrow> nxt s a = hd (xs @ [b])"
  by (cases xs) auto

lemma seg_prev: "seg s a xs b \<Longrightarrow> prv s b = last (a # xs)"
  by (induction xs arbitrary: a) auto

lemma insert_after_cells:
  "nxt (rt_list_insert_after l n s) = (nxt s)(n := nxt s l, l := n)"
  "prv (rt_list_insert_after l n s) = (prv s)(nxt s l := n, n := l)"
  by (simp_all add: rt_list_insert_after_def Let_def)

lemma insert_before_cells:
  "nxt (rt_list_insert_before l n s) = (nxt s)(prv s l := n, n := l)"
  "prv (rt_list_insert_before l n s) = (prv s)(n := prv s l, l := n)"
  by (simp_all add: rt_list_insert_before_def Let_def)

text \<open>Linking a node in between two neighbours.\<close>

lemma insert_after_seg:
  assumes "seg s a xs b" "n \<notin> insert a (insert b (set xs))" "distinct (a # xs)" "b \<notin> set xs"
  shows "seg (rt_list_insert_after a n s) a (n # xs) b"
proof (cases xs)
  case Nil
  with assms show ?thesis by (auto simp: insert_after_cells)
next
  case (Cons x ys)
  with assms have "seg (rt_list_insert_after a n s) x ys b = seg s x ys b"
    by (intro seg_frame) (auto simp: insert_after_cells)
  with assms Cons show ?thesis by (auto simp: insert_after_cells)
qed

lemma insert_after_other:
  assumes "seg s a ys b" "seg s l xs c" "n \<notin> insert a (insert b (set ys))"
    "l \<notin> insert a (set ys)" "hd (xs @ [c]) \<notin> insert b (set ys)"
  shows "seg (rt_list_insert_after l n s) a ys b"
proof -
  have "seg (rt_list_insert_after l n s) a ys b = seg s a ys b"
    using assms(3-5) seg_next [OF assms(2)] by (intro seg_frame) (auto simp: insert_after_cells)
  with assms(1) show ?thesis by simp
qed

text \<open>The operations on whole lists: after a node, at the front and at the back.\<close>

lemma dlist_init: "dlist (rt_list_init h s) h []"
  by (simp add: dlist_def rt_list_init_def)

lemma dlist_insert_after_node:
  assumes "dlist s h (us @ x # vs)" "n \<notin> set (h # us @ x # vs)"
  shows "dlist (rt_list_insert_after x n s) h (us @ x # n # vs)"
proof -
  from assms have segs: "seg s h us x" "seg s x vs h" and d: "distinct (h # us @ x # vs)"
    by (auto simp: dlist_def seg_append)
  have "seg (rt_list_insert_after x n s) x (n # vs) h"
    using segs(2) assms(2) d by (intro insert_after_seg) auto
  moreover have "hd (vs @ [h]) \<in> insert h (set vs)" by (cases vs) auto
  then have "hd (vs @ [h]) \<notin> insert x (set us)" using d by auto
  then have "seg (rt_list_insert_after x n s) h us x"
    using segs assms(2) d by (intro insert_after_other [OF segs]) auto
  ultimately show ?thesis using d assms(2) by (auto simp: dlist_def seg_append)
qed

lemma dlist_insert_after_head:
  assumes "dlist s h xs" "n \<notin> set (h # xs)"
  shows "dlist (rt_list_insert_after h n s) h (n # xs)"
  using assms insert_after_seg [of s h xs h n] by (auto simp: dlist_def)

lemma insert_before_is_after:
  assumes "prv s l = p" "nxt s p = l" "n \<noteq> l" "n \<noteq> p"
  shows "rt_list_insert_before l n s = rt_list_insert_after p n s"
  using assms
  by (intro rt_list_store.equality) (auto simp: insert_before_cells insert_after_cells)

lemma dlist_insert_before_head:
  assumes "dlist s h xs" "n \<notin> set (h # xs)"
  shows "dlist (rt_list_insert_before h n s) h (xs @ [n])"
proof (cases xs rule: rev_cases)
  case Nil
  with assms have "rt_list_insert_before h n s = rt_list_insert_after h n s"
    by (intro insert_before_is_after) (auto simp: dlist_def)
  with dlist_insert_after_head [OF assms] Nil show ?thesis by simp
next
  case (snoc us x)
  with assms have "rt_list_insert_before h n s = rt_list_insert_after x n s"
    by (intro insert_before_is_after) (auto simp: dlist_def seg_append)
  with dlist_insert_after_node [of s h us x "[]" n] assms snoc show ?thesis by simp
qed

lemma dlist_insert_before_node:
  assumes "dlist s h (us @ x # vs)" "n \<notin> set (h # us @ x # vs)"
  shows "dlist (rt_list_insert_before x n s) h (us @ n # x # vs)"
proof (cases us rule: rev_cases)
  case Nil
  with assms have "rt_list_insert_before x n s = rt_list_insert_after h n s"
    by (intro insert_before_is_after) (auto simp: dlist_def)
  with dlist_insert_after_head [of s h "x # vs" n] assms Nil show ?thesis by simp
next
  case (snoc ws y)
  with assms have "rt_list_insert_before x n s = rt_list_insert_after y n s"
    by (intro insert_before_is_after) (auto simp: dlist_def seg_append)
  with dlist_insert_after_node [of s h ws y "x # vs" n] assms snoc show ?thesis by simp
qed

lemma remove_cells:
  assumes "nxt s n \<noteq> n"  "prv s n \<noteq> n"
  shows "nxt (rt_list_remove n s) = (nxt s)(prv s n := nxt s n, n := n)"
    "prv (rt_list_remove n s) = (prv s)(nxt s n := prv s n, n := n)"
  using assms by (auto simp: rt_list_remove_def Let_def)

lemma remove_self_linked: "nxt s n = n \<Longrightarrow> prv s n = n \<Longrightarrow> rt_list_remove n s = s"
  by (intro rt_list_store.equality) (auto simp: rt_list_remove_def Let_def)

lemma dlist_remove:
  assumes "dlist s h (us @ x # vs)"
  shows "dlist (rt_list_remove x s) h (us @ vs)"
    "nxt (rt_list_remove x s) x = x" "prv (rt_list_remove x s) x = x"
proof -
  from assms have segs: "seg s h us x" "seg s x vs h" and d: "distinct (h # us @ x # vs)"
    by (auto simp: dlist_def seg_append)
  have nx: "nxt s x = hd (vs @ [h])" and px: "prv s x = last (h # us)"
    using seg_next [OF segs(2)] seg_prev [OF segs(1)] by auto
  have hd: "hd (vs @ [h]) \<in> insert h (set vs)" by (cases vs) auto
  have la: "last (h # us) \<in> insert h (set us)" by (cases us rule: rev_cases) auto
  have ne: "nxt s x \<noteq> x" "prv s x \<noteq> x" using nx px hd la d by auto
  note cells = remove_cells [OF ne]
  show "nxt (rt_list_remove x s) x = x" "prv (rt_list_remove x s) x = x" by (simp_all add: cells)
  have "seg (rt_list_remove x s) h (us @ vs) h"
  proof (cases us rule: rev_cases)
    case Nil
    show ?thesis
    proof (cases vs)
      case (Cons v ws)
      then have "seg (rt_list_remove x s) v ws h = seg s v ws h"
        using d nx px Nil by (intro seg_frame) (auto simp: cells)
      with Cons Nil segs nx px d show ?thesis by (auto simp: cells)
    qed (use Nil nx px d in \<open>auto simp: cells\<close>)
  next
    case (snoc ws y)
    then have 1: "seg (rt_list_remove x s) h ws y = seg s h ws y"
      using d nx px hd by (intro seg_frame) (auto simp: cells)
    have 2: "seg (rt_list_remove x s) y vs h"
    proof (cases vs)
      case (Cons v zs)
      then have "seg (rt_list_remove x s) v zs h = seg s v zs h"
        using d nx px snoc by (intro seg_frame) (auto simp: cells)
      with Cons snoc segs nx px d show ?thesis by (auto simp: cells)
    qed (use snoc nx px d in \<open>auto simp: cells\<close>)
    from segs snoc have "seg s h ws y" by (simp add: seg_append)
    with 1 2 snoc show ?thesis by (simp add: seg_append)
  qed
  with d show "dlist (rt_list_remove x s) h (us @ vs)" by (auto simp: dlist_def)
qed

text \<open>A list none of whose nodes is touched stays as it is.\<close>

lemma dlist_frame:
  assumes "dlist s k ys" "\<And>c. c \<in> set (k # ys) \<Longrightarrow> nxt s' c = nxt s c \<and> prv s' c = prv s c"
  shows "dlist s' k ys"
  using assms seg_frame [of k ys s' s k] by (auto simp: dlist_def)

text \<open>The neighbours of a node of a list are nodes of the list.\<close>

lemma seg_closed:
  assumes "seg s a xs b"
  shows "c \<in> insert a (set xs) \<Longrightarrow> nxt s c \<in> insert b (set xs)" "c \<in> insert b (set xs) \<Longrightarrow> prv s c \<in> insert a (set xs)"
  using assms by (induction xs arbitrary: a) auto

lemma dlist_closed: "dlist s h xs \<Longrightarrow> c \<in> set (h # xs) \<Longrightarrow> nxt s c \<in> set (h # xs) \<and> prv s c \<in> set (h # xs)"
  using seg_closed [of s h xs h c] by (auto simp: dlist_def)

lemma dlist_ops_other:
  assumes "dlist s h xs" "dlist s k ys" "set (k # ys) \<inter> set (n # h # xs) = {}" "x \<in> set (h # xs)"
  shows "dlist (rt_list_insert_after x n s) k ys" "dlist (rt_list_insert_before x n s) k ys" "dlist (rt_list_remove x s) k ys"
proof -
  have "c \<noteq> n \<and> c \<noteq> x \<and> c \<noteq> nxt s x \<and> c \<noteq> prv s x" if "c \<in> set (k # ys)" for c
    using that dlist_closed [OF assms(1,4)] assms(3,4) by auto
  then show "dlist (rt_list_insert_after x n s) k ys" "dlist (rt_list_insert_before x n s) k ys" "dlist (rt_list_remove x s) k ys"
    by (auto intro!: dlist_frame [OF assms(2)] simp: insert_after_cells insert_before_cells rt_list_remove_def Let_def)
qed

lemma dlist_init_other: "dlist s k ys \<Longrightarrow> m \<notin> set (k # ys) \<Longrightarrow> dlist (rt_list_init m s) k ys"
  by (rule dlist_frame) (auto simp: rt_list_init_def)

lemma isempty_aux: "dlist s h xs \<Longrightarrow> rt_list_isempty h s \<longleftrightarrow> xs = []"
  by (cases xs) (auto simp: dlist_def rt_list_isempty_def)

lemma list_len_loop_aux:
  "seg s p xs h \<Longrightarrow> h \<notin> set xs \<Longrightarrow> rt_list_len_loop s h p n = Some (n + length xs)"
proof (induction xs arbitrary: p n)
  case Nil
  then show ?case by (subst rt_list_len_loop.simps) simp
next
  case (Cons x xs)
  then show ?case by (subst rt_list_len_loop.simps) auto
qed

lemma list_len_aux: "dlist s h xs \<Longrightarrow> rt_list_len h s = Some (length xs)"
  using list_len_loop_aux [of s h xs h 0] by (simp add: dlist_def rt_list_len_def)

section \<open>Lemmas: singly linked lists\<close>

lemma sseg_frame: "(\<And>c. c \<in> insert a (set xs) \<Longrightarrow> s' c = s c) \<Longrightarrow> sseg s' a xs = sseg s a xs"
  by (induction xs arbitrary: a) auto

lemma slist_tail_aux: "sseg s a xs \<Longrightarrow> rt_slist_tail s a = Some (last (a # xs))"
proof (induction xs arbitrary: a)
  case Nil
  then show ?case by (subst rt_slist_tail.simps) simp
next
  case (Cons x xs)
  then show ?case by (subst rt_slist_tail.simps) auto
qed

lemma sseg_snoc:
  assumes "sseg s a xs" "distinct (a # xs)" "n \<notin> set (a # xs)"
  shows "sseg (s(last (a # xs) := Some n, n := None)) a (xs @ [n])"
  using assms
proof (induction xs arbitrary: a)
  case Nil
  then show ?case by simp
next
  case (Cons x xs)
  have la: "last (x # xs) \<noteq> a" using Cons.prems by (metis distinct.simps(2) last_in_set list.discI)
  have "sseg (s(last (x # xs) := Some n, n := None)) x (xs @ [n])"
    using Cons.prems by (intro Cons.IH) auto
  with Cons.prems la show ?case by (auto simp del: fun_upd_apply simp: fun_upd_other)
qed

lemma slist_append_aux:
  assumes "slist s h xs" "n \<notin> set (h # xs)"
  shows "\<exists>s'. rt_slist_append h n s = Some s' \<and> slist s' h (xs @ [n])"
  using assms slist_tail_aux [of s h xs] sseg_snoc [of s h xs n]
  by (simp add: slist_def rt_slist_append_def)

lemma slist_insert_aux:
  assumes "slist s h xs" "n \<notin> set (h # xs)"
  shows "slist (rt_slist_insert h n s) h (n # xs)"
proof -
  have "sseg (s(n := s h, h := Some n)) n xs"
  proof (cases xs)
    case (Cons x ys)
    then have "sseg (s(n := s h, h := Some n)) x ys = sseg s x ys"
      using assms by (intro sseg_frame) (auto simp: slist_def)
    with Cons assms show ?thesis by (auto simp: slist_def)
  qed (use assms in \<open>auto simp: slist_def\<close>)
  with assms show ?thesis by (auto simp: slist_def rt_slist_insert_def)
qed

lemma slist_len_loop_aux:
  "sseg s a xs \<Longrightarrow> rt_slist_len_loop s (s a) n = Some (n + length xs)"
proof (induction xs arbitrary: a n)
  case Nil
  then show ?case by (subst rt_slist_len_loop.simps) simp
next
  case (Cons x xs)
  then show ?case by (subst rt_slist_len_loop.simps) auto
qed

lemma slist_find_prev_aux:
  "sseg s a (us @ n # vs) \<Longrightarrow> distinct (us @ n # vs) \<Longrightarrow>
   rt_slist_find_prev s n a = Some (last (a # us))"
proof (induction us arbitrary: a)
  case Nil
  then show ?case by (subst rt_slist_find_prev.simps) simp
next
  case (Cons x us)
  then show ?case by (subst rt_slist_find_prev.simps) auto
qed

lemma slist_find_prev_none:
  "sseg s a xs \<Longrightarrow> n \<notin> set xs \<Longrightarrow> rt_slist_find_prev s n a = Some (last (a # xs))"
proof (induction xs arbitrary: a)
  case Nil
  then show ?case by (subst rt_slist_find_prev.simps) simp
next
  case (Cons x us)
  then show ?case by (subst rt_slist_find_prev.simps) auto
qed

lemma sseg_last: "sseg s a xs \<Longrightarrow> s (last (a # xs)) = None"
  by (induction xs arbitrary: a) auto

lemma sseg_suffix: "sseg s a (us @ n # vs) \<Longrightarrow> sseg s n vs \<and> s (last (a # us)) = Some n"
  by (induction us arbitrary: a) auto

lemma sseg_cut:
  assumes "sseg s a (us @ n # vs)" "distinct (a # us @ n # vs)"
  shows "sseg (s(last (a # us) := s n)) a (us @ vs)"
  using assms
proof (induction us arbitrary: a)
  case Nil
  show ?case
  proof (cases vs)
    case (Cons v ws)
    then have "sseg (s(a := s n)) v ws = sseg s v ws"
      using Nil by (intro sseg_frame) auto
    with Nil Cons have "sseg (s(a := s n)) v ws" "s n = Some v" by auto
    with Cons show ?thesis by (simp del: fun_upd_apply add: fun_upd_same)
  qed (use Nil in auto)
next
  case (Cons x us)
  have la: "last (x # us) \<noteq> a" using Cons.prems
    by (metis (no_types, lifting) UnI1 append_Cons distinct.simps(2) last_in_set list.discI set_append)
  have "sseg (s(last (x # us) := s n)) x (us @ vs)"
    using Cons.prems by (intro Cons.IH) auto
  with Cons.prems la show ?case by (auto simp del: fun_upd_apply simp: fun_upd_other)
qed

lemma slist_remove_aux:
  assumes "slist s h xs"
  shows "\<exists>s'. rt_slist_remove h n s = Some s' \<and> slist s' h (remove1 n xs)"
proof (cases "n \<in> set xs")
  case True
  then obtain us vs where xs: "xs = us @ n # vs" "n \<notin> set us" by (meson split_list_first)
  with assms have seg: "sseg s h (us @ n # vs)" and d: "distinct (h # us @ n # vs)"
    by (auto simp: slist_def)
  then have "rt_slist_remove h n s = Some (s(last (h # us) := s n))"
    using slist_find_prev_aux [OF seg] sseg_suffix [OF seg] by (simp add: rt_slist_remove_def)
  moreover have "slist (s(last (h # us) := s n)) h (us @ vs)"
    using sseg_cut [OF seg d] d by (auto simp: slist_def)
  ultimately show ?thesis using xs by (simp add: remove1_append)
next
  case False
  then have "rt_slist_remove h n s = Some s"
    using assms slist_find_prev_none [of s h xs n] sseg_last [of s h xs]
    by (simp add: rt_slist_remove_def slist_def)
  with assms False show ?thesis by (simp add: remove1_idem)
qed

section \<open>Properties\<close>

text \<open>
  C37: On a well-formed circular list, empty or not, the pointer operations do what the
  kernel's queues need: inserting before the head appends, inserting after the head prepends,
  inserting before or after a node puts the new node next to it, removing a node unlinks
  exactly that node and leaves it linked to itself; the test for emptiness and the length are
  right, and initialising a node makes it an empty list.  Every list that shares no node with
  the one changed is still the same list after each of them.
\<close>

theorem rt_list_ops_refine:
  assumes "dlist s h xs" "n \<notin> set (h # xs)"
    and "dlist s k ys" "set (k # ys) \<inter> set (n # h # xs) = {}"
  shows "dlist (rt_list_insert_before h n s) h (xs @ [n]) \<and> dlist (rt_list_insert_before h n s) k ys \<and>
    dlist (rt_list_insert_after h n s) h (n # xs) \<and> dlist (rt_list_insert_after h n s) k ys \<and>
    (\<forall>us x vs. xs = us @ x # vs \<longrightarrow>
      dlist (rt_list_insert_before x n s) h (us @ n # x # vs) \<and> dlist (rt_list_insert_before x n s) k ys \<and>
      dlist (rt_list_insert_after x n s) h (us @ x # n # vs) \<and> dlist (rt_list_insert_after x n s) k ys \<and>
      dlist (rt_list_remove x s) h (us @ vs) \<and> dlist (rt_list_remove x s) x [] \<and> dlist (rt_list_remove x s) k ys) \<and>
    (rt_list_isempty h s \<longleftrightarrow> xs = []) \<and> rt_list_len h s = Some (length xs) \<and>
    dlist (rt_list_init n s) n [] \<and> dlist (rt_list_init n s) h xs"
proof -
  note o = dlist_ops_other [OF assms(1,3,4)]
  have "dlist (rt_list_insert_before x n s) h (us @ n # x # vs) \<and> dlist (rt_list_insert_before x n s) k ys \<and>
      dlist (rt_list_insert_after x n s) h (us @ x # n # vs) \<and> dlist (rt_list_insert_after x n s) k ys \<and>
      dlist (rt_list_remove x s) h (us @ vs) \<and> dlist (rt_list_remove x s) x [] \<and> dlist (rt_list_remove x s) k ys"
    if xs: "xs = us @ x # vs" for us x vs
  proof -
    have "x \<in> set (h # xs)" using xs by simp
    from o [OF this] dlist_insert_before_node [OF assms(1,2) [unfolded xs]] dlist_insert_after_node [OF assms(1,2) [unfolded xs]]
      dlist_remove [OF assms(1) [unfolded xs]]
    show ?thesis by (simp add: dlist_def)
  qed
  then show ?thesis
    using o [of h] dlist_insert_before_head [OF assms(1,2)] dlist_insert_after_head [OF assms(1,2)]
      isempty_aux [OF assms(1)] list_len_aux [OF assms(1)] dlist_init dlist_init_other [OF assms(1,2)] by simp
qed

theorem rt_list_ops_refine_witness:
  "let s0 = rt_list_init 0 (rt_list_init 9 \<lparr>nxt = id, prv = id\<rparr>);
       s = rt_list_insert_before 0 2 (rt_list_insert_before 0 1 s0) in
   dlist (rt_list_insert_after 0 3 s0) 0 [3] \<and> dlist s 0 [1, 2] \<and> dlist (rt_list_remove 1 s) 0 [2] \<and>
   dlist (rt_list_insert_before 0 3 s) 0 [1, 2, 3] \<and> dlist (rt_list_insert_before 0 3 s) 9 []"
proof -
  define s0 where "s0 = rt_list_init 0 (rt_list_init 9 \<lparr>nxt = id, prv = id\<rparr>)"
  define s where "s = rt_list_insert_before 0 2 (rt_list_insert_before 0 1 s0)"
  have d: "dlist s0 0 []" "dlist s0 9 []" "dlist s 0 ([] @ 1 # [2])" "dlist s 9 []"
    by (simp_all add: s_def s0_def dlist_def insert_before_cells rt_list_init_def)
  have "dlist (rt_list_remove 1 s) 0 [2]"
    using rt_list_ops_refine [of s 0 "[1, 2]" 3 9 "[]"] d(3,4) by (auto dest: spec [of _ "[]"])
  then show ?thesis
    using rt_list_ops_refine [of s0 0 "[]" 3 9 "[]"] rt_list_ops_refine [of s 0 "[1, 2]" 3 9 "[]"] d
    by (simp add: s_def s0_def Let_def)
qed

text \<open>
  On a well-formed singly linked list the loops end; append, insert and remove act as
  on lists, and removing a node that is not on the list changes nothing.
\<close>

theorem rt_slist_ops_refine:
  assumes "slist s h xs" "n \<notin> set (h # xs)"
  shows "(\<exists>s'. rt_slist_append h n s = Some s' \<and> slist s' h (xs @ [n])) \<and>
    slist (rt_slist_insert h n s) h (n # xs) \<and>
    (\<exists>s'. rt_slist_remove h m s = Some s' \<and> slist s' h (remove1 m xs)) \<and>
    rt_slist_len h s = Some (length xs)"
  using slist_append_aux [OF assms] slist_insert_aux [OF assms] slist_remove_aux [OF assms(1)]
    slist_len_loop_aux [of s h xs 0] assms(1)
  by (simp add: rt_slist_len_def slist_def)

theorem rt_slist_ops_refine_witness:
  "slist [0 \<mapsto> 1, 1 \<mapsto> 2] 0 [1, 2] \<and>
   (\<exists>s'. rt_slist_remove 0 1 [0 \<mapsto> 1, 1 \<mapsto> 2] = Some s' \<and> slist s' 0 [2])"
proof -
  have "slist [0 \<mapsto> 1, 1 \<mapsto> 2] 0 [1, 2]" by (simp add: slist_def)
  with rt_slist_ops_refine [of "[0 \<mapsto> 1, 1 \<mapsto> 2]" 0 "[1, 2]" 3 1] show ?thesis by simp
qed

end
