(* ===== verification/Mailbox.thy ===== *)
theory Mailbox
  imports Ipc Fifo
begin

text \<open>
  Mailboxes (ipc.c, lines 1293 to 1757): a circular buffer of words with a list of waiting
  receivers and one of waiting senders.  Blocking calls are split as in the theory of
  semaphores.  The non-blocking send and receive are shown to be a bounded queue on the
  whole kernel state, by interpreting the contract of bounded queues on them.
\<close>

section \<open>The buffer\<close>

text \<open>Storing at \<open>in_offset\<close> and fetching at \<open>out_offset\<close>; the offsets have 16 bits.\<close>

definition mb_step :: "nat \<Rightarrow> nat \<Rightarrow> nat" where
  "mb_step n i = (let j = (i + 1) mod 2 ^ 16 in if j \<ge> n then 0 else j)"

definition mb_store :: "u32 \<Rightarrow> rt_mailbox \<Rightarrow> rt_mailbox" where
  "mb_store value m =
     m\<lparr>mb_pool := (mb_pool m)[mb_in_offset m := value],
       mb_in_offset := mb_step (mb_size m) (mb_in_offset m),
       mb_entry := (mb_entry m + 1) mod 2 ^ 16\<rparr>"

definition mb_fetch :: "rt_mailbox \<Rightarrow> u32 \<times> rt_mailbox" where
  "mb_fetch m =
     (mb_pool m ! mb_out_offset m,
      m\<lparr>mb_out_offset := mb_step (mb_size m) (mb_out_offset m),
        mb_entry := (mb_entry m + 2 ^ 16 - 1) mod 2 ^ 16\<rparr>)"

section \<open>Operations\<close>

definition upd_mb :: "nat \<Rightarrow> (rt_mailbox \<Rightarrow> rt_mailbox) \<Rightarrow> kernel \<Rightarrow> kernel" where
  "upd_mb b f k = k\<lparr>mailboxes := (mailboxes k)(b := f (mailboxes k b))\<rparr>"

definition mb_fresh :: "u8 \<Rightarrow> u32 list \<Rightarrow> nat \<Rightarrow> rt_mailbox" where
  "mb_fresh flag pool n =
     \<lparr>mb_flag = flag, mb_pool = pool, mb_size = n mod 2 ^ 16, mb_entry = 0, mb_in_offset = 0, mb_out_offset = 0\<rparr>"

definition rt_mb_init :: "nat \<Rightarrow> string \<Rightarrow> u32 list \<Rightarrow> nat \<Rightarrow> u8 \<Rightarrow> kernel \<Rightarrow> rt_err_t \<times> kernel" where
  "rt_mb_init b name msgpool n flag k =
     (let k1 = rt_ipc_object_init (MbQ b) (rt_object_init (OMailbox b) RT_Object_Class_MailBox name k)
      in (RT_EOK, rt_ipc_object_init (MbSendQ b) (upd_mb b (\<lambda>_. mb_fresh flag msgpool n) k1)))"

text \<open>Both lists are released, the receivers first.\<close>

definition mb_resume_all :: "nat \<Rightarrow> kernel \<Rightarrow> kernel option" where
  "mb_resume_all b k =
     Option.bind (rt_ipc_list_resume_all (MbQ b) k) (rt_ipc_list_resume_all (MbSendQ b))"

definition rt_mb_detach :: "nat \<Rightarrow> kernel \<Rightarrow> (rt_err_t \<times> kernel) option" where
  "rt_mb_detach b k = map_option (\<lambda>k1. (RT_EOK, rt_object_detach (OMailbox b) k1)) (mb_resume_all b k)"

text \<open>\<open>pool\<close> is what the allocator gives for the words, \<open>None\<close> when it fails.\<close>

definition rt_mb_create ::
  "object_ref option \<Rightarrow> u32 list option \<Rightarrow> string \<Rightarrow> nat \<Rightarrow> u8 \<Rightarrow> kernel \<Rightarrow> nat option \<times> kernel" where
  "rt_mb_create mem pool name n flag k =
     (case rt_object_allocate mem RT_Object_Class_MailBox name k of
        (Some (OMailbox b), k1) \<Rightarrow>
          let k2 = rt_ipc_object_init (MbQ b)
                (upd_mb b (\<lambda>m. m\<lparr>mb_flag := flag, mb_size := n mod 2 ^ 16\<rparr>) k1)
          in (case pool of
                None \<Rightarrow> (None, rt_object_delete (OMailbox b) k2)
              | Some p \<Rightarrow> (Some b, rt_ipc_object_init (MbSendQ b) (upd_mb b (\<lambda>_. mb_fresh flag p n) k2)))
      | (_, k1) \<Rightarrow> (None, k1))"

definition rt_mb_delete :: "nat \<Rightarrow> kernel \<Rightarrow> (rt_err_t \<times> kernel) option" where
  "rt_mb_delete b k = map_option (\<lambda>k1. (RT_EOK, rt_object_delete (OMailbox b) k1)) (mb_resume_all b k)"

text \<open>
  \<open>timeout -= rt_tick_get() - start\<close>, cut off at zero: unsigned arithmetic assigned to a
  signed 32-bit variable.  A call that waits for ever has a negative timeout and keeps it.
\<close>

definition ticks_left :: "int \<Rightarrow> u32 \<Rightarrow> u32 \<Rightarrow> int" where
  "ticks_left timeout start now =
     (if timeout > 0 then max 0 (signed_take_bit 31 (timeout - uint (now - start))) else timeout)"

definition mb_send_done :: "nat \<Rightarrow> u32 \<Rightarrow> kernel \<Rightarrow> rt_err_t option \<times> kernel" where
  "mb_send_done b value k =
     (let k1 = upd_mb b (mb_store value) k
      in (Some RT_EOK, if queue k1 (MbQ b) \<noteq> [] then rt_schedule (rt_ipc_list_resume (MbQ b) k1) else k1))"

text \<open>The loop of \<open>rt_mb_send_wait\<close> from its test, for the thread \<open>t\<close>.\<close>

definition mb_send_loop :: "nat \<Rightarrow> u32 \<Rightarrow> int \<Rightarrow> tid option \<Rightarrow> kernel \<Rightarrow> rt_err_t option \<times> kernel" where
  "mb_send_loop b value timeout self k =
     (if mb_entry (mailboxes k b) = mb_size (mailboxes k b)
      then
        (case self of
           None \<Rightarrow> (None, k)
         | Some t \<Rightarrow>
             let k1 = upd_thread t (\<lambda>th. th\<lparr>thread_error := RT_EOK\<rparr>) k
             in if timeout = 0 then (Some (- RT_EFULL), k1)
                else (None, rt_schedule (ipc_wait (MbSendQ b) t (mb_flag (mailboxes k1 b)) timeout k1)))
      else mb_send_done b value k)"

definition rt_mb_send_wait :: "nat \<Rightarrow> u32 \<Rightarrow> int \<Rightarrow> kernel \<Rightarrow> rt_err_t option \<times> kernel" where
  "rt_mb_send_wait b value timeout k =
     (if mb_entry (mailboxes k b) = mb_size (mailboxes k b) \<and> timeout = 0 then (Some (- RT_EFULL), k)
      else mb_send_loop b value timeout (rt_thread_self k) k)"

definition rt_mb_send_wait_wake ::
  "nat \<Rightarrow> u32 \<Rightarrow> int \<Rightarrow> u32 \<Rightarrow> tid \<Rightarrow> kernel \<Rightarrow> rt_err_t option \<times> kernel" where
  "rt_mb_send_wait_wake b value timeout start t k =
     (if thread_error (threads k t) \<noteq> RT_EOK then (Some (thread_error (threads k t)), k)
      else mb_send_loop b value (ticks_left timeout start (rt_tick_get k)) (Some t) k)"

definition rt_mb_send :: "nat \<Rightarrow> u32 \<Rightarrow> kernel \<Rightarrow> rt_err_t option \<times> kernel" where
  "rt_mb_send b value k = rt_mb_send_wait b value 0 k"

definition mb_recv_done :: "nat \<Rightarrow> kernel \<Rightarrow> rt_err_t option \<times> u32 option \<times> kernel" where
  "mb_recv_done b k =
     (let v = fst (mb_fetch (mailboxes k b));
          k1 = upd_mb b (\<lambda>m. snd (mb_fetch m)) k
      in (Some RT_EOK, Some v,
          if queue k1 (MbSendQ b) \<noteq> [] then rt_schedule (rt_ipc_list_resume (MbSendQ b) k1) else k1))"

definition mb_recv_loop :: "nat \<Rightarrow> int \<Rightarrow> tid option \<Rightarrow> kernel \<Rightarrow> rt_err_t option \<times> u32 option \<times> kernel" where
  "mb_recv_loop b timeout self k =
     (if mb_entry (mailboxes k b) = 0
      then
        (case self of
           None \<Rightarrow> (None, None, k)
         | Some t \<Rightarrow>
             let k1 = upd_thread t (\<lambda>th. th\<lparr>thread_error := RT_EOK\<rparr>) k
             in if timeout = 0
                then (Some (- RT_ETIMEOUT), None, upd_thread t (\<lambda>th. th\<lparr>thread_error := - RT_ETIMEOUT\<rparr>) k1)
                else (None, None, rt_schedule (ipc_wait (MbQ b) t (mb_flag (mailboxes k1 b)) timeout k1)))
      else mb_recv_done b k)"

definition rt_mb_recv :: "nat \<Rightarrow> int \<Rightarrow> kernel \<Rightarrow> rt_err_t option \<times> u32 option \<times> kernel" where
  "rt_mb_recv b timeout k =
     (if mb_entry (mailboxes k b) = 0 \<and> timeout = 0 then (Some (- RT_ETIMEOUT), None, k)
      else mb_recv_loop b timeout (rt_thread_self k) k)"

definition rt_mb_recv_wake ::
  "nat \<Rightarrow> int \<Rightarrow> u32 \<Rightarrow> tid \<Rightarrow> kernel \<Rightarrow> rt_err_t option \<times> u32 option \<times> kernel" where
  "rt_mb_recv_wake b timeout start t k =
     (if thread_error (threads k t) \<noteq> RT_EOK then (Some (thread_error (threads k t)), None, k)
      else mb_recv_loop b (ticks_left timeout start (rt_tick_get k)) (Some t) k)"

definition rt_mb_control :: "nat \<Rightarrow> nat \<Rightarrow> u32 \<Rightarrow> kernel \<Rightarrow> (rt_err_t \<times> kernel) option" where
  "rt_mb_control b cmd arg k =
     (if cmd = RT_IPC_CMD_RESET
      then map_option (\<lambda>k1. (RT_EOK, rt_schedule (upd_mb b (\<lambda>m. m\<lparr>mb_entry := 0, mb_in_offset := 0, mb_out_offset := 0\<rparr>) k1)))
             (mb_resume_all b k)
      else Some (- RT_ERROR, k))"

section \<open>Well-formed buffers\<close>

text \<open>The words in a mailbox, oldest first.\<close>

definition mb_content :: "rt_mailbox \<Rightarrow> u32 list" where
  "mb_content m = map (\<lambda>i. mb_pool m ! ((mb_out_offset m + i) mod mb_size m)) [0..<mb_entry m]"

definition mb_wf :: "rt_mailbox \<Rightarrow> bool" where
  "mb_wf m \<longleftrightarrow> 0 < mb_size m \<and> mb_size m < 2 ^ 16 \<and> mb_size m \<le> length (mb_pool m) \<and>
     mb_out_offset m < mb_size m \<and> mb_entry m \<le> mb_size m \<and>
     mb_in_offset m = (mb_out_offset m + mb_entry m) mod mb_size m"

lemma mb_step_mod: "0 < n \<Longrightarrow> n < 2 ^ 16 \<Longrightarrow> i < n \<Longrightarrow> mb_step n i = (i + 1) mod n"
  by (auto simp: mb_step_def Let_def mod_Suc)

lemma mb_store_aux:
  assumes wf: "mb_wf m" and room: "mb_entry m < mb_size m"
  shows "mb_wf (mb_store v m)" "mb_content (mb_store v m) = mb_content m @ [v]" "mb_size (mb_store v m) = mb_size m"
proof -
  let ?n = "mb_size m" and ?o = "mb_out_offset m" and ?e = "mb_entry m" and ?i = "mb_in_offset m"
  have i: "?i = (?o + ?e) mod ?n" "?i < ?n" using wf by (auto simp: mb_wf_def)
  have e: "(?e + 1) mod 2 ^ 16 = ?e + 1" using wf room by (simp add: mb_wf_def)
  have s: "mb_step ?n ?i = (?o + (?e + 1)) mod ?n"
    using wf i mb_step_mod [of ?n ?i] by (simp add: mb_wf_def mod_simps)
  show "mb_size (mb_store v m) = mb_size m" by (simp add: mb_store_def)
  show "mb_wf (mb_store v m)" using wf room s e by (simp add: mb_store_def mb_wf_def)
  have other: "(?o + j) mod ?n \<noteq> ?i" if "j < ?e" for j
  proof
    assume "(?o + j) mod ?n = ?i"
    then have "(?o + ?e) mod ?n = (?o + j) mod ?n" using i by simp
    then have "?n dvd ?e - j" using that mod_eq_dvd_iff_nat [of "?o + j" "?o + ?e" ?n] by simp
    then show False using that room by (auto dest: dvd_imp_le)
  qed
  have "?i < length (mb_pool m)" using wf i(2) unfolding mb_wf_def by linarith
  then show "mb_content (mb_store v m) = mb_content m @ [v]"
    using other e i(1) by (simp add: mb_store_def mb_content_def) (metis atLeastLessThan_iff nth_list_update_neq)
qed

lemma mb_fetch_aux:
  assumes wf: "mb_wf m" and some: "0 < mb_entry m"
  shows "mb_wf (snd (mb_fetch m))" "mb_content m = fst (mb_fetch m) # mb_content (snd (mb_fetch m))"
    "mb_size (snd (mb_fetch m)) = mb_size m"
proof -
  let ?n = "mb_size m" and ?o = "mb_out_offset m" and ?e = "mb_entry m"
  have e: "(?e + 2 ^ 16 - 1) mod 2 ^ 16 = ?e - 1"
    using wf some by (auto simp: mb_wf_def gr0_conv_Suc)
  have s: "mb_step ?n ?o = (?o + 1) mod ?n" using wf by (intro mb_step_mod) (auto simp: mb_wf_def)
  show "mb_size (snd (mb_fetch m)) = mb_size m" by (simp add: mb_fetch_def)
  have "((?o + 1) mod ?n + (?e - 1)) mod ?n = (?o + ?e) mod ?n"
    using some mod_add_left_eq [of "?o + 1" ?n "?e - 1"] by simp
  then show "mb_wf (snd (mb_fetch m))" using wf s e by (auto simp: mb_fetch_def mb_wf_def)
  have "[0..<?e] = 0 # map Suc [0..<?e - 1]" using some by (simp add: map_Suc_upt upt_conv_Cons)
  then have "mb_content m = mb_pool m ! (?o mod ?n) # map (\<lambda>i. mb_pool m ! ((?o + Suc i) mod ?n)) [0..<?e - 1]"
    by (simp add: mb_content_def comp_def)
  moreover have "mb_content (snd (mb_fetch m)) = map (\<lambda>i. mb_pool m ! ((?o + Suc i) mod ?n)) [0..<?e - 1]"
    using s e by (simp add: mb_fetch_def mb_content_def mod_simps)
  ultimately show "mb_content m = fst (mb_fetch m) # mb_content (snd (mb_fetch m))"
    using wf by (simp add: mb_fetch_def mb_wf_def)
qed

section \<open>The contract of bounded queues\<close>

lemma upd_mb_frame [simp]:
  "threads (upd_mb b f k) = threads k" "queue (upd_mb b f k) = queue k" "rt_current_thread (upd_mb b f k) = rt_current_thread k"
  "timers (upd_mb b f k) = timers k" "mailboxes (upd_mb b f k) = (mailboxes k)(b := f (mailboxes k b))"
  "thread_stat (upd_mb b f k) t = thread_stat k t"
  by (simp_all add: upd_mb_def thread_stat_def)

lemma kinv_upd_mb [simp]: "kinv (upd_mb b f k) = kinv k"
  by (rule kinv_cong; simp add: thread_stat_def upd_mb_def)

definition mb_inv :: "nat \<Rightarrow> kernel \<Rightarrow> bool" where
  "mb_inv b k \<longleftrightarrow> kinv k \<and> mb_wf (mailboxes k b)"

text \<open>The non-blocking calls as the operations of a bounded queue.\<close>

definition mb_try_send :: "nat \<Rightarrow> kernel \<Rightarrow> u32 \<Rightarrow> kernel option" where
  "mb_try_send b k v = (case rt_mb_send b v k of (r, k') \<Rightarrow> if r = Some RT_EOK then Some k' else None)"

definition mb_try_recv :: "nat \<Rightarrow> kernel \<Rightarrow> (u32 \<times> kernel) option" where
  "mb_try_recv b k =
     (case rt_mb_recv b 0 k of (r, v, k') \<Rightarrow> if r = Some RT_EOK then map_option (\<lambda>x. (x, k')) v else None)"

lemma errno_nz [simp]:
  "RT_EOK \<noteq> - RT_EFULL" "- RT_EFULL \<noteq> RT_EOK" "RT_EOK \<noteq> - RT_ETIMEOUT" "- RT_ETIMEOUT \<noteq> RT_EOK"
  "RT_EOK \<noteq> - RT_ERROR" "- RT_ERROR \<noteq> RT_EOK"
  by (simp_all add: RT_EOK_def RT_EFULL_def RT_ETIMEOUT_def RT_ERROR_def)

lemma mb_content_length [simp]: "length (mb_content m) = mb_entry m"
  by (simp add: mb_content_def)

lemma mb_send_done_aux:
  assumes "mb_inv b k" "mb_entry (mailboxes k b) < mb_size (mailboxes k b)"
  shows "kinv (snd (mb_send_done b v k))" "fst (mb_send_done b v k) = Some RT_EOK"
    "mailboxes (snd (mb_send_done b v k)) b = mb_store v (mailboxes k b)"
    "queue k (MbQ b) = t # ts \<Longrightarrow> thread_stat (snd (mb_send_done b v k)) t \<in> {RT_THREAD_READY, RT_THREAD_RUNNING} \<and>
       queue (snd (mb_send_done b v k)) (MbQ b) = ts"
proof -
  let ?k1 = "upd_mb b (mb_store v) k"
  let ?k = "rt_ipc_list_resume (MbQ b) ?k1"
  have inv: "kinv ?k1" using assms by (simp add: mb_inv_def)
  have invr: "kinv ?k" by (rule list_resume_inv [OF inv])
  show "kinv (snd (mb_send_done b v k))" using inv invr by (simp add: mb_send_done_def Let_def kinv_schedule)
  show "fst (mb_send_done b v k) = Some RT_EOK" by (simp add: mb_send_done_def Let_def)
  show "mailboxes (snd (mb_send_done b v k)) b = mb_store v (mailboxes k b)"
    by (simp add: mb_send_done_def Let_def)
  show "thread_stat (snd (mb_send_done b v k)) t \<in> {RT_THREAD_READY, RT_THREAD_RUNNING} \<and>
       queue (snd (mb_send_done b v k)) (MbQ b) = ts" if q: "queue k (MbQ b) = t # ts"
    using list_resume_effect [OF inv wait_queue_simps(4), of b t ts] q
      rt_schedule_other(3) [OF kinvD(1) [OF invr], of t] schedule_wait_queue [OF invr wait_queue_simps(4)]
    by (simp add: mb_send_done_def Let_def split: if_splits)
qed

lemma mb_recv_done_aux:
  assumes "mb_inv b k" "0 < mb_entry (mailboxes k b)"
  shows "kinv (snd (snd (mb_recv_done b k)))"
    "mb_recv_done b k = (Some RT_EOK, Some (fst (mb_fetch (mailboxes k b))), snd (snd (mb_recv_done b k)))"
    "mailboxes (snd (snd (mb_recv_done b k))) b = snd (mb_fetch (mailboxes k b))"
    "queue k (MbSendQ b) = t # ts \<Longrightarrow> thread_stat (snd (snd (mb_recv_done b k))) t \<in> {RT_THREAD_READY, RT_THREAD_RUNNING} \<and>
       queue (snd (snd (mb_recv_done b k))) (MbSendQ b) = ts"
proof -
  let ?k1 = "upd_mb b (\<lambda>m. snd (mb_fetch m)) k"
  let ?k = "rt_ipc_list_resume (MbSendQ b) ?k1"
  have inv: "kinv ?k1" using assms by (simp add: mb_inv_def)
  have invr: "kinv ?k" by (rule list_resume_inv [OF inv])
  show "kinv (snd (snd (mb_recv_done b k)))" using inv invr by (simp add: mb_recv_done_def Let_def kinv_schedule)
  show "mb_recv_done b k = (Some RT_EOK, Some (fst (mb_fetch (mailboxes k b))), snd (snd (mb_recv_done b k)))"
    "mailboxes (snd (snd (mb_recv_done b k))) b = snd (mb_fetch (mailboxes k b))"
    by (simp_all add: mb_recv_done_def Let_def)
  show "thread_stat (snd (snd (mb_recv_done b k))) t \<in> {RT_THREAD_READY, RT_THREAD_RUNNING} \<and>
       queue (snd (snd (mb_recv_done b k))) (MbSendQ b) = ts" if q: "queue k (MbSendQ b) = t # ts"
    using list_resume_effect [OF inv wait_queue_simps(5), of b t ts] q
      rt_schedule_other(3) [OF kinvD(1) [OF invr], of t] schedule_wait_queue [OF invr wait_queue_simps(5)]
    by (simp add: mb_recv_done_def Let_def split: if_splits)
qed

lemma mb_try_send_aux:
  "mb_try_send b k v = (if mb_entry (mailboxes k b) = mb_size (mailboxes k b) then None else Some (snd (mb_send_done b v k)))"
  by (simp add: mb_try_send_def rt_mb_send_def rt_mb_send_wait_def mb_send_loop_def)
    (simp add: mb_send_done_def Let_def)

lemma mb_try_recv_aux:
  "mb_try_recv b k = (if mb_entry (mailboxes k b) = 0 then None
     else Some (fst (mb_fetch (mailboxes k b)), snd (snd (mb_recv_done b k))))"
  by (simp add: mb_try_recv_def rt_mb_recv_def mb_recv_loop_def) (simp add: mb_recv_done_def Let_def)

interpretation mbox: bounded_fifo "mb_inv b" "\<lambda>k. mb_content (mailboxes k b)" "\<lambda>k. mb_size (mailboxes k b)"
  "mb_try_send b" "mb_try_recv b" for b
proof unfold_locales
  fix k v xs and x :: u32
  assume inv: "mb_inv b k"
  then have wf: "mb_wf (mailboxes k b)" by (simp add: mb_inv_def)
  show "length (mb_content (mailboxes k b)) \<le> mb_size (mailboxes k b)" using wf by (simp add: mb_wf_def)
  show "mb_try_send b k v = None" if "length (mb_content (mailboxes k b)) = mb_size (mailboxes k b)"
    using that by (simp add: mb_try_send_aux)
  show "\<exists>k'. mb_try_send b k v = Some k' \<and> mb_inv b k' \<and> mb_content (mailboxes k' b) = mb_content (mailboxes k b) @ [v] \<and>
      mb_size (mailboxes k' b) = mb_size (mailboxes k b)" if "length (mb_content (mailboxes k b)) < mb_size (mailboxes k b)"
    using that mb_send_done_aux [OF inv] mb_store_aux [OF wf] by (simp add: mb_try_send_aux mb_inv_def)
  show "mb_try_recv b k = None" if "mb_content (mailboxes k b) = []"
    using arg_cong [OF that, of length] by (simp add: mb_try_recv_aux)
  show "\<exists>k'. mb_try_recv b k = Some (x, k') \<and> mb_inv b k' \<and> mb_content (mailboxes k' b) = xs \<and>
      mb_size (mailboxes k' b) = mb_size (mailboxes k b)" if c: "mb_content (mailboxes k b) = x # xs"
  proof -
    have "0 < mb_entry (mailboxes k b)" using arg_cong [OF c, of length] by simp
    then show ?thesis using c mb_recv_done_aux [OF inv] mb_fetch_aux [OF wf] by (simp add: mb_try_recv_aux mb_inv_def)
  qed
qed

section \<open>Properties\<close>

text \<open>
  C15: A mailbox is a bounded queue.  On a kernel state whose invariant holds and whose
  mailbox is well formed, any sequence of non-blocking sends and receives, with threads
  waiting or not, gives the results of the same sequence on a list of at most \<open>mb_size\<close>
  words, and ends in a state with the invariant and a mailbox that holds that list.
\<close>

theorem mailbox_refines_queue:
  assumes "mb_inv b k"
  shows "\<exists>rs k'. fifo_run (mb_try_send b) (mb_try_recv b) k ops = (rs, k') \<and> mb_inv b k' \<and>
    queue_run (mb_size (mailboxes k b)) (mb_content (mailboxes k b)) ops = (rs, mb_content (mailboxes k' b))"
  using mbox.run_refines [OF assms] by blast

theorem mailbox_refines_queue_witness:
  "let k = upd_mb 0 (\<lambda>_. mb_fresh 0 [0, 0] 2) three_timed in
   fst (fifo_run (mb_try_send 0) (mb_try_recv 0) k [Put 7, Put 8, Put 9, Get]) =
     [Stored True, Stored True, Stored False, Read (Some 7)]"
proof -
  let ?k = "upd_mb 0 (\<lambda>_. mb_fresh 0 [0, 0] 2) three_timed"
  have "mb_inv 0 ?k" using three_timed_ipc(1) by (simp add: mb_inv_def mb_wf_def mb_fresh_def)
  then obtain rs k' where r: "fifo_run (mb_try_send 0) (mb_try_recv 0) ?k [Put 7, Put 8, Put 9, Get] = (rs, k')"
    "queue_run (mb_size (mailboxes ?k 0)) (mb_content (mailboxes ?k 0)) [Put 7, Put 8, Put 9, Get] =
       (rs, mb_content (mailboxes k' 0))"
    using mailbox_refines_queue [of 0 ?k "[Put 7, Put 8, Put 9, Get]"] by blast
  then show ?thesis by (auto simp: mb_fresh_def mb_content_def Let_def)
qed

text \<open>
  A waiting receiver gets its mail.  When the running thread waits on an empty mailbox
  that no other thread waits for, the next send, whenever it comes as long as the thread
  still waits, makes it ready or running, and its receive returns the word that was sent.
\<close>

theorem mailbox_delivers_to_waiter:
  assumes "mb_inv b k" "rt_current_thread k = Some t" "thread_stat k t = RT_THREAD_RUNNING" "thread_timed k t"
    and "mb_flag (mailboxes k b) \<in> {RT_IPC_FLAG_FIFO, RT_IPC_FLAG_PRIO}"
    and "mb_entry (mailboxes k b) = 0" "queue k (MbQ b) = []" "timeout \<noteq> 0"
  shows "let (r, _, k1) = rt_mb_recv b timeout k; k2 = snd (rt_mb_send b v k1); (r', w, _) = rt_mb_recv_wake b timeout start t k2 in
    r = None \<and> thread_stat k1 t = RT_THREAD_SUSPEND \<and> thread_stat k2 t \<in> {RT_THREAD_READY, RT_THREAD_RUNNING} \<and>
    r' = Some RT_EOK \<and> w = Some v \<and> kinv k2"
proof -
  define k0 where "k0 = upd_thread t (\<lambda>th. th\<lparr>thread_error := RT_EOK\<rparr>) k"
  have inv: "kinv k" and wf: "mb_wf (mailboxes k b)" using assms(1) by (simp_all add: mb_inv_def)
  note u = upd_error_aux [OF inv assms(3,4), of RT_EOK, folded k0_def]
  define k1 where "k1 = rt_schedule (ipc_wait (MbQ b) t (mb_flag (mailboxes k0 b)) timeout k0)"
  have m0: "mailboxes k0 = mailboxes k" by (rule ipc_ofD(4) [OF u(4)])
  have f0: "mb_flag (mailboxes k0 b) \<in> {RT_IPC_FLAG_FIFO, RT_IPC_FLAG_PRIO}" using assms(5) m0 by simp
  note a = block_aux [where h = "MbQ b" and time = timeout, OF u(1-3) wait_queue_simps(4) f0, folded k1_def]
  have recv: "rt_mb_recv b timeout k = (None, None, k1)"
    using assms(2,6,8) by (simp add: rt_mb_recv_def mb_recv_loop_def rt_thread_self_def Let_def k1_def k0_def)
  have m1: "mailboxes k1 = mailboxes k" using ipc_ofD(4) [OF a(3)] m0 by simp
  have q1: "queue k1 (MbQ b) = [t]" using a(4) u(5) assms(7) f0 by (auto simp: ipc_order_def)
  have inv1: "mb_inv b k1" using a(1) wf m1 by (simp add: mb_inv_def)
  have room: "mb_entry (mailboxes k1 b) < mb_size (mailboxes k1 b)" using assms(6) wf m1 by (simp add: mb_wf_def)
  define k2 where "k2 = snd (mb_send_done b v k1)"
  note d = mb_send_done_aux [where v = v, OF inv1 room, folded k2_def]
  have send: "snd (rt_mb_send b v k1) = k2"
    using room by (simp add: rt_mb_send_def rt_mb_send_wait_def mb_send_loop_def k2_def)
  have err: "thread_error (threads k2 t) = RT_EOK"
    using list_resume_effect(5) [of "upd_mb b (mb_store v) k1" "MbQ b" t "[]" t] inv1 q1 a(6) [of t] u(7)
    by (simp add: k2_def mb_send_done_def Let_def mb_inv_def)
  have inv2: "mb_inv b k2" using d(1,3) mb_store_aux(1) wf m1 room by (simp add: mb_inv_def)
  have e2: "mb_content (mailboxes k2 b) = [v]"
    using d(3) mb_store_aux(2) [of "mailboxes k1 b" v] wf m1 room assms(6) by (simp add: mb_content_def)
  then have pos: "0 < mb_entry (mailboxes k2 b)" by (metis length_greater_0_conv list.distinct(1) mb_content_length)
  have "fst (mb_fetch (mailboxes k2 b)) = v" using mb_fetch_aux(2) [OF _ pos] inv2 e2 by (simp add: mb_inv_def)
  then have "rt_mb_recv_wake b timeout start t k2 = (Some RT_EOK, Some v, snd (snd (mb_recv_done b k2)))"
    using pos mb_recv_done_aux(2) [OF inv2 pos] by (simp add: rt_mb_recv_wake_def err mb_recv_loop_def)
  then show ?thesis using a(2) d(1,4) q1 by (simp add: recv send Let_def)
qed

theorem mailbox_delivers_to_waiter_witness:
  "let k = upd_mb 0 (\<lambda>_. mb_fresh 0 [0, 0] 2) three_timed;
       (_, _, k1) = rt_mb_recv 0 10 k; k2 = snd (rt_mb_send 0 42 k1); (_, w, _) = rt_mb_recv_wake 0 10 0 2 k2
   in w = Some 42"
proof -
  let ?k = "upd_mb 0 (\<lambda>_. mb_fresh 0 [0, 0] 2) three_timed"
  have "mb_inv 0 ?k" "thread_timed ?k 2" "rt_current_thread ?k = Some 2" "thread_stat ?k 2 = RT_THREAD_RUNNING"
    using three_timed_ipc(1,2) three_timed_good(3,4) by (simp_all add: mb_inv_def mb_wf_def mb_fresh_def thread_timed_def)
  moreover have "queue ?k (MbQ 0) = []" by (simp add: three_timed_def three_threads_def)
  ultimately show ?thesis
    using mailbox_delivers_to_waiter [of 0 ?k 2 10 42 0] by (auto simp: mb_fresh_def RT_IPC_FLAG_FIFO_def Let_def split: prod.splits)
qed

end
