(* ===== verification/MemPool.thy ===== *)
theory MemPool
  imports Mailbox
begin

text \<open>
  Memory pools (mempool.c).  A pool is a region cut into blocks of \<open>block_size\<close> bytes, each
  behind a word of header.  An address is given with the pool whose region it lies in.  The
  blocking allocation is split as in the theory of semaphores; its first component is
  \<open>None\<close> while the caller waits, and otherwise the block or \<open>None\<close> for a null pointer.
\<close>

section \<open>Errors\<close>

definition rt_set_errno :: "rt_err_t \<Rightarrow> kernel \<Rightarrow> kernel" where
  "rt_set_errno error k =
     (if rt_interrupt_get_nest k \<noteq> 0 then k\<lparr>rt_errno := error\<rparr>
      else
        (case rt_thread_self k of
           None \<Rightarrow> k\<lparr>rt_errno := error\<rparr>
         | Some t \<Rightarrow> upd_thread t (\<lambda>th. th\<lparr>thread_error := error\<rparr>) k))"

definition rt_get_errno :: "kernel \<Rightarrow> rt_err_t" where
  "rt_get_errno k =
     (if rt_interrupt_get_nest k \<noteq> 0 then rt_errno k
      else (case rt_thread_self k of None \<Rightarrow> rt_errno k | Some t \<Rightarrow> thread_error (threads k t)))"

section \<open>Setting up a pool\<close>

definition upd_mp :: "nat \<Rightarrow> (rt_mempool \<Rightarrow> rt_mempool) \<Rightarrow> kernel \<Rightarrow> kernel" where
  "upd_mp p f k = k\<lparr>mempools := (mempools k)(p := f (mempools k p))\<rparr>"

definition mp_set_word :: "u32 \<Rightarrow> mp_word \<Rightarrow> rt_mempool \<Rightarrow> rt_mempool" where
  "mp_set_word a w m = m\<lparr>mp_word := (mp_word m)(a := w)\<rparr>"

text \<open>The address of the header of block \<open>i\<close>.\<close>

definition mp_addr :: "rt_mempool \<Rightarrow> u32 \<Rightarrow> u32" where
  "mp_addr m i = mp_start_address m + i * (mp_block_size m + 4)"

function mp_link_loop :: "u32 \<Rightarrow> rt_mempool \<Rightarrow> rt_mempool" where
  "mp_link_loop offset m =
     (if offset < mp_block_total_count m
      then mp_link_loop (offset + 1) (mp_set_word (mp_addr m offset) (MpNext (Some (mp_addr m (offset + 1)))) m)
      else m)"
  by pat_completeness auto

termination
proof (relation "measure (\<lambda>(offset, m). unat (mp_block_total_count m) - unat offset)", goal_cases)
  case (2 offset m)
  then show ?case using unat_inc [OF 2] by (simp add: mp_set_word_def word_less_nat_alt)
qed simp

declare mp_link_loop.simps [simp del]

text \<open>The last link is cleared at index \<open>offset - 1\<close> with \<open>offset\<close> the number of blocks.\<close>

definition mp_link_all :: "rt_mempool \<Rightarrow> rt_mempool" where
  "mp_link_all m =
     (let m1 = mp_link_loop 0 m;
          m2 = mp_set_word (mp_addr m (mp_block_total_count m - 1)) (MpNext None) m1
      in m2\<lparr>mp_block_list := Some (mp_start_address m)\<rparr>)"

definition rt_mp_init :: "nat \<Rightarrow> string \<Rightarrow> u32 \<Rightarrow> u32 \<Rightarrow> u32 \<Rightarrow> kernel \<Rightarrow> rt_err_t \<times> kernel" where
  "rt_mp_init p name start sz block_size k =
     (let k1 = rt_object_init (OMp p) RT_Object_Class_MemPool name k;
          sz' = RT_ALIGN_DOWN sz 8;
          bs = RT_ALIGN block_size 8;
          n = sz' div (bs + 4);
          k2 = upd_mp p (\<lambda>m. m\<lparr>mp_start_address := start, mp_size := sz', mp_block_size := bs,
                 mp_block_total_count := n, mp_block_free_count := n, mp_suspend_thread_count := 0\<rparr>) k1
      in (RT_EOK, upd_mp p mp_link_all (rt_ipc_object_init (MpQ p) k2)))"

text \<open>\<open>start\<close> is the allocator's answer.\<close>

definition rt_mp_create ::
  "object_ref option \<Rightarrow> u32 option \<Rightarrow> string \<Rightarrow> u32 \<Rightarrow> u32 \<Rightarrow> kernel \<Rightarrow> nat option \<times> kernel" where
  "rt_mp_create mem start name block_count block_size k =
     (case rt_object_allocate mem RT_Object_Class_MemPool name k of
        (Some (OMp p), k1) \<Rightarrow>
          let bs = RT_ALIGN block_size 8;
              k2 = upd_mp p (\<lambda>m. m\<lparr>mp_block_size := bs, mp_size := (bs + 4) * block_count\<rparr>) k1
          in (case start of
                None \<Rightarrow> (None, rt_object_delete (OMp p) k2)
              | Some a \<Rightarrow>
                  let k3 = upd_mp p (\<lambda>m. m\<lparr>mp_start_address := a, mp_block_total_count := block_count,
                         mp_block_free_count := block_count, mp_suspend_thread_count := 0\<rparr>) k2
                  in (Some p, upd_mp p mp_link_all (rt_ipc_object_init (MpQ p) k3)))
      | (_, k1) \<Rightarrow> (None, k1))"

section \<open>Taking a pool down\<close>

partial_function (option) mp_resume_all :: "nat \<Rightarrow> kernel \<Rightarrow> kernel option" where
  "mp_resume_all p k =
     (case queue k (MpQ p) of
        [] \<Rightarrow> Some k
      | t # _ \<Rightarrow>
          let k1 = upd_thread t (\<lambda>th. th\<lparr>thread_error := - RT_ERROR\<rparr>) k;
              k2 = snd (rt_thread_resume t k1)
          in mp_resume_all p
               (upd_mp p (\<lambda>m. m\<lparr>mp_suspend_thread_count := mp_suspend_thread_count m - 1\<rparr>) k2))"

definition rt_mp_detach :: "nat \<Rightarrow> kernel \<Rightarrow> (rt_err_t \<times> kernel) option" where
  "rt_mp_detach p k = map_option (\<lambda>k1. (RT_EOK, rt_object_detach (OMp p) k1)) (mp_resume_all p k)"

definition rt_mp_delete :: "nat \<Rightarrow> kernel \<Rightarrow> (rt_err_t \<times> kernel) option" where
  "rt_mp_delete p k = map_option (\<lambda>k1. (RT_EOK, rt_object_delete (OMp p) k1)) (mp_resume_all p k)"

section \<open>Allocating and freeing\<close>

text \<open>Taking the first block off the list; an empty list would be a null pointer.\<close>

definition mp_take :: "nat \<Rightarrow> kernel \<Rightarrow> u32 option option \<times> kernel" where
  "mp_take p k =
     (case mp_block_list (mempools k p) of
        None \<Rightarrow> (None, k)
      | Some a \<Rightarrow>
          let next = (case mp_word (mempools k p) a of MpNext n \<Rightarrow> n | MpPool _ \<Rightarrow> None)
          in (Some (Some (a + 4)),
              upd_mp p (\<lambda>m. mp_set_word a (MpPool p)
                (m\<lparr>mp_block_free_count := mp_block_free_count m - 1, mp_block_list := next\<rparr>)) k))"

text \<open>The wait: a waiting thread is put in front of the list.\<close>

definition mp_wait :: "nat \<Rightarrow> tid \<Rightarrow> int \<Rightarrow> kernel \<Rightarrow> kernel" where
  "mp_wait p t time k =
     (let k1 = upd_thread t (\<lambda>th. th\<lparr>thread_error := RT_EOK\<rparr>) k;
          k2 = tlist_insert_after (MpQ p) t (snd (rt_thread_suspend t k1));
          k3 = upd_mp p (\<lambda>m. m\<lparr>mp_suspend_thread_count := mp_suspend_thread_count m + 1\<rparr>) k2
      in rt_schedule
           (if time > 0
            then snd (rt_timer_start (ThreadTimer t)
                   (snd (snd (rt_timer_control (ThreadTimer t) RT_TIMER_CTRL_SET_TIME (of_int time) k3))))
            else k3))"

definition mp_alloc_loop :: "nat \<Rightarrow> int \<Rightarrow> tid option \<Rightarrow> kernel \<Rightarrow> u32 option option \<times> kernel" where
  "mp_alloc_loop p time self k =
     (if mp_block_free_count (mempools k p) = 0
      then if time = 0 then (Some None, rt_set_errno (- RT_ETIMEOUT) k)
           else (case self of None \<Rightarrow> (None, k) | Some t \<Rightarrow> (None, mp_wait p t time k))
      else mp_take p k)"

definition rt_mp_alloc :: "nat \<Rightarrow> int \<Rightarrow> kernel \<Rightarrow> u32 option option \<times> kernel" where
  "rt_mp_alloc p time k = mp_alloc_loop p time (rt_thread_self k) k"

definition rt_mp_alloc_wake :: "nat \<Rightarrow> int \<Rightarrow> u32 \<Rightarrow> tid \<Rightarrow> kernel \<Rightarrow> u32 option option \<times> kernel" where
  "rt_mp_alloc_wake p time before_sleep t k =
     (if thread_error (threads k t) \<noteq> RT_EOK then (Some None, k)
      else mp_alloc_loop p (ticks_left time before_sleep (rt_tick_get k)) (Some t) k)"

text \<open>
  Freeing the block at address \<open>block\<close> of the region of pool \<open>r\<close>; the header says which pool
  it belongs to.  \<open>None\<close> is the case where the code takes for a thread what is not one: the
  header is not a pool, or the count of waiting threads is positive and the list is empty.
\<close>

definition rt_mp_free :: "nat \<Rightarrow> u32 option \<Rightarrow> kernel \<Rightarrow> kernel option" where
  "rt_mp_free r block k =
     (case block of
        None \<Rightarrow> Some k
      | Some b \<Rightarrow>
          (case mp_word (mempools k r) (b - 4) of
             MpNext _ \<Rightarrow> None
           | MpPool p \<Rightarrow>
               let k1 = upd_mp p (\<lambda>m. m\<lparr>mp_block_free_count := mp_block_free_count m + 1\<rparr>) k;
                   k2 = upd_mp r (mp_set_word (b - 4) (MpNext (mp_block_list (mempools k1 p)))) k1;
                   k3 = upd_mp p (\<lambda>m. m\<lparr>mp_block_list := Some (b - 4)\<rparr>) k2
               in if mp_suspend_thread_count (mempools k3 p) > 0
                  then
                    (case queue k3 (MpQ p) of
                       [] \<Rightarrow> None
                     | t # _ \<Rightarrow>
                         let k4 = upd_thread t (\<lambda>th. th\<lparr>thread_error := RT_EOK\<rparr>) k3;
                             k5 = snd (rt_thread_resume t k4);
                             k6 = upd_mp p (\<lambda>m. m\<lparr>mp_suspend_thread_count := mp_suspend_thread_count m - 1\<rparr>) k5
                         in Some (rt_schedule k6))
                  else Some k3))"

section \<open>Well-formed pools\<close>

fun mchain :: "(u32 \<Rightarrow> mp_word) \<Rightarrow> u32 option \<Rightarrow> u32 list \<Rightarrow> bool" where
  "mchain w p [] \<longleftrightarrow> p = None"
| "mchain w p (x # xs) \<longleftrightarrow> p = Some x \<and> (case w x of MpNext n \<Rightarrow> mchain w n xs | MpPool _ \<Rightarrow> False)"

lemma mchain_upd [simp]: "a \<notin> set xs \<Longrightarrow> mchain (w(a := v)) p xs = mchain w p xs"
  by (induction xs arbitrary: p) (auto split: mp_word.splits)

text \<open>
  The blocks of pool \<open>p\<close>: \<open>fs\<close> the free ones in the order of the list, \<open>us\<close> those in use,
  whose headers name the pool.  Each block is in one of the two, once, and the counts are
  those of the lists.
\<close>

definition mp_rep :: "nat \<Rightarrow> u32 list \<Rightarrow> u32 list \<Rightarrow> kernel \<Rightarrow> bool" where
  "mp_rep p fs us k \<longleftrightarrow> (let m = mempools k p in
     mchain (mp_word m) (mp_block_list m) fs \<and> distinct (fs @ us) \<and>
     (\<forall>a \<in> set us. mp_word m a = MpPool p) \<and>
     set (fs @ us) = (\<lambda>i. mp_addr m (of_nat i)) ` {..<unat (mp_block_total_count m)} \<and>
     length (fs @ us) = unat (mp_block_total_count m) \<and>
     mp_block_free_count m = of_nat (length fs) \<and>
     mp_suspend_thread_count m = of_nat (length (queue k (MpQ p))) \<and> length (queue k (MpQ p)) < 2 ^ 32)"

lemma upd_mp_frame [simp]:
  "threads (upd_mp q f k) = threads k" "queue (upd_mp q f k) = queue k" "rt_current_thread (upd_mp q f k) = rt_current_thread k"
  "timers (upd_mp q f k) = timers k" "mempools (upd_mp q f k) = (mempools k)(q := f (mempools k q))"
  "thread_stat (upd_mp q f k) t = thread_stat k t"
  by (simp_all add: upd_mp_def thread_stat_def)

lemma mp_set_word_count [simp]: "mp_suspend_thread_count (mp_set_word a w m) = mp_suspend_thread_count m"
  by (simp add: mp_set_word_def)

lemma kinv_upd_mp [simp]: "kinv (upd_mp q f k) = kinv k"
  by (rule kinv_cong; simp add: thread_stat_def upd_mp_def)

lemma unat_u32: "n < 2 ^ 32 \<Longrightarrow> unat (of_nat n :: u32) = n"
  by (simp add: unat_of_nat)

lemma of_nat_u32_eq: "n < 2 ^ 32 \<Longrightarrow> ((of_nat n :: u32) = 0) = (n = 0)"
  using unat_u32 [of n] by (simp add: unat_eq_0 [symmetric])

lemma mp_rep_bound: "mp_rep p fs us k \<Longrightarrow> length fs < 2 ^ 32"
  using unsigned_less [of "mp_block_total_count (mempools k p)", where ?'a = nat]
  by (simp add: mp_rep_def Let_def)

lemma mp_alloc_aux:
  assumes inv: "kinv k" and r: "mp_rep p (a # fs) us k"
  shows "\<exists>k'. rt_mp_alloc p time k = (Some (Some (a + 4)), k') \<and> kinv k' \<and> mp_rep p fs (a # us) k' \<and> a \<notin> set us"
proof -
  let ?m = "mempools k p"
  obtain n where n: "mp_word ?m a = MpNext n" "mp_block_list ?m = Some a" "mchain (mp_word ?m) n fs"
    using r by (auto simp: mp_rep_def Let_def split: mp_word.splits)
  let ?k = "upd_mp p (\<lambda>m. mp_set_word a (MpPool p)
      (m\<lparr>mp_block_free_count := mp_block_free_count m - 1, mp_block_list := n\<rparr>)) k"
  have "mp_block_free_count ?m \<noteq> 0"
    using r of_nat_u32_eq [of "length (a # fs)"] mp_rep_bound [OF r] by (simp add: mp_rep_def Let_def)
  then have e: "rt_mp_alloc p time k = (Some (Some (a + 4)), ?k)"
    using n by (simp add: rt_mp_alloc_def mp_alloc_loop_def mp_take_def Let_def)
  have d: "a \<notin> set fs" "a \<notin> set us" "distinct fs" "distinct us" "set fs \<inter> set us = {}"
    using r by (auto simp: mp_rep_def Let_def)
  have ad: "mp_addr (mp_set_word a w (m\<lparr>mp_block_free_count := x, mp_block_list := y\<rparr>)) i = mp_addr m i" for w m x y i
    by (simp add: mp_addr_def mp_set_word_def)
  have "mp_rep p fs (a # us) ?k"
    using r n d by (simp add: mp_rep_def Let_def ad) (simp add: mp_set_word_def)
  then show ?thesis using e inv d(2) by (intro exI [of _ ?k]) simp
qed

lemma mp_free_aux:
  assumes inv: "kinv k" and r: "mp_rep p fs us k" and u: "u \<in> set us"
  shows "\<exists>k'. rt_mp_free p (Some (u + 4)) k = Some k' \<and> kinv k' \<and> mp_rep p (u # fs) (remove1 u us) k' \<and>
    (case queue k (MpQ p) of [] \<Rightarrow> True
     | t # ts \<Rightarrow> thread_stat k' t \<in> {RT_THREAD_READY, RT_THREAD_RUNNING} \<and> thread_error (threads k' t) = RT_EOK \<and>
         queue k' (MpQ p) = ts)"
proof -
  let ?m = "mempools k p"
  define k3 where "k3 = upd_mp p (\<lambda>m. m\<lparr>mp_block_list := Some u\<rparr>)
     (upd_mp p (mp_set_word u (MpNext (mp_block_list ?m)))
       (upd_mp p (\<lambda>m. m\<lparr>mp_block_free_count := mp_block_free_count m + 1\<rparr>) k))"
  have w: "mp_word ?m u = MpPool p" using r u by (simp add: mp_rep_def Let_def)
  have d: "u \<notin> set fs" "distinct fs" "distinct us" "set fs \<inter> set us = {}" using r u by (auto simp: mp_rep_def Let_def)
  have len: "length us = Suc (length (remove1 u us))" using u length_pos_if_in_set [OF u] by (simp add: length_remove1)
  have ad: "mp_addr (mp_set_word a w (m\<lparr>mp_block_free_count := x\<rparr>)\<lparr>mp_block_list := y\<rparr>) i = mp_addr m i" for a w m x y i
    by (simp add: mp_addr_def mp_set_word_def)
  have su: "set (u # fs @ remove1 u us) = set (fs @ us)" using d u by auto
  have m3: "mempools k3 p = mp_set_word u (MpNext (mp_block_list ?m)) (?m\<lparr>mp_block_free_count := mp_block_free_count ?m + 1\<rparr>)
      \<lparr>mp_block_list := Some u\<rparr>" "queue k3 = queue k" by (simp_all add: k3_def)
  have pool: "mp_rep p (u # fs) (remove1 u us) k3"
  proof -
    let ?m' = "mempools k3 p"
    have f: "mp_word ?m' = (mp_word ?m)(u := MpNext (mp_block_list ?m))" "mp_block_list ?m' = Some u"
      "mp_block_free_count ?m' = mp_block_free_count ?m + 1" "mp_block_total_count ?m' = mp_block_total_count ?m"
      "mp_suspend_thread_count ?m' = mp_suspend_thread_count ?m" "mp_addr ?m' = mp_addr ?m"
      by (simp_all add: m3 mp_set_word_def mp_addr_def fun_eq_iff)
    have "mchain (mp_word ?m') (mp_block_list ?m') (u # fs)" using r d by (simp add: mp_rep_def Let_def f)
    moreover have "\<forall>a \<in> set (remove1 u us). mp_word ?m' a = MpPool p"
      using r d by (auto simp: mp_rep_def Let_def f)
    moreover have "distinct (u # fs @ remove1 u us)" using d by auto
    ultimately show ?thesis using r su len unfolding mp_rep_def Let_def by (simp add: f m3(2))
  qed
  have inv3: "kinv k3" using inv by (simp add: k3_def)
  show ?thesis
  proof (cases "queue k (MpQ p)")
    case Nil
    then have "rt_mp_free p (Some (u + 4)) k = Some k3"
      using w r by (simp add: rt_mp_free_def Let_def k3_def [symmetric] m3 mp_rep_def)
    then show ?thesis using inv3 pool Nil by simp
  next
    case (Cons t ts)
    define k4 where "k4 = upd_thread t (\<lambda>th. th\<lparr>thread_error := RT_EOK\<rparr>) k3"
    define k6 where "k6 = upd_mp p (\<lambda>m. m\<lparr>mp_suspend_thread_count := mp_suspend_thread_count m - 1\<rparr>)
        (rt_ipc_list_resume (MpQ p) k4)"
    have c: "mp_suspend_thread_count ?m > 0"
      using r Cons of_nat_u32_eq [of "length (t # ts)"] by (simp add: mp_rep_def Let_def word_greater_zero_iff)
    have q4: "queue k4 (MpQ p) = t # ts" using Cons m3 by (simp add: k4_def)
    have inv4: "kinv k4" using inv3 by (simp add: k4_def kinv_upd_thread)
    have e: "rt_mp_free p (Some (u + 4)) k = Some (rt_schedule k6)"
      using w c Cons m3(2) q4
      by (simp add: rt_mp_free_def Let_def k3_def [symmetric] k4_def [symmetric] k6_def rt_ipc_list_resume_def)
    note l = list_resume_effect [OF inv4 wait_queue_simps(7) q4]
    have inv6: "kinv k6" using list_resume_inv [OF inv4] by (simp add: k6_def)
    have q': "queue (rt_schedule k6) (MpQ p) = ts" using schedule_wait_queue [OF inv6 wait_queue_simps(7)] l(1) by (simp add: k6_def)
    have st: "thread_stat (rt_schedule k6) t \<in> {RT_THREAD_READY, RT_THREAD_RUNNING}"
      using rt_schedule_other(3) [OF kinvD(1) [OF inv6], of t] l(3) [of t] by (simp add: k6_def split: if_splits)
    have er: "thread_error (threads (rt_schedule k6) t) = RT_EOK" using l(5) [of t] by (simp add: k6_def k4_def)
    have m6: "mempools (rt_schedule k6) p = (mempools k3 p)\<lparr>mp_suspend_thread_count := mp_suspend_thread_count (mempools k3 p) - 1\<rparr>"
      using ipc_ofD(6) [OF ipc_of_list_resume, of "MpQ p" k4] by (simp add: k6_def k4_def)
    have ad6: "mp_addr (m\<lparr>mp_suspend_thread_count := x\<rparr>) i = mp_addr m i" for m x i by (simp add: mp_addr_def)
    have "mp_rep p (u # fs) (remove1 u us) (rt_schedule k6)"
      using pool Cons m3(2) unfolding mp_rep_def Let_def m6 q' ad6 by simp
    then show ?thesis using e kinv_schedule [OF inv6] st er q' Cons by simp
  qed
qed

text \<open>The free list of a new pool is its blocks in order.\<close>

lemma mp_link_loop_aux:
  assumes inj: "inj_on (\<lambda>i. mp_addr m (of_nat i)) {..<unat (mp_block_total_count m)}"
  shows "i \<le> unat (mp_block_total_count m) \<Longrightarrow>
    mp_link_loop (of_nat i) m = m\<lparr>mp_word := mp_word (mp_link_loop (of_nat i) m)\<rparr> \<and>
    (\<forall>j < unat (mp_block_total_count m). i \<le> j \<longrightarrow>
       mp_word (mp_link_loop (of_nat i) m) (mp_addr m (of_nat j)) = MpNext (Some (mp_addr m (of_nat j + 1)))) \<and>
    (\<forall>j < unat (mp_block_total_count m). j < i \<longrightarrow>
       mp_word (mp_link_loop (of_nat i) m) (mp_addr m (of_nat j)) = mp_word m (mp_addr m (of_nat j)))"
  using inj
proof (induction "unat (mp_block_total_count m) - i" arbitrary: i m)
  case 0
  then have "i = unat (mp_block_total_count m)" by simp
  then have "mp_link_loop (of_nat i) m = m" by (subst mp_link_loop.simps) simp
  then show ?case using 0 by simp
next
  case (Suc d)
  let ?n = "unat (mp_block_total_count m)"
  have lt: "i < ?n" "?n < 2 ^ 32" using Suc.hyps(2) unsigned_less [of "mp_block_total_count m", where ?'a = nat] by simp_all
  then have c: "(of_nat i :: u32) < mp_block_total_count m" by (simp add: word_less_nat_alt unat_u32)
  define m1 where "m1 = mp_set_word (mp_addr m (of_nat i)) (MpNext (Some (mp_addr m (of_nat i + 1)))) m"
  have m1: "mp_block_total_count m1 = mp_block_total_count m" "mp_addr m1 = mp_addr m"
    "mp_word m1 = (mp_word m)(mp_addr m (of_nat i) := MpNext (Some (mp_addr m (of_nat i + 1))))"
    by (simp_all add: m1_def mp_set_word_def mp_addr_def fun_eq_iff)
  have e: "mp_link_loop (of_nat i) m = mp_link_loop (of_nat (Suc i)) m1"
    using c by (subst mp_link_loop.simps) (simp add: m1_def add.commute)
  have ih: "mp_link_loop (of_nat (Suc i)) m1 = m1\<lparr>mp_word := mp_word (mp_link_loop (of_nat (Suc i)) m1)\<rparr>"
    "\<forall>j < ?n. Suc i \<le> j \<longrightarrow> mp_word (mp_link_loop (of_nat (Suc i)) m1) (mp_addr m (of_nat j)) = MpNext (Some (mp_addr m (of_nat j + 1)))"
    "\<forall>j < ?n. j < Suc i \<longrightarrow> mp_word (mp_link_loop (of_nat (Suc i)) m1) (mp_addr m (of_nat j)) = mp_word m1 (mp_addr m (of_nat j))"
    using Suc.hyps(1) [of m1 "Suc i"] Suc.hyps(2) Suc.prems lt m1(1,2) by simp_all
  have i: "mp_word (mp_link_loop (of_nat i) m) (mp_addr m (of_nat i)) = MpNext (Some (mp_addr m (of_nat i + 1)))"
    using ih(3) lt(1) by (simp add: e m1(3))
  have o: "mp_word (mp_link_loop (of_nat i) m) (mp_addr m (of_nat j)) = mp_word m (mp_addr m (of_nat j))" if "j < i" for j
  proof -
    have "mp_addr m (of_nat j) \<noteq> mp_addr m (of_nat i)" using inj_onD [OF Suc.prems(2), of j i] that lt(1) by auto
    then show ?thesis using ih(3) that lt(1) by (simp add: e m1(3))
  qed
  have "mp_link_loop (of_nat i) m = m\<lparr>mp_word := mp_word (mp_link_loop (of_nat i) m)\<rparr>"
    unfolding e by (subst ih(1)) (simp add: m1_def mp_set_word_def)
  then show ?case using i o ih(2) e by (metis le_neq_implies_less Suc_leI)
qed

lemma mchain_upto:
  assumes "\<And>j. Suc j < n \<Longrightarrow> w (a j) = MpNext (Some (a (Suc j)))" "w (a (n - 1)) = MpNext None" "i < n"
  shows "mchain w (Some (a i)) (map a [i..<n])"
  using assms(3)
proof (induction "n - i" arbitrary: i)
  case (Suc d)
  then have u: "[i..<n] = i # [Suc i..<n]" by (simp add: upt_conv_Cons)
  show ?case
  proof (cases "Suc i < n")
    case True
    then show ?thesis using Suc assms(1) by (simp add: u)
  next
    case False
    then have i: "n - 1 = i" "[Suc i..<n] = []" using Suc.prems by simp_all
    then show ?thesis using assms(2) unfolding u i by simp
  qed
qed simp

lemma mp_addr_inj:
  assumes "unat n * unat (mp_block_size m + 4) \<le> 2 ^ 32" "mp_block_size m + 4 \<noteq> 0"
  shows "inj_on (\<lambda>i. mp_addr m (of_nat i)) {..<unat n}"
proof (rule inj_onI)
  fix i j assume ij: "i \<in> {..<unat n}" "j \<in> {..<unat n}" and e: "mp_addr m (of_nat i) = mp_addr m (of_nat j)"
  let ?b = "mp_block_size m + 4"
  have b: "unat ?b > 0" using assms(2) by (simp add: unat_gt_0)
  have lt: "i' * unat ?b < 2 ^ 32" if "i' < unat n" for i'
    using mult_strict_right_mono [OF that b] assms(1) by linarith
  have "of_nat (i * unat ?b) = (of_nat (j * unat ?b) :: u32)" using e by (simp add: mp_addr_def)
  then have "i * unat ?b = j * unat ?b" using lt ij unat_u32 by (metis lessThan_iff)
  then show "i = j" using b by simp
qed

lemma mp_link_all_aux:
  assumes n: "0 < mp_block_total_count m" and fit: "unat (mp_block_total_count m) * unat (mp_block_size m + 4) \<le> 2 ^ 32"
    "mp_block_size m + 4 \<noteq> 0"
  defines "bs \<equiv> map (\<lambda>i. mp_addr m (of_nat i)) [0..<unat (mp_block_total_count m)]"
  shows "mchain (mp_word (mp_link_all m)) (mp_block_list (mp_link_all m)) bs" "distinct bs"
    "mp_link_all m = m\<lparr>mp_word := mp_word (mp_link_all m), mp_block_list := mp_block_list (mp_link_all m)\<rparr>"
proof -
  let ?n = "unat (mp_block_total_count m)" and ?a = "\<lambda>i. mp_addr m (of_nat i)"
  note inj = mp_addr_inj [OF fit]
  have pos: "0 < ?n" "?n < 2 ^ 32"
    using n unsigned_less [of "mp_block_total_count m", where ?'a = nat] by (simp_all add: word_less_nat_alt)
  let ?l = "mp_link_loop 0 m"
  have l: "?l = m\<lparr>mp_word := mp_word ?l\<rparr>" "\<And>j. j < ?n \<Longrightarrow> mp_word ?l (?a j) = MpNext (Some (mp_addr m (of_nat j + 1)))"
    using mp_link_loop_aux [OF inj, of 0] by simp_all
  have last: "mp_addr m (mp_block_total_count m - 1) = ?a (?n - 1)"
    using pos by (simp add: of_nat_diff)
  have w: "mp_word (mp_link_all m) = (mp_word ?l)(?a (?n - 1) := MpNext None)" "mp_block_list (mp_link_all m) = Some (mp_start_address m)"
    by (simp_all add: mp_link_all_def Let_def mp_set_word_def last)
  show "distinct bs" using inj by (simp add: bs_def distinct_map atLeast0LessThan)
  have "w' (?a j) = MpNext (Some (?a (Suc j)))" if "Suc j < ?n" "w' = mp_word (mp_link_all m)" for j w'
  proof -
    have "?a j \<noteq> ?a (?n - 1)" using inj_onD [OF inj, of j "?n - 1"] that by auto
    then show ?thesis using l(2) [of j] that by (simp add: w add.commute)
  qed
  then have "mchain (mp_word (mp_link_all m)) (Some (?a 0)) (map ?a [0..<?n])"
    using pos by (intro mchain_upto) (auto simp: w)
  then show "mchain (mp_word (mp_link_all m)) (mp_block_list (mp_link_all m)) bs"
    by (simp add: w bs_def mp_addr_def)
  show "mp_link_all m = m\<lparr>mp_word := mp_word (mp_link_all m), mp_block_list := mp_block_list (mp_link_all m)\<rparr>"
  proof -
    obtain v where v: "mp_link_loop 0 m = m\<lparr>mp_word := v\<rparr>" using l(1) by blast
    show ?thesis by (simp add: mp_link_all_def Let_def mp_set_word_def v)
  qed
qed

lemma mp_init_aux:
  assumes inv: "kinv k" and q: "queue k (MpQ p) = []"
    and n: "0 < RT_ALIGN_DOWN sz 8 div (RT_ALIGN block_size 8 + 4)"
  shows "let k' = snd (rt_mp_init p name start sz block_size k) in
    kinv k' \<and> mp_rep p (map (\<lambda>i. mp_addr (mempools k' p) (of_nat i)) [0..<unat (mp_block_total_count (mempools k' p))]) [] k' \<and>
    mp_block_total_count (mempools k' p) = RT_ALIGN_DOWN sz 8 div (RT_ALIGN block_size 8 + 4) \<and>
    (\<forall>i. mp_addr (mempools k' p) i = start + i * (RT_ALIGN block_size 8 + 4))"
proof -
  let ?k1 = "rt_object_init (OMp p) RT_Object_Class_MemPool name k"
  let ?sz = "RT_ALIGN_DOWN sz 8" and ?bs = "RT_ALIGN block_size 8"
  let ?n = "?sz div (?bs + 4)"
  define m2 where "m2 = (mempools ?k1 p)\<lparr>mp_start_address := start, mp_size := ?sz, mp_block_size := ?bs,
                 mp_block_total_count := ?n, mp_block_free_count := ?n, mp_suspend_thread_count := 0\<rparr>"
  define k3 where "k3 = rt_ipc_object_init (MpQ p) (upd_mp p (\<lambda>m. m\<lparr>mp_start_address := start, mp_size := ?sz, mp_block_size := ?bs,
                 mp_block_total_count := ?n, mp_block_free_count := ?n, mp_suspend_thread_count := 0\<rparr>) ?k1)"
  have k': "snd (rt_mp_init p name start sz block_size k) = upd_mp p mp_link_all k3"
    by (simp add: rt_mp_init_def Let_def k3_def)
  have "kinv (rt_ipc_object_init (MpQ p) ?k1)" by (rule object_init_inv_ipc [OF inv q]) simp
  moreover have "rt_ipc_object_init (MpQ p) (upd_mp p f ?k1) = upd_mp p f (rt_ipc_object_init (MpQ p) ?k1)" for f
    by (simp add: rt_ipc_object_init_def upd_mp_def)
  ultimately have inv3: "kinv k3" by (simp add: k3_def)
  have m3: "mempools k3 p = m2" "queue k3 (MpQ p) = []" by (simp_all add: k3_def m2_def rt_ipc_object_init_def)
  have nz: "?bs + 4 \<noteq> 0" using n by (auto simp: word_div_def)
  have "unat ?n * unat (?bs + 4) \<le> unat ?sz" by (simp add: unat_div)
  then have fit: "unat (mp_block_total_count m2) * unat (mp_block_size m2 + 4) \<le> 2 ^ 32" "mp_block_size m2 + 4 \<noteq> 0"
    "0 < mp_block_total_count m2"
    using nz n unsigned_less [of ?sz, where ?'a = nat] by (simp_all add: m2_def)
  note l = mp_link_all_aux [OF fit(3,1,2)]
  let ?m = "mp_link_all m2"
  have f: "mp_block_total_count ?m = ?n" "mp_block_free_count ?m = ?n" "mp_suspend_thread_count ?m = 0" "mp_addr ?m = mp_addr m2"
    by (subst l(3), simp add: m2_def mp_addr_def fun_eq_iff)+
  have t: "mp_block_total_count m2 = ?n" by (simp add: m2_def)
  have "mp_rep p (map (\<lambda>i. mp_addr ?m (of_nat i)) [0..<unat ?n]) [] (upd_mp p mp_link_all k3)"
    using l(1,2) t by (simp add: mp_rep_def Let_def m3 f atLeast0LessThan)
  moreover have "mp_addr m2 i = start + i * (?bs + 4)" for i by (simp add: m2_def mp_addr_def)
  ultimately show ?thesis using inv3 m3 f by (simp add: k' Let_def)
qed

text \<open>A running thread that waits is put in front of the list and counted.\<close>

lemma mp_wait_aux:
  fixes k :: kernel and p :: nat and t :: tid and time :: int
  assumes inv: "kinv k" and run: "thread_stat k t = RT_THREAD_RUNNING" and tm: "thread_timed k t"
  defines "k1 \<equiv> mp_wait p t time k"
  shows "thread_stat k1 t = RT_THREAD_SUSPEND" "queue k1 (MpQ p) = t # queue k (MpQ p)"
    "mempools k1 p = (mempools k p)\<lparr>mp_suspend_thread_count := mp_suspend_thread_count (mempools k p) + 1\<rparr>" "kinv k1"
    "thread_error (threads k1 t) = RT_EOK"
proof -
  define k0 where "k0 = upd_thread t (\<lambda>th. th\<lparr>thread_error := RT_EOK\<rparr>) k"
  note u = upd_error_aux [OF inv run tm, of RT_EOK, folded k0_def]
  have st0: "thread_stat k0 t \<in> {RT_THREAD_READY, RT_THREAD_RUNNING}" using u(2) by simp
  note e = suspend_effect [OF st0]
  let ?s = "snd (rt_thread_suspend t k0)"
  define k3 where "k3 = upd_mp p (\<lambda>m. m\<lparr>mp_suspend_thread_count := mp_suspend_thread_count m + 1\<rparr>) (tlist_insert_after (MpQ p) t ?s)"
  have fl: "timeout_func (timers k3 (ThreadTimer t)) = Thread_timeout t"
    "timer_flag (timers k3 (ThreadTimer t)) AND RT_TIMER_FLAG_SOFT_TIMER = 0"
    using u(3) by (simp_all add: k3_def thread_timed_def rt_thread_suspend_def Let_def rt_timer_stop_def)
  define k4 where "k4 = (if time > 0 then timer_start_link (ThreadTimer t) (upd_timer (ThreadTimer t) (\<lambda>x. x\<lparr>init_tick := of_int time\<rparr>) k3) else k3)"
  have k1: "k1 = rt_schedule k4"
    using fl by (simp add: k1_def mp_wait_def Let_def k0_def [symmetric] k3_def [symmetric] k4_def set_time_alt timer_start_hard)
  have un: "unqueued t ?s" by (simp add: unqueued_def e(3))
  have "sched_inv (tlist_insert_after (MpQ p) t ?s)"
    using un e(2) by (intro tlist_insert_after_inv kinvD(1) [OF suspend_inv [OF u(1)]]) (auto simp: wait_queue_stat)
  then have "kinv (tlist_insert_after (MpQ p) t ?s)"
    using kinvD(2) [OF suspend_inv [OF u(1)], of t] by (simp add: kinv_def)
  then have inv3: "kinv k3" by (simp add: k3_def)
  have nl: "ThreadTimer t \<notin> set (rt_timer_list k3)" "ThreadTimer t \<notin> set (rt_soft_timer_list k3)"
    using e(5,6) [OF kinvD(2) [OF u(1)]] by (simp_all add: k3_def upd_mp_def)
  let ?k = "upd_timer (ThreadTimer t) (\<lambda>x. x\<lparr>init_tick := of_int time\<rparr>) k3"
  have st3: "thread_stat k3 t = RT_THREAD_SUSPEND" using e(2) by (simp add: k3_def)
  have "kinv ?k" using inv3 nl by (simp add: kinv_def timer_inv_upd_other)
  then have "kinv (snd (rt_timer_start (ThreadTimer t) ?k))"
    by (rule timer_start_inv) (use fl st3 in simp)
  then have inv4: "kinv k4" using inv3 fl by (simp add: k4_def timer_start_hard)
  show "kinv k1" unfolding k1 by (rule kinv_schedule [OF inv4])
  have st4: "thread_stat k4 t = RT_THREAD_SUSPEND" using st3 by (simp add: k4_def)
  show "thread_stat k1 t = RT_THREAD_SUSPEND"
    unfolding k1 using rt_schedule_other(2) [OF kinvD(1) [OF inv4], of t] st4 by simp
  have "t \<notin> set (queue k (MpQ p))" using waiting_suspended [OF inv wait_queue_simps(7), of t] run by auto
  then have q3: "queue k3 (MpQ p) = t # queue k (MpQ p)"
    using e(3) [of "MpQ p"] u(5) by (auto simp: k3_def tlist_insert_after_def filter_id_conv)
  show "queue k1 (MpQ p) = t # queue k (MpQ p)"
    unfolding k1 schedule_wait_queue [OF inv4 wait_queue_simps(7)] using q3 by (simp add: k4_def)
  have "mempools ?s = mempools k" using ipc_ofD(6) [OF ipc_of_suspend, of t k0] ipc_ofD(6) [OF u(4)] by simp
  then show "mempools k1 p = (mempools k p)\<lparr>mp_suspend_thread_count := mp_suspend_thread_count (mempools k p) + 1\<rparr>"
    by (simp add: k1 k4_def k3_def)
  show "thread_error (threads k1 t) = RT_EOK" using u(7) by (simp add: k1 k4_def k3_def)
qed

text \<open>The three ways an allocation ends: with a block, with a null pointer, and in a wait.\<close>

definition mp_allocated :: "nat \<Rightarrow> u32 \<Rightarrow> u32 list \<Rightarrow> u32 list \<Rightarrow> u32 option option \<times> kernel \<Rightarrow> bool" where
  "mp_allocated p a fs us r \<longleftrightarrow>
     fst r = Some (Some (a + 4)) \<and> kinv (snd r) \<and> mp_rep p fs (a # us) (snd r) \<and> a \<notin> set us"

definition mp_refused :: "nat \<Rightarrow> u32 list \<Rightarrow> u32 option option \<times> kernel \<Rightarrow> bool" where
  "mp_refused p us r \<longleftrightarrow> fst r = Some None \<and> kinv (snd r) \<and> mp_rep p [] us (snd r)"

definition mp_waiting :: "nat \<Rightarrow> u32 list \<Rightarrow> tid \<Rightarrow> kernel \<Rightarrow> u32 option option \<times> kernel \<Rightarrow> bool" where
  "mp_waiting p us t k r \<longleftrightarrow>
     fst r = None \<and> kinv (snd r) \<and> mp_rep p [] us (snd r) \<and> thread_stat (snd r) t = RT_THREAD_SUSPEND \<and>
     thread_error (threads (snd r) t) = RT_EOK \<and> queue (snd r) (MpQ p) = t # queue k (MpQ p)"

lemma mp_loop_allocated:
  assumes "kinv k" "mp_rep p (a # fs) us k"
  shows "mp_allocated p a fs us (mp_alloc_loop p time self k)"
proof -
  have "mp_block_free_count (mempools k p) \<noteq> 0"
    using assms(2) of_nat_u32_eq [of "length (a # fs)"] mp_rep_bound [OF assms(2)] by (simp add: mp_rep_def Let_def)
  then have "mp_alloc_loop p time self k = rt_mp_alloc p time k" by (simp add: rt_mp_alloc_def mp_alloc_loop_def)
  then show ?thesis using mp_alloc_aux [OF assms, of time] by (auto simp: mp_allocated_def)
qed

lemma set_errno_frame [simp]:
  "mempools (rt_set_errno e k) = mempools k" "queue (rt_set_errno e k) = queue k" "kinv (rt_set_errno e k) = kinv k"
proof -
  have "kinv (k\<lparr>rt_errno := e\<rparr>) = kinv k" by (rule kinv_cong) (simp_all add: thread_stat_def)
  then show "kinv (rt_set_errno e k) = kinv k" by (simp add: rt_set_errno_def kinv_upd_thread split: option.split)
qed (simp_all add: rt_set_errno_def split: option.split)

lemma mp_loop_empty:
  assumes inv: "kinv k" and r: "mp_rep p [] us k"
  shows "mp_refused p us (mp_alloc_loop p 0 self k)"
    "thread_stat k t = RT_THREAD_RUNNING \<Longrightarrow> thread_timed k t \<Longrightarrow> length (queue k (MpQ p)) + 1 < 2 ^ 32 \<Longrightarrow> time \<noteq> 0 \<Longrightarrow>
       mp_waiting p us t k (mp_alloc_loop p time (Some t) k)"
proof -
  have z: "mp_block_free_count (mempools k p) = 0" using r by (simp add: mp_rep_def Let_def)
  have "mp_rep p [] us (rt_set_errno (- RT_ETIMEOUT) k)" using r by (simp add: mp_rep_def)
  then show "mp_refused p us (mp_alloc_loop p 0 self k)" using inv by (simp add: mp_refused_def mp_alloc_loop_def z)
  assume t: "thread_stat k t = RT_THREAD_RUNNING" "thread_timed k t" and l: "length (queue k (MpQ p)) + 1 < 2 ^ 32" and tm: "time \<noteq> 0"
  note w = mp_wait_aux [where time = time and p = p, OF inv t]
  have ad: "mp_addr (m\<lparr>mp_suspend_thread_count := x\<rparr>) i = mp_addr m i" for m x i by (simp add: mp_addr_def)
  have "mp_rep p [] us (mp_wait p t time k)" using r l unfolding mp_rep_def Let_def w(2,3) ad by simp
  then show "mp_waiting p us t k (mp_alloc_loop p time (Some t) k)"
    using tm w by (simp add: mp_waiting_def mp_alloc_loop_def z)
qed

section \<open>Properties\<close>

text \<open>
  C35: A pool hands out each block to one user at a time.  With free blocks \<open>fs\<close> and blocks in
  use \<open>us\<close>, none or any number: allocation takes the first free block, which is not in use; on
  an empty pool it returns a null pointer without waiting time, and else suspends the running
  thread at the front of the list.  An allocation that is scheduled again returns a null
  pointer when its wait failed, or takes the first free block, or waits for the time that is
  left.  Freeing a block in use puts it back, and when threads wait the first of the list can
  run with no error; freeing a null pointer does nothing.  Every block stays in exactly one of
  the two lists, the counts are exact and the kernel invariant holds.  (The count of waiting
  threads is exact before the call: a wait that timed out leaves it too high, as
  \<open>mempool_timeout_stale_count\<close> shows.)
\<close>

theorem mempool_blocks_exclusive:
  assumes "kinv k" "mp_rep p fs us k"
  shows "(case fs of
      [] \<Rightarrow> mp_refused p us (rt_mp_alloc p 0 k)
    | a # fs' \<Rightarrow> mp_allocated p a fs' us (rt_mp_alloc p time k)) \<and>
    (\<forall>u \<in> set us. \<exists>k'. rt_mp_free p (Some (u + 4)) k = Some k' \<and> kinv k' \<and> mp_rep p (u # fs) (remove1 u us) k' \<and>
      (case queue k (MpQ p) of [] \<Rightarrow> True
       | t # ts \<Rightarrow> thread_stat k' t \<in> {RT_THREAD_READY, RT_THREAD_RUNNING} \<and> thread_error (threads k' t) = RT_EOK \<and>
           queue k' (MpQ p) = ts)) \<and>
    rt_mp_free p None k = Some k \<and>
    (rt_current_thread k = Some t \<and> thread_stat k t = RT_THREAD_RUNNING \<and> thread_timed k t \<and> length (queue k (MpQ p)) + 1 < 2 ^ 32 \<longrightarrow>
      (fs = [] \<and> time \<noteq> 0 \<longrightarrow> mp_waiting p us t k (rt_mp_alloc p time k)) \<and>
      (let w = rt_mp_alloc_wake p time before_sleep t k; left = ticks_left time before_sleep (rt_tick k) in
        if thread_error (threads k t) \<noteq> RT_EOK then w = (Some None, k)
        else case fs of
          a # fs' \<Rightarrow> mp_allocated p a fs' us w
        | [] \<Rightarrow> if left = 0 then mp_refused p us w else mp_waiting p us t k w))"
    (is "?alloc \<and> ?free \<and> ?null \<and> (?run \<longrightarrow> ?wait \<and> ?wake)")
proof (intro conjI)
  show ?alloc using assms mp_loop_allocated [OF assms(1)] mp_loop_empty(1) [OF assms(1)] by (auto simp: rt_mp_alloc_def split: list.split)
  show ?free by (intro ballI mp_free_aux [OF assms])
  show ?null by (simp add: rt_mp_free_def)
  show "?run \<longrightarrow> ?wait \<and> ?wake"
  proof
    assume r: ?run
    have w: "mp_waiting p us t k (mp_alloc_loop p time (Some t) k)" if "fs = []" "time \<noteq> 0" for time
      using mp_loop_empty(2) [OF assms(1), of p us t time] assms(2) r that by simp
    have ?wait using w r by (simp add: rt_mp_alloc_def rt_thread_self_def)
    moreover have ?wake
      using assms(2) w mp_loop_allocated [OF assms(1), of p _ _ us _ "Some t"] mp_loop_empty(1) [OF assms(1), of p us "Some t"]
      by (auto simp: rt_mp_alloc_wake_def Let_def rt_tick_get_def split: list.split)
    ultimately show "?wait \<and> ?wake" ..
  qed
qed

text \<open>A pool of two blocks of eight bytes.\<close>

definition mp_demo :: kernel where
  "mp_demo = snd (rt_mp_init 0 ''pool'' 0x1000 24 8 three_timed)"

lemma mp_demo_rep: "kinv mp_demo" "mp_rep 0 [0x1000, 0x100c] [] mp_demo"
proof -
  have n: "RT_ALIGN_DOWN 24 8 div (RT_ALIGN 8 8 + 4) = 2" by (simp add: RT_ALIGN_DOWN_def RT_ALIGN_def)
  have q: "queue three_timed (MpQ 0) = []" by (simp add: three_timed_def three_threads_def)
  have l: "[0..<2] = [0, Suc 0]" by (simp add: upt_conv_Cons)
  show "kinv mp_demo" "mp_rep 0 [0x1000, 0x100c] [] mp_demo"
    using mp_init_aux [where sz = 24 and block_size = 8 and start = "0x1000" and name = "''pool''" and p = 0, OF three_timed_ipc(1) q] n
    by (auto simp: Let_def l RT_ALIGN_def mp_demo_def)
qed

theorem mempool_blocks_exclusive_witness:
  "let k1 = snd (rt_mp_alloc 0 0 mp_demo) in
   fst (rt_mp_alloc 0 0 mp_demo) = Some (Some 0x1004) \<and> fst (rt_mp_alloc 0 0 k1) = Some (Some 0x1010) \<and>
   (\<exists>k'. rt_mp_free 0 (Some 0x1004) k1 = Some k' \<and> mp_rep 0 [0x1000, 0x100c] [] k')"
proof -
  let ?k1 = "snd (rt_mp_alloc 0 0 mp_demo)"
  have a: "mp_allocated 0 0x1000 [0x100c] [] (rt_mp_alloc 0 0 mp_demo)"
    using mempool_blocks_exclusive [OF mp_demo_rep, where time = 0] by simp
  then have k1: "kinv ?k1" "mp_rep 0 [0x100c] [0x1000] ?k1" by (simp_all add: mp_allocated_def)
  note m = mempool_blocks_exclusive [OF k1, where time = 0]
  have "fst (rt_mp_alloc 0 0 ?k1) = Some (Some 0x1010)" using m [THEN conjunct1] by (simp add: mp_allocated_def)
  moreover have "\<exists>k'. rt_mp_free 0 (Some 0x1004) ?k1 = Some k' \<and> mp_rep 0 [0x1000, 0x100c] [] k'"
    using m [THEN conjunct2, THEN conjunct1] by auto
  ultimately show ?thesis using a by (simp add: mp_allocated_def)
qed

text \<open>
  A wait that times out breaks the pool.  A thread waits for a block of an empty pool and
  its timer fires: it gets a null pointer and is off the list, but the pool still counts it
  as waiting, so that freeing a block takes the head of the empty list for a thread.
\<close>

theorem mempool_timeout_stale_count:
  assumes "kinv k" "rt_current_thread k = Some t" "thread_stat k t = RT_THREAD_RUNNING" "thread_timed k t"
    and "mp_block_free_count (mempools k p) = 0" "queue k (MpQ p) = []" "mp_suspend_thread_count (mempools k p) = 0"
    and "mp_word (mempools k p) (b - 4) = MpPool p" "time > 0"
  shows "let (r, k1) = rt_mp_alloc p time k; k2 = rt_thread_timeout t (timer_remove (ThreadTimer t) k1) in
    r = None \<and> thread_stat k1 t = RT_THREAD_SUSPEND \<and> fst (rt_mp_alloc_wake p time start t k2) = Some None \<and>
    queue k2 (MpQ p) = [] \<and> mp_suspend_thread_count (mempools k2 p) = 1 \<and> rt_mp_free p (Some b) k2 = None"
proof -
  define k1 where "k1 = mp_wait p t time k"
  note w = mp_wait_aux [where time = time and p = p, OF assms(1,3,4), folded k1_def]
  have alloc: "rt_mp_alloc p time k = (None, k1)"
    using assms(2,5,9) by (simp add: rt_mp_alloc_def mp_alloc_loop_def rt_thread_self_def k1_def)
  define kr where "kr = timer_remove (ThreadTimer t) k1"
  have kr: "kinv kr" "thread_stat kr t = RT_THREAD_SUSPEND" "mempools kr = mempools k1" "queue kr = queue k1"
    "ThreadTimer t \<notin> set (rt_timer_list kr)" "ThreadTimer t \<notin> set (rt_soft_timer_list kr)"
    using w(1,4) timer_inv_remove [of k1] by (auto simp: kr_def kinv_def)
  define kw where "kw = thread_timeout_wake t kr"
  have kw: "kinv kw" using timeout_wake_inv [OF kr(1,2,5,6)] by (simp add: kw_def)
  have "queue kw (MpQ p) = []" "mempools kw = mempools k1" "thread_error (threads kw t) = - RT_ETIMEOUT"
    using w(2) kr(3,4) assms(6) by (simp_all add: kw_def thread_timeout_wake_def Let_def)
  then have k2: "queue (rt_schedule kw) (MpQ p) = []" "mempools (rt_schedule kw) = mempools k1"
    "thread_error (threads (rt_schedule kw) t) = - RT_ETIMEOUT"
    using schedule_wait_queue [OF kw wait_queue_simps(7)] by simp_all
  have e: "rt_thread_timeout t kr = rt_schedule kw" by (simp add: rt_thread_timeout_def kw_def)
  have "rt_mp_free p (Some b) (rt_schedule kw) = None"
    using k2 assms(7,8) w(3) by (simp add: rt_mp_free_def Let_def)
  then show ?thesis using w k2 assms(7) by (simp add: alloc kr_def [symmetric] e rt_mp_alloc_wake_def Let_def)
qed

theorem mempool_timeout_stale_count_witness:
  "let k = upd_mp 0 (\<lambda>m. m\<lparr>mp_word := (\<lambda>_. MpPool 0)\<rparr>) three_timed;
       (r, k1) = rt_mp_alloc 0 5 k; k2 = rt_thread_timeout 2 (timer_remove (ThreadTimer 2) k1) in
   rt_mp_free 0 (Some 0x1004) k2 = None"
proof -
  let ?k = "upd_mp 0 (\<lambda>m. m\<lparr>mp_word := (\<lambda>_. MpPool 0)\<rparr>) three_timed"
  have "kinv ?k" "rt_current_thread ?k = Some 2" "thread_stat ?k 2 = RT_THREAD_RUNNING" "thread_timed ?k 2"
    using three_timed_ipc(1,2) three_timed_good(3,4) by (simp_all add: thread_timed_def)
  moreover have "mp_block_free_count (mempools ?k 0) = 0" "queue ?k (MpQ 0) = []" "mp_suspend_thread_count (mempools ?k 0) = 0"
    by (simp_all add: three_timed_def three_threads_def kernel_zero_def)
  ultimately show ?thesis
    using mempool_timeout_stale_count [of ?k 2 0 "0x1004" 5] by (auto simp: Let_def split: prod.splits)
qed

end
