(* ===== verification/MsgQueue.thy ===== *)
theory MsgQueue
  imports Mailbox
begin

text \<open>
  Message queues (ipc.c, lines 1762 to 2325).  The pool is an array of slots linked into a
  queue of messages and a list of free slots; a slot is named by its index.  Send and
  urgent send work in two sections with interrupts disabled, the copy between them: each
  section is a definition, and the call composes them.
\<close>

section \<open>Slots\<close>

definition upd_mq :: "nat \<Rightarrow> (rt_messagequeue \<Rightarrow> rt_messagequeue) \<Rightarrow> kernel \<Rightarrow> kernel" where
  "upd_mq q f k = k\<lparr>mqs := (mqs k)(q := f (mqs k q))\<rparr>"

text \<open>The loop that threads the slots from \<open>temp\<close> on into the free list.\<close>

function mq_free_init :: "nat \<Rightarrow> rt_messagequeue \<Rightarrow> rt_messagequeue" where
  "mq_free_init temp m =
     (if temp < mq_max_msgs m
      then mq_free_init (temp + 1) (m\<lparr>mq_next := (mq_next m)(temp := mq_free m), mq_free := Some temp\<rparr>)
      else m)"
  by pat_completeness auto

termination by (relation "measure (\<lambda>(temp, m). mq_max_msgs m - temp)") auto

declare mq_free_init.simps [simp del]

definition mq_fresh :: "u8 \<Rightarrow> (nat \<Rightarrow> u8 list) \<Rightarrow> nat \<Rightarrow> nat \<Rightarrow> rt_messagequeue" where
  "mq_fresh flag pool msg_size max_msgs =
     mq_free_init 0
       \<lparr>mq_flag = flag, mq_msg_size = msg_size, mq_max_msgs = max_msgs, mq_entry = 0, mq_next = (\<lambda>_. None),
        mq_data = pool, mq_head = None, mq_tail = None, mq_free = None\<rparr>"

text \<open>Message sizes are rounded up to words and stored in 16 bits.\<close>

definition mq_size_align :: "u32 \<Rightarrow> nat" where
  "mq_size_align n = unat (RT_ALIGN n 8) mod 2 ^ 16"

definition mq_take_free :: "rt_messagequeue \<Rightarrow> (nat \<times> rt_messagequeue) option" where
  "mq_take_free m = (case mq_free m of None \<Rightarrow> None | Some i \<Rightarrow> Some (i, m\<lparr>mq_free := mq_next m i\<rparr>))"

definition mq_put_free :: "nat \<Rightarrow> rt_messagequeue \<Rightarrow> rt_messagequeue" where
  "mq_put_free i m = m\<lparr>mq_next := (mq_next m)(i := mq_free m), mq_free := Some i\<rparr>"

text \<open>\<open>rt_memcpy(msg + 1, buffer, size)\<close>: the rest of the slot keeps its bytes.\<close>

definition mq_fill :: "nat \<Rightarrow> u8 list \<Rightarrow> rt_messagequeue \<Rightarrow> rt_messagequeue" where
  "mq_fill i buffer m = m\<lparr>mq_data := (mq_data m)(i := buffer @ drop (length buffer) (mq_data m i))\<rparr>"

definition mq_link_tail :: "nat \<Rightarrow> rt_messagequeue \<Rightarrow> rt_messagequeue" where
  "mq_link_tail i m =
     m\<lparr>mq_next := (case mq_tail m of None \<Rightarrow> mq_next m | Some j \<Rightarrow> (mq_next m)(j := Some i)),
       mq_tail := Some i,
       mq_head := (if mq_head m = None then Some i else mq_head m),
       mq_entry := (mq_entry m + 1) mod 2 ^ 16\<rparr>"

definition mq_link_head :: "nat \<Rightarrow> rt_messagequeue \<Rightarrow> rt_messagequeue" where
  "mq_link_head i m =
     m\<lparr>mq_next := (mq_next m)(i := mq_head m),
       mq_head := Some i,
       mq_tail := (if mq_tail m = None then Some i else mq_tail m),
       mq_entry := (mq_entry m + 1) mod 2 ^ 16\<rparr>"

text \<open>Taking the first message off the queue; with no message the code would follow a null pointer.\<close>

definition mq_pop :: "rt_messagequeue \<Rightarrow> (nat \<times> rt_messagequeue) option" where
  "mq_pop m =
     (case mq_head m of
        None \<Rightarrow> None
      | Some i \<Rightarrow>
          Some (i, m\<lparr>mq_head := mq_next m i,
                   mq_tail := (if mq_tail m = Some i then None else mq_tail m),
                   mq_entry := (mq_entry m + 2 ^ 16 - 1) mod 2 ^ 16\<rparr>))"

text \<open>The loop of the reset, which moves every message to the free list.\<close>

partial_function (option) mq_drain :: "rt_messagequeue \<Rightarrow> rt_messagequeue option" where
  "mq_drain m =
     (case mq_head m of
        None \<Rightarrow> Some m
      | Some i \<Rightarrow>
          mq_drain (mq_put_free i
            (m\<lparr>mq_head := mq_next m i, mq_tail := (if mq_tail m = Some i then None else mq_tail m)\<rparr>)))"

section \<open>Operations\<close>

definition rt_mq_init ::
  "nat \<Rightarrow> string \<Rightarrow> (nat \<Rightarrow> u8 list) \<Rightarrow> u32 \<Rightarrow> u32 \<Rightarrow> u8 \<Rightarrow> kernel \<Rightarrow> rt_err_t \<times> kernel" where
  "rt_mq_init q name msgpool msg_size pool_size flag k =
     (let k1 = rt_ipc_object_init (MqQ q) (rt_object_init (OMq q) RT_Object_Class_MessageQueue name k);
          sz = mq_size_align msg_size
      in (RT_EOK, upd_mq q (\<lambda>_. mq_fresh flag msgpool sz (unat pool_size div (sz + 4) mod 2 ^ 16)) k1))"

definition rt_mq_detach :: "nat \<Rightarrow> kernel \<Rightarrow> (rt_err_t \<times> kernel) option" where
  "rt_mq_detach q k =
     map_option (\<lambda>k1. (RT_EOK, rt_object_detach (OMq q) k1)) (rt_ipc_list_resume_all (MqQ q) k)"

definition rt_mq_delete :: "nat \<Rightarrow> kernel \<Rightarrow> (rt_err_t \<times> kernel) option" where
  "rt_mq_delete q k =
     map_option (\<lambda>k1. (RT_EOK, rt_object_delete (OMq q) k1)) (rt_ipc_list_resume_all (MqQ q) k)"

definition rt_mq_create ::
  "object_ref option \<Rightarrow> (nat \<Rightarrow> u8 list) option \<Rightarrow> string \<Rightarrow> u32 \<Rightarrow> u32 \<Rightarrow> u8 \<Rightarrow> kernel \<Rightarrow>
   (nat option \<times> kernel) option" where
  "rt_mq_create mem pool name msg_size max_msgs flag k =
     (case rt_object_allocate mem RT_Object_Class_MessageQueue name k of
        (Some (OMq q), k1) \<Rightarrow>
          let sz = mq_size_align msg_size;
              k2 = rt_ipc_object_init (MqQ q)
                (upd_mq q (\<lambda>m. m\<lparr>mq_flag := flag, mq_msg_size := sz, mq_max_msgs := unat max_msgs mod 2 ^ 16\<rparr>) k1)
          in (case pool of
                None \<Rightarrow> map_option (\<lambda>(_, k3). (None, k3)) (rt_mq_delete q k2)
              | Some p \<Rightarrow> Some (Some q, upd_mq q (\<lambda>_. mq_fresh flag p sz (unat max_msgs mod 2 ^ 16)) k2))
      | (_, k1) \<Rightarrow> Some (None, k1))"

text \<open>Waking a receiver after a message has been linked.\<close>

definition mq_notify :: "nat \<Rightarrow> kernel \<Rightarrow> kernel" where
  "mq_notify q k = (if queue k (MqQ q) \<noteq> [] then rt_schedule (rt_ipc_list_resume (MqQ q) k) else k)"

definition rt_mq_send :: "nat \<Rightarrow> u8 list \<Rightarrow> kernel \<Rightarrow> rt_err_t \<times> kernel" where
  "rt_mq_send q buffer k =
     (if length buffer > mq_msg_size (mqs k q) then (- RT_ERROR, k)
      else
        (case mq_take_free (mqs k q) of
           None \<Rightarrow> (- RT_EFULL, k)
         | Some (i, m) \<Rightarrow>
             let k1 = upd_mq q (\<lambda>_. m) k;
                 k2 = upd_mq q (\<lambda>m. mq_fill i buffer (m\<lparr>mq_next := (mq_next m)(i := None)\<rparr>)) k1
             in (RT_EOK, mq_notify q (upd_mq q (mq_link_tail i) k2))))"

definition rt_mq_urgent :: "nat \<Rightarrow> u8 list \<Rightarrow> kernel \<Rightarrow> rt_err_t \<times> kernel" where
  "rt_mq_urgent q buffer k =
     (if length buffer > mq_msg_size (mqs k q) then (- RT_ERROR, k)
      else
        (case mq_take_free (mqs k q) of
           None \<Rightarrow> (- RT_EFULL, k)
         | Some (i, m) \<Rightarrow>
             let k1 = upd_mq q (\<lambda>_. m) k;
                 k2 = upd_mq q (mq_fill i buffer) k1
             in (RT_EOK, mq_notify q (upd_mq q (mq_link_head i) k2))))"

text \<open>What \<open>rt_mq_recv\<close> does once a message is there; the second component is what it copies out.\<close>

definition mq_recv_done :: "nat \<Rightarrow> nat \<Rightarrow> kernel \<Rightarrow> rt_err_t option \<times> u8 list option \<times> kernel" where
  "mq_recv_done q n k =
     (case mq_pop (mqs k q) of
        None \<Rightarrow> (None, None, k)
      | Some (i, m) \<Rightarrow>
          let k1 = upd_mq q (\<lambda>_. m) k;
              out = take (if n > mq_msg_size m then mq_msg_size m else n) (mq_data (mqs k1 q) i)
          in (Some RT_EOK, Some out, upd_mq q (mq_put_free i) k1))"

definition mq_recv_loop ::
  "nat \<Rightarrow> nat \<Rightarrow> int \<Rightarrow> tid option \<Rightarrow> kernel \<Rightarrow> rt_err_t option \<times> u8 list option \<times> kernel" where
  "mq_recv_loop q n timeout self k =
     (if mq_entry (mqs k q) = 0
      then
        (case self of
           None \<Rightarrow> (None, None, k)
         | Some t \<Rightarrow>
             let k1 = upd_thread t (\<lambda>th. th\<lparr>thread_error := RT_EOK\<rparr>) k
             in if timeout = 0
                then (Some (- RT_ETIMEOUT), None, upd_thread t (\<lambda>th. th\<lparr>thread_error := - RT_ETIMEOUT\<rparr>) k1)
                else (None, None, rt_schedule (ipc_wait (MqQ q) t (mq_flag (mqs k1 q)) timeout k1)))
      else mq_recv_done q n k)"

definition rt_mq_recv :: "nat \<Rightarrow> nat \<Rightarrow> int \<Rightarrow> kernel \<Rightarrow> rt_err_t option \<times> u8 list option \<times> kernel" where
  "rt_mq_recv q n timeout k =
     (if mq_entry (mqs k q) = 0 \<and> timeout = 0 then (Some (- RT_ETIMEOUT), None, k)
      else mq_recv_loop q n timeout (rt_thread_self k) k)"

definition rt_mq_recv_wake ::
  "nat \<Rightarrow> nat \<Rightarrow> int \<Rightarrow> u32 \<Rightarrow> tid \<Rightarrow> kernel \<Rightarrow> rt_err_t option \<times> u8 list option \<times> kernel" where
  "rt_mq_recv_wake q n timeout start t k =
     (if thread_error (threads k t) \<noteq> RT_EOK then (Some (thread_error (threads k t)), None, k)
      else mq_recv_loop q n (ticks_left timeout start (rt_tick_get k)) (Some t) k)"

definition rt_mq_control :: "nat \<Rightarrow> nat \<Rightarrow> u32 \<Rightarrow> kernel \<Rightarrow> (rt_err_t \<times> kernel) option" where
  "rt_mq_control q cmd arg k =
     (if cmd = RT_IPC_CMD_RESET
      then Option.bind (rt_ipc_list_resume_all (MqQ q) k)
             (\<lambda>k1. map_option (\<lambda>m. (RT_EOK, rt_schedule (upd_mq q (\<lambda>_. m\<lparr>mq_entry := 0\<rparr>) k1))) (mq_drain (mqs k1 q)))
      else Some (- RT_ERROR, k))"

section \<open>Well-formed queues\<close>

fun chain :: "(nat \<Rightarrow> nat option) \<Rightarrow> nat option \<Rightarrow> nat list \<Rightarrow> bool" where
  "chain nx p [] \<longleftrightarrow> p = None"
| "chain nx p (x # xs) \<longleftrightarrow> p = Some x \<and> chain nx (nx x) xs"

lemma chain_upd [simp]: "i \<notin> set xs \<Longrightarrow> chain (nx(i := v)) p xs = chain nx p xs"
  by (induction xs arbitrary: p) auto

lemma chain_None [simp]: "chain nx None xs \<longleftrightarrow> xs = []"
  by (cases xs) auto

lemma chain_append:
  "chain nx p (xs @ [x]) \<Longrightarrow> distinct (xs @ [x]) \<Longrightarrow> y \<notin> set (xs @ [x]) \<Longrightarrow> nx y = None \<Longrightarrow>
   chain (nx(x := Some y)) p (xs @ [x, y])"
  by (induction xs arbitrary: p) auto

text \<open>
  The slots of a queue: \<open>qs\<close> the messages in order, \<open>fs\<close> the free ones.  Together they are
  all the slots, each once.
\<close>

definition mq_rep :: "rt_messagequeue \<Rightarrow> nat list \<Rightarrow> nat list \<Rightarrow> bool" where
  "mq_rep m qs fs \<longleftrightarrow>
     chain (mq_next m) (mq_head m) qs \<and> chain (mq_next m) (mq_free m) fs \<and>
     mq_tail m = (if qs = [] then None else Some (last qs)) \<and>
     distinct (qs @ fs) \<and> set (qs @ fs) = {..<mq_max_msgs m} \<and> mq_max_msgs m < 2 ^ 16 \<and>
     mq_entry m = length qs \<and> (\<forall>i < mq_max_msgs m. length (mq_data m i) = mq_msg_size m)"

definition mq_messages :: "rt_messagequeue \<Rightarrow> nat list \<Rightarrow> u8 list list" where
  "mq_messages m qs = map (mq_data m) qs"

lemma mq_rep_length: "mq_rep m qs fs \<Longrightarrow> length qs + length fs = mq_max_msgs m"
  by (metis card_lessThan distinct_card length_append mq_rep_def)

lemma mq_entry_step: "mq_rep m qs (i # fs) \<Longrightarrow> (mq_entry m + 1) mod 2 ^ 16 = length qs + 1"
  using mq_rep_length [of m qs "i # fs"] by (simp add: mq_rep_def)

text \<open>The bytes of a slot after a message has been copied into it.\<close>

definition mq_overlay :: "u8 list \<Rightarrow> u8 list \<Rightarrow> u8 list" where
  "mq_overlay buffer old = buffer @ drop (length buffer) old"

lemma mq_send_core:
  fixes m :: rt_messagequeue and buffer :: "u8 list"
  assumes r: "mq_rep m qs (i # fs)" and b: "length buffer \<le> mq_msg_size m"
  defines "m' \<equiv> mq_link_tail i (mq_fill i buffer (m\<lparr>mq_free := mq_next m i, mq_next := (mq_next m)(i := None)\<rparr>))"
  shows "mq_rep m' (qs @ [i]) fs"
    "mq_messages m' (qs @ [i]) = mq_messages m qs @ [mq_overlay buffer (mq_data m i)]"
    "mq_msg_size m' = mq_msg_size m" "mq_max_msgs m' = mq_max_msgs m"
proof -
  have d: "i \<notin> set qs" "i \<notin> set fs" "distinct qs" "distinct fs" "set qs \<inter> set fs = {}" "i < mq_max_msgs m"
    using r by (auto simp: mq_rep_def)
  have e: "(mq_entry m + 1) mod 2 ^ 16 = length qs + 1" by (rule mq_entry_step [OF r])
  have f: "chain (mq_next m) (mq_next m i) fs" using r by (simp add: mq_rep_def)
  have len: "length (mq_overlay buffer (mq_data m i)) = mq_msg_size m"
    using r b d(6) by (simp add: mq_rep_def mq_overlay_def)
  have ch: "chain (mq_next m') (mq_head m') (qs @ [i]) \<and> chain (mq_next m') (mq_free m') fs"
  proof (cases qs rule: rev_cases)
    case Nil
    then show ?thesis using r f d by (simp add: m'_def mq_link_tail_def mq_fill_def mq_rep_def)
  next
    case (snoc qs' j)
    obtain y where "mq_head m = Some y" using r snoc by (cases qs') (auto simp: mq_rep_def)
    then show ?thesis
      using r f d snoc chain_append [of "(mq_next m)(i := None)" "mq_head m" qs' j i]
      by (simp add: m'_def mq_link_tail_def mq_fill_def mq_rep_def)
  qed
  have dat: "mq_data m' = (mq_data m)(i := mq_overlay buffer (mq_data m i))"
    by (simp add: m'_def mq_link_tail_def mq_fill_def mq_overlay_def)
  show sz: "mq_msg_size m' = mq_msg_size m" "mq_max_msgs m' = mq_max_msgs m"
    by (simp_all add: m'_def mq_link_tail_def mq_fill_def)
  show "mq_messages m' (qs @ [i]) = mq_messages m qs @ [mq_overlay buffer (mq_data m i)]"
    using d by (simp add: mq_messages_def dat)
  have "mq_tail m' = Some i" "mq_entry m' = length qs + 1"
    using e by (simp_all add: m'_def mq_link_tail_def mq_fill_def)
  then show "mq_rep m' (qs @ [i]) fs"
    using r ch d len by (auto simp: mq_rep_def sz dat)
qed

lemma mq_urgent_core:
  fixes m :: rt_messagequeue and buffer :: "u8 list"
  assumes r: "mq_rep m qs (i # fs)" and b: "length buffer \<le> mq_msg_size m"
  defines "m' \<equiv> mq_link_head i (mq_fill i buffer (m\<lparr>mq_free := mq_next m i\<rparr>))"
  shows "mq_rep m' (i # qs) fs"
    "mq_messages m' (i # qs) = mq_overlay buffer (mq_data m i) # mq_messages m qs"
    "mq_msg_size m' = mq_msg_size m" "mq_max_msgs m' = mq_max_msgs m"
proof -
  have d: "i \<notin> set qs" "i \<notin> set fs" "distinct qs" "distinct fs" "set qs \<inter> set fs = {}" "i < mq_max_msgs m"
    using r by (auto simp: mq_rep_def)
  have e: "(mq_entry m + 1) mod 2 ^ 16 = length qs + 1" by (rule mq_entry_step [OF r])
  have len: "length (mq_overlay buffer (mq_data m i)) = mq_msg_size m"
    using r b d(6) by (simp add: mq_rep_def mq_overlay_def)
  have ch: "chain (mq_next m') (mq_head m') (i # qs)" "chain (mq_next m') (mq_free m') fs"
    using r d by (simp_all add: m'_def mq_link_head_def mq_fill_def mq_rep_def)
  have dat: "mq_data m' = (mq_data m)(i := mq_overlay buffer (mq_data m i))"
    by (simp add: m'_def mq_link_head_def mq_fill_def mq_overlay_def)
  show sz: "mq_msg_size m' = mq_msg_size m" "mq_max_msgs m' = mq_max_msgs m"
    by (simp_all add: m'_def mq_link_head_def mq_fill_def)
  show "mq_messages m' (i # qs) = mq_overlay buffer (mq_data m i) # mq_messages m qs"
    using d by (auto simp: mq_messages_def dat)
  have "mq_tail m' = Some (last (i # qs))" "mq_entry m' = length qs + 1"
    using e r by (simp_all add: m'_def mq_link_head_def mq_fill_def mq_rep_def)
  then show "mq_rep m' (i # qs) fs"
    using r ch d len by (auto simp: mq_rep_def sz dat)
qed

lemma mq_pop_core:
  assumes r: "mq_rep m (i # qs) fs"
  shows "\<exists>m1. mq_pop m = Some (i, m1) \<and> mq_data m1 = mq_data m \<and> mq_msg_size m1 = mq_msg_size m \<and>
    mq_rep (mq_put_free i m1) qs (i # fs) \<and> mq_messages (mq_put_free i m1) qs = mq_messages m qs \<and>
    mq_msg_size (mq_put_free i m1) = mq_msg_size m \<and> mq_max_msgs (mq_put_free i m1) = mq_max_msgs m"
proof -
  define m1 where "m1 = m\<lparr>mq_head := mq_next m i, mq_tail := (if mq_tail m = Some i then None else mq_tail m),
      mq_entry := (mq_entry m + 2 ^ 16 - 1) mod 2 ^ 16\<rparr>"
  have p: "mq_pop m = Some (i, m1)" using r by (simp add: mq_pop_def mq_rep_def m1_def)
  have d: "i \<notin> set qs" "i \<notin> set fs" using r by (auto simp: mq_rep_def)
  have e: "(mq_entry m + 2 ^ 16 - 1) mod 2 ^ 16 = length qs"
    using r mq_rep_length [OF r] by (simp add: mq_rep_def)
  have t: "mq_tail m1 = (if qs = [] then None else Some (last qs))"
    using r d(1) by (cases "qs = []") (auto simp: m1_def mq_rep_def)
  have "mq_rep (mq_put_free i m1) qs (i # fs)"
    using r d e t by (auto simp: mq_rep_def mq_put_free_def m1_def)
  then show ?thesis using p by (simp add: m1_def mq_put_free_def mq_messages_def)
qed

text \<open>A fresh queue has every slot free.\<close>

lemma mq_free_init_aux:
  assumes "chain (mq_next m) (mq_free m) fs" "set fs = {..<temp}" "distinct fs" "temp \<le> mq_max_msgs m"
  shows "\<exists>nx fr fs'. mq_free_init temp m = m\<lparr>mq_next := nx, mq_free := fr\<rparr> \<and>
    chain nx fr fs' \<and> set fs' = {..<mq_max_msgs m} \<and> distinct fs'"
  using assms
proof (induction temp m arbitrary: fs rule: mq_free_init.induct)
  case (1 temp m)
  show ?case
  proof (cases "temp < mq_max_msgs m")
    case True
    let ?m = "m\<lparr>mq_next := (mq_next m)(temp := mq_free m), mq_free := Some temp\<rparr>"
    have e: "mq_free_init temp m = mq_free_init (temp + 1) ?m" using True by (subst mq_free_init.simps) simp
    have n: "temp \<notin> set fs" using 1(3) by simp
    then have "chain (mq_next ?m) (mq_free ?m) (temp # fs)" using 1(2) by simp
    moreover have "set (temp # fs) = {..<temp + 1}" using 1(3) by (simp add: lessThan_Suc)
    moreover have "distinct (temp # fs)" "temp + 1 \<le> mq_max_msgs ?m" using 1(4) n True by simp_all
    ultimately obtain nx fr fs' where "mq_free_init (temp + 1) ?m = ?m\<lparr>mq_next := nx, mq_free := fr\<rparr>" "chain nx fr fs'"
      "set fs' = {..<mq_max_msgs ?m}" "distinct fs'"
      using 1(1) [OF True, of "temp # fs"] by blast
    then show ?thesis unfolding e by (intro exI [of _ nx] exI [of _ fr] exI [of _ fs']) simp
  next
    case False
    then have "mq_free_init temp m = m" by (subst mq_free_init.simps) simp
    moreover have "temp = mq_max_msgs m" using False 1(5) by simp
    ultimately show ?thesis using 1(2-4)
      by (intro exI [of _ "mq_next m"] exI [of _ "mq_free m"] exI [of _ fs]) simp
  qed
qed

lemma mq_fresh_rep:
  assumes "max_msgs < 2 ^ 16" "\<forall>i < max_msgs. length (pool i) = n"
  shows "\<exists>fs. mq_rep (mq_fresh flag pool n max_msgs) [] fs \<and> mq_msg_size (mq_fresh flag pool n max_msgs) = n \<and>
    mq_max_msgs (mq_fresh flag pool n max_msgs) = max_msgs"
proof -
  let ?m = "\<lparr>mq_flag = flag, mq_msg_size = n, mq_max_msgs = max_msgs, mq_entry = 0, mq_next = (\<lambda>_. None),
        mq_data = pool, mq_head = None, mq_tail = None, mq_free = None\<rparr> :: rt_messagequeue"
  obtain nx fr fs where fs: "mq_free_init 0 ?m = ?m\<lparr>mq_next := nx, mq_free := fr\<rparr>"
    "chain nx fr fs" "set fs = {..<max_msgs}" "distinct fs"
    using mq_free_init_aux [of ?m "[]" 0] by auto
  then show ?thesis using assms by (intro exI [of _ fs]) (simp add: mq_fresh_def mq_rep_def)
qed

section \<open>The kernel level\<close>

lemma upd_mq_frame [simp]:
  "threads (upd_mq q f k) = threads k" "queue (upd_mq q f k) = queue k" "rt_current_thread (upd_mq q f k) = rt_current_thread k"
  "timers (upd_mq q f k) = timers k" "mqs (upd_mq q f k) = (mqs k)(q := f (mqs k q))"
  "thread_stat (upd_mq q f k) t = thread_stat k t"
  by (simp_all add: upd_mq_def thread_stat_def)

lemma kinv_upd_mq [simp]: "kinv (upd_mq q f k) = kinv k"
  by (rule kinv_cong; simp add: thread_stat_def upd_mq_def)

lemma mq_notify_aux:
  assumes inv: "kinv k"
  shows "kinv (mq_notify q k)" "mqs (mq_notify q k) = mqs k"
    "queue k (MqQ q) = t # ts \<Longrightarrow> thread_stat (mq_notify q k) t \<in> {RT_THREAD_READY, RT_THREAD_RUNNING} \<and>
       queue (mq_notify q k) (MqQ q) = ts"
    "thread_error (threads (mq_notify q k) u) = thread_error (threads k u)"
proof -
  let ?k = "rt_ipc_list_resume (MqQ q) k"
  have invr: "kinv ?k" by (rule list_resume_inv [OF inv])
  show "kinv (mq_notify q k)" using inv invr by (simp add: mq_notify_def kinv_schedule)
  show "mqs (mq_notify q k) = mqs k" by (simp add: mq_notify_def)
  show "thread_stat (mq_notify q k) t \<in> {RT_THREAD_READY, RT_THREAD_RUNNING} \<and>
       queue (mq_notify q k) (MqQ q) = ts" if q: "queue k (MqQ q) = t # ts"
    using list_resume_effect [OF inv wait_queue_simps(6) q] q
      rt_schedule_other(3) [OF kinvD(1) [OF invr], of t] schedule_wait_queue [OF invr wait_queue_simps(6)]
    by (simp add: mq_notify_def split: if_splits)
  show "thread_error (threads (mq_notify q k) u) = thread_error (threads k u)"
    using list_resume_effect(5) [OF inv wait_queue_simps(6), of q] by (cases "queue k (MqQ q)") (auto simp: mq_notify_def)
qed

definition mq_inv :: "nat \<Rightarrow> nat list \<Rightarrow> nat list \<Rightarrow> kernel \<Rightarrow> bool" where
  "mq_inv q qs fs k \<longleftrightarrow> kinv k \<and> mq_rep (mqs k q) qs fs"

lemma mq_send_aux:
  assumes inv: "mq_inv q qs fs k" and n: "length buffer \<le> mq_msg_size (mqs k q)"
  shows "fs = [] \<Longrightarrow> rt_mq_send q buffer k = (- RT_EFULL, k)"
    "fs = [] \<Longrightarrow> rt_mq_urgent q buffer k = (- RT_EFULL, k)"
    "fs = i # fs' \<Longrightarrow> fst (rt_mq_send q buffer k) = RT_EOK \<and> mq_inv q (qs @ [i]) fs' (snd (rt_mq_send q buffer k)) \<and>
       mq_messages (mqs (snd (rt_mq_send q buffer k)) q) (qs @ [i]) =
         mq_messages (mqs k q) qs @ [mq_overlay buffer (mq_data (mqs k q) i)] \<and>
       mq_msg_size (mqs (snd (rt_mq_send q buffer k)) q) = mq_msg_size (mqs k q)"
    "fs = i # fs' \<Longrightarrow> fst (rt_mq_urgent q buffer k) = RT_EOK \<and> mq_inv q (i # qs) fs' (snd (rt_mq_urgent q buffer k)) \<and>
       mq_messages (mqs (snd (rt_mq_urgent q buffer k)) q) (i # qs) =
         mq_overlay buffer (mq_data (mqs k q) i) # mq_messages (mqs k q) qs \<and>
       mq_msg_size (mqs (snd (rt_mq_urgent q buffer k)) q) = mq_msg_size (mqs k q)"
proof -
  have kv: "kinv k" and r: "mq_rep (mqs k q) qs fs" using inv by (simp_all add: mq_inv_def)
  show "rt_mq_send q buffer k = (- RT_EFULL, k)" "rt_mq_urgent q buffer k = (- RT_EFULL, k)" if "fs = []"
    using that r n by (simp_all add: rt_mq_send_def rt_mq_urgent_def mq_take_free_def mq_rep_def)
  let ?m = "mqs k q"
  assume f: "fs = i # fs'"
  then have r': "mq_rep ?m qs (i # fs')" and tf: "mq_take_free ?m = Some (i, ?m\<lparr>mq_free := mq_next ?m i\<rparr>)"
    using r by (simp_all add: mq_take_free_def mq_rep_def)
  let ?ks = "upd_mq q (mq_link_tail i) (upd_mq q (\<lambda>m. mq_fill i buffer (m\<lparr>mq_next := (mq_next m)(i := None)\<rparr>))
      (upd_mq q (\<lambda>_. ?m\<lparr>mq_free := mq_next ?m i\<rparr>) k))"
  have s: "rt_mq_send q buffer k = (RT_EOK, mq_notify q ?ks)"
    using n tf by (simp add: rt_mq_send_def Let_def)
  have ks: "kinv ?ks" using kv by simp
  have "mqs ?ks q = mq_link_tail i (mq_fill i buffer (?m\<lparr>mq_free := mq_next ?m i, mq_next := (mq_next ?m)(i := None)\<rparr>))"
    by simp
  then show "fst (rt_mq_send q buffer k) = RT_EOK \<and> mq_inv q (qs @ [i]) fs' (snd (rt_mq_send q buffer k)) \<and>
       mq_messages (mqs (snd (rt_mq_send q buffer k)) q) (qs @ [i]) =
         mq_messages (mqs k q) qs @ [mq_overlay buffer (mq_data (mqs k q) i)] \<and>
       mq_msg_size (mqs (snd (rt_mq_send q buffer k)) q) = mq_msg_size (mqs k q)"
    using mq_send_core [OF r' n] mq_notify_aux(1,2) [OF ks, of q] unfolding s mq_inv_def fst_conv snd_conv by metis
  let ?ku = "upd_mq q (mq_link_head i) (upd_mq q (mq_fill i buffer) (upd_mq q (\<lambda>_. ?m\<lparr>mq_free := mq_next ?m i\<rparr>) k))"
  have u: "rt_mq_urgent q buffer k = (RT_EOK, mq_notify q ?ku)"
    using n tf by (simp add: rt_mq_urgent_def Let_def)
  have ku: "kinv ?ku" using kv by simp
  have "mqs ?ku q = mq_link_head i (mq_fill i buffer (?m\<lparr>mq_free := mq_next ?m i\<rparr>))" by simp
  then show "fst (rt_mq_urgent q buffer k) = RT_EOK \<and> mq_inv q (i # qs) fs' (snd (rt_mq_urgent q buffer k)) \<and>
       mq_messages (mqs (snd (rt_mq_urgent q buffer k)) q) (i # qs) =
         mq_overlay buffer (mq_data (mqs k q) i) # mq_messages (mqs k q) qs \<and>
       mq_msg_size (mqs (snd (rt_mq_urgent q buffer k)) q) = mq_msg_size (mqs k q)"
    using mq_urgent_core [OF r' n] mq_notify_aux(1,2) [OF ku, of q] unfolding u mq_inv_def fst_conv snd_conv by metis
qed

text \<open>A receive that got the first message of the slots \<open>i # qs\<close>.\<close>

definition mq_received ::
  "nat \<Rightarrow> nat \<Rightarrow> nat \<Rightarrow> nat list \<Rightarrow> nat list \<Rightarrow> kernel \<Rightarrow> rt_err_t option \<times> u8 list option \<times> kernel \<Rightarrow> bool" where
  "mq_received q n i qs fs k r \<longleftrightarrow>
     fst r = Some RT_EOK \<and> fst (snd r) = Some (take (min n (mq_msg_size (mqs k q))) (mq_data (mqs k q) i)) \<and>
     mq_inv q qs (i # fs) (snd (snd r)) \<and> mq_messages (mqs (snd (snd r)) q) qs = mq_messages (mqs k q) qs"

text \<open>A receive that has to wait: nothing stored, the thread suspended on the queue in its order.\<close>

definition mq_blocked :: "nat \<Rightarrow> tid \<Rightarrow> kernel \<Rightarrow> rt_err_t option \<times> u8 list option \<times> kernel \<Rightarrow> bool" where
  "mq_blocked q t k r \<longleftrightarrow>
     fst r = None \<and> fst (snd r) = None \<and> kinv (snd (snd r)) \<and> mqs (snd (snd r)) = mqs k \<and>
     thread_stat (snd (snd r)) t = RT_THREAD_SUSPEND \<and> thread_error (threads (snd (snd r)) t) = RT_EOK \<and>
     queue (snd (snd r)) (MqQ q) = ipc_order (mq_flag (mqs k q)) (\<lambda>u. current_priority (threads k u)) t (queue k (MqQ q))"

lemma mq_loop_received:
  assumes inv: "mq_inv q (i # qs) fs k"
  shows "mq_received q n i qs fs k (mq_recv_loop q n timeout self k)" "mq_received q n i qs fs k (rt_mq_recv q n timeout k)"
proof -
  have kv: "kinv k" and r: "mq_rep (mqs k q) (i # qs) fs" using inv by (simp_all add: mq_inv_def)
  obtain m1 where m1: "mq_pop (mqs k q) = Some (i, m1)" "mq_data m1 = mq_data (mqs k q)" "mq_msg_size m1 = mq_msg_size (mqs k q)"
    "mq_rep (mq_put_free i m1) qs (i # fs)" "mq_messages (mq_put_free i m1) qs = mq_messages (mqs k q) qs"
    using mq_pop_core [OF r] by blast
  have e: "mq_entry (mqs k q) \<noteq> 0" using r by (simp add: mq_rep_def)
  have l: "mq_received q n i qs fs k (mq_recv_loop q n timeout self k)" for self
    using m1 kv e by (simp add: mq_recv_loop_def mq_recv_done_def Let_def mq_inv_def min_def mq_received_def)
  then show "mq_received q n i qs fs k (mq_recv_loop q n timeout self k)" .
  show "mq_received q n i qs fs k (rt_mq_recv q n timeout k)" using l e by (simp add: rt_mq_recv_def)
qed

lemma mq_loop_empty:
  fixes timeout :: int and n :: nat
  assumes inv: "mq_inv q [] fs k" and run: "thread_stat k t = RT_THREAD_RUNNING" and tm: "thread_timed k t"
    and flag: "mq_flag (mqs k q) \<in> {RT_IPC_FLAG_FIFO, RT_IPC_FLAG_PRIO}"
  defines "r \<equiv> mq_recv_loop q n timeout (Some t) k"
  shows "timeout = 0 \<Longrightarrow> fst r = Some (- RT_ETIMEOUT) \<and> fst (snd r) = None \<and> mq_inv q [] fs (snd (snd r)) \<and>
      mqs (snd (snd r)) = mqs k \<and> queue (snd (snd r)) = queue k"
    "timeout \<noteq> 0 \<Longrightarrow> mq_blocked q t k r"
proof -
  have kv: "kinv k" and e: "mq_entry (mqs k q) = 0" using inv by (simp_all add: mq_inv_def mq_rep_def)
  define k1 where "k1 = upd_thread t (\<lambda>th. th\<lparr>thread_error := RT_EOK\<rparr>) k"
  note u = upd_error_aux [OF kv run tm, of RT_EOK, folded k1_def]
  have m1: "mqs k1 = mqs k" by (rule ipc_ofD(5) [OF u(4)])
  show "fst r = Some (- RT_ETIMEOUT) \<and> fst (snd r) = None \<and> mq_inv q [] fs (snd (snd r)) \<and>
      mqs (snd (snd r)) = mqs k \<and> queue (snd (snd r)) = queue k" if "timeout = 0"
    using that inv by (simp add: r_def mq_recv_loop_def e Let_def mq_inv_def kinv_upd_thread)
  define k3 where "k3 = rt_schedule (ipc_wait (MqQ q) t (mq_flag (mqs k1 q)) timeout k1)"
  have f1: "mq_flag (mqs k1 q) \<in> {RT_IPC_FLAG_FIFO, RT_IPC_FLAG_PRIO}" using flag m1 by simp
  note b = block_aux [where h = "MqQ q" and time = timeout, OF u(1-3) wait_queue_simps(6) f1, folded k3_def]
  show "mq_blocked q t k r" if "timeout \<noteq> 0"
  proof -
    have "r = (None, None, k3)" using that by (simp add: r_def mq_recv_loop_def e Let_def k1_def k3_def)
    then show ?thesis using b(1,2,4,6) ipc_ofD(5) [OF b(3)] m1 u(5-7) by (simp add: mq_blocked_def)
  qed
qed

lemma mq_notify_first:
  assumes "kinv k"
  shows "case queue k (MqQ q) of
      [] \<Rightarrow> queue (mq_notify q k) (MqQ q) = []
    | u # us \<Rightarrow> thread_stat (mq_notify q k) u \<in> {RT_THREAD_READY, RT_THREAD_RUNNING} \<and>
        thread_error (threads (mq_notify q k) u) = thread_error (threads k u) \<and> queue (mq_notify q k) (MqQ q) = us"
proof (cases "queue k (MqQ q)")
  case (Cons u us)
  then show ?thesis using mq_notify_aux(3) [OF assms Cons] mq_notify_aux(4) [OF assms, of q u] by simp
qed (simp add: mq_notify_def)

text \<open>What a send does to the threads that wait: the first can run, without an error of its own.\<close>

definition mq_woken :: "nat \<Rightarrow> kernel \<Rightarrow> kernel \<Rightarrow> bool" where
  "mq_woken q k k' \<longleftrightarrow>
     (case queue k (MqQ q) of
        [] \<Rightarrow> queue k' (MqQ q) = []
      | u # us \<Rightarrow> thread_stat k' u \<in> {RT_THREAD_READY, RT_THREAD_RUNNING} \<and>
          thread_error (threads k' u) = thread_error (threads k u) \<and> queue k' (MqQ q) = us)"

lemma mq_send_wakes:
  assumes inv: "mq_inv q qs (i # fs) k" and n: "length buffer \<le> mq_msg_size (mqs k q)"
  shows "mq_woken q k (snd (rt_mq_send q buffer k))" "mq_woken q k (snd (rt_mq_urgent q buffer k))"
proof -
  have kv: "kinv k" and r: "mq_rep (mqs k q) qs (i # fs)" using inv by (simp_all add: mq_inv_def)
  have tf: "mq_take_free (mqs k q) = Some (i, (mqs k q)\<lparr>mq_free := mq_next (mqs k q) i\<rparr>)"
    using r by (simp add: mq_take_free_def mq_rep_def)
  have up: "mq_woken q k (mq_notify q k1)" if "kinv k1" "threads k1 = threads k" "queue k1 = queue k" for k1
    using mq_notify_first [OF that(1), of q] unfolding that(2,3) mq_woken_def .
  show "mq_woken q k (snd (rt_mq_send q buffer k))" "mq_woken q k (snd (rt_mq_urgent q buffer k))"
    using n tf kv by (simp_all add: rt_mq_send_def rt_mq_urgent_def Let_def up)
qed

section \<open>Properties\<close>

text \<open>
  C16: A message queue hands out what was sent.  On a kernel state whose invariant holds and
  whose queue has its slots linked correctly, with messages \<open>qs\<close> and free slots \<open>fs\<close>: a message
  too long is refused, a full queue refuses, and otherwise send appends and urgent send
  prepends the message, over the old bytes of a free slot, and the first waiting thread can
  run.  Receive copies out the first message, cut to the size asked for, and frees its slot,
  whatever the waiting time; on an empty queue it fails at once without waiting time, and
  else suspends the running thread on the queue.  A receive that is scheduled again returns
  the error of its wait, or the first message, or on a queue that is empty again waits for
  the time left and fails when there is none.  No slot is lost or shared.
\<close>

theorem messagequeue_refines_queue:
  assumes "mq_inv q qs fs k"
  shows "(length buffer > mq_msg_size (mqs k q) \<longrightarrow> rt_mq_send q buffer k = (- RT_ERROR, k) \<and> rt_mq_urgent q buffer k = (- RT_ERROR, k)) \<and>
    (length buffer \<le> mq_msg_size (mqs k q) \<longrightarrow>
      (case fs of
         [] \<Rightarrow> rt_mq_send q buffer k = (- RT_EFULL, k) \<and> rt_mq_urgent q buffer k = (- RT_EFULL, k)
       | i # fs' \<Rightarrow>
           (let k' = snd (rt_mq_send q buffer k); k'' = snd (rt_mq_urgent q buffer k);
                msg = mq_overlay buffer (mq_data (mqs k q) i) in
            fst (rt_mq_send q buffer k) = RT_EOK \<and> mq_inv q (qs @ [i]) fs' k' \<and>
            mq_messages (mqs k' q) (qs @ [i]) = mq_messages (mqs k q) qs @ [msg] \<and> mq_woken q k k' \<and>
            fst (rt_mq_urgent q buffer k) = RT_EOK \<and> mq_inv q (i # qs) fs' k'' \<and>
            mq_messages (mqs k'' q) (i # qs) = msg # mq_messages (mqs k q) qs \<and> mq_woken q k k''))) \<and>
    (case qs of
       [] \<Rightarrow> rt_mq_recv q n 0 k = (Some (- RT_ETIMEOUT), None, k)
     | i # qs' \<Rightarrow> mq_received q n i qs' fs k (rt_mq_recv q n timeout k)) \<and>
    (rt_current_thread k = Some t \<and> thread_stat k t = RT_THREAD_RUNNING \<and> thread_timed k t \<and>
     mq_flag (mqs k q) \<in> {RT_IPC_FLAG_FIFO, RT_IPC_FLAG_PRIO} \<longrightarrow>
      (qs = [] \<and> timeout \<noteq> 0 \<longrightarrow> mq_blocked q t k (rt_mq_recv q n timeout k)) \<and>
      (let w = rt_mq_recv_wake q n timeout start t k; left = ticks_left timeout start (rt_tick k) in
        if thread_error (threads k t) \<noteq> RT_EOK then w = (Some (thread_error (threads k t)), None, k)
        else case qs of
          i # qs' \<Rightarrow> mq_received q n i qs' fs k w
        | [] \<Rightarrow> if left = 0
            then fst w = Some (- RT_ETIMEOUT) \<and> fst (snd w) = None \<and> mq_inv q [] fs (snd (snd w)) \<and>
              mqs (snd (snd w)) = mqs k \<and> queue (snd (snd w)) = queue k
            else mq_blocked q t k w))"
    (is "?long \<and> ?send \<and> ?recv \<and> (?run \<longrightarrow> ?block \<and> ?wake)")
proof (intro conjI)
  show ?long by (simp add: rt_mq_send_def rt_mq_urgent_def)
  show ?send
  proof (cases fs)
    case (Cons i fs')
    then show ?thesis using mq_send_aux(3,4) [OF assms] mq_send_wakes [OF assms [unfolded Cons]] by (simp add: Let_def)
  qed (use mq_send_aux(1,2) [OF assms] in simp)
  show ?recv
  proof (cases qs)
    case (Cons i qs')
    then show ?thesis using mq_loop_received(2) [OF assms [unfolded Cons]] by simp
  qed (use assms in \<open>simp add: mq_inv_def mq_rep_def rt_mq_recv_def\<close>)
  show "?run \<longrightarrow> ?block \<and> ?wake"
  proof (intro impI conjI, elim conjE)
    assume r: "rt_current_thread k = Some t" "thread_stat k t = RT_THREAD_RUNNING" "thread_timed k t"
      "mq_flag (mqs k q) \<in> {RT_IPC_FLAG_FIFO, RT_IPC_FLAG_PRIO}" and e: "qs = []" "timeout \<noteq> 0"
    have "rt_mq_recv q n timeout k = mq_recv_loop q n timeout (Some t) k" using e(2) r(1) by (simp add: rt_mq_recv_def rt_thread_self_def)
    then show "mq_blocked q t k (rt_mq_recv q n timeout k)"
      using mq_loop_empty(2) [of q fs k t timeout n] assms r e by simp
  next
    assume r: ?run
    then show ?wake
      using assms mq_loop_empty [of q fs k t _ n] mq_loop_received(1) [of q _ _ fs k n _ "Some t"]
      by (auto simp: rt_mq_recv_wake_def Let_def rt_tick_get_def split: list.split)
  qed
qed

text \<open>Thread 2 waits for a message and another thread sends one.\<close>

theorem messagequeue_refines_queue_witness:
  "let k = upd_mq 0 (\<lambda>_. mq_fresh 0 (\<lambda>_. replicate 8 0) 8 2) three_timed;
       k1 = snd (snd (rt_mq_recv 0 8 (-1) k)); k2 = snd (rt_mq_send 0 [1, 2, 3, 4, 5, 6, 7, 8] k1) in
   fst (rt_mq_recv 0 8 (-1) k) = None \<and> queue k1 (MqQ 0) = [2] \<and> queue k2 (MqQ 0) = [] \<and>
   fst (snd (rt_mq_recv 0 8 0 k2)) = Some [1, 2, 3, 4, 5, 6, 7, 8] \<and> fst (rt_mq_send 0 (replicate 9 0) k) = - RT_ERROR"
proof -
  let ?k = "upd_mq 0 (\<lambda>_. mq_fresh 0 (\<lambda>_. replicate 8 0) 8 2) three_timed"
  let ?k1 = "snd (snd (rt_mq_recv 0 8 (-1) ?k))" and ?b = "[1, 2, 3, 4, 5, 6, 7, 8] :: u8 list"
  let ?k2 = "snd (rt_mq_send 0 ?b ?k1)"
  obtain fs where fs: "mq_rep (mqs ?k 0) [] fs" "mq_msg_size (mqs ?k 0) = 8" "mq_max_msgs (mqs ?k 0) = 2"
    using mq_fresh_rep [of 2 "\<lambda>_. replicate 8 0" 8 0] by auto
  have i: "mq_inv 0 [] fs ?k" using fs(1) three_timed_ipc(1) by (simp add: mq_inv_def)
  have mf: "mq_flag (mq_free_init j m) = mq_flag m" for j m
    by (induction j m rule: mq_free_init.induct) (subst mq_free_init.simps, simp)
  have fl: "mq_flag (mqs ?k 0) = RT_IPC_FLAG_FIFO" by (simp add: mq_fresh_def mf RT_IPC_FLAG_FIFO_def)
  have run: "rt_current_thread ?k = Some 2 \<and> thread_stat ?k 2 = RT_THREAD_RUNNING \<and> thread_timed ?k 2 \<and>
     mq_flag (mqs ?k 0) \<in> {RT_IPC_FLAG_FIFO, RT_IPC_FLAG_PRIO}"
    using three_timed_good(3,4) three_timed_ipc(2) fl by (simp add: thread_timed_def)
  have q: "queue ?k (MqQ 0) = []" by (simp add: three_timed_def three_threads_def kernel_zero_def)
  have b: "mq_blocked 0 2 ?k (rt_mq_recv 0 8 (-1) ?k)"
    using messagequeue_refines_queue [OF i, where n = 8 and timeout = "-1" and t = 2, THEN conjunct2, THEN conjunct2, THEN conjunct2, THEN mp, OF run] by simp
  then have b1: "fst (rt_mq_recv 0 8 (-1) ?k) = None" "queue ?k1 (MqQ 0) = [2]" "mqs ?k1 = mqs ?k" "mq_inv 0 [] fs ?k1"
    using q fl i by (simp_all add: mq_blocked_def ipc_order_def mq_inv_def)
  obtain j fs' where f: "fs = j # fs'" using mq_rep_length [OF fs(1)] fs(3) by (cases fs) auto
  have l: "length ?b \<le> mq_msg_size (mqs ?k1 0)" using fs(2) b1(3) by simp
  have s: "mq_inv 0 [j] fs' ?k2" "mq_messages (mqs ?k2 0) [j] = [mq_overlay ?b (mq_data (mqs ?k1 0) j)]" "mq_woken 0 ?k1 ?k2"
    using messagequeue_refines_queue [OF b1(4), of ?b, THEN conjunct2, THEN conjunct1, THEN mp, OF l] f
    by (simp_all add: Let_def mq_messages_def)
  have ms: "mq_msg_size (mqs ?k2 0) = 8"
    using mq_send_aux(3) [OF b1(4) l f] fs(2) b1(3) by simp
  have "length (mq_data (mqs ?k1 0) j) = 8"
    using i f fs(2) b1(3) by (simp add: mq_inv_def mq_rep_def) blast
  then have d: "mq_data (mqs ?k2 0) j = ?b" using s(2) by (simp add: mq_messages_def mq_overlay_def)
  have "mq_received 0 8 j [] fs' ?k2 (rt_mq_recv 0 8 0 ?k2)"
    using messagequeue_refines_queue [OF s(1), where n = 8 and timeout = 0, THEN conjunct2, THEN conjunct2, THEN conjunct1] by simp
  then have "fst (snd (rt_mq_recv 0 8 0 ?k2)) = Some ?b" by (simp add: mq_received_def d ms)
  moreover have "queue ?k2 (MqQ 0) = []" using s(3) b1(2) by (simp add: mq_woken_def)
  moreover have "fst (rt_mq_send 0 (replicate 9 0) ?k) = - RT_ERROR"
    using messagequeue_refines_queue [OF i, of "replicate 9 0", THEN conjunct1] fs(2) by simp
  ultimately show ?thesis unfolding Let_def using b1(1,2) by blast
qed

end
