(* ===== verification/Startup.thy ===== *)
theory Startup
  imports HeapCalls MemPool MsgQueue
begin

text \<open>
  The start of the kernel: \<open>rtthread_startup\<close> of common/init/init.c with \<open>rt_application_init\<close> of
  common/main/main.c.  The hardware initialisation of the board is the argument \<open>rt_hw_board_init\<close>; what
  it has to leave behind is \<open>cold\<close>, a kernel without threads and timers.
\<close>

definition BOOT_BREAK_BY_UART :: nat where "BOOT_BREAK_BY_UART = 0"
definition BOOT_BREAK_BY_NET :: nat where "BOOT_BREAK_BY_NET = 1"
definition BOOT_BREAK_BY_KEY :: nat where "BOOT_BREAK_BY_KEY = 2"

text \<open>The static objects of main.c.\<close>

definition main_thread :: tid where "main_thread = 2"
definition boot_break_event :: nat where "boot_break_event = 0"

definition rt_application_init :: "nat \<Rightarrow> nat \<Rightarrow> kernel \<Rightarrow> kernel" where
  "rt_application_init main_entry main_thread_stack k =
     (let k1 = snd (rt_event_init boot_break_event ''boot break event'' RT_IPC_FLAG_FIFO k);
          k2 = snd (rt_thread_init main_thread ''main_thread'' main_entry 0 main_thread_stack 0x400 12 5 k1)
      in snd (rt_thread_startup main_thread k2))"

definition rtthread_startup :: "(kernel \<Rightarrow> kernel) \<Rightarrow> nat \<Rightarrow> nat \<Rightarrow> nat \<Rightarrow> nat \<Rightarrow> nat \<Rightarrow> nat \<Rightarrow> kernel \<Rightarrow> kernel" where
  "rtthread_startup rt_hw_board_init main_entry main_stack timer_entry timer_stack idle_entry idle_stack k =
     (let k1 = rt_system_timer_init (rt_hw_board_init k);
          k2 = rt_system_scheduler_init k1;
          k3 = rt_application_init main_entry main_stack k2;
          k4 = rt_system_timer_thread_init timer_entry timer_stack k3;
          k5 = rt_thread_idle_init idle_entry idle_stack k4
      in rt_system_scheduler_start k5)"

section \<open>Stopping the automatic boot\<close>

definition boot_break_net_notisfy :: "kernel \<Rightarrow> kernel" where
  "boot_break_net_notisfy k = snd (rt_event_send boot_break_event (push_bit BOOT_BREAK_BY_NET 1) k)"

definition boot_break_uart_notisfy :: "kernel \<Rightarrow> kernel" where
  "boot_break_uart_notisfy k = snd (rt_event_send boot_break_event (push_bit BOOT_BREAK_BY_UART 1) k)"

definition boot_break_key_notisfy :: "kernel \<Rightarrow> kernel" where
  "boot_break_key_notisfy k = snd (rt_event_send boot_break_event (push_bit BOOT_BREAK_BY_KEY 1) k)"

text \<open>The wait of one round, half a second long.\<close>

definition boot_break_recv :: "kernel \<Rightarrow> rt_err_t option \<times> u32 option \<times> kernel" where
  "boot_break_recv k =
     rt_event_recv boot_break_event
       (push_bit BOOT_BREAK_BY_UART 1 OR push_bit BOOT_BREAK_BY_NET 1 OR push_bit BOOT_BREAK_BY_KEY 1)
       (RT_EVENT_FLAG_OR OR RT_EVENT_FLAG_CLEAR) (RT_TICK_PER_SECOND div 2) k"

text \<open>
  The loop of \<open>boot_break\<close> with \<open>delay_count\<close> rounds left: \<open>recved n\<close> is what the wait with \<open>n\<close> rounds left
  stores, if anything.  The result is \<open>break_flag\<close>.
\<close>

primrec boot_break_loop :: "(nat \<Rightarrow> u32 option) \<Rightarrow> nat \<Rightarrow> u32 \<Rightarrow> bool" where
  "boot_break_loop recved 0 flag = False"
| "boot_break_loop recved (Suc delay_count) flag =
     (let flag1 = (case recved delay_count of None \<Rightarrow> flag | Some v \<Rightarrow> v)
      in if flag1 AND push_bit BOOT_BREAK_BY_NET 1 \<noteq> 0 then True
         else if flag1 AND push_bit BOOT_BREAK_BY_UART 1 \<noteq> 0 then True
         else if flag1 AND push_bit BOOT_BREAK_BY_KEY 1 \<noteq> 0 then True
         else boot_break_loop recved delay_count flag1)"

text \<open>The rest of \<open>boot_break\<close> without the console device; \<open>autoboot_linux\<close> returns only if there is nothing to boot.\<close>

definition boot_break :: "(nat \<Rightarrow> u32 option) \<Rightarrow> (kernel \<Rightarrow> kernel) \<Rightarrow> kernel \<Rightarrow> kernel" where
  "boot_break recved autoboot_linux k = (if boot_break_loop recved 5 0 then k else autoboot_linux k)"

section \<open>Before the first thread\<close>

definition cold :: "kernel \<Rightarrow> bool" where
  "cold k \<longleftrightarrow>
     (\<forall>t. thread_stat k t = RT_THREAD_INIT) \<and> (\<forall>h. queue k h = []) \<and> rt_current_thread k = None \<and>
     rt_soft_timer_list k = []"

section \<open>Adding a thread before the scheduler runs\<close>

lemma no_thread_schedule: "rt_current_thread k = None \<Longrightarrow> rt_schedule k = k"
  by (simp add: rt_schedule_def)

lemma object_init_cold:
  assumes "rt_current_thread k = None"
  shows "threads (rt_object_init r ty name k) = threads k" "queue (rt_object_init r ty name k) = queue k"
    "rt_current_thread (rt_object_init r ty name k) = None" "timers (rt_object_init r ty name k) = timers k"
    "rt_timer_list (rt_object_init r ty name k) = rt_timer_list k"
    "rt_soft_timer_list (rt_object_init r ty name k) = rt_soft_timer_list k"
    "thread_stat (rt_object_init r ty name k) = thread_stat k"
  using assms
  by (simp_all add: rt_object_init_def rt_exit_critical_def rt_enter_critical_def no_thread_schedule Let_def
    object_attach_def thread_stat_def fun_eq_iff split: option.split)

lemma add_thread:
  fixes name :: string and en pa ss priority :: nat and sz tick :: u32
  assumes inv: "kinv k" and none: "rt_current_thread k = None" and fr: "thread_fresh t k" and p: "priority < 32"
  defines "k' \<equiv> snd (rt_thread_startup t (snd (rt_thread_init t name en pa ss sz priority tick k)))"
  shows "kinv k'" "rt_current_thread k' = None" "thread_stat k' t = RT_THREAD_READY"
    "current_priority (threads k' t) = priority"
    "u \<noteq> t \<Longrightarrow> thread_stat k' u = thread_stat k u \<and> current_priority (threads k' u) = current_priority (threads k u)"
    "u \<noteq> t \<Longrightarrow> thread_fresh u k \<Longrightarrow> thread_fresh u k'"
    "rt_timer_list k = [] \<Longrightarrow> rt_timer_list k' = []" "rt_soft_timer_list k = [] \<Longrightarrow> rt_soft_timer_list k' = []"
proof -
  define k1 where "k1 = snd (rt_thread_init t name en pa ss sz priority tick k)"
  note i = thread_init_aux [OF inv fr, of name en pa ss sz priority tick, folded k1_def]
  have o: "rt_current_thread k1 = None"
    "u \<noteq> t \<Longrightarrow> threads k1 u = threads k u" "queue k1 = queue k" "rt_timer_list k1 = rt_timer_list k"
    "rt_soft_timer_list k1 = rt_soft_timer_list k" for u
    using none by (simp_all add: k1_def rt_thread_init_def thread_init_fields_def Let_def rt_timer_init_def
      timer_init_fields_def object_init_cold)
  have p1: "init_priority (threads k1 t) < RT_THREAD_PRIORITY_MAX" using i(4) p by (simp add: RT_THREAD_PRIORITY_MAX_def)
  define k3 where "k3 = snd (rt_thread_resume t (upd_thread t (\<lambda>th. th\<lparr>current_priority := init_priority th,
      number_mask := push_bit (init_priority th) 1, stat := RT_THREAD_SUSPEND\<rparr>) k1))"
  note s = startup_aux [OF i(1,2) p1, folded k3_def]
  have k': "k' = k3" using s(2) o(1) by (simp add: k'_def k1_def)
  show "kinv k'" "rt_current_thread k' = None" "thread_stat k' t = RT_THREAD_READY" "current_priority (threads k' t) = priority"
    unfolding k' using s o(1) i(4) by simp_all
  have st: "RT_THREAD_SUSPEND AND RT_THREAD_STAT_MASK = RT_THREAD_SUSPEND" by (simp add: rt_stat_defs)
  have o6: "thread_stat k1 u = thread_stat k u" if "u \<noteq> t" for u using o(2) [OF that] by (simp add: thread_stat_def)
  have oth: "thread_stat k3 u = thread_stat k u" "current_priority (threads k3 u) = current_priority (threads k u)"
    if "u \<noteq> t" for u
    using that st o(2) [OF that] o6 [OF that] by (simp_all add: k3_def rt_thread_resume_def Let_def)
  then show "u \<noteq> t \<Longrightarrow> thread_stat k' u = thread_stat k u \<and> current_priority (threads k' u) = current_priority (threads k u)"
    unfolding k' by simp
  show "u \<noteq> t \<Longrightarrow> thread_fresh u k \<Longrightarrow> thread_fresh u k'"
    unfolding k' thread_fresh_def unqueued_def using oth(1) [of u] st i(2)
    by (auto simp: k3_def rt_thread_resume_def Let_def o rt_schedule_insert_thread_def tlist_remove_def
      tlist_insert_before_def rt_timer_stop_def timer_remove_def upd_thread_def upd_timer_def set_stat_def split: if_splits)
  show "rt_timer_list k = [] \<Longrightarrow> rt_timer_list k' = []" "rt_soft_timer_list k = [] \<Longrightarrow> rt_soft_timer_list k' = []"
    unfolding k' using st by (auto simp: k3_def rt_thread_resume_def Let_def o rt_schedule_insert_thread_def tlist_remove_def
      tlist_insert_before_def rt_timer_stop_def timer_remove_def upd_thread_def upd_timer_def set_stat_def)
qed

section \<open>The state before the first thread\<close>

text \<open>Before the scheduler runs: the threads of \<open>T\<close> are ready, all others fresh.\<close>

definition starting :: "tid set \<Rightarrow> kernel \<Rightarrow> bool" where
  "starting T k \<longleftrightarrow> kinv k \<and> rt_current_thread k = None \<and> rt_timer_list k = [] \<and> rt_soft_timer_list k = [] \<and>
     (\<forall>t \<in> T. thread_stat k t = RT_THREAD_READY) \<and> (\<forall>t. t \<notin> T \<longrightarrow> thread_fresh t k)"

lemma starting_init:
  assumes "cold k"
  shows "starting {} (rt_system_scheduler_init (rt_system_timer_init k))"
proof -
  let ?k = "rt_system_scheduler_init (rt_system_timer_init k)"
  have "sched_inv ?k"
    using assms by (intro scheduler_init_inv) (simp_all add: cold_def rt_system_timer_init_def thread_stat_def)
  moreover have "queue ?k h = []" for h
    using assms by (auto simp: cold_def rt_system_scheduler_init_def rt_system_timer_init_def split: qhead.splits)
  moreover have "thread_stat ?k t = RT_THREAD_INIT" for t
    using assms by (simp add: cold_def rt_system_scheduler_init_def rt_system_timer_init_def thread_stat_def)
  ultimately show ?thesis
    using assms by (simp add: starting_def kinv_def timer_inv_def thread_fresh_def unqueued_def)
      (simp add: cold_def rt_system_scheduler_init_def rt_system_timer_init_def)
qed

lemma starting_event:
  assumes "starting T k" "queue k (EventQ e) = []"
  shows "starting T (snd (rt_event_init e name flag k))"
proof -
  let ?o = "rt_object_init (OEvent e) RT_Object_Class_Event name k"
  let ?k = "snd (rt_event_init e name flag k)"
  have none: "rt_current_thread k = None" using assms(1) by (simp add: starting_def)
  note o = object_init_cold [OF none, of "OEvent e" RT_Object_Class_Event name]
  have "kinv (rt_ipc_object_init (EventQ e) ?o)"
    using assms by (intro object_init_inv_ipc) (simp_all add: starting_def)
  then have "kinv ?k" by (simp add: rt_event_init_def Let_def)
  moreover have "queue ?k = queue k"
    using assms(2) by (auto simp: rt_event_init_def Let_def rt_ipc_object_init_def o upd_event_def fun_eq_iff)
  moreover have "thread_stat ?k = thread_stat k" "rt_current_thread ?k = None" "rt_timer_list ?k = rt_timer_list k"
    "rt_soft_timer_list ?k = rt_soft_timer_list k"
    by (simp_all add: rt_event_init_def Let_def rt_ipc_object_init_def o upd_event_def thread_stat_def fun_eq_iff)
  ultimately show ?thesis
    using assms(1) by (simp add: starting_def thread_fresh_def unqueued_def)
qed

lemma starting_add:
  fixes name :: string and en pa ss priority :: nat and sz tick :: u32
  assumes st: "starting T k" and t: "t \<notin> T" and p: "priority < 32"
  defines "k' \<equiv> snd (rt_thread_startup t (snd (rt_thread_init t name en pa ss sz priority tick k)))"
  shows "starting (insert t T) k'" "current_priority (threads k' t) = priority"
    "u \<noteq> t \<Longrightarrow> current_priority (threads k' u) = current_priority (threads k u)"
proof -
  have k: "kinv k" "rt_current_thread k = None" "thread_fresh t k" using st t by (simp_all add: starting_def)
  note a = add_thread [OF k p, where name = name and en = en and pa = pa and ss = ss and sz = sz and tick = tick, folded k'_def]
  show "current_priority (threads k' t) = priority" by (rule a(4))
  show "u \<noteq> t \<Longrightarrow> current_priority (threads k' u) = current_priority (threads k u)" using a(5) by blast
  show "starting (insert t T) k'"
    unfolding starting_def
  proof (intro conjI ballI allI impI)
    show "thread_stat k' u = RT_THREAD_READY" if "u \<in> insert t T" for u
      using a(3) a(5) [of u] that st by (cases "u = t") (auto simp: starting_def)
    show "thread_fresh u k'" if "u \<notin> insert t T" for u
      using a(6) [of u] that st by (auto simp: starting_def)
  qed (use a st in \<open>auto simp: starting_def\<close>)
qed

section \<open>Properties\<close>

text \<open>
  C21: The start of the kernel.  From a kernel without threads \<open>rtthread_startup\<close> reaches a state in which the
  kernel invariant holds, the timer thread runs, the main thread and the idle thread are the only ready threads,
  each alone on the queue of its priority, and nobody waits for the event that stops the automatic boot.
\<close>

theorem rtthread_startup_runs:
  assumes "cold (rt_hw_board_init k)"
  shows "let k' = rtthread_startup rt_hw_board_init me ms te ts ie is k in
    kinv k' \<and> rt_current_thread k' = Some timer_thread \<and> thread_stat k' timer_thread = RT_THREAD_RUNNING \<and>
    queue k' (ReadyQ 12) = [main_thread] \<and> queue k' (ReadyQ 31) = [idle_thread] \<and>
    (\<forall>t. thread_stat k' t = RT_THREAD_READY \<longrightarrow> t \<in> {main_thread, idle_thread}) \<and>
    queue k' (EventQ boot_break_event) = []"
proof -
  note ids = main_thread_def timer_thread_def idle_thread_def
  define k2 where "k2 = rt_system_scheduler_init (rt_system_timer_init (rt_hw_board_init k))"
  have s2: "starting {} k2" unfolding k2_def by (rule starting_init [OF assms])
  have q2: "queue k2 (EventQ boot_break_event) = []"
    using assms by (simp add: k2_def cold_def rt_system_scheduler_init_def rt_system_timer_init_def)
  define k3 where "k3 = rt_application_init me ms k2"
  have s3: "starting {main_thread} k3" "current_priority (threads k3 main_thread) = 12"
    unfolding k3_def rt_application_init_def Let_def
    by (rule starting_add [OF starting_event [OF s2 q2]]; simp)+
  have soft: "k3\<lparr>rt_soft_timer_list := []\<rparr> = k3" using s3(1) by (simp add: starting_def)
  define k4 where "k4 = rt_system_timer_thread_init te ts k3"
  have tn: "timer_thread \<notin> {main_thread}" by (simp add: ids)
  note a4 = starting_add [OF s3(1) tn, where priority = 4 and name = "''timer''" and en = te and pa = 0 and ss = ts and
      sz = 512 and tick = 10]
  have s4: "starting {timer_thread, main_thread} k4" "current_priority (threads k4 timer_thread) = 4"
    "current_priority (threads k4 main_thread) = 12"
    unfolding k4_def rt_system_timer_thread_init_def Let_def soft
    using a4(1,2) a4(3) [of main_thread] s3(2) by (simp_all add: ids)
  define k5 where "k5 = rt_thread_idle_init ie is k4"
  have inn: "idle_thread \<notin> {timer_thread, main_thread}" by (simp add: ids)
  note a5 = starting_add [OF s4(1) inn, where priority = 31 and name = "''tidle0''" and en = ie and pa = 0 and ss = "is" and
      sz = 1024 and tick = 32]
  have s5: "starting {idle_thread, timer_thread, main_thread} k5" "current_priority (threads k5 idle_thread) = 31"
    "current_priority (threads k5 timer_thread) = 4" "current_priority (threads k5 main_thread) = 12"
    unfolding k5_def rt_thread_idle_init_def RT_THREAD_PRIORITY_MAX_def
    using a5(1,2) a5(3) [of main_thread] a5(3) [of timer_thread] s4(2,3) by (simp_all add: ids)
  have st5: "thread_stat k5 t = RT_THREAD_READY \<longleftrightarrow> t \<in> {idle_thread, timer_thread, main_thread}" for t
    using s5(1) by (auto simp: starting_def thread_fresh_def)
  define k' where "k' = rt_system_scheduler_start k5"
  have k5: "sched_inv k5" "rt_current_thread k5 = None" using s5(1) by (auto simp: starting_def)
  have "thread_stat k5 main_thread = RT_THREAD_READY" by (simp add: st5)
  note sch = scheduler_start_aux [OF k5 this, folded k'_def]
  obtain run where run: "rt_current_thread k' = Some run" "thread_stat k' run = RT_THREAD_RUNNING"
    "thread_stat k5 run = RT_THREAD_READY" "current_priority (threads k5 run) \<le> 4"
    "\<And>t. t \<noteq> run \<Longrightarrow> thread_stat k' t = thread_stat k5 t" "\<And>t. current_priority (threads k' t) = current_priority (threads k5 t)"
    using sch(2) st5 [of timer_thread] s5(3) by auto
  have r: "run = timer_thread" using run(3,4) s5(2-4) by (auto simp: st5)
  have lists: "rt_timer_list k' = []" "rt_soft_timer_list k' = []"
    using s5(1) by (auto simp: starting_def k'_def rt_system_scheduler_start_def Let_def)
  then have inv: "kinv k'" using sch(1) by (simp add: kinv_def timer_inv_def)
  have st': "thread_stat k' t = RT_THREAD_READY \<longleftrightarrow> t \<in> {idle_thread, main_thread}" for t
    using run(2,5) st5 [of t] r by (cases "t = run") (auto simp: ids)
  have single: "queue k' (ReadyQ p) = [t]" if "\<And>u. thread_stat k' u = RT_THREAD_READY \<and> current_priority (threads k' u) = p \<longleftrightarrow> u = t" for p t
  proof -
    have "set (queue k' (ReadyQ p)) = {t}" using ready_iff [OF sch(1)] that by auto
    moreover have "distinct (queue k' (ReadyQ p))" using sched_invD(2) [OF sch(1)] by (simp add: queues_ok_def)
    ultimately show ?thesis by (cases "queue k' (ReadyQ p)"; cases "tl (queue k' (ReadyQ p))") auto
  qed
  have "queue k' (ReadyQ 12) = [main_thread]" "queue k' (ReadyQ 31) = [idle_thread]"
    by (rule single, use st' run(6) s5(2,4) in \<open>auto simp: ids\<close>)+
  moreover have "queue k' (EventQ boot_break_event) = []"
  proof -
    have "thread_stat k' t \<noteq> RT_THREAD_SUSPEND" for t
      using st' [of t] run(2) run(5) [of t] st5 [of t] s5(1) r by (cases "t = run") (auto simp: starting_def thread_fresh_def)
    then show ?thesis using waiting_suspended [OF inv, of "EventQ boot_break_event"] by (cases "queue k' (EventQ boot_break_event)") auto
  qed
  moreover have "rtthread_startup rt_hw_board_init me ms te ts ie is k = k'"
    by (simp add: rtthread_startup_def Let_def k'_def k5_def k4_def k3_def k2_def)
  ultimately show ?thesis using inv run(1,2) r st' by (auto simp: Let_def)
qed

theorem rtthread_startup_runs_witness:
  "\<forall>h. rt_current_thread (rtthread_startup (\<lambda>k. fst (rt_system_heap_init 0x81000000 0x81100000 k h)) 0 0 0 0 0 0 kernel_zero) =
     Some timer_thread"
proof
  fix h
  let ?b = "\<lambda>k. fst (rt_system_heap_init 0x81000000 0x81100000 k h)"
  have none: "rt_current_thread kernel_zero = None" by (simp add: kernel_zero_def)
  have "cold (?b kernel_zero)"
    unfolding cold_def rt_system_heap_init_def Let_def
    by (simp add: rt_sem_init_def Let_def rt_ipc_object_init_def upd_sem_def object_init_cold [OF none] thread_stat_def)
      (simp add: kernel_zero_def thread_zero_def rt_stat_defs)
  from rtthread_startup_runs [where rt_hw_board_init = ?b, OF this]
  show "rt_current_thread (rtthread_startup ?b 0 0 0 0 0 0 kernel_zero) = Some timer_thread" by (simp add: Let_def)
qed

section \<open>The break event\<close>

lemma break_bits:
  "(v :: u32) AND 7 = 0 \<longleftrightarrow> v AND push_bit BOOT_BREAK_BY_NET 1 = 0 \<and> v AND push_bit BOOT_BREAK_BY_UART 1 = 0 \<and>
     v AND push_bit BOOT_BREAK_BY_KEY 1 = 0"
proof -
  have "(7 :: u32) = push_bit 1 1 OR push_bit 0 1 OR push_bit 2 1" by simp
  then have "v AND 7 = (v AND push_bit 1 1) OR (v AND push_bit 0 1) OR (v AND push_bit 2 1)" by (simp only: and.commute bit.conj_disj_distrib)
  then show ?thesis
    by (simp only: or_eq_0_iff BOOT_BREAK_BY_NET_def BOOT_BREAK_BY_UART_def BOOT_BREAK_BY_KEY_def)
qed

lemma boot_break_loop_iff:
  "flag AND 7 = 0 \<Longrightarrow> boot_break_loop recved n flag \<longleftrightarrow> (\<exists>i < n. \<exists>v. recved i = Some v \<and> v AND 7 \<noteq> 0)"
proof (induction n arbitrary: flag)
  case (Suc n)
  define flag1 where "flag1 = (case recved n of None \<Rightarrow> flag | Some v \<Rightarrow> v)"
  have "boot_break_loop recved (Suc n) flag \<longleftrightarrow> flag1 AND 7 \<noteq> 0 \<or> boot_break_loop recved n flag1"
    by (auto simp: Let_def flag1_def [symmetric] break_bits)
  moreover have "flag1 AND 7 \<noteq> 0 \<longleftrightarrow> (\<exists>v. recved n = Some v \<and> v AND 7 \<noteq> 0)"
    using Suc.prems by (auto simp: flag1_def split: option.splits)
  ultimately show ?case using Suc.IH [of flag1] by (auto simp: less_Suc_eq)
qed simp

lemma boot_break_wakes:
  assumes inv: "kinv k" and cur: "rt_current_thread k = Some t" and run: "thread_stat k t = RT_THREAD_RUNNING"
    and tm: "thread_timed k t" and flag: "event_flag (events k boot_break_event) = RT_IPC_FLAG_FIFO"
    and bits: "event_bits (events k boot_break_event) = 0" and q: "queue k (EventQ boot_break_event) = []"
    and i: "i \<le> 2"
  defines "k1 \<equiv> snd (snd (boot_break_recv k))"
  defines "k2 \<equiv> snd (rt_event_send boot_break_event (push_bit i 1) k1)"
  shows "fst (boot_break_recv k) = None" "thread_stat k1 t = RT_THREAD_SUSPEND" "kinv k2"
    "thread_stat k2 t \<in> {RT_THREAD_READY, RT_THREAD_RUNNING}"
    "rt_event_recv_wake t k2 = (RT_EOK, Some (push_bit i 1))"
proof -
  let ?e = boot_break_event
  have want: "push_bit BOOT_BREAK_BY_UART 1 OR push_bit BOOT_BREAK_BY_NET 1 OR push_bit BOOT_BREAK_BY_KEY 1 = (7 :: u32)"
    by (simp add: BOOT_BREAK_BY_NET_def BOOT_BREAK_BY_UART_def BOOT_BREAK_BY_KEY_def)
  have opt: "RT_EVENT_FLAG_OR OR RT_EVENT_FLAG_CLEAR = 6" by (simp add: RT_EVENT_FLAG_OR_def RT_EVENT_FLAG_CLEAR_def)
  define k0 where "k0 = upd_thread t (\<lambda>th. th\<lparr>event_set := 7, event_info := 6\<rparr>) (upd_thread t (\<lambda>th. th\<lparr>thread_error := RT_EOK\<rparr>) k)"
  note u = upd_error_aux [OF inv run tm, of RT_EOK]
  have k0: "kinv k0" "thread_stat k0 t = RT_THREAD_RUNNING" "thread_timed k0 t"
    using u(1-3) by (simp_all add: k0_def kinv_upd_thread thread_stat_def thread_timed_def)
  have ev0: "events k0 = events k" "queue k0 = queue k" by (simp_all add: k0_def upd_thread_def)
  have fl: "event_flag (events k0 ?e) \<in> {RT_IPC_FLAG_FIFO, RT_IPC_FLAG_PRIO}" using flag by (simp add: ev0)
  have r: "boot_break_recv k = (None, None, rt_schedule (ipc_wait (EventQ ?e) t (event_flag (events k0 ?e)) (RT_TICK_PER_SECOND div 2) k0))"
    using cur bits unfolding boot_break_recv_def want opt
    by (simp add: rt_event_recv_def rt_thread_self_def Let_def event_match_def RT_EVENT_FLAG_AND_def RT_TICK_PER_SECOND_def
      k0_def upd_thread_def)
  then show "fst (boot_break_recv k) = None" by simp
  have k1: "k1 = rt_schedule (ipc_wait (EventQ ?e) t (event_flag (events k0 ?e)) (RT_TICK_PER_SECOND div 2) k0)" by (simp add: k1_def r)
  note b = block_aux [where h = "EventQ ?e" and time = "RT_TICK_PER_SECOND div 2", OF k0 wait_queue_simps(3) fl, folded k1]
  show "thread_stat k1 t = RT_THREAD_SUSPEND" by (rule b(2))
  have q1: "queue k1 (EventQ ?e) = [t]" using b(4) flag by (simp add: ev0 q ipc_order_def)
  have th1: "event_set (threads k1 t) = 7" "event_info (threads k1 t) = 6" "thread_error (threads k1 t) = RT_EOK"
  proof -
    have "event_set (threads k1 t) = event_set (threads k0 t)" "event_info (threads k1 t) = event_info (threads k0 t)"
      by (simp_all add: k1 ipc_wait_alt [OF k0(3)] Let_def list_suspend_alt)
    moreover have "event_set (threads k0 t) = 7" "event_info (threads k0 t) = 6" "thread_error (threads k0 t) = RT_EOK"
      by (simp_all add: k0_def)
    ultimately show "event_set (threads k1 t) = 7" "event_info (threads k1 t) = 6" "thread_error (threads k1 t) = RT_EOK"
      using b(6) [of t] by simp_all
  qed
  have ev1: "event_bits (events k1 ?e) = 0" using ipc_ofD(3) [OF b(3)] bits by (simp add: ev0)
  define k3 where "k3 = upd_event ?e (\<lambda>x. x\<lparr>event_bits := event_bits x OR push_bit i 1\<rparr>) k1"
  have i7: "7 AND push_bit i 1 = (push_bit i 1 :: u32)" "push_bit i 1 \<noteq> (0 :: u32)"
  proof -
    have "i \<in> {0, 1, 2}" using i by auto
    then show "7 AND push_bit i 1 = (push_bit i 1 :: u32)" "push_bit i 1 \<noteq> (0 :: u32)" by auto
  qed
  have k3: "kinv k3" "queue k3 = queue k1" "threads k3 = threads k1" "event_bits (events k3 ?e) = push_bit i 1"
    using b(1) by (simp_all add: k3_def ev1)
  have q3: "t \<in> set (queue k3 (EventQ ?e))" by (simp add: k3(2) q1)
  note one = event_one_spec [OF k3(1) q3]
  obtain w k4 where w: "event_send_one ?e t k3 = (w, k4)" by fastforce
  have m: "event_match 6 7 (push_bit i 1)"
    using i7 by (simp add: event_match_def RT_EVENT_FLAG_AND_def RT_EVENT_FLAG_OR_def)
  have wt: "w" using one(1) m by (simp add: w k3 th1 event_match_spec)
  have k2: "k2 = rt_schedule k4"
    using i7(2) wt unfolding k2_def rt_event_send_def Let_def k3_def [symmetric]
    by (simp add: q1 k3(2) w)
  have inv4: "kinv k4" using one(3) by (simp add: w)
  show "kinv k2" unfolding k2 by (rule kinv_schedule [OF inv4])
  have st4: "thread_stat k4 t \<in> {RT_THREAD_READY, RT_THREAD_RUNNING}" using one(9) wt by (simp add: w)
  show "thread_stat k2 t \<in> {RT_THREAD_READY, RT_THREAD_RUNNING}"
    unfolding k2 by (rule rt_schedule_other(3) [OF kinvD(1) [OF inv4] st4])
  have "thread_error (threads k4 t) = RT_EOK" using one(7) [of t] by (simp add: w k3 th1)
  moreover have "event_set (threads k4 t) = push_bit i 1"
    using w m i7(1) by (auto simp: event_send_one_def Let_def k3 th1 RT_EVENT_FLAG_AND_def)
  ultimately
  show "rt_event_recv_wake t k2 = (RT_EOK, Some (push_bit i 1))"
    unfolding k2 by (simp add: rt_event_recv_wake_def)
qed

text \<open>
  C22: A break stops the automatic boot.  When the main thread waits in \<open>boot_break\<close> for the event, a
  notification from the network, the console or the key makes it ready, its wait returns the bit of the
  notification, and in whichever of the five rounds that happens \<open>autoboot_linux\<close> is not called; without any
  notification it is.
\<close>

theorem boot_break_stops_autoboot:
  assumes "kinv k" "rt_current_thread k = Some t" "thread_stat k t = RT_THREAD_RUNNING" "thread_timed k t"
    and "event_flag (events k boot_break_event) = RT_IPC_FLAG_FIFO" "event_bits (events k boot_break_event) = 0"
    and "queue k (EventQ boot_break_event) = []"
    and "notify \<in> {boot_break_net_notisfy, boot_break_uart_notisfy, boot_break_key_notisfy}"
  shows "let k1 = snd (snd (boot_break_recv k)); k2 = notify k1 in
    fst (boot_break_recv k) = None \<and> thread_stat k1 t = RT_THREAD_SUSPEND \<and>
    kinv k2 \<and> thread_stat k2 t \<in> {RT_THREAD_READY, RT_THREAD_RUNNING} \<and> fst (rt_event_recv_wake t k2) = RT_EOK \<and>
    (\<forall>n < 5. \<forall>recved. recved n = snd (rt_event_recv_wake t k2) \<longrightarrow> boot_break recved autoboot_linux k3 = k3) \<and>
    boot_break (\<lambda>_. None) autoboot_linux k3 = autoboot_linux k3"
proof -
  obtain i where i: "i \<le> 2" "notify = (\<lambda>k. snd (rt_event_send boot_break_event (push_bit i 1) k))"
    using assms(8) that [of 0] that [of 1] that [of 2]
    by (auto simp: boot_break_net_notisfy_def boot_break_uart_notisfy_def boot_break_key_notisfy_def fun_eq_iff
      BOOT_BREAK_BY_NET_def BOOT_BREAK_BY_UART_def BOOT_BREAK_BY_KEY_def)
  note w = boot_break_wakes [OF assms(1-7) i(1)]
  have "i \<in> {0, 1, 2}" using i(1) by auto
  then have "push_bit i 1 AND 7 \<noteq> (0 :: u32)" by auto
  then have "boot_break_loop recved 5 0" if "n < 5" "recved n = Some (push_bit i 1)" for n recved
    using boot_break_loop_iff [of 0 recved 5] that by auto
  moreover have "\<not> boot_break_loop (\<lambda>_. None) 5 0" using boot_break_loop_iff [of 0 "\<lambda>_. None" 5] by simp
  ultimately show ?thesis using w unfolding i(2) by (simp add: Let_def boot_break_def)
qed

theorem boot_break_stops_autoboot_witness:
  "fst (rt_event_recv_wake 2 (boot_break_key_notisfy (snd (snd (boot_break_recv three_timed))))) = RT_EOK"
proof -
  have "event_flag (events three_timed boot_break_event) = RT_IPC_FLAG_FIFO" "event_bits (events three_timed boot_break_event) = 0"
    "queue three_timed (EventQ boot_break_event) = []"
    by (simp_all add: three_timed_def three_threads_def kernel_zero_def RT_IPC_FLAG_FIFO_def)
  moreover have "rt_current_thread three_timed = Some 2" "thread_stat three_timed 2 = RT_THREAD_RUNNING"
    by (simp_all add: three_timed_def three_threads_def thread_stat_def rt_stat_defs)
  ultimately show ?thesis
    using boot_break_stops_autoboot [of three_timed 2 boot_break_key_notisfy] three_timed_ipc(1,2) by (simp add: Let_def)
qed

end
