(* ===== verification/BootData.thy ===== *)
theory BootData
  imports KService
begin

text \<open>
  The boot data and the partition of the memory: \<open>rtboot_data\<close> of common/global/global.c, the
  caches of arch/mips/cache/cache.c and \<open>arch_early_init\<close> of arch/mips/init/init.c.  The boot
  data are words of memory, as in the source; the symbols of the linker script are the fields
  of \<open>link\<close>.  A cache instruction is recorded with its code and its address; the register
  \<open>config1\<close> of the coprocessor is an argument.
\<close>

section \<open>The boot data\<close>

record link =
  CFG_MONITOR_BASE :: u32
  rtboot_data_end :: u32
  rtboot_end :: u32
  got_start :: u32
  got_end :: u32
  rel_table_start :: u32
  rtboot_data :: u32
  sizeof_system_boot_data :: nat
  system_late_init :: u32

datatype boot_field =
  System_memstart | System_memsize | System_memend | Boot_param_pointer | Rtboot_length
| Relocation_ebase | Malloc_start_base | Malloc_end_base | Relocation_base
| Start_stack_base | End_stack_base | Old_gp | New_gp | Relocation_offset | Cp0_config1_raw
  | Icache_sets_per_way_raw | Icache_line_size_raw | Icache_line_size
| Icache_associativity_level_raw | Icache_associativity_level | Icache_size
| Dcache_sets_per_way_raw | Dcache_line_size_raw | Dcache_line_size
| Dcache_associativity_level_raw | Dcache_associativity_level | Dcache_size

text \<open>The place of a field of \<open>system_boot_data\<close> in words.\<close>

fun field_index :: "boot_field \<Rightarrow> nat" where
  "field_index System_memstart = 0"
| "field_index System_memsize = 1"
| "field_index System_memend = 2"
| "field_index Boot_param_pointer = 3"
| "field_index Rtboot_length = 4"
| "field_index Relocation_ebase = 5"
| "field_index Malloc_start_base = 6"
| "field_index Malloc_end_base = 7"
| "field_index Relocation_base = 8"
| "field_index Start_stack_base = 9"
| "field_index End_stack_base = 10"
| "field_index Old_gp = 11"
| "field_index New_gp = 12"
| "field_index Relocation_offset = 13"
| "field_index Cp0_config1_raw = 14"
| "field_index Icache_sets_per_way_raw = 15"
| "field_index Icache_line_size_raw = 16"
| "field_index Icache_line_size = 17"
| "field_index Icache_associativity_level_raw = 18"
| "field_index Icache_associativity_level = 19"
| "field_index Icache_size = 20"
| "field_index Dcache_sets_per_way_raw = 21"
| "field_index Dcache_line_size_raw = 22"
| "field_index Dcache_line_size = 23"
| "field_index Dcache_associativity_level_raw = 24"
| "field_index Dcache_associativity_level = 25"
| "field_index Dcache_size = 26"

definition field_addr :: "link \<Rightarrow> boot_field \<Rightarrow> nat" where
  "field_addr l f = unat (rtboot_data l) + 4 * field_index f"

definition get_field :: "link \<Rightarrow> boot_field \<Rightarrow> memory \<Rightarrow> u32" where
  "get_field l f m = load_word (field_addr l f) m"

definition set_field :: "link \<Rightarrow> boot_field \<Rightarrow> u32 \<Rightarrow> memory \<Rightarrow> memory" where
  "set_field l f v m = store_word (field_addr l f) v m"

section \<open>Caches\<close>

text \<open>The fields of one cache from the bits of \<open>config1\<close>.\<close>

definition cache_info ::
  "link \<Rightarrow> boot_field \<Rightarrow> boot_field \<Rightarrow> boot_field \<Rightarrow> boot_field \<Rightarrow> boot_field \<Rightarrow> boot_field \<Rightarrow>
   nat \<Rightarrow> nat \<Rightarrow> nat \<Rightarrow> memory \<Rightarrow> memory" where
  "cache_info l sets_raw line_raw assoc_raw line assoc sz sets_shift line_shift assoc_shift m =
     (let raw = get_field l Cp0_config1_raw m;
          m1 = set_field l sets_raw (drop_bit sets_shift raw AND 7) m;
          m2 = set_field l line_raw (drop_bit line_shift raw AND 7) m1
      in if get_field l line_raw m2 \<noteq> 0
         then
           let m3 = set_field l assoc_raw (drop_bit assoc_shift raw AND 7) m2;
               m4 = set_field l line (push_bit (unat (get_field l line_raw m3) mod 32) 2) m3;
               m5 = set_field l assoc (get_field l assoc_raw m4 + 1) m4
           in if get_field l sets_raw m5 \<noteq> 7
              then set_field l sz
                     (push_bit (unat (get_field l sets_raw m5) mod 8) 64 * get_field l line m5 * get_field l assoc m5) m5
              else set_field l sz (32 * get_field l line m5 * get_field l assoc m5) m5
         else set_field l sz 0 (set_field l assoc 0 (set_field l line 0 (set_field l assoc_raw 0 m2))))"

definition arch_cache_init :: "link \<Rightarrow> u32 \<Rightarrow> memory \<Rightarrow> memory" where
  "arch_cache_init l config1 m =
     (let m1 = set_field l Cp0_config1_raw config1 m;
          m2 = cache_info l Icache_sets_per_way_raw Icache_line_size_raw Icache_associativity_level_raw
                 Icache_line_size Icache_associativity_level Icache_size 22 19 16 m1
      in cache_info l Dcache_sets_per_way_raw Dcache_line_size_raw Dcache_associativity_level_raw
           Dcache_line_size Dcache_associativity_level Dcache_size 13 10 7 m2)"

text \<open>The loop over the lines from \<open>temp_addr\<close> on; with a line size of 0 it does not end.\<close>

partial_function (option) cache_loop :: "u32 \<Rightarrow> u32 \<Rightarrow> u32 \<Rightarrow> u32 list option" where
  "cache_loop line temp_addr end_addr =
     (if temp_addr < end_addr
      then Option.bind (cache_loop line (temp_addr + line) end_addr) (\<lambda>as. Some (temp_addr # as))
      else Some [])"

definition cache_lines :: "u32 \<Rightarrow> u32 \<Rightarrow> u32 \<Rightarrow> u32 list option" where
  "cache_lines line start_addr sz =
     (let temp_addr = start_addr AND NOT (line - 1);
          size1 = (sz + line - 1) AND NOT (line - 1)
      in cache_loop line temp_addr (temp_addr + size1))"

type_synonym cache_ops = "(nat \<times> u32) list"

definition arch_dcache_flush :: "link \<Rightarrow> u32 \<Rightarrow> u32 \<Rightarrow> memory \<Rightarrow> cache_ops option" where
  "arch_dcache_flush l start_addr sz m =
     (if get_field l Dcache_size m \<noteq> 0
      then map_option (map (\<lambda>a. (0x15, a))) (cache_lines (get_field l Dcache_line_size m) start_addr sz)
      else Some [])"

definition arch_dcache_invalidate :: "link \<Rightarrow> u32 \<Rightarrow> u32 \<Rightarrow> memory \<Rightarrow> cache_ops option" where
  "arch_dcache_invalidate l start_addr sz m =
     (if get_field l Dcache_size m \<noteq> 0
      then map_option (map (\<lambda>a. (0x11, a))) (cache_lines (get_field l Dcache_line_size m) start_addr sz)
      else Some [])"

definition arch_icache_flush :: "link \<Rightarrow> u32 \<Rightarrow> u32 \<Rightarrow> memory \<Rightarrow> cache_ops option" where
  "arch_icache_flush l start_addr sz m =
     (if get_field l Icache_size m \<noteq> 0
      then map_option (map (\<lambda>a. (0x10, a))) (cache_lines (get_field l Icache_line_size m) start_addr sz)
      else Some [])"

definition arch_cache_flush :: "link \<Rightarrow> u32 \<Rightarrow> u32 \<Rightarrow> memory \<Rightarrow> cache_ops option" where
  "arch_cache_flush l start_addr sz m =
     (if get_field l Icache_size m \<noteq> 0 \<and> get_field l Dcache_size m \<noteq> 0
      then if get_field l Icache_line_size m = get_field l Dcache_line_size m
           then map_option (\<lambda>as. concat (map (\<lambda>a. [(0x15, a), (0x10, a)]) as))
                  (cache_lines (get_field l Icache_line_size m) start_addr sz)
           else (case arch_dcache_flush l start_addr sz m of
                   None \<Rightarrow> None
                 | Some ds \<Rightarrow> map_option ((@) ds) (arch_icache_flush l start_addr sz m))
      else Some [])"

section \<open>The partition of the memory\<close>

definition CFG_SDRAM_BASE :: u32 where "CFG_SDRAM_BASE = 0x80000000"
definition TOTAL_MALLOC_LEN :: u32 where "TOTAL_MALLOC_LEN = 1024 * 1024"
definition CFG_BOOTPARAMS_LEN :: u32 where "CFG_BOOTPARAMS_LEN = 512 * 1024"

text \<open>\<open>field op= value\<close> on the boot data.\<close>

definition upd_field :: "link \<Rightarrow> boot_field \<Rightarrow> (u32 \<Rightarrow> u32) \<Rightarrow> memory \<Rightarrow> memory" where
  "upd_field l f g m = set_field l f (g (get_field l f m)) m"

definition part_image :: "link \<Rightarrow> memory \<Rightarrow> memory" where
  "part_image l m =
     (let m1 = set_field l System_memstart CFG_SDRAM_BASE m;
          m2 = set_field l System_memend (CFG_SDRAM_BASE + get_field l System_memsize m1) m1;
          m3 = set_field l Rtboot_length (rtboot_end l - CFG_MONITOR_BASE l) m2;
          m4 = set_field l Relocation_base (get_field l System_memend m3) m3;
          m5 = upd_field l Relocation_base (\<lambda>a. a AND NOT (4096 - 1)) m4;
          m6 = upd_field l Relocation_base (\<lambda>a. a - get_field l Rtboot_length m5) m5
      in upd_field l Relocation_base (\<lambda>a. a AND NOT (16 * 1024 - 1)) m6)"

definition part_malloc :: "link \<Rightarrow> memory \<Rightarrow> memory" where
  "part_malloc l m =
     (let m1 = set_field l Start_stack_base (get_field l Relocation_base m - 0x1000) m;
          m2 = upd_field l Start_stack_base (\<lambda>a. a AND NOT (4096 - 1)) m1;
          m3 = set_field l Relocation_ebase (get_field l Start_stack_base m2) m2;
          m4 = set_field l Malloc_end_base (get_field l Start_stack_base m3 - 4) m3;
          m5 = upd_field l Start_stack_base (\<lambda>a. a - TOTAL_MALLOC_LEN) m4;
          m6 = upd_field l Start_stack_base (\<lambda>a. a AND NOT (4096 - 1)) m5
      in set_field l Malloc_start_base (get_field l Start_stack_base m6) m6)"

definition part_stack :: "link \<Rightarrow> memory \<Rightarrow> memory" where
  "part_stack l m =
     (let m1 = upd_field l Start_stack_base (\<lambda>a. a - CFG_BOOTPARAMS_LEN) m;
          m2 = set_field l Boot_param_pointer (get_field l Start_stack_base m1) m1;
          m3 = upd_field l Start_stack_base (\<lambda>a. a - 0x10) m2;
          m4 = upd_field l Start_stack_base (\<lambda>a. a AND NOT 0xF) m3;
          m5 = upd_field l Start_stack_base (\<lambda>a. a - 8) m4;
          m6 = rt_memset (unat (get_field l Start_stack_base m5)) 0 8 m5;
          m7 = set_field l End_stack_base (get_field l Start_stack_base m6 - 0x4000) m6
      in upd_field l End_stack_base (\<lambda>a. a AND NOT (4096 - 1)) m7)"

definition arch_early_init :: "link \<Rightarrow> u32 \<Rightarrow> memory \<Rightarrow> memory" where
  "arch_early_init l config1 m = arch_cache_init l config1 (part_stack l (part_malloc l (part_image l m)))"

section \<open>Words of memory\<close>

lemma load_store_same [simp]: "load_word a (store_word a v m) = v"
proof (rule bit_word_eqI)
  fix n assume "n < LENGTH(32)"
  then consider "n < 8" | "8 \<le> n" "n < 16" | "16 \<le> n" "n < 24" | "24 \<le> n" "n < 32" by fastforce
  then show "bit (load_word a (store_word a v m)) n = bit v n"
    by cases (auto simp: load_word_def store_word_def bit_simps)
qed

lemma store_word_other [simp]: "x < a \<or> a + 4 \<le> x \<Longrightarrow> store_word a v m x = m x"
  by (auto simp: store_word_def)

lemma load_word_cong: "(\<And>x. a \<le> x \<Longrightarrow> x < a + 4 \<Longrightarrow> m' x = m x) \<Longrightarrow> load_word a m' = load_word a m"
  by (simp add: load_word_def)

lemma load_store_other [simp]: "a + 4 \<le> b \<or> b + 4 \<le> a \<Longrightarrow> load_word b (store_word a v m) = load_word b m"
  by (rule load_word_cong) auto

section \<open>Fields\<close>

lemma field_addr_bounds: "unat (rtboot_data l) \<le> field_addr l f" "field_addr l f + 4 \<le> unat (rtboot_data l) + 108"
  by (cases f; simp add: field_addr_def)+

lemma field_index_inj: "field_index f = field_index g \<longleftrightarrow> f = g"
  by (cases f; cases g; simp)

lemma get_set_field: "get_field l f (set_field l g v m) = (if f = g then v else get_field l f m)"
proof (cases "f = g")
  case False
  then have "field_index f \<noteq> field_index g" by (simp add: field_index_inj)
  then have "field_index f < field_index g \<or> field_index g < field_index f" by linarith
  with False show ?thesis by (auto simp: get_field_def set_field_def field_addr_def)
qed (simp add: get_field_def set_field_def)

lemma set_field_other:
  "x < unat (rtboot_data l) \<or> unat (rtboot_data l) + 108 \<le> x \<Longrightarrow> set_field l f v m x = m x"
  using field_addr_bounds [of l f] by (auto simp: set_field_def)

section \<open>Rounding\<close>

lemma unat_align_down:
  assumes "n < 32"
  shows "unat (x AND NOT (2 ^ n - 1) :: u32) = unat x div 2 ^ n * 2 ^ n"
proof -
  have "x AND NOT (2 ^ n - 1) = push_bit n (drop_bit n x)"
    by (rule bit_word_eqI) (auto simp: bit_simps simp flip: mask_eq_exp_minus_1)
  also have "\<dots> = x - x mod 2 ^ n"
    by (simp add: push_bit_eq_mult drop_bit_eq_div minus_mod_eq_mult_div mult.commute)
  finally have e: "x AND NOT (2 ^ n - 1) = x - x mod 2 ^ n" .
  have p: "unat ((2 :: u32) ^ n) = 2 ^ n" 
  proof -
    have "unat (of_nat (2 ^ n) :: u32) = 2 ^ n mod 2 ^ 32" by (simp only: unat_of_nat) simp
    also have "\<dots> = 2 ^ n" using assms power_strict_increasing [of n 32 "2 :: nat"] by (intro mod_less) simp
    finally show ?thesis by simp
  qed
  have "unat (x - x mod 2 ^ n) = unat x - unat (x mod 2 ^ n)"
    by (rule unat_sub) (simp add: word_le_nat_alt unat_mod)
  then show ?thesis unfolding e unat_mod p by (simp add: minus_mod_eq_mult_div mult.commute)
qed

section \<open>Cache lines\<close>

lemma cache_loop_lines:
  "unat temp + c * unat line < 2 ^ 32 \<Longrightarrow> line \<noteq> 0 \<Longrightarrow>
   cache_loop line temp (temp + of_nat c * line) = Some (map (\<lambda>i. temp + of_nat i * line) [0..<c])"
proof (induction c arbitrary: temp)
  case 0
  then show ?case by (subst cache_loop.simps) simp
next
  case (Suc c)
  have l: "0 < unat line" using Suc.prems(2) by (simp add: unat_gt_0)
  have u: "unat (temp + line) = unat temp + unat line"
    using Suc.prems(1) by (simp add: unat_word_ariths)
  have lt: "Suc c * unat line < 2 ^ 32" using Suc.prems(1) by linarith
  have "Suc c * 1 \<le> Suc c * unat line" using l by (intro mult_le_mono2) simp
  from le_less_trans [OF this lt] have "Suc c < 2 ^ 32" by simp
  then have "unat (of_nat (Suc c) :: u32) = Suc c" by (simp only: unat_of_nat) simp
  with lt have c: "unat (of_nat (Suc c) * line) = Suc c * unat line"
    by (simp only: unat_word_ariths(2)) simp
  then have "unat (temp + of_nat (Suc c) * line) = unat temp + Suc c * unat line"
    using Suc.prems(1) by (simp only: unat_word_ariths(1)) simp
  then have "temp < temp + of_nat (Suc c) * line" using l by (simp only: word_less_nat_alt) simp
  moreover have e: "temp + of_nat (Suc c) * line = (temp + line) + of_nat c * line" by (simp add: algebra_simps)
  moreover have "cache_loop line (temp + line) ((temp + line) + of_nat c * line) =
      Some (map (\<lambda>i. temp + line + of_nat i * line) [0..<c])"
    using Suc.prems u by (intro Suc.IH) auto
  moreover have "map (\<lambda>i. temp + of_nat i * line) [0..<Suc c] = temp # map (\<lambda>i. temp + line + of_nat i * line) [0..<c]"
    by (simp add: upt_conv_Cons map_Suc_upt [symmetric] algebra_simps del: upt_Suc)
  ultimately show ?case by (subst cache_loop.simps) (simp only: if_True Option.bind.bind_lunit simp_thms)
qed

definition line_ok :: "u32 \<Rightarrow> nat \<Rightarrow> bool" where
  "line_ok line n \<longleftrightarrow> line = 2 ^ n \<and> n \<le> 8"

lemma line_ok_unat: "line_ok line n \<Longrightarrow> unat line = 2 ^ n"
proof -
  assume "line_ok line n"
  then have "line = 2 ^ n" "n \<in> {0,1,2,3,4,5,6,7,8}" by (auto simp: line_ok_def)
  then show ?thesis by auto
qed

lemma cache_lines_aux:
  assumes l: "line_ok line n" and lt: "unat start_addr + unat sz + 2 ^ n \<le> 2 ^ 32"
  shows "cache_lines line start_addr sz =
    Some (map (\<lambda>i. of_nat (unat start_addr div 2 ^ n * 2 ^ n + i * 2 ^ n)) [0..<(unat sz + 2 ^ n - 1) div 2 ^ n])"
proof -
  let ?L = "2 ^ n :: nat"
  let ?t = "start_addr AND NOT (line - 1)" and ?s = "(sz + line - 1) AND NOT (line - 1)"
  have n: "n < 32" "line = 2 ^ n" "unat line = ?L" using l line_ok_unat [OF l] by (simp_all add: line_ok_def)
  have t: "unat ?t = unat start_addr div ?L * ?L" unfolding n(2) by (rule unat_align_down [OF n(1)])
  have "unat (sz + line - 1) = unat sz + ?L - 1"
  proof -
    have l1: "unat (line - 1) = ?L - 1" by (subst unat_sub) (simp_all add: word_le_nat_alt n(3))
    have "unat (sz + (line - 1)) = unat sz + (?L - 1)"
      using lt by (subst unat_word_ariths) (simp add: l1)
    then show ?thesis by (simp add: add_diff_eq)
  qed
  then have s: "unat ?s = (unat sz + ?L - 1) div ?L * ?L"
    unfolding n(2) using unat_align_down [OF n(1)] by simp
  define c where "c = (unat sz + ?L - 1) div ?L"
  have le: "unat start_addr div ?L * ?L \<le> unat start_addr" "c * ?L \<le> unat sz + ?L - 1"
    by (simp_all add: c_def)
  moreover have "0 < ?L" by simp
  ultimately have lt': "unat ?t + c * unat line < 2 ^ 32" unfolding t n(3) using lt by linarith
  have se: "?s = of_nat c * line"
  proof -
    have "?s = of_nat (unat ?s)" by simp
    also have "\<dots> = of_nat c * line" unfolding s c_def [symmetric] by (simp add: n(2))
    finally show ?thesis .
  qed
  have "line \<noteq> 0" using n(3) by auto
  then have "cache_lines line start_addr sz = Some (map (\<lambda>i. ?t + of_nat i * line) [0..<c])"
    unfolding cache_lines_def Let_def se by (rule cache_loop_lines [OF lt'])
  moreover have "?t + of_nat i * line = of_nat (unat start_addr div ?L * ?L + i * ?L)" for i
  proof -
    have "?t = of_nat (unat start_addr div ?L * ?L)" unfolding t [symmetric] by simp
    then show ?thesis unfolding n(2) by (simp only: of_nat_add of_nat_mult of_nat_power of_nat_numeral)
  qed
  ultimately show ?thesis by (simp add: c_def)
qed

text \<open>The byte \<open>x\<close> is in a line of the list.\<close>

definition line_covers :: "u32 \<Rightarrow> u32 list \<Rightarrow> nat \<Rightarrow> bool" where
  "line_covers line as x \<longleftrightarrow> (\<exists>a \<in> set as. unat a \<le> x \<and> x < unat a + unat line)"

lemma cache_lines_cover:
  assumes l: "line_ok line n" and lt: "unat start_addr + unat sz + 2 ^ n \<le> 2 ^ 32"
  obtains as where "cache_lines line start_addr sz = Some as"
    "\<And>x. line_covers line as x \<longleftrightarrow> unat start_addr div 2 ^ n * 2 ^ n \<le> x \<and>
       x < unat start_addr div 2 ^ n * 2 ^ n + (unat sz + 2 ^ n - 1) div 2 ^ n * 2 ^ n"
proof -
  let ?L = "2 ^ n :: nat"
  define s c where "s = unat start_addr div ?L * ?L" and "c = (unat sz + ?L - 1) div ?L"
  define as :: "u32 list" where "as = map (\<lambda>i. of_nat (s + i * ?L)) [0..<c]"
  have le: "s \<le> unat start_addr" "c * ?L \<le> unat sz + ?L - 1" by (simp_all add: s_def c_def)
  have u: "unat (of_nat (s + i * ?L) :: u32) = s + i * ?L" if "i < c" for i
  proof -
    have "Suc i * ?L \<le> c * ?L" using that by (intro mult_le_mono1) simp
    moreover have "0 < ?L" by simp
    ultimately have "s + i * ?L < 2 ^ 32" using le lt by (simp only: mult_Suc)
    then show ?thesis by (simp only: unat_of_nat) simp
  qed
  have "line_covers line as x \<longleftrightarrow> s \<le> x \<and> x < s + c * ?L" for x
  proof
    assume "line_covers line as x"
    then obtain i where i: "i < c" "s + i * ?L \<le> x" "x < s + i * ?L + ?L"
      unfolding line_covers_def as_def line_ok_unat [OF l] by (auto simp: u simp del: of_nat_add of_nat_mult)
    then have "Suc i * ?L \<le> c * ?L" by (intro mult_le_mono1) simp
    with i show "s \<le> x \<and> x < s + c * ?L" by simp
  next
    assume x: "s \<le> x \<and> x < s + c * ?L"
    define i where "i = (x - s) div ?L"
    have "i * ?L \<le> x - s" by (simp add: i_def)
    moreover have "x - s < i * ?L + ?L"
      unfolding i_def using dividend_less_div_times [of ?L "x - s"] by (simp only: add.commute) simp
    moreover have "i < c" unfolding i_def using x by (intro less_mult_imp_div_less) linarith
    ultimately show "line_covers line as x"
      using x u [of i] unfolding line_covers_def as_def line_ok_unat [OF l]
      by (intro bexI [of _ "of_nat (s + i * ?L)"]) (auto simp del: of_nat_add of_nat_mult)
  qed
  with cache_lines_aux [OF l lt] that show thesis unfolding s_def c_def as_def by blast
qed

section \<open>What the caches are\<close>

definition caches_ok :: "link \<Rightarrow> memory \<Rightarrow> bool" where
  "caches_ok l m \<longleftrightarrow>
     (get_field l Icache_size m \<noteq> 0 \<longrightarrow> (\<exists>n. line_ok (get_field l Icache_line_size m) n)) \<and>
     (get_field l Dcache_size m \<noteq> 0 \<longrightarrow> (\<exists>n. line_ok (get_field l Dcache_line_size m) n))"

lemma and_7_cases: "(x :: u32) AND 7 \<in> {0, 1, 2, 3, 4, 5, 6, 7}"
proof -
  have "x AND 7 = x AND mask 3" by (simp add: mask_eq_exp_minus_1)
  also have "\<dots> = x mod 8" by (simp flip: take_bit_eq_mask) (simp add: take_bit_eq_mod)
  also have "\<dots> = of_nat (unat (x mod 8))" by simp
  finally have e: "x AND 7 = of_nat (unat x mod 8)" by (simp add: unat_mod)
  define y where "y = unat x mod 8"
  have "y < 8" by (simp add: y_def)
  then have "y = 0 \<or> y = 1 \<or> y = 2 \<or> y = 3 \<or> y = 4 \<or> y = 5 \<or> y = 6 \<or> y = 7" by linarith
  then show ?thesis unfolding e y_def [symmetric] by (elim disjE) simp_all
qed

lemma cache_info_fields:
  assumes "distinct [sets_raw, line_raw, assoc_raw, line, assoc, sz]"
  shows "get_field l sz (cache_info l sets_raw line_raw assoc_raw line assoc sz a b c m) \<noteq> 0 \<Longrightarrow>
      line_ok (get_field l line (cache_info l sets_raw line_raw assoc_raw line assoc sz a b c m))
        (unat (drop_bit b (get_field l Cp0_config1_raw m) AND 7) + 1)"
    "f \<notin> {sets_raw, line_raw, assoc_raw, line, assoc, sz} \<Longrightarrow>
      get_field l f (cache_info l sets_raw line_raw assoc_raw line assoc sz a b c m) = get_field l f m"
    "x < unat (rtboot_data l) \<or> unat (rtboot_data l) + 108 \<le> x \<Longrightarrow>
      cache_info l sets_raw line_raw assoc_raw line assoc sz a b c m x = m x"
  using assms and_7_cases [of "drop_bit b (get_field l Cp0_config1_raw m)"]
  by (auto simp: cache_info_def Let_def get_set_field set_field_other line_ok_def split: if_splits)

lemma cache_init_fields:
  "caches_ok l (arch_cache_init l config1 m)"
  "field_index f < 14 \<Longrightarrow> get_field l f (arch_cache_init l config1 m) = get_field l f m"
  "x < unat (rtboot_data l) \<or> unat (rtboot_data l) + 108 \<le> x \<Longrightarrow> arch_cache_init l config1 m x = m x"
proof -
  let ?m1 = "set_field l Cp0_config1_raw config1 m"
  let ?m2 = "cache_info l Icache_sets_per_way_raw Icache_line_size_raw Icache_associativity_level_raw
      Icache_line_size Icache_associativity_level Icache_size 22 19 16 ?m1"
  let ?m3 = "cache_info l Dcache_sets_per_way_raw Dcache_line_size_raw Dcache_associativity_level_raw
      Dcache_line_size Dcache_associativity_level Dcache_size 13 10 7 ?m2"
  have c: "arch_cache_init l config1 m = ?m3" by (simp only: arch_cache_init_def Let_def)
  have d: "get_field l f ?m3 = get_field l f ?m2" if "field_index f < 21" for f
    by (rule cache_info_fields(2)) (use that in \<open>cases f; simp\<close>)+
  have i: "get_field l f ?m2 = get_field l f m" if "field_index f < 14" for f
  proof -
    have "get_field l f ?m2 = get_field l f ?m1"
      by (rule cache_info_fields(2)) (use that in \<open>cases f; simp\<close>)+
    then show ?thesis using that by (cases f) (simp_all add: get_set_field)
  qed
  have "get_field l Icache_size ?m2 \<noteq> 0 \<longrightarrow> (\<exists>n. line_ok (get_field l Icache_line_size ?m2) n)"
    by (intro impI exI, rule cache_info_fields(1)) simp_all
  moreover have "get_field l Dcache_size ?m3 \<noteq> 0 \<longrightarrow> (\<exists>n. line_ok (get_field l Dcache_line_size ?m3) n)"
    by (intro impI exI, rule cache_info_fields(1)) simp_all
  ultimately show "caches_ok l (arch_cache_init l config1 m)"
    unfolding c caches_ok_def by (simp only: d [of Icache_size, simplified] d [of Icache_line_size, simplified])
  show "get_field l f (arch_cache_init l config1 m) = get_field l f m" if "field_index f < 14"
    unfolding c using that d [of f] i [of f] by simp
  show "arch_cache_init l config1 m x = m x" if x: "x < unat (rtboot_data l) \<or> unat (rtboot_data l) + 108 \<le> x"
  proof -
    have "?m3 x = ?m2 x" by (rule cache_info_fields(3) [OF _ x]) simp
    moreover have "?m2 x = ?m1 x" by (rule cache_info_fields(3) [OF _ x]) simp
    ultimately show ?thesis unfolding c by (simp add: set_field_other [OF x])
  qed
qed

section \<open>Where the parts of the memory lie\<close>

lemma upd_field_fields:
  "get_field l f (upd_field l g h m) = (if f = g then h (get_field l g m) else get_field l f m)"
  "x < unat (rtboot_data l) \<or> unat (rtboot_data l) + 108 \<le> x \<Longrightarrow> upd_field l g h m x = m x"
  by (auto simp: upd_field_def get_set_field set_field_other)

text \<open>The addresses \<open>arch_early_init\<close> computes, one from the other.\<close>

definition part_base :: "link \<Rightarrow> u32 \<Rightarrow> u32" where
  "part_base l memsize =
     (((CFG_SDRAM_BASE + memsize) AND NOT (4096 - 1)) - (rtboot_end l - CFG_MONITOR_BASE l)) AND NOT (16 * 1024 - 1)"

definition part_ebase :: "link \<Rightarrow> u32 \<Rightarrow> u32" where
  "part_ebase l memsize = (part_base l memsize - 0x1000) AND NOT (4096 - 1)"

definition part_malloc_start :: "link \<Rightarrow> u32 \<Rightarrow> u32" where
  "part_malloc_start l memsize = (part_ebase l memsize - TOTAL_MALLOC_LEN) AND NOT (4096 - 1)"

definition part_stack_start :: "link \<Rightarrow> u32 \<Rightarrow> u32" where
  "part_stack_start l memsize = ((part_malloc_start l memsize - CFG_BOOTPARAMS_LEN - 0x10) AND NOT 0xF) - 8"

lemma part_image_fields:
  "get_field l f (part_image l m) =
     (let s = get_field l System_memsize m
      in case f of System_memstart \<Rightarrow> CFG_SDRAM_BASE | System_memend \<Rightarrow> CFG_SDRAM_BASE + s
         | Rtboot_length \<Rightarrow> rtboot_end l - CFG_MONITOR_BASE l | Relocation_base \<Rightarrow> part_base l s
         | _ \<Rightarrow> get_field l f m)"
  by (cases f) (simp_all only: part_image_def part_base_def Let_def get_set_field upd_field_fields boot_field.distinct
    boot_field.case if_True if_False simp_thms refl)

lemma part_malloc_fields:
  assumes "get_field l Relocation_base m = part_base l s"
  shows "get_field l f (part_malloc l m) =
     (case f of Relocation_ebase \<Rightarrow> part_ebase l s | Malloc_end_base \<Rightarrow> part_ebase l s - 4
      | Malloc_start_base \<Rightarrow> part_malloc_start l s | Start_stack_base \<Rightarrow> part_malloc_start l s
      | _ \<Rightarrow> get_field l f m)"
  by (cases f) (simp_all only: part_malloc_def part_ebase_def part_malloc_start_def Let_def get_set_field upd_field_fields
    boot_field.distinct boot_field.case if_True if_False simp_thms refl assms)

lemma memset_field:
  "a + n \<le> unat (rtboot_data l) \<or> unat (rtboot_data l) + 108 \<le> a \<Longrightarrow>
   get_field l f (rt_memset a c n m) = get_field l f m"
  using field_addr_bounds [of l f] unfolding get_field_def
  by (intro load_word_cong) (auto simp: rt_memset_fill mem_fill_def)

lemma part_stack_fields:
  assumes st: "get_field l Start_stack_base m = part_malloc_start l s"
    and apart: "unat (part_stack_start l s) + 8 \<le> unat (rtboot_data l) \<or> unat (rtboot_data l) + 108 \<le> unat (part_stack_start l s)"
  shows "get_field l f (part_stack l m) =
     (case f of Boot_param_pointer \<Rightarrow> part_malloc_start l s - CFG_BOOTPARAMS_LEN
      | Start_stack_base \<Rightarrow> part_stack_start l s
      | End_stack_base \<Rightarrow> (part_stack_start l s - 0x4000) AND NOT (4096 - 1)
      | _ \<Rightarrow> get_field l f m)"
    and "x < unat (rtboot_data l) \<or> unat (rtboot_data l) + 108 \<le> x \<Longrightarrow>
      x < unat (part_stack_start l s) \<or> unat (part_stack_start l s) + 8 \<le> x \<Longrightarrow> part_stack l m x = m x"
proof -
  define m2 where "m2 = set_field l Boot_param_pointer (part_malloc_start l s - CFG_BOOTPARAMS_LEN)
      (upd_field l Start_stack_base (\<lambda>a. a - CFG_BOOTPARAMS_LEN) m)"
  define m5 where "m5 = upd_field l Start_stack_base (\<lambda>a. a - 8) (upd_field l Start_stack_base (\<lambda>a. a AND NOT 0xF)
      (upd_field l Start_stack_base (\<lambda>a. a - 0x10) m2))"
  have s5: "get_field l Start_stack_base m5 = part_stack_start l s"
    by (simp add: m5_def m2_def upd_field_fields get_set_field st part_stack_start_def)
  define m6 where "m6 = rt_memset (unat (part_stack_start l s)) 0 8 m5"
  have e: "part_stack l m =
      upd_field l End_stack_base (\<lambda>a. a AND NOT (4096 - 1)) (set_field l End_stack_base (part_stack_start l s - 0x4000) m6)"
    using s5 memset_field [OF apart, of Start_stack_base 0 m5]
    by (simp add: part_stack_def Let_def m6_def m5_def m2_def upd_field_fields get_set_field st)
  have f6: "get_field l f m6 = get_field l f m5" for f unfolding m6_def by (rule memset_field [OF apart])
  show "get_field l f (part_stack l m) =
     (case f of Boot_param_pointer \<Rightarrow> part_malloc_start l s - CFG_BOOTPARAMS_LEN
      | Start_stack_base \<Rightarrow> part_stack_start l s
      | End_stack_base \<Rightarrow> (part_stack_start l s - 0x4000) AND NOT (4096 - 1)
      | _ \<Rightarrow> get_field l f m)"
    unfolding e by (cases f) (simp_all only: upd_field_fields get_set_field f6 s5 boot_field.distinct boot_field.case
      if_True if_False simp_thms m5_def m2_def part_stack_start_def st)
  show "part_stack l m x = m x" if "x < unat (rtboot_data l) \<or> unat (rtboot_data l) + 108 \<le> x"
    "x < unat (part_stack_start l s) \<or> unat (part_stack_start l s) + 8 \<le> x"
    using that unfolding e by (auto simp: upd_field_fields set_field_other m6_def m5_def m2_def rt_memset_fill mem_fill_def)
qed

lemma early_init_fields:
  fixes l m
  defines "s \<equiv> get_field l System_memsize m"
  assumes apart: "unat (part_stack_start l s) + 8 \<le> unat (rtboot_data l) \<or> unat (rtboot_data l) + 108 \<le> unat (part_stack_start l s)"
  shows "field_index f < 14 \<Longrightarrow> get_field l f (arch_early_init l config1 m) =
     (case f of System_memstart \<Rightarrow> CFG_SDRAM_BASE | System_memend \<Rightarrow> CFG_SDRAM_BASE + s
      | Rtboot_length \<Rightarrow> rtboot_end l - CFG_MONITOR_BASE l | Relocation_base \<Rightarrow> part_base l s
      | Relocation_ebase \<Rightarrow> part_ebase l s | Malloc_end_base \<Rightarrow> part_ebase l s - 4
      | Malloc_start_base \<Rightarrow> part_malloc_start l s
      | Boot_param_pointer \<Rightarrow> part_malloc_start l s - CFG_BOOTPARAMS_LEN
      | Start_stack_base \<Rightarrow> part_stack_start l s
      | End_stack_base \<Rightarrow> (part_stack_start l s - 0x4000) AND NOT (4096 - 1)
      | _ \<Rightarrow> get_field l f m)"
    and "caches_ok l (arch_early_init l config1 m)"
    and "x < unat (rtboot_data l) \<or> unat (rtboot_data l) + 108 \<le> x \<Longrightarrow>
      x < unat (part_stack_start l s) \<or> unat (part_stack_start l s) + 8 \<le> x \<Longrightarrow> arch_early_init l config1 m x = m x"
proof -
  have b: "get_field l Relocation_base (part_image l m) = part_base l s"
    by (simp add: part_image_fields Let_def s_def)
  note ml = part_malloc_fields [OF b]
  have "get_field l Start_stack_base (part_malloc l (part_image l m)) = part_malloc_start l s" by (simp add: ml)
  note st = part_stack_fields [OF this apart]
  show "get_field l f (arch_early_init l config1 m) =
     (case f of System_memstart \<Rightarrow> CFG_SDRAM_BASE | System_memend \<Rightarrow> CFG_SDRAM_BASE + s
      | Rtboot_length \<Rightarrow> rtboot_end l - CFG_MONITOR_BASE l | Relocation_base \<Rightarrow> part_base l s
      | Relocation_ebase \<Rightarrow> part_ebase l s | Malloc_end_base \<Rightarrow> part_ebase l s - 4
      | Malloc_start_base \<Rightarrow> part_malloc_start l s
      | Boot_param_pointer \<Rightarrow> part_malloc_start l s - CFG_BOOTPARAMS_LEN
      | Start_stack_base \<Rightarrow> part_stack_start l s
      | End_stack_base \<Rightarrow> (part_stack_start l s - 0x4000) AND NOT (4096 - 1)
      | _ \<Rightarrow> get_field l f m)" if "field_index f < 14"
    using that cache_init_fields(2) [OF that]
    by (cases f) (simp_all only: arch_early_init_def st(1) ml part_image_fields s_def Let_def boot_field.case)
  show "caches_ok l (arch_early_init l config1 m)"
    unfolding arch_early_init_def by (rule cache_init_fields(1))
  show "arch_early_init l config1 m x = m x" if x: "x < unat (rtboot_data l) \<or> unat (rtboot_data l) + 108 \<le> x"
      "x < unat (part_stack_start l s) \<or> unat (part_stack_start l s) + 8 \<le> x"
    unfolding arch_early_init_def cache_init_fields(3) [OF x(1)] st(2) [OF x]
    using x(1) by (simp add: part_malloc_def part_image_def Let_def upd_field_fields set_field_other)
qed

lemma align_sub:
  fixes a b c :: u32
  assumes "unat a = x" "unat b = y" "y \<le> x" "c = 2 ^ n" "n < 32" "2 ^ n dvd x - y"
  shows "unat ((a - b) AND NOT (c - 1)) = x - y"
proof -
  have "unat (a - b) = x - y" using assms(1-3) by (simp add: unat_sub word_le_nat_alt)
  then show ?thesis using assms(4-6) unat_align_down [of n "a - b"] by (simp add: dvd_div_mult_self)
qed

text \<open>With room for the image and the reserved areas the parts follow one another.\<close>

lemma part_arith:
  fixes l memsize
  defines "L \<equiv> unat (rtboot_end l) - unat (CFG_MONITOR_BASE l)"
  assumes sz: "L + 0x200000 \<le> unat memsize" "unat memsize \<le> 0x20000000" and le: "CFG_MONITOR_BASE l \<le> rtboot_end l"
  shows "unat (part_base l memsize) + L \<le> 0x80000000 + unat memsize" "16384 dvd unat (part_base l memsize)"
    "unat (part_ebase l memsize) + 0x1000 = unat (part_base l memsize)"
    "unat (part_ebase l memsize - 4) + 4 = unat (part_ebase l memsize)"
    "unat (part_malloc_start l memsize) + 0x100000 = unat (part_ebase l memsize)"
    "unat (part_malloc_start l memsize - CFG_BOOTPARAMS_LEN) + 0x80000 = unat (part_malloc_start l memsize)"
    "unat (part_stack_start l memsize) + 0x18 = unat (part_malloc_start l memsize - CFG_BOOTPARAMS_LEN)"
    "unat ((part_stack_start l memsize - 0x4000) AND NOT (4096 - 1)) + 0x5000 = unat (part_malloc_start l memsize - CFG_BOOTPARAMS_LEN)"
    "0x80000000 + unat memsize < unat (part_base l memsize) + L + 0x5000"
proof -
  have end1: "unat (CFG_SDRAM_BASE + memsize) = 0x80000000 + unat memsize"
    using sz by (simp add: CFG_SDRAM_BASE_def unat_word_ariths)
  have len: "unat (rtboot_end l - CFG_MONITOR_BASE l) = L" using le by (simp add: L_def unat_sub)
  define e where "e = (0x80000000 + unat memsize) div 4096 * 4096"
  have e: "e \<le> 0x80000000 + unat memsize" "0x80000000 + unat memsize < e + 4096"
    by (simp_all add: e_def)
  have e2: "unat (((CFG_SDRAM_BASE + memsize) AND NOT (4096 - 1)) - (rtboot_end l - CFG_MONITOR_BASE l)) = e - L"
  proof -
    have a: "unat ((CFG_SDRAM_BASE + memsize) AND NOT (4096 - 1)) = e"
      using unat_align_down [of 12 "CFG_SDRAM_BASE + memsize"] end1 by (simp add: e_def)
    have "L \<le> e" using e sz by simp
    then show ?thesis by (subst unat_sub) (simp_all only: word_le_nat_alt a len)
  qed
  define b where "b = (e - L) div 16384 * 16384"
  have b: "unat (part_base l memsize) = b"
    using unat_align_down [of 14] e2 by (simp add: part_base_def b_def)
  have bb: "b \<le> e - L" "e - L < b + 16384" by (simp_all add: b_def)
  have bd: "16384 dvd b" by (simp add: b_def)
  have bl: "0x801f0000 \<le> b" using bb e sz by simp
  show "unat (part_base l memsize) + L \<le> 0x80000000 + unat memsize" using bb e sz by (simp add: b)
  show "16384 dvd unat (part_base l memsize)" by (simp add: b bd)
  show "0x80000000 + unat memsize < unat (part_base l memsize) + L + 0x5000" using bb e by (simp add: b)
  have b4: "4096 dvd b" using bd by (rule dvd_trans [rotated]) simp
  have d4: "2 ^ 12 dvd b - 0x1000" "2 ^ 12 dvd b - 0x1000 - 0x100000"
  proof -
    have "4096 dvd b - 0x1000" by (rule dvd_diff_nat [OF b4]) simp
    moreover have "4096 dvd b - 0x1000 - 0x100000" by (rule dvd_diff_nat [OF calculation]) simp
    ultimately show "2 ^ 12 dvd b - 0x1000" "2 ^ 12 dvd b - 0x1000 - 0x100000" by simp_all
  qed
  have eb: "unat (part_ebase l memsize) = b - 0x1000"
    unfolding part_ebase_def by (rule align_sub [OF b _ _ _ _ d4(1)]) (use bl in simp_all)
  then show "unat (part_ebase l memsize) + 0x1000 = unat (part_base l memsize)" using bl by (simp add: b)
  show "unat (part_ebase l memsize - 4) + 4 = unat (part_ebase l memsize)"
    using bl by (subst unat_sub) (simp_all add: word_le_nat_alt eb)
  have "unat (part_malloc_start l memsize) = b - 0x1000 - 0x100000"
    unfolding part_malloc_start_def by (rule align_sub [OF eb _ _ _ _ d4(2)]) (use bl in \<open>simp_all add: TOTAL_MALLOC_LEN_def\<close>)
  then have ms: "unat (part_malloc_start l memsize) = b - 0x101000" by simp
  then show "unat (part_malloc_start l memsize) + 0x100000 = unat (part_ebase l memsize)" using bl by (simp add: eb)
  have bp: "unat (part_malloc_start l memsize - CFG_BOOTPARAMS_LEN) = b - 0x181000"
    using bl by (subst unat_sub) (simp_all add: word_le_nat_alt ms CFG_BOOTPARAMS_LEN_def)
  then show "unat (part_malloc_start l memsize - CFG_BOOTPARAMS_LEN) + 0x80000 = unat (part_malloc_start l memsize)"
    using bl by (simp add: ms)
  have ss: "unat (part_stack_start l memsize) = b - 0x181018"
  proof -
    have "16 dvd b" by (rule dvd_trans [OF _ b4]) simp
    then have "16 dvd b - 0x181000 - 0x10" by (intro dvd_diff_nat) simp_all
    then have d: "2 ^ 4 dvd b - 0x181000 - 0x10" by simp
    have "unat ((part_malloc_start l memsize - CFG_BOOTPARAMS_LEN - 0x10) AND NOT (16 - 1)) = b - 0x181000 - 0x10"
      by (rule align_sub [OF bp _ _ _ _ d]) (use bl in simp_all)
    then have "unat ((part_malloc_start l memsize - CFG_BOOTPARAMS_LEN - 0x10) AND NOT 0xF) = b - 0x181010" by simp
    then show ?thesis
      unfolding part_stack_start_def using bl by (subst unat_sub) (simp_all add: word_le_nat_alt)
  qed
  then show "unat (part_stack_start l memsize) + 0x18 = unat (part_malloc_start l memsize - CFG_BOOTPARAMS_LEN)"
    using bl by (simp add: bp)
  show "unat ((part_stack_start l memsize - 0x4000) AND NOT (4096 - 1)) + 0x5000 = unat (part_malloc_start l memsize - CFG_BOOTPARAMS_LEN)"
  proof -
    have "unat (part_stack_start l memsize - 0x4000) = b - 0x185018"
      using bl by (subst unat_sub) (simp_all add: word_le_nat_alt ss)
    moreover have "(b - 0x185018) div 4096 * 4096 = b - 0x186000"
    proof -
      obtain q where q: "b = 4096 * q" using b4 by (auto elim: dvdE)
      then have "b - 0x185018 = 4072 + 4096 * (q - 390)" using bl by linarith
      then have "(b - 0x185018) div 4096 = q - 390" by simp
      then show ?thesis using q by (simp add: diff_mult_distrib)
    qed
    ultimately show ?thesis
      using unat_align_down [of 12 "part_stack_start l memsize - 0x4000"] bl by (simp add: bp)
  qed
qed

section \<open>What a flush covers\<close>

text \<open>The byte \<open>x\<close> is in a line on which the cache instruction \<open>c\<close> was executed.\<close>

definition flushed :: "nat \<Rightarrow> u32 \<Rightarrow> cache_ops \<Rightarrow> nat \<Rightarrow> bool" where
  "flushed c line ops x \<longleftrightarrow> line_covers line [a. (c', a) \<leftarrow> ops, c' = c] x"

lemma flushed_iff: "flushed c line ops x \<longleftrightarrow> (\<exists>a. (c, a) \<in> set ops \<and> unat a \<le> x \<and> x < unat a + unat line)"
  by (auto simp: flushed_def line_covers_def)

text \<open>The bytes of the lines that the loops of cache.c visit.\<close>

definition in_lines :: "u32 \<Rightarrow> u32 \<Rightarrow> u32 \<Rightarrow> nat \<Rightarrow> bool" where
  "in_lines line start_addr sz x \<longleftrightarrow>
     (let w = unat line; s = unat start_addr div w * w in s \<le> x \<and> x < s + (unat sz + w - 1) div w * w)"

lemma cache_lines_in:
  assumes "line_ok line n" "unat start_addr + unat sz + 256 \<le> 2 ^ 32"
  obtains as where "cache_lines line start_addr sz = Some as" "\<And>x. line_covers line as x \<longleftrightarrow> in_lines line start_addr sz x"
proof -
  have "(2::nat) ^ n \<le> 2 ^ 8" using assms(1) by (intro power_increasing) (auto simp: line_ok_def)
  then have "unat start_addr + unat sz + 2 ^ n \<le> 2 ^ 32" using assms(2) by simp
  from cache_lines_cover [OF assms(1) this] that show thesis
    unfolding in_lines_def Let_def line_ok_unat [OF assms(1)] by blast
qed

lemma cache_flush_lines:
  assumes ok: "caches_ok l m" and lt: "unat start_addr + unat sz + 256 \<le> 2 ^ 32"
  shows "\<exists>ops. arch_cache_flush l start_addr sz m = Some ops \<and>
    (get_field l Icache_size m \<noteq> 0 \<and> get_field l Dcache_size m \<noteq> 0 \<longrightarrow>
      (\<forall>x. (flushed 0x15 (get_field l Dcache_line_size m) ops x \<longleftrightarrow> in_lines (get_field l Dcache_line_size m) start_addr sz x) \<and>
           (flushed 0x10 (get_field l Icache_line_size m) ops x \<longleftrightarrow> in_lines (get_field l Icache_line_size m) start_addr sz x)))"
proof (cases "get_field l Icache_size m \<noteq> 0 \<and> get_field l Dcache_size m \<noteq> 0")
  case True
  let ?i = "get_field l Icache_line_size m" and ?d = "get_field l Dcache_line_size m"
  obtain ni nd where n: "line_ok ?i ni" "line_ok ?d nd" using ok True by (auto simp: caches_ok_def)
  obtain as where as: "cache_lines ?i start_addr sz = Some as" "\<And>x. line_covers ?i as x = in_lines ?i start_addr sz x"
    using cache_lines_in [OF n(1) lt] by metis
  obtain ds where ds: "cache_lines ?d start_addr sz = Some ds" "\<And>x. line_covers ?d ds x = in_lines ?d start_addr sz x"
    using cache_lines_in [OF n(2) lt] by metis
  show ?thesis
  proof (cases "?i = ?d")
    case eq: True
    define ops where "ops = concat (map (\<lambda>a. [(0x15 :: nat, a), (0x10, a)]) ds)"
    have "flushed c ?d ops x \<longleftrightarrow> line_covers ?d ds x" if "c \<in> {0x15, 0x10}" for c x
      using that by (auto simp: flushed_iff line_covers_def ops_def)
    moreover have "arch_cache_flush l start_addr sz m = Some ops"
      using True eq ds(1) by (simp add: arch_cache_flush_def ops_def)
    ultimately show ?thesis using eq ds(2) by auto
  next
    case False
    define ops where "ops = map (\<lambda>a. (0x15 :: nat, a)) ds @ map (\<lambda>a. (0x10, a)) as"
    have "flushed 0x15 ?d ops x \<longleftrightarrow> line_covers ?d ds x" "flushed 0x10 ?i ops x \<longleftrightarrow> line_covers ?i as x" for x
      by (auto simp: flushed_iff line_covers_def ops_def)
    moreover have "arch_cache_flush l start_addr sz m = Some ops"
      using True False ds(1) as(1) by (simp add: arch_cache_flush_def arch_dcache_flush_def arch_icache_flush_def ops_def)
    ultimately show ?thesis using as(2) ds(2) by auto
  qed
qed (auto simp: arch_cache_flush_def)

lemma in_lines_aligned:
  assumes "line_ok line n" "unat line dvd unat start_addr" "unat start_addr \<le> x" "x < unat start_addr + unat sz"
  shows "in_lines line start_addr sz x"
proof -
  define w where "w = unat line"
  have w: "0 < w" using line_ok_unat [OF assms(1)] by (simp add: w_def)
  have "unat sz \<le> (unat sz + w - 1) div w * w"
    using w dividend_less_div_times [of w "unat sz + w - 1"] by linarith
  then show ?thesis using assms(2-4) by (simp add: in_lines_def Let_def w_def)
qed

section \<open>Properties\<close>

definition demo_link :: link where
  "demo_link = \<lparr>CFG_MONITOR_BASE = 0x80010000, rtboot_data_end = 0x80040000, rtboot_end = 0x80050000,
     got_start = 0x80030000, got_end = 0x80030400, rel_table_start = 0x80038000, rtboot_data = 0x80041000,
     sizeof_system_boot_data = 200, system_late_init = 0x80011000\<rparr>"

text \<open>
  C30: The memory is divided into parts that do not overlap.  For an image of \<open>L\<close> bytes, a memory of at least
  \<open>L\<close> bytes and 2 MB and at most 512 MB, and boot data that lie below the reserved areas, \<open>arch_early_init\<close> places from
  the top: the image on a 16 kB boundary, the page of the exception vectors, 1 MB for the heap, 512 kB for the
  boot parameters, and a stack of at least 16 kB; it changes nothing but the boot data and eight bytes of the stack.
\<close>

theorem early_init_partition:
  fixes l config1 m
  defines "g \<equiv> \<lambda>f. unat (get_field l f (arch_early_init l config1 m))"
  defines "L \<equiv> unat (rtboot_end l) - unat (CFG_MONITOR_BASE l)" and "s \<equiv> unat (get_field l System_memsize m)"
  assumes "CFG_MONITOR_BASE l \<le> rtboot_end l" "L + 0x200000 \<le> s" "s \<le> 0x20000000"
    and "unat (rtboot_data l) + 108 + L + 0x187000 \<le> 0x80000000 + s"
  shows "g Rtboot_length = L \<and> g System_memend = 0x80000000 + s \<and>
    g Relocation_base + L \<le> g System_memend \<and> 16384 dvd g Relocation_base \<and>
    g Relocation_ebase + 0x1000 = g Relocation_base \<and>
    g Malloc_end_base + 4 = g Relocation_ebase \<and> g Malloc_start_base + 0x100000 = g Relocation_ebase \<and>
    g Boot_param_pointer + 0x80000 = g Malloc_start_base \<and>
    g Start_stack_base + 8 \<le> g Boot_param_pointer \<and> g End_stack_base + 0x4000 \<le> g Start_stack_base \<and>
    g System_memstart \<le> g End_stack_base \<and>
    (\<forall>x. (x < unat (rtboot_data l) \<or> unat (rtboot_data l) + 108 \<le> x) \<longrightarrow> (x < g Start_stack_base \<or> g Start_stack_base + 8 \<le> x) \<longrightarrow>
      arch_early_init l config1 m x = m x)"
proof -
  let ?s = "get_field l System_memsize m"
  have h: "unat (rtboot_end l) - unat (CFG_MONITOR_BASE l) + 0x200000 \<le> unat ?s" "unat ?s \<le> 0x20000000"
    using assms(5,6) by (simp_all add: L_def s_def)
  note p = part_arith [OF h assms(4), folded L_def s_def]
  have st: "unat (part_stack_start l ?s) + 0x181018 = unat (part_base l ?s)" using p(3,5,6,7) by linarith
  have "unat (rtboot_data l) + 108 \<le> unat (part_stack_start l ?s)" using st p(9) assms(7) by linarith
  then have apart: "unat (part_stack_start l ?s) + 8 \<le> unat (rtboot_data l) \<or> unat (rtboot_data l) + 108 \<le> unat (part_stack_start l ?s)" ..
  note e = early_init_fields [OF apart]
  have len: "g Rtboot_length = L" using assms(4) by (simp add: g_def e(1) L_def unat_sub)
  have memend: "g System_memend = 0x80000000 + s" "g System_memstart = 0x80000000"
    using h(2) by (simp_all add: g_def e(1) CFG_SDRAM_BASE_def unat_word_ariths s_def)
  have f: "g Relocation_base = unat (part_base l ?s)" "g Relocation_ebase = unat (part_ebase l ?s)"
    "g Malloc_end_base = unat (part_ebase l ?s - 4)" "g Malloc_start_base = unat (part_malloc_start l ?s)"
    "g Boot_param_pointer = unat (part_malloc_start l ?s - CFG_BOOTPARAMS_LEN)" "g Start_stack_base = unat (part_stack_start l ?s)"
    "g End_stack_base = unat ((part_stack_start l ?s - 0x4000) AND NOT (4096 - 1))"
    by (simp_all add: g_def e(1))
  have "0x80000000 + 0x5000 \<le> unat (part_malloc_start l ?s - CFG_BOOTPARAMS_LEN)"
    using p(9) p(3,5,6) assms(5) by linarith
  moreover have "\<forall>x. (x < unat (rtboot_data l) \<or> unat (rtboot_data l) + 108 \<le> x) \<longrightarrow>
      (x < g Start_stack_base \<or> g Start_stack_base + 8 \<le> x) \<longrightarrow> arch_early_init l config1 m x = m x"
    unfolding f by (intro allI impI e(3))
  ultimately show ?thesis
    unfolding len memend f using p by (intro conjI) (assumption | linarith | simp)+
qed

theorem early_init_partition_witness:
  "unat (get_field demo_link Malloc_start_base (arch_early_init demo_link 0 (set_field demo_link System_memsize 0x4000000 (\<lambda>_. 0)))) + 0x100000 =
   unat (get_field demo_link Relocation_ebase (arch_early_init demo_link 0 (set_field demo_link System_memsize 0x4000000 (\<lambda>_. 0))))"
proof -
  let ?m = "set_field demo_link System_memsize 0x4000000 (\<lambda>_. 0)"
  have "get_field demo_link System_memsize ?m = 0x4000000" by (simp add: get_set_field)
  then show ?thesis
    using early_init_partition [of demo_link ?m 0] by (simp add: demo_link_def)
qed

text \<open>
  C33: A flush reaches every byte of the range when the range starts on a cache line.  With the line sizes that
  \<open>arch_cache_init\<close> reads from the processor, \<open>arch_cache_flush\<close> ends; if both caches are present, each byte of
  a range that starts on a multiple of both line sizes is written back from the data cache and dropped from the
  instruction cache.
\<close>

theorem cache_flush_covers:
  fixes l m config1
  defines "m' \<equiv> arch_cache_init l config1 m"
  assumes "unat start_addr + unat sz + 256 \<le> 2 ^ 32"
  shows "\<exists>ops. arch_cache_flush l start_addr sz m' = Some ops \<and>
    (get_field l Icache_size m' \<noteq> 0 \<and> get_field l Dcache_size m' \<noteq> 0 \<and>
     unat (get_field l Icache_line_size m') dvd unat start_addr \<and> unat (get_field l Dcache_line_size m') dvd unat start_addr \<longrightarrow>
     (\<forall>x. unat start_addr \<le> x \<and> x < unat start_addr + unat sz \<longrightarrow>
        flushed 0x15 (get_field l Dcache_line_size m') ops x \<and> flushed 0x10 (get_field l Icache_line_size m') ops x))"
proof -
  have ok: "caches_ok l m'" unfolding m'_def by (rule cache_init_fields(1))
  obtain ops where ops: "arch_cache_flush l start_addr sz m' = Some ops"
    "get_field l Icache_size m' \<noteq> 0 \<and> get_field l Dcache_size m' \<noteq> 0 \<Longrightarrow>
      flushed 0x15 (get_field l Dcache_line_size m') ops x = in_lines (get_field l Dcache_line_size m') start_addr sz x \<and>
      flushed 0x10 (get_field l Icache_line_size m') ops x = in_lines (get_field l Icache_line_size m') start_addr sz x" for x
    using cache_flush_lines [OF ok assms(2)] by blast
  then show ?thesis
    using ok by (intro exI [of _ ops] conjI impI allI) (auto simp: caches_ok_def intro: in_lines_aligned)
qed

text \<open>Both caches with lines of 32 bytes.\<close>

lemma demo_caches:
  defines "m \<equiv> arch_cache_init demo_link 0x00201000 (\<lambda>_. 0)"
  shows "get_field demo_link Icache_size m \<noteq> 0" "get_field demo_link Dcache_size m \<noteq> 0"
    "get_field demo_link Icache_line_size m = 32" "get_field demo_link Dcache_line_size m = 32"
  unfolding m_def by (simp_all add: arch_cache_init_def cache_info_def Let_def get_set_field)

theorem cache_flush_covers_witness:
  "\<exists>ops. arch_cache_flush demo_link 0x80010000 100 (arch_cache_init demo_link 0x00201000 (\<lambda>_. 0)) = Some ops \<and>
     flushed 0x10 32 ops 0x80010063"
  using cache_flush_covers [of "0x80010000" 100 demo_link "0x00201000" "\<lambda>_. 0"] by (auto simp: demo_caches)

text \<open>
  A flush of a range that does not start on a cache line can miss the last line: the size is rounded up to
  whole lines without the bytes between the start of the first line and the start of the range.  Two bytes across
  the border of two lines of 32 bytes: the second byte is flushed from neither cache.
\<close>

theorem cache_flush_misses_line:
  assumes "unat start_addr mod 32 = 31" "unat start_addr < 2 ^ 32 - 1024"
  shows "\<exists>ops. arch_cache_flush demo_link start_addr 2 (arch_cache_init demo_link 0x00201000 (\<lambda>_. 0)) = Some ops \<and>
    \<not> flushed 0x15 32 ops (unat start_addr + 1) \<and> \<not> flushed 0x10 32 ops (unat start_addr + 1)"
proof -
  let ?m = "arch_cache_init demo_link 0x00201000 (\<lambda>_. 0)"
  have "\<not> in_lines 32 start_addr 2 (unat start_addr + 1)"
    using assms(1) div_mult_mod_eq [of "unat start_addr" 32] by (simp add: in_lines_def Let_def)
  moreover have "caches_ok demo_link ?m" by (rule cache_init_fields(1))
  ultimately show ?thesis
    using cache_flush_lines [of demo_link ?m start_addr 2] assms(2) by (auto simp: demo_caches)
qed

theorem cache_flush_misses_line_witness:
  "\<exists>ops. arch_cache_flush demo_link 0x8000001f 2 (arch_cache_init demo_link 0x00201000 (\<lambda>_. 0)) = Some ops \<and>
    \<not> flushed 0x15 32 ops 0x80000020"
  using cache_flush_misses_line [of "0x8000001f"] by auto

end
