(* ===== verification/Relocation.thy ===== *)
theory Relocation
  imports BootData
begin

text \<open>
  Self-relocation.  The host tool tools/mips-relocs.c collects the places of the image that
  hold absolute addresses and writes them as a table of variable-length integers; at boot
  arch/mips/relocation/relocation.c copies the image to the top of memory, decodes the table
  and adds the distance to those places and to the global offset table.  Of the tool the
  walk over the ELF sections is left out: the model starts at the relocation entries.
  Cached and uncached views of memory are not told apart.
\<close>

type_synonym u64 = "64 word"

definition R_MIPS_NONE :: u32 where "R_MIPS_NONE = 0"
definition R_MIPS_32 :: u32 where "R_MIPS_32 = 2"
definition ENOMEM :: int where "ENOMEM = 12"

section \<open>The host tool\<close>

record mips_reloc =
  rel_type :: u8
  rel_offset :: u64

record reloc_buf =
  relocs :: "mips_reloc list"
  relocs_sz :: nat

text \<open>\<open>can_grow n\<close> says whether the array can be grown to \<open>n\<close> entries.\<close>

definition add_reloc :: "(nat \<Rightarrow> bool) \<Rightarrow> u32 \<Rightarrow> u64 \<Rightarrow> reloc_buf \<Rightarrow> int \<times> reloc_buf" where
  "add_reloc can_grow type off b =
     (if type \<noteq> R_MIPS_32 then (0, b)
      else
        let new = \<lparr>rel_type = ucast type, rel_offset = off\<rparr>;
            new_sz = (if relocs_sz b \<noteq> 0 then relocs_sz b * 2 else 128)
        in if length (relocs b) = relocs_sz b
           then if can_grow new_sz then (0, \<lparr>relocs = relocs b @ [new], relocs_sz = new_sz\<rparr>)
                else (- ENOMEM, b)
           else (0, b\<lparr>relocs := relocs b @ [new]\<rparr>))"

definition load_le :: "nat \<Rightarrow> memory \<Rightarrow> u32" where
  "load_le a m = load_word 0 ((\<lambda>_. 0)(0 := m (a + 3), 1 := m (a + 2), 2 := m (a + 1), 3 := m a))"

text \<open>An entry of a relocation section is two words, the offset and the type with the symbol.\<close>

definition parse_mips32_rel ::
  "(nat \<Rightarrow> bool) \<Rightarrow> bool \<Rightarrow> u64 \<Rightarrow> memory \<Rightarrow> nat \<Rightarrow> reloc_buf \<Rightarrow> int \<times> reloc_buf" where
  "parse_mips32_rel can_grow is_be text_base elf rel b =
     (let word = (\<lambda>a. if is_be then load_word a elf else load_le a elf);
          off = word rel - ucast text_base;
          type = word (rel + 4) AND 0xff
      in add_reloc can_grow type (ucast off) b)"

primrec parse_entries ::
  "(nat \<Rightarrow> reloc_buf \<Rightarrow> int \<times> reloc_buf) \<Rightarrow> nat \<Rightarrow> nat \<Rightarrow> nat \<Rightarrow> reloc_buf \<Rightarrow> int \<times> reloc_buf" where
  "parse_entries parse_fn sh_offset sh_entsize 0 b = (0, b)"
| "parse_entries parse_fn sh_offset sh_entsize (Suc n) b =
     (let (err, b1) = parse_fn sh_offset b
      in if err \<noteq> 0 then (err, b1) else parse_entries parse_fn (sh_offset + sh_entsize) sh_entsize n b1)"

function output_uint :: "u64 \<Rightarrow> u8 list" where
  "output_uint val =
     (let tmp = val AND 0x7f;
          val1 = drop_bit 7 val
      in ucast (tmp OR (if val1 \<noteq> 0 then 0x80 else 0)) # (if val1 \<noteq> 0 then output_uint val1 else []))"
  by auto
termination
proof (relation "measure unat", simp, goal_cases)
  case (1 val tmp val1)
  have t: "take_bit 64 (unat val) = unat val"
    using unsigned_less [of val, where 'a = nat] by (intro take_bit_nat_eq_self) simp
  have "unat val1 = unat val div 2 ^ 7"
    unfolding 1(2) by (simp only: unsigned_drop_bit_eq) (simp add: drop_bit_eq_div t)
  moreover have "unat val \<noteq> 0" using 1 by (auto simp: unsigned_eq_0_iff)
  ultimately show ?case by simp
qed

text \<open>The difference of the offsets is cut to an \<open>int\<close>.\<close>

definition compare_relocs :: "mips_reloc \<Rightarrow> mips_reloc \<Rightarrow> int" where
  "compare_relocs a b = sint (ucast (rel_offset a - rel_offset b) :: u32)"

text \<open>The library's \<open>qsort\<close> with that comparison, as an insertion sort.\<close>

fun qsort_insert :: "mips_reloc \<Rightarrow> mips_reloc list \<Rightarrow> mips_reloc list" where
  "qsort_insert r [] = [r]"
| "qsort_insert r (x # xs) = (if compare_relocs r x \<le> 0 then r # x # xs else x # qsort_insert r xs)"

definition qsort_relocs :: "mips_reloc list \<Rightarrow> mips_reloc list" where
  "qsort_relocs rs = foldr qsort_insert rs []"

text \<open>The loop that makes the offsets relative, from index \<open>i\<close> down to 1.\<close>

primrec delta_loop :: "nat \<Rightarrow> mips_reloc list \<Rightarrow> mips_reloc list" where
  "delta_loop 0 rs = rs"
| "delta_loop (Suc i) rs =
     delta_loop i (rs[Suc i := (rs ! Suc i)\<lparr>rel_offset := rel_offset (rs ! Suc i) - rel_offset (rs ! i)\<rparr>])"

definition write_reloc :: "mips_reloc \<Rightarrow> u8 list" where
  "write_reloc r = output_uint (ucast (rel_type r)) @ output_uint (drop_bit 2 (rel_offset r))"

text \<open>
  The contents of the section .reltable with room for \<open>rel_size\<close> bytes.  With no relocation at
  all the loop above starts at index \<open>UINT_MAX\<close>, outside the array: the result is \<open>None\<close>.
\<close>

definition reloc_section :: "nat \<Rightarrow> mips_reloc list \<Rightarrow> (int + u8 list) option" where
  "reloc_section rel_size rs =
     (if rs = [] then None
      else
        let ds = delta_loop (length rs - 1) (qsort_relocs rs);
            buf = concat (map write_reloc ds) @ output_uint (ucast R_MIPS_NONE)
        in Some (if length buf > rel_size then Inl (- ENOMEM) else Inr buf))"

section \<open>The boot loader\<close>

text \<open>The loop over the entries \<open>i\<close> to \<open>i + n - 1\<close> of the global offset table.\<close>

primrec got_loop :: "link \<Rightarrow> nat \<Rightarrow> nat \<Rightarrow> nat \<Rightarrow> memory \<Rightarrow> memory" where
  "got_loop l pointer_32 i 0 m = m"
| "got_loop l pointer_32 i (Suc n) m =
     (let v = load_word (pointer_32 + 4 * i) m
      in got_loop l pointer_32 (i + 1) n
           (if v \<noteq> 0 then store_word (pointer_32 + 4 * i) (v + get_field l Relocation_offset m) m else m))"

definition arch_got_relocation :: "link \<Rightarrow> memory \<Rightarrow> memory" where
  "arch_got_relocation l m =
     (let got_entries_numbers = unat (got_end l - got_start l) div 4
      in got_loop l (unat (get_field l New_gp m)) 2 (got_entries_numbers - 2) m)"

text \<open>
  A shift by 32 or more is undefined in C: an integer that goes on after five bytes has no
  value.
\<close>

function read_uint_loop :: "memory \<Rightarrow> nat \<Rightarrow> u32 \<Rightarrow> nat \<Rightarrow> (u32 \<times> nat) option" where
  "read_uint_loop m buf val shift =
     (if shift \<ge> 32 then None
      else
        let new = m buf;
            val1 = val OR push_bit shift (ucast (new AND 0x7f))
        in if new AND 0x80 \<noteq> 0 then read_uint_loop m (buf + 1) val1 (shift + 7) else Some (val1, buf + 1))"
  by auto
termination by (relation "measure (\<lambda>(m, buf, val, shift). 32 - shift)") auto

definition read_uint :: "memory \<Rightarrow> nat \<Rightarrow> (u32 \<times> nat) option" where
  "read_uint m buf = read_uint_loop m buf 0 0"

definition apply_reloc :: "u32 \<Rightarrow> u32 \<Rightarrow> u32 \<Rightarrow> memory \<Rightarrow> memory" where
  "apply_reloc type addr off m =
     (if type = R_MIPS_32 then store_word (unat addr) (load_word (unat addr) m + off) m else m)"

partial_function (option) table_loop :: "link \<Rightarrow> u32 \<Rightarrow> nat \<Rightarrow> memory \<Rightarrow> memory option" where
  "table_loop l addr buf m =
     (case read_uint m buf of
        None \<Rightarrow> None
      | Some (type, buf1) \<Rightarrow>
          if type = R_MIPS_NONE then Some m
          else (case read_uint m buf1 of
                  None \<Rightarrow> None
                | Some (d, buf2) \<Rightarrow>
                    let addr1 = addr + push_bit 2 d
                    in table_loop l addr1 buf2 (apply_reloc type addr1 (get_field l Relocation_offset m) m)))"

definition arch_table_relocation :: "link \<Rightarrow> memory \<Rightarrow> memory option" where
  "arch_table_relocation l m = table_loop l (get_field l Relocation_base m) (unat (rel_table_start l)) m"

text \<open>The registers and the memory with which the relocated code starts.\<close>

record start_state =
  start_gp :: u32
  start_sp :: u32
  start_pc :: u32
  start_mem :: memory
  start_cache :: cache_ops

definition relocation_setup :: "link \<Rightarrow> u32 \<Rightarrow> memory \<Rightarrow> memory" where
  "relocation_setup l gp m =
     (let m1 = set_field l Old_gp gp m;
          m2 = set_field l New_gp ((get_field l Old_gp m1 - CFG_MONITOR_BASE l) + get_field l Relocation_base m1) m1
      in set_field l Relocation_offset (get_field l New_gp m2 - get_field l Old_gp m2) m2)"

definition relocation_clear :: "link \<Rightarrow> memory \<Rightarrow> memory" where
  "relocation_clear l m =
     rt_memset (unat (rtboot_data_end l + get_field l Relocation_offset m)) 0
       (unat (rtboot_end l - rtboot_data_end l)) m"

definition relocation_copy_data :: "link \<Rightarrow> memory \<Rightarrow> memory" where
  "relocation_copy_data l m =
     rt_memcpy (unat (rtboot_data l + get_field l Relocation_offset m)) (unat (rtboot_data l))
       (sizeof_system_boot_data l) m"

definition arch_relocation :: "link \<Rightarrow> u32 \<Rightarrow> memory \<Rightarrow> start_state option" where
  "arch_relocation l gp m =
     (let m1 = relocation_setup l gp m;
          m2 = rt_memcpy (unat (get_field l Relocation_base m1)) (unat (CFG_MONITOR_BASE l))
                 (unat (get_field l Rtboot_length m1)) m1
      in case arch_table_relocation l (arch_got_relocation l m2) of
           None \<Rightarrow> None
         | Some m3 \<Rightarrow>
             let m4 = relocation_clear l m3;
                 late_init = system_late_init l + get_field l Relocation_offset m4;
                 m5 = relocation_copy_data l m4
             in map_option
                  (\<lambda>ops. \<lparr>start_gp = get_field l New_gp m5, start_sp = get_field l Start_stack_base m5,
                           start_pc = late_init, start_mem = m5, start_cache = ops\<rparr>)
                  (arch_cache_flush l (get_field l Relocation_base m5) (get_field l Rtboot_length m5) m5))"

definition soc_early_init :: "link \<Rightarrow> u32 \<Rightarrow> memory \<Rightarrow> memory" where
  "soc_early_init l config1 m = arch_early_init l config1 m"

definition board_early_init :: "link \<Rightarrow> u32 \<Rightarrow> memory \<Rightarrow> memory" where
  "board_early_init l config1 m = soc_early_init l config1 m"

text \<open>\<open>gp\<close> is the register on entry, \<open>bootflag\<close> the memory size the first stage passes on.\<close>

definition system_early_init :: "link \<Rightarrow> u32 \<Rightarrow> u32 \<Rightarrow> u32 \<Rightarrow> memory \<Rightarrow> start_state option" where
  "system_early_init l config1 gp bootflag m =
     arch_relocation l gp (board_early_init l config1 (set_field l System_memsize bootflag m))"

declare output_uint.simps [simp del] read_uint_loop.simps [simp del]

section \<open>Variable-length integers\<close>

definition bytes_at :: "memory \<Rightarrow> nat \<Rightarrow> u8 list \<Rightarrow> bool" where
  "bytes_at m a bs \<longleftrightarrow> (\<forall>i < length bs. m (a + i) = bs ! i)"

lemma bytes_at_Nil [simp]: "bytes_at m a []"
  by (simp add: bytes_at_def)

lemma bytes_at_Cons [simp]: "bytes_at m a (b # bs) \<longleftrightarrow> m a = b \<and> bytes_at m (a + 1) bs"
  by (auto simp: bytes_at_def less_Suc_eq_0_disj)

lemma bytes_at_append: "bytes_at m a (bs @ cs) \<longleftrightarrow> bytes_at m a bs \<and> bytes_at m (a + length bs) cs"
  by (induction bs arbitrary: a) auto

lemma bytes_at_cong:
  "bytes_at m a bs \<Longrightarrow> (\<And>x. a \<le> x \<Longrightarrow> x < a + length bs \<Longrightarrow> m' x = m x) \<Longrightarrow> bytes_at m' a bs"
  by (simp add: bytes_at_def)

lemma bit_0x80: "bit (0x80 :: int) i = (i = 7)"
  using bit_exp_iff [of 7 i, where 'a = int] by auto

text \<open>The byte that \<open>output_uint\<close> writes first: seven bits of the value and the mark to go on.\<close>

lemma output_byte:
  fixes v :: u64 and c :: bool
  defines "b \<equiv> ucast (v AND 0x7f OR (if c then 0x80 else 0)) :: u8"
  shows "b AND 0x80 \<noteq> 0 \<longleftrightarrow> c" "(ucast (b AND 0x7f) :: u32) = take_bit 7 (ucast v)"
proof -
  have n: "(0x7f :: u64) = mask 7" "(0x7f :: u8) = mask 7" by (simp_all add: mask_eq_exp_minus_1)
  have bit: "bit b i = (i < 7 \<and> bit v i \<or> i = 7 \<and> c)" for i
    unfolding b_def n by (auto simp: bit_ucast_iff bit_or_iff bit_and_iff bit_mask_iff bit_0x80)
  have "b AND 0x80 = (if c then 0x80 else 0)"
    by (rule bit_word_eqI) (auto simp: bit_and_iff bit bit_0x80)
  then show "b AND 0x80 \<noteq> 0 \<longleftrightarrow> c" by (auto split: if_splits)
  show "(ucast (b AND 0x7f) :: u32) = take_bit 7 (ucast v)"
    unfolding n by (rule bit_word_eqI) (auto simp: bit_simps bit)
qed

lemma read_output_aux:
  "bytes_at m buf (output_uint v) \<Longrightarrow> shift < 32 \<Longrightarrow> unat v < 2 ^ (32 - shift) \<Longrightarrow>
   read_uint_loop m buf val shift = Some (val OR push_bit shift (ucast v), buf + length (output_uint v))"
proof (induction v arbitrary: buf val shift rule: output_uint.induct)
  case (1 v)
  let ?v = "drop_bit 7 v"
  let ?b = "ucast (v AND 0x7f OR (if ?v \<noteq> 0 then 0x80 else 0)) :: u8"
  have out: "output_uint v = ?b # (if ?v \<noteq> 0 then output_uint ?v else [])"
    by (subst output_uint.simps) (simp only: Let_def)
  have mb: "m buf = ?b" using 1(2) unfolding out by simp
  have un: "unat ?v = unat v div 2 ^ 7"
  proof -
    have t: "take_bit 64 (unat v) = unat v"
      using unsigned_less [of v, where 'a = nat] by (intro take_bit_nat_eq_self) simp
    show ?thesis by (simp only: unsigned_drop_bit_eq) (simp add: drop_bit_eq_div t)
  qed
  have rd: "read_uint_loop m buf val shift =
    (if ?v \<noteq> 0 then read_uint_loop m (buf + 1) (val OR push_bit shift (take_bit 7 (ucast v))) (shift + 7)
     else Some (val OR push_bit shift (take_bit 7 (ucast v)), buf + 1))"
    using 1(3) output_byte [of v "?v \<noteq> 0"] by (subst read_uint_loop.simps) (simp only: mb Let_def not_less [symmetric] if_False simp_thms)
  show ?case
  proof (cases "?v = 0")
    case True
    have "take_bit 7 (ucast v) = (ucast v :: u32)"
    proof (rule bit_word_eqI)
      fix i assume "i < LENGTH(32)"
      have "\<not> bit v i" if "7 \<le> i"
      proof -
        have "\<not> bit ?v (i - 7)" using True by simp
        with that show ?thesis by (simp add: bit_drop_bit_eq)
      qed
      then show "bit (take_bit 7 (ucast v :: u32)) i = bit (ucast v :: u32) i"
        by (cases "i < 7") (auto simp: bit_simps)
    qed
    with True rd show ?thesis by (simp add: out)
  next
    case False
    then have "unat ?v \<noteq> 0" by (simp add: unsigned_eq_0_iff)
    then have "2 ^ 7 \<le> unat v" unfolding un by (metis div_less not_less)
    with 1(4) have "(2::nat) ^ 7 < 2 ^ (32 - shift)" by linarith
    then have sh: "7 < 32 - shift" by (rule power_less_imp_less_exp [rotated]) simp
    have "unat ?v < 2 ^ (32 - (shift + 7))"
    proof -
      have "unat v < 2 ^ 7 * 2 ^ (32 - (shift + 7))" using 1(4) sh by (simp only: power_add [symmetric]) (simp add: le_diff_conv)
      then show ?thesis unfolding un by (metis less_mult_imp_div_less mult.commute)
    qed
    moreover have "bytes_at m (buf + 1) (output_uint ?v)" using 1(2) False unfolding out by simp
    moreover have "shift + 7 < 32" using sh by simp
    ultimately have "read_uint_loop m (buf + 1) (val OR push_bit shift (take_bit 7 (ucast v))) (shift + 7) =
        Some ((val OR push_bit shift (take_bit 7 (ucast v))) OR push_bit (shift + 7) (ucast ?v), buf + 1 + length (output_uint ?v))"
      using 1(1) [OF refl refl False] by blast
    moreover have "push_bit shift (take_bit 7 (ucast v)) OR push_bit (shift + 7) (ucast ?v) = (push_bit shift (ucast v) :: u32)"
    proof (rule bit_word_eqI)
      fix n assume "n < LENGTH(32)"
      show "bit (push_bit shift (take_bit 7 (ucast v)) OR push_bit (shift + 7) (ucast ?v) :: u32) n =
          bit (push_bit shift (ucast v) :: u32) n"
      proof (cases "n - shift < 7")
        case False
        then have "7 + (n - (shift + 7)) = n - shift" by simp
        with False show ?thesis by (auto simp: bit_simps)
      qed (auto simp: bit_simps)
    qed
    ultimately show ?thesis using False rd by (simp add: out or.assoc)
  qed
qed

lemma read_output:
  assumes "bytes_at m buf (output_uint v)" "unat v < 2 ^ 32"
  shows "read_uint m buf = Some (ucast v, buf + length (output_uint v))"
  using read_output_aux [OF assms(1), of 0 0] assms(2) by (simp add: read_uint_def)


section \<open>The table of the tool\<close>

text \<open>Offsets below \<open>2 ^ 31\<close> are compared as they should be.\<close>

lemma compare_relocs_le:
  assumes "unat (rel_offset a) < 2 ^ 31" "unat (rel_offset b) < 2 ^ 31"
  shows "compare_relocs a b \<le> 0 \<longleftrightarrow> rel_offset a \<le> rel_offset b"
proof -
  let ?a = "uint (rel_offset a)" and ?b = "uint (rel_offset b)"
  have bd: "?a < 2 ^ 31" "?b < 2 ^ 31" "0 \<le> ?a" "0 \<le> ?b"
    using assms by (simp_all flip: nat_uint_eq)
  have "(ucast (word_of_int k :: u64) :: u32) = word_of_int k" for k
    by (simp add: unsigned_of_int word_of_int_eq_iff min_def)
  from this [of "?a - ?b"] have "compare_relocs a b = sint (word_of_int (?a - ?b) :: u32)"
    by (simp add: compare_relocs_def)
  also have "\<dots> = signed_take_bit 31 (?a - ?b)" by (simp only: signed_of_int) simp
  also have "\<dots> = ?a - ?b" using bd by (intro signed_take_bit_int_eq_self) linarith+
  finally show ?thesis using bd by (simp add: word_le_def)
qed

section \<open>The order of the table\<close>

lemma qsort_insert_set [simp]: "set (qsort_insert r xs) = insert r (set xs)"
  by (induction xs) auto

lemma qsort_insert_distinct:
  "distinct (map rel_offset (qsort_insert r xs)) \<longleftrightarrow> distinct (map rel_offset (r # xs))"
  by (induction xs) (auto simp: image_iff)

definition before :: "mips_reloc \<Rightarrow> mips_reloc \<Rightarrow> bool" where
  "before a b \<longleftrightarrow> rel_offset a \<le> rel_offset b"

lemma qsort_insert_sorted:
  assumes "sorted_wrt before xs" "\<forall>x \<in> set (r # xs). unat (rel_offset x) < 2 ^ 31"
  shows "sorted_wrt before (qsort_insert r xs)"
  using assms
proof (induction xs)
  case (Cons x xs)
  then have c: "compare_relocs r x \<le> 0 \<longleftrightarrow> rel_offset r \<le> rel_offset x"
    and s: "\<forall>y \<in> set xs. rel_offset x \<le> rel_offset y"
    by (simp_all add: compare_relocs_le before_def)
  have i: "sorted_wrt before (qsort_insert r xs)" using Cons by simp
  show ?case
  proof (cases "rel_offset r \<le> rel_offset x")
    case True
    with Cons.prems(1) s c show ?thesis by (auto simp: before_def)
  next
    case False
    with s have "\<forall>y \<in> set (r # xs). before x y" by (auto simp: before_def)
    with False c i show ?thesis by simp
  qed
qed simp

lemma qsort_relocs_set: "set (qsort_relocs rs) = set rs"
  unfolding qsort_relocs_def by (induction rs) auto

lemma qsort_relocs_distinct: "distinct (map rel_offset (qsort_relocs rs)) = distinct (map rel_offset rs)"
proof (induction rs)
  case (Cons r rs)
  have "distinct (map rel_offset (qsort_relocs (r # rs))) = distinct (map rel_offset (r # qsort_relocs rs))"
    using qsort_insert_distinct by (simp add: qsort_relocs_def)
  with Cons show ?case by (simp add: qsort_relocs_set)
qed (simp add: qsort_relocs_def)

lemma qsort_relocs_sorted:
  "\<forall>x \<in> set rs. unat (rel_offset x) < 2 ^ 31 \<Longrightarrow> sorted_wrt before (qsort_relocs rs)"
proof (induction rs)
  case (Cons r rs)
  then have "sorted_wrt before (qsort_relocs rs)" by simp
  moreover have "\<forall>x \<in> set (r # qsort_relocs rs). unat (rel_offset x) < 2 ^ 31"
    using Cons.prems by (simp add: qsort_relocs_set)
  ultimately show ?case
    using qsort_insert_sorted by (simp add: qsort_relocs_def)
qed (simp add: qsort_relocs_def)

text \<open>The relative offsets, each from its predecessor.\<close>

fun deltas :: "u64 \<Rightarrow> mips_reloc list \<Rightarrow> mips_reloc list" where
  "deltas p [] = []"
| "deltas p (r # rs) = r\<lparr>rel_offset := rel_offset r - p\<rparr> # deltas (rel_offset r) rs"

lemma length_deltas [simp]: "length (deltas p rs) = length rs"
  by (induction rs arbitrary: p) auto

lemma deltas_nth:
  "i < length rs \<Longrightarrow>
   deltas p rs ! i = (rs ! i)\<lparr>rel_offset := rel_offset (rs ! i) - (if i = 0 then p else rel_offset (rs ! (i - 1)))\<rparr>"
  by (induction rs arbitrary: p i) (auto simp: nth_Cons split: nat.split)

lemma length_delta_loop [simp]: "length (delta_loop n rs) = length rs"
  by (induction n arbitrary: rs) auto

lemma delta_loop_nth:
  "n < length rs \<Longrightarrow> i < length rs \<Longrightarrow>
   delta_loop n rs ! i =
     (if 0 < i \<and> i \<le> n then (rs ! i)\<lparr>rel_offset := rel_offset (rs ! i) - rel_offset (rs ! (i - 1))\<rparr> else rs ! i)"
  by (induction n arbitrary: rs) (auto simp: nth_list_update le_Suc_eq)

lemma delta_loop_deltas: "rs \<noteq> [] \<Longrightarrow> delta_loop (length rs - 1) rs = deltas 0 rs"
proof (rule nth_equalityI, simp)
  fix i assume "rs \<noteq> []" "i < length (delta_loop (length rs - 1) rs)"
  then have "i < length rs" "length rs - 1 < length rs" "i \<le> length rs - 1" by auto
  then show "delta_loop (length rs - 1) rs ! i = deltas 0 rs ! i"
    by (subst delta_loop_nth) (auto simp: deltas_nth)
qed

section \<open>Applying the table\<close>

definition relocate_word :: "nat \<Rightarrow> u32 \<Rightarrow> memory \<Rightarrow> memory" where
  "relocate_word a off m = store_word a (load_word a m + off) m"

text \<open>\<open>n\<close> bytes at \<open>a\<close> lie outside the new image of \<open>L\<close> bytes.\<close>

definition outside :: "u32 \<Rightarrow> nat \<Rightarrow> nat \<Rightarrow> nat \<Rightarrow> bool" where
  "outside base L a n \<longleftrightarrow> a + n \<le> unat base \<or> unat base + L \<le> a"

definition good_reloc :: "nat \<Rightarrow> mips_reloc \<Rightarrow> bool" where
  "good_reloc L r \<longleftrightarrow> rel_type r = ucast R_MIPS_32 \<and> 4 dvd unat (rel_offset r) \<and> unat (rel_offset r) + 4 \<le> L"

lemma output_uint_small: "unat v < 128 \<Longrightarrow> output_uint v = [ucast v]"
proof -
  assume v: "unat v < 128"
  have d: "drop_bit 7 v = 0"
    using v by (simp only: drop_bit_eq_div unat_eq_0 [symmetric] unat_div) simp
  have "v AND 0x7f = v"
  proof -
    have "v AND mask 7 = take_bit 7 v" by (simp add: take_bit_eq_mask)
    also have "\<dots> = v" using d by (metis bits_ident add_0 push_bit_of_0 add.commute)
    finally show ?thesis by (simp add: mask_eq_exp_minus_1)
  qed
  with d show ?thesis by (subst output_uint.simps) simp
qed

lemma shift_offset:
  fixes d :: u64
  assumes "4 dvd unat d"
  shows "push_bit 2 (ucast (drop_bit 2 d)) = (ucast d :: u32)"
proof -
  have "take_bit 2 d = 0"
    using assms by (simp only: take_bit_eq_mod unat_eq_0 [symmetric] unat_mod) (simp add: dvd_eq_mod_eq_0)
  then have "\<not> bit (take_bit 2 d) n" for n by simp
  then have "bit d n \<Longrightarrow> 2 \<le> n" for n by (simp add: bit_take_bit_iff) (meson not_less)
  moreover from this have "bit d n \<Longrightarrow> Suc (Suc (n - 2)) = n" for n by fastforce
  moreover have "2 \<le> n \<Longrightarrow> Suc (Suc (n - 2)) = n" for n :: nat by simp
  ultimately show ?thesis by (intro bit_word_eqI) (auto simp: bit_simps)
qed

lemma outside_relocate:
  "good_reloc L r \<Longrightarrow> outside base L a n \<Longrightarrow> a \<le> x \<Longrightarrow> x < a + n \<Longrightarrow>
   relocate_word (unat base + unat (rel_offset r)) off m x = m x"
  by (auto simp: relocate_word_def outside_def good_reloc_def)

lemma ucast_add_u32: "(ucast (a + b :: u64) :: u32) = ucast a + ucast b"
proof -
  have w: "(ucast (word_of_int k :: u64) :: u32) = word_of_int k" for k
    by (simp add: unsigned_of_int word_of_int_eq_iff min_def)
  show ?thesis using w [of "uint a + uint b"] w [of "uint a"] w [of "uint b"] by simp
qed

lemma unat_base_offset:
  assumes "unat (x :: u64) < 2 ^ 31" "unat (base :: u32) + unat x < 2 ^ 32"
  shows "unat (base + ucast x) = unat base + unat x"
proof -
  have "unat (ucast x :: u32) = unat x"
    using assms(1) by (simp only: unsigned_ucast_eq) (simp add: take_bit_nat_eq_self)
  with assms(2) show ?thesis by (simp add: unat_word_ariths)
qed

lemma table_step:
  assumes p: "p \<le> rel_offset r" "4 dvd unat p" and g: "good_reloc L r" "L \<le> 2 ^ 31" "unat base + L \<le> 2 ^ 32"
    and b: "bytes_at m buf (write_reloc (r\<lparr>rel_offset := rel_offset r - p\<rparr>))"
  shows "table_loop l (base + ucast p) buf m =
    table_loop l (base + ucast (rel_offset r)) (buf + length (write_reloc (r\<lparr>rel_offset := rel_offset r - p\<rparr>)))
      (relocate_word (unat base + unat (rel_offset r)) (get_field l Relocation_offset m) m)"
proof -
  let ?d = "rel_offset r - p" and ?t = "output_uint (ucast (rel_type r))"
  have ud: "unat ?d = unat (rel_offset r) - unat p" using p(1) by (simp add: unat_sub)
  have ur: "unat (rel_offset r) < 2 ^ 31" using g by (simp add: good_reloc_def)
  have t2: "(ucast (ucast (rel_type r) :: u64) :: u32) = R_MIPS_32" "unat (ucast (rel_type r) :: u64) < 2 ^ 32"
    using g(1) by (simp_all add: good_reloc_def R_MIPS_32_def)
  have bt: "bytes_at m buf ?t" "bytes_at m (buf + length ?t) (output_uint (drop_bit 2 ?d))"
    using b by (simp_all add: write_reloc_def bytes_at_append)
  have r1: "read_uint m buf = Some (R_MIPS_32, buf + length ?t)"
    using read_output [OF bt(1) t2(2)] t2(1) by simp
  have "unat (drop_bit 2 ?d) \<le> unat ?d" by (simp only: drop_bit_eq_div unat_div) simp
  then have "unat (drop_bit 2 ?d) < 2 ^ 32" using ud ur by simp
  then have r2: "read_uint m (buf + length ?t) = Some (ucast (drop_bit 2 ?d), buf + length ?t + length (output_uint (drop_bit 2 ?d)))"
    by (rule read_output [OF bt(2)])
  have "4 dvd unat ?d" unfolding ud using g(1) p(2) by (simp add: good_reloc_def)
  then have "push_bit 2 (ucast (drop_bit 2 ?d)) = (ucast ?d :: u32)" by (rule shift_offset)
  moreover have "(ucast p :: u32) + ucast ?d = ucast (rel_offset r)"
    by (simp flip: ucast_add_u32)
  ultimately have a: "base + ucast p + push_bit 2 (ucast (drop_bit 2 ?d)) = base + ucast (rel_offset r)"
    by (simp add: add.assoc)
  have "unat (base + ucast (rel_offset r)) = unat base + unat (rel_offset r)"
    using g ur by (intro unat_base_offset) (auto simp: good_reloc_def)
  then show ?thesis
    by (subst table_loop.simps) (simp add: r1 r2 a [unfolded add.assoc] Let_def apply_reloc_def relocate_word_def write_reloc_def R_MIPS_32_def R_MIPS_NONE_def add.assoc)
qed

definition relocate_words :: "u32 \<Rightarrow> u32 \<Rightarrow> mips_reloc list \<Rightarrow> memory \<Rightarrow> memory" where
  "relocate_words base off rs m = fold (\<lambda>r. relocate_word (unat base + unat (rel_offset r)) off) rs m"

lemma table_loop_words:
  assumes "sorted_wrt before rs" "\<forall>r \<in> set rs. p \<le> rel_offset r \<and> good_reloc L r" "4 dvd unat p"
    and "bytes_at m buf (concat (map write_reloc (deltas p rs)) @ [0])"
    and "outside base L buf (length (concat (map write_reloc (deltas p rs)) @ [0]))"
    and "outside base L (field_addr l Relocation_offset) 4" "L \<le> 2 ^ 31" "unat base + L \<le> 2 ^ 32"
  shows "table_loop l (base + ucast p) buf m = Some (relocate_words base (get_field l Relocation_offset m) rs m)"
  using assms(1-5)
proof (induction rs arbitrary: p buf m)
  case Nil
  then have "bytes_at m buf (output_uint 0)" by (simp add: output_uint_small)
  then have "read_uint m buf = Some (0, buf + length (output_uint 0))" using read_output by fastforce
  then show ?case by (subst table_loop.simps) (simp add: R_MIPS_NONE_def relocate_words_def)
next
  case (Cons r rs)
  let ?w = "write_reloc (r\<lparr>rel_offset := rel_offset r - p\<rparr>)"
  let ?m = "relocate_word (unat base + unat (rel_offset r)) (get_field l Relocation_offset m) m"
  have g: "p \<le> rel_offset r" "good_reloc L r" using Cons.prems(2) by auto
  have bt: "bytes_at m buf ?w" "bytes_at m (buf + length ?w) (concat (map write_reloc (deltas (rel_offset r) rs)) @ [0])"
    using Cons.prems(4) by (simp_all add: bytes_at_append del: bytes_at_Cons)
  have out: "outside base L (buf + length ?w) (length (concat (map write_reloc (deltas (rel_offset r) rs)) @ [0]))"
    using Cons.prems(5) by (auto simp: outside_def)
  have "bytes_at ?m (buf + length ?w) (concat (map write_reloc (deltas (rel_offset r) rs)) @ [0])"
    by (rule bytes_at_cong [OF bt(2)]) (rule outside_relocate [OF g(2) out])
  moreover have "get_field l Relocation_offset ?m = get_field l Relocation_offset m"
    unfolding get_field_def by (rule load_word_cong) (rule outside_relocate [OF g(2) assms(6)])
  moreover have "\<forall>x \<in> set rs. rel_offset r \<le> rel_offset x \<and> good_reloc L x"
    using Cons.prems(1,2) by (simp add: before_def)
  ultimately have "table_loop l (base + ucast (rel_offset r)) (buf + length ?w) ?m =
      Some (relocate_words base (get_field l Relocation_offset m) rs ?m)"
    using Cons.IH [of "rel_offset r" ?m "buf + length ?w"] Cons.prems(1) g(2) out by (simp add: good_reloc_def)
  then show ?case
    using table_step [OF g(1) Cons.prems(3) g(2) assms(7,8) bt(1)] by (simp add: relocate_words_def)
qed

lemma relocate_words_outside:
  "\<forall>r \<in> set rs. good_reloc L r \<Longrightarrow> outside base L x 1 \<Longrightarrow> relocate_words base off rs m x = m x"
proof (induction rs arbitrary: m)
  case (Cons r rs)
  then show ?case using outside_relocate [of L r base x 1 x off m] by (simp add: relocate_words_def)
qed (simp add: relocate_words_def)

lemma relocate_words_load:
  assumes "\<forall>r \<in> set rs. 4 dvd unat (rel_offset r)" "distinct (map rel_offset rs)"
  shows "load_word (unat base + 4 * k) (relocate_words base off rs m) =
    load_word (unat base + 4 * k) m + (if \<exists>r \<in> set rs. unat (rel_offset r) = 4 * k then off else 0)"
  using assms
proof (induction rs arbitrary: m)
  case (Cons r rs)
  let ?m = "relocate_word (unat base + unat (rel_offset r)) off m"
  obtain j where j: "unat (rel_offset r) = 4 * j" using Cons.prems(1) by (auto elim: dvdE)
  have "load_word (unat base + 4 * k) ?m =
      load_word (unat base + 4 * k) m + (if unat (rel_offset r) = 4 * k then off else 0)"
    by (cases k j rule: linorder_cases) (auto simp: relocate_word_def j)
  moreover have "unat (rel_offset r) = 4 * k \<Longrightarrow> \<not> (\<exists>x \<in> set rs. unat (rel_offset x) = 4 * k)"
    using Cons.prems(2) by (metis distinct.simps(2) image_eqI list.simps(9) list.set_map unsigned_word_eqI)
  ultimately show ?case
    using Cons.IH [of ?m] Cons.prems by (auto simp: relocate_words_def)
qed (simp add: relocate_words_def)

lemma reloc_section_table:
  assumes "reloc_section n rs = Some (Inr tbl)"
  shows "tbl = concat (map write_reloc (deltas 0 (qsort_relocs rs))) @ [0]"
proof -
  have ne: "rs \<noteq> []" using assms by (auto simp: reloc_section_def)
  then have q: "qsort_relocs rs \<noteq> []" using qsort_relocs_set [of rs] by (metis set_empty)
  have "length (qsort_relocs rs) = length rs"
  proof -
    have "length (qsort_insert r xs) = Suc (length xs)" for r xs by (induction xs) auto
    then show ?thesis unfolding qsort_relocs_def by (induction rs) auto
  qed
  then have "delta_loop (length rs - 1) (qsort_relocs rs) = deltas 0 (qsort_relocs rs)"
    using delta_loop_deltas [OF q] by simp
  then show ?thesis
    using assms ne by (auto simp: reloc_section_def R_MIPS_NONE_def Let_def output_uint_small split: if_splits)
qed

lemma arch_table_relocation_words:
  fixes l m
  defines "base \<equiv> get_field l Relocation_base m"
  assumes tbl: "reloc_section n rs = Some (Inr tbl)" "bytes_at m (unat (rel_table_start l)) tbl"
    and rs: "\<forall>r \<in> set rs. good_reloc L r" "distinct (map rel_offset rs)"
    and L: "L \<le> 2 ^ 31" "unat base + L \<le> 2 ^ 32"
    and out: "outside base L (unat (rel_table_start l)) (length tbl)" "outside base L (field_addr l Relocation_offset) 4"
  shows "arch_table_relocation l m = Some (relocate_words base (get_field l Relocation_offset m) (qsort_relocs rs) m)"
proof -
  let ?q = "qsort_relocs rs"
  have q: "\<forall>r \<in> set ?q. 0 \<le> rel_offset r \<and> good_reloc L r" using rs(1) by (simp add: qsort_relocs_set)
  have s: "sorted_wrt before ?q" using rs(1) L by (intro qsort_relocs_sorted) (auto simp: good_reloc_def)
  note t = reloc_section_table [OF tbl(1)]
  show ?thesis
    using table_loop_words [OF s q _ tbl(2) [unfolded t] out(1) [unfolded t] out(2) L]
    by (simp add: arch_table_relocation_def base_def)
qed

lemma table_roundtrip_aux:
  fixes l m
  defines "base \<equiv> get_field l Relocation_base m"
  assumes "reloc_section n rs = Some (Inr tbl)" "bytes_at m (unat (rel_table_start l)) tbl"
    and rs: "\<forall>r \<in> set rs. good_reloc L r" "distinct (map rel_offset rs)"
    and "L \<le> 2 ^ 31" "unat base + L \<le> 2 ^ 32"
    and "outside base L (unat (rel_table_start l)) (length tbl)" "outside base L (field_addr l Relocation_offset) 4"
  shows "\<exists>m'. arch_table_relocation l m = Some m' \<and>
    (\<forall>k. load_word (unat base + 4 * k) m' = load_word (unat base + 4 * k) m +
       (if \<exists>r \<in> set rs. unat (rel_offset r) = 4 * k then get_field l Relocation_offset m else 0)) \<and>
    (\<forall>x. outside base L x 1 \<longrightarrow> m' x = m x)"
proof (intro exI conjI)
  show "arch_table_relocation l m =
      Some (relocate_words base (get_field l Relocation_offset m) (qsort_relocs rs) m)"
    using assms unfolding base_def by (intro arch_table_relocation_words) auto
  have q: "\<forall>r \<in> set (qsort_relocs rs). good_reloc L r" "distinct (map rel_offset (qsort_relocs rs))"
    using rs by (simp_all add: qsort_relocs_set qsort_relocs_distinct)
  then show "\<forall>x. outside base L x 1 \<longrightarrow>
      relocate_words base (get_field l Relocation_offset m) (qsort_relocs rs) m x = m x"
    by (simp add: relocate_words_outside)
  from q have "\<forall>r \<in> set (qsort_relocs rs). 4 dvd unat (rel_offset r)" by (simp add: good_reloc_def)
  from relocate_words_load [OF this q(2)]
  show "\<forall>k. load_word (unat base + 4 * k)
        (relocate_words base (get_field l Relocation_offset m) (qsort_relocs rs) m) =
      load_word (unat base + 4 * k) m +
        (if \<exists>r \<in> set rs. unat (rel_offset r) = 4 * k then get_field l Relocation_offset m else 0)"
    by (simp add: qsort_relocs_set)
qed

section \<open>The global offset table\<close>

lemma got_loop_words:
  assumes out: "outside base L (field_addr l Relocation_offset) 4"
    and p: "p = unat base + 4 * g" "4 * (g + i + n) \<le> L"
    and off: "get_field l Relocation_offset m = off"
  shows "load_word (unat base + 4 * k) (got_loop l p i n m) =
      (let v = load_word (unat base + 4 * k) m in v + (if g + i \<le> k \<and> k < g + i + n \<and> v \<noteq> 0 then off else 0))"
    and "outside base L x 1 \<Longrightarrow> got_loop l p i n m x = m x"
proof -
  let ?a = "p + 4 * i"
  have "\<forall>k. load_word (unat base + 4 * k) (got_loop l p i n m) =
        (let v = load_word (unat base + 4 * k) m in v + (if g + i \<le> k \<and> k < g + i + n \<and> v \<noteq> 0 then off else 0)) \<and>
      (outside base L x 1 \<longrightarrow> got_loop l p i n m x = m x)"
    using p(2) off
  proof (induction n arbitrary: i m)
    case (Suc n)
    let ?v = "load_word (p + 4 * i) m"
    let ?m = "if ?v \<noteq> 0 then store_word (p + 4 * i) (?v + off) m else m"
    have sb: "?m x = m x" if "outside base L x 1" for x
      using that Suc.prems(1) p(1) by (auto simp: outside_def)
    have "load_word (field_addr l Relocation_offset) ?m = load_word (field_addr l Relocation_offset) m"
      by (rule load_word_cong) (use out in \<open>intro sb, auto simp: outside_def\<close>)
    with Suc.prems(2) have gf: "get_field l Relocation_offset ?m = off" by (simp add: get_field_def)
    have le: "4 * (g + (i + 1) + n) \<le> L" using Suc.prems(1) by simp
    have ih: "load_word (unat base + 4 * k) (got_loop l p (i + 1) n ?m) =
          (let v = load_word (unat base + 4 * k) ?m in v + (if g + (i + 1) \<le> k \<and> k < g + (i + 1) + n \<and> v \<noteq> 0 then off else 0))"
        "outside base L x 1 \<longrightarrow> got_loop l p (i + 1) n ?m x = ?m x" for k
      using Suc.IH [OF le gf] by blast+
    have ld: "load_word (unat base + 4 * k) ?m =
        (let v = load_word (unat base + 4 * k) m in v + (if k = g + i \<and> v \<noteq> 0 then off else 0))" for k
      by (cases k "g + i" rule: linorder_cases) (auto simp: p(1) Let_def add.assoc)
    have st: "got_loop l p i (Suc n) m = got_loop l p (i + 1) n ?m"
      using Suc.prems(2) by (simp add: Let_def)
    show ?case
    proof (intro allI conjI)
      fix k
      show "load_word (unat base + 4 * k) (got_loop l p i (Suc n) m) =
        (let v = load_word (unat base + 4 * k) m in v + (if g + i \<le> k \<and> k < g + i + Suc n \<and> v \<noteq> 0 then off else 0))"
        unfolding st ih(1) ld by (auto simp: Let_def)
      show "outside base L x 1 \<longrightarrow> got_loop l p i (Suc n) m x = m x" unfolding st using ih(2) sb by simp
    qed
  qed (auto simp: Let_def)
  then show "load_word (unat base + 4 * k) (got_loop l p i n m) =
      (let v = load_word (unat base + 4 * k) m in v + (if g + i \<le> k \<and> k < g + i + n \<and> v \<noteq> 0 then off else 0))"
    and "outside base L x 1 \<Longrightarrow> got_loop l p i n m x = m x" by blast+
qed

section \<open>The whole relocation\<close>

text \<open>
  What the linker script and \<open>arch_early_init\<close> provide: the image of \<open>L\<close> bytes at \<open>CFG_MONITOR_BASE\<close>
  with its parts inside, and a place for the copy that does not touch it.
\<close>

definition boot_layout :: "link \<Rightarrow> u32 \<Rightarrow> memory \<Rightarrow> u8 list \<Rightarrow> bool" where
  "boot_layout l gp m tbl \<longleftrightarrow>
     (let B = unat (CFG_MONITOR_BASE l); N = unat (get_field l Relocation_base m);
          L = unat (get_field l Rtboot_length m); d = unat (rtboot_data l); n = sizeof_system_boot_data l
      in B + L \<le> N \<and> N + L + 256 \<le> 2 ^ 32 \<and> 256 dvd N \<and> caches_ok l m \<and> L \<le> 2 ^ 31 \<and>
         unat (rtboot_end l) = B + L \<and> B \<le> unat (rtboot_data_end l) \<and> rtboot_data_end l \<le> rtboot_end l \<and>
         B \<le> d \<and> d + n \<le> B + L \<and> 108 \<le> n \<and>
         B \<le> unat gp \<and> 4 dvd (unat gp - B) \<and> unat gp + 4 * (unat (got_end l - got_start l) div 4) \<le> B + L \<and>
         B \<le> unat (rel_table_start l) \<and> unat (rel_table_start l) + length tbl \<le> B + L \<and>
         (unat (rel_table_start l) + length tbl \<le> d \<or> d + n \<le> unat (rel_table_start l)) \<and>
         bytes_at m (unat (rel_table_start l)) tbl)"

lemma relocation_setup_fields:
  "get_field l f (relocation_setup l gp m) =
     (case f of Old_gp \<Rightarrow> gp
      | New_gp \<Rightarrow> gp - CFG_MONITOR_BASE l + get_field l Relocation_base m
      | Relocation_offset \<Rightarrow> get_field l Relocation_base m - CFG_MONITOR_BASE l
      | _ \<Rightarrow> get_field l f m)"
  by (cases f) (simp_all add: relocation_setup_def get_set_field)

lemma relocation_setup_other:
  "x < unat (rtboot_data l) \<or> unat (rtboot_data l) + 108 \<le> x \<Longrightarrow> relocation_setup l gp m x = m x"
  by (simp add: relocation_setup_def set_field_other Let_def)

lemma unat_moved:
  fixes a base c :: u32
  assumes "unat c \<le> unat a" "unat a \<le> unat c + L" "unat base + L < 2 ^ 32"
  shows "unat (a + (base - c)) = unat base + (unat a - unat c)"
proof -
  have "a + (base - c) = base + (a - c)" by simp
  moreover have "unat (a - c) = unat a - unat c" using assms(1) by (simp add: unat_sub word_le_nat_alt)
  moreover from this have "unat (base + (a - c)) = unat base + (unat a - unat c)"
    using assms by (subst unat_word_ariths) simp
  ultimately show ?thesis by metis
qed

text \<open>The memory after the copy and the two relocation passes.\<close>

definition relocated_image :: "link \<Rightarrow> u32 \<Rightarrow> u32 \<Rightarrow> memory \<Rightarrow> mips_reloc list \<Rightarrow> nat \<Rightarrow> u32" where
  "relocated_image l gp off m rs k =
     (let B = unat (CFG_MONITOR_BASE l);
          g = (unat gp - B) div 4; v = load_word (B + 4 * k) m
      in v + (if g + 2 \<le> k \<and> k < g + unat (got_end l - got_start l) div 4 \<and> v \<noteq> 0 then off else 0)
           + (if \<exists>r \<in> set rs. unat (rel_offset r) = 4 * k then off else 0))"

lemma arch_relocation_passes:
  fixes l gp m
  defines "m1 \<equiv> relocation_setup l gp m"
  defines "base \<equiv> get_field l Relocation_base m" and "L \<equiv> unat (get_field l Rtboot_length m)"
  defines "m2 \<equiv> rt_memcpy (unat base) (unat (CFG_MONITOR_BASE l)) L m1"
  assumes lay: "boot_layout l gp m tbl" and tbl: "reloc_section n rs = Some (Inr tbl)"
    and rs: "\<forall>r \<in> set rs. good_reloc L r" "distinct (map rel_offset rs)"
  shows "\<exists>m3. arch_table_relocation l (arch_got_relocation l m2) = Some m3 \<and>
    (\<forall>k. 4 * k + 4 \<le> L \<longrightarrow> (unat (CFG_MONITOR_BASE l) + 4 * k + 4 \<le> unat (rtboot_data l) \<or>
        unat (rtboot_data l) + 108 \<le> unat (CFG_MONITOR_BASE l) + 4 * k) \<longrightarrow>
      load_word (unat base + 4 * k) m3 = relocated_image l gp (base - CFG_MONITOR_BASE l) m rs k) \<and>
    (\<forall>x. outside base L x 1 \<longrightarrow> m3 x = m1 x)"
proof -
  let ?B = "unat (CFG_MONITOR_BASE l)" and ?off = "base - CFG_MONITOR_BASE l" and ?g = "(unat gp - unat (CFG_MONITOR_BASE l)) div 4"
  let ?n = "unat (got_end l - got_start l) div 4"
  note lay' = lay [unfolded boot_layout_def Let_def, folded base_def L_def]
  have m2: "m2 = mem_copy (unat base) ?B L m1" unfolding m2_def using lay' by (intro rt_memcpy_copy) simp
  have out2: "m2 x = m1 x" if "outside base L x 1" for x using that by (auto simp: m2 mem_copy_def outside_def)
  have fout: "outside base L (field_addr l f) 4" for f
    using field_addr_bounds [of l f] lay' by (auto simp: outside_def)
  have fld: "get_field l f m' = get_field l f m1" if "\<And>x. outside base L x 1 \<Longrightarrow> m' x = m1 x" for f m'
    unfolding get_field_def by (rule load_word_cong) (use fout [of f] that in \<open>auto simp: outside_def\<close>)
  have ld2: "load_word (unat base + 4 * k) m2 = load_word (?B + 4 * k) m1" if "4 * k + 4 \<le> L" for k
    using that by (simp add: m2 mem_copy_def load_word_def add.assoc)
  have f1: "get_field l New_gp m1 = gp + ?off" "get_field l Relocation_offset m1 = ?off" "get_field l Relocation_base m1 = base"
    unfolding m1_def by (simp_all add: relocation_setup_fields base_def)
  have f2: "get_field l f m2 = get_field l f m1" for f by (rule fld) (rule out2)
  have p: "unat (get_field l New_gp m2) = unat base + 4 * ?g"
    using lay' unat_moved [of "CFG_MONITOR_BASE l" gp L base] by (simp add: f2 f1)
  define m2' where "m2' = arch_got_relocation l m2"
  have gl: "4 * (?g + 2 + (?n - 2)) \<le> L \<or> ?n \<le> 2" using lay' by auto
  have got: "load_word (unat base + 4 * k) m2' =
      (let v = load_word (unat base + 4 * k) m2 in v + (if ?g + 2 \<le> k \<and> k < ?g + ?n \<and> v \<noteq> 0 then ?off else 0))"
    "outside base L x 1 \<Longrightarrow> m2' x = m2 x" for k x
  proof -
    have m2': "m2' = got_loop l (unat (get_field l New_gp m2)) 2 (?n - 2) m2"
      by (simp add: m2'_def arch_got_relocation_def Let_def)
    have off: "get_field l Relocation_offset m2 = ?off" using f2 f1 by simp
    show "load_word (unat base + 4 * k) m2' =
        (let v = load_word (unat base + 4 * k) m2 in v + (if ?g + 2 \<le> k \<and> k < ?g + ?n \<and> v \<noteq> 0 then ?off else 0))"
      "outside base L x 1 \<Longrightarrow> m2' x = m2 x"
    proof (atomize (full), cases "?n \<le> 2")
      case True
      then show "load_word (unat base + 4 * k) m2' =
          (let v = load_word (unat base + 4 * k) m2 in v + (if ?g + 2 \<le> k \<and> k < ?g + ?n \<and> v \<noteq> 0 then ?off else 0)) \<and>
          (outside base L x 1 \<longrightarrow> m2' x = m2 x)" by (auto simp: m2' Let_def)
    next
      case False
      have n: "4 * (?g + 2 + (?n - 2)) \<le> L" "?g + 2 + (?n - 2) = ?g + ?n" using gl False by linarith+
      note got_loop_words [OF fout p n(1) off, unfolded n(2)]
      then
      show "load_word (unat base + 4 * k) m2' =
          (let v = load_word (unat base + 4 * k) m2 in v + (if ?g + 2 \<le> k \<and> k < ?g + ?n \<and> v \<noteq> 0 then ?off else 0)) \<and>
          (outside base L x 1 \<longrightarrow> m2' x = m2 x)" unfolding m2' by blast
    qed
  qed
  have out3: "m2' x = m1 x" if "outside base L x 1" for x using got(2) out2 that by simp
  have tout: "outside base L (unat (rel_table_start l)) (length tbl)" using lay' by (auto simp: outside_def)
  have bt: "bytes_at m2' (unat (rel_table_start l)) tbl"
  proof (rule bytes_at_cong)
    show "bytes_at m (unat (rel_table_start l)) tbl" using lay' by simp
    fix x assume x: "unat (rel_table_start l) \<le> x" "x < unat (rel_table_start l) + length tbl"
    then have "m2' x = m1 x" using tout by (intro out3) (auto simp: outside_def)
    also have "\<dots> = m x" unfolding m1_def using lay' x by (intro relocation_setup_other) auto
    finally show "m2' x = m x" .
  qed
  have f3: "get_field l f m2' = get_field l f m1" for f by (rule fld) (rule out3)
  then have "get_field l Relocation_base m2' = base" using f1 by simp
  with table_roundtrip_aux [of n rs tbl m2' l L] tbl bt rs lay' tout fout f3 f1
  obtain m3 where m3: "arch_table_relocation l m2' = Some m3"
    "\<And>k. load_word (unat base + 4 * k) m3 = load_word (unat base + 4 * k) m2' +
       (if \<exists>r \<in> set rs. unat (rel_offset r) = 4 * k then ?off else 0)"
    "\<And>x. outside base L x 1 \<Longrightarrow> m3 x = m2' x" by auto
  show ?thesis
  proof (intro exI conjI allI impI)
    show "arch_table_relocation l (arch_got_relocation l m2) = Some m3" using m3(1) by (simp add: m2'_def)
    show "m3 x = m1 x" if "outside base L x 1" for x using m3(3) out3 that by simp
    fix k assume k: "4 * k + 4 \<le> L" "?B + 4 * k + 4 \<le> unat (rtboot_data l) \<or> unat (rtboot_data l) + 108 \<le> ?B + 4 * k"
    have "load_word (?B + 4 * k) m1 = load_word (?B + 4 * k) m"
      unfolding m1_def using k(2) by (intro load_word_cong relocation_setup_other) auto
    then show "load_word (unat base + 4 * k) m3 = relocated_image l gp (base - CFG_MONITOR_BASE l) m rs k"
      by (simp only: m3(2) got(1) ld2 [OF k(1)] relocated_image_def Let_def base_def [symmetric])
  qed
qed

lemma aligned_lines:
  assumes "caches_ok l m" "get_field l Icache_size m \<noteq> 0 \<and> get_field l Dcache_size m \<noteq> 0" "256 dvd unat base"
    and "unat base \<le> x" "x < unat base + unat sz"
  shows "in_lines (get_field l Dcache_line_size m) base sz x" "in_lines (get_field l Icache_line_size m) base sz x"
proof -
  have "unat line dvd unat base" if "line_ok line n" for line n
  proof -
    have "(2::nat) ^ n dvd 2 ^ 8" using that by (intro le_imp_power_dvd) (simp add: line_ok_def)
    also have "\<dots> dvd unat base" using assms(3) by simp
    finally show ?thesis by (simp add: line_ok_unat [OF that])
  qed
  then show "in_lines (get_field l Dcache_line_size m) base sz x" "in_lines (get_field l Icache_line_size m) base sz x"
    using assms by (auto simp: caches_ok_def intro!: in_lines_aligned)
qed

lemma arch_relocation_aux:
  fixes l gp m
  defines "base \<equiv> get_field l Relocation_base m" and "L \<equiv> unat (get_field l Rtboot_length m)"
  defines "off \<equiv> base - CFG_MONITOR_BASE l"
  defines "B \<equiv> unat (CFG_MONITOR_BASE l)" and "d \<equiv> unat (rtboot_data l)"
  assumes lay: "boot_layout l gp m tbl" and tbl: "reloc_section n rs = Some (Inr tbl)"
    and rs: "\<forall>r \<in> set rs. good_reloc L r" "distinct (map rel_offset rs)"
  shows "\<exists>st. arch_relocation l gp m = Some st \<and>
    start_gp st = gp + off \<and> start_sp st = get_field l Start_stack_base m \<and> start_pc st = system_late_init l + off \<and>
    (\<forall>k. B + 4 * k + 4 \<le> unat (rtboot_data_end l) \<longrightarrow>
       (B + 4 * k + 4 \<le> d \<or> d + sizeof_system_boot_data l \<le> B + 4 * k) \<longrightarrow>
       load_word (unat base + 4 * k) (start_mem st) = relocated_image l gp off m rs k) \<and>
    (\<forall>i. unat (rtboot_data_end l) \<le> B + i \<longrightarrow> i < L \<longrightarrow> (B + i < d \<or> d + sizeof_system_boot_data l \<le> B + i) \<longrightarrow>
       start_mem st (unat base + i) = 0) \<and>
    (\<forall>i < sizeof_system_boot_data l. start_mem st (unat base + (d - B) + i) = relocation_setup l gp m (d + i)) \<and>
    (\<forall>x. x < unat base \<or> unat base + L \<le> x \<longrightarrow> start_mem st x = relocation_setup l gp m x) \<and>
    (get_field l Icache_size m \<noteq> 0 \<and> get_field l Dcache_size m \<noteq> 0 \<longrightarrow>
      (\<forall>x. unat base \<le> x \<longrightarrow> x < unat base + L \<longrightarrow>
         flushed 0x15 (get_field l Dcache_line_size m) (start_cache st) x \<and>
         flushed 0x10 (get_field l Icache_line_size m) (start_cache st) x))"
proof -
  let ?n = "sizeof_system_boot_data l" and ?m1 = "relocation_setup l gp m"
  note lay' = lay [unfolded boot_layout_def Let_def, folded base_def L_def B_def d_def]
  obtain m3 where m3: "arch_table_relocation l (arch_got_relocation l (rt_memcpy (unat base) B L ?m1)) = Some m3"
    "\<And>k. 4 * k + 4 \<le> L \<Longrightarrow> B + 4 * k + 4 \<le> d \<or> d + 108 \<le> B + 4 * k \<Longrightarrow>
      load_word (unat base + 4 * k) m3 = relocated_image l gp off m rs k"
    "\<And>x. outside base L x 1 \<Longrightarrow> m3 x = ?m1 x"
    using arch_relocation_passes [OF lay tbl rs [unfolded L_def], folded base_def L_def B_def d_def off_def] by blast
  have fld: "get_field l f m' = get_field l f ?m1" if "\<And>x. x < unat base \<Longrightarrow> m' x = ?m1 x" for f m'
    unfolding get_field_def
    by (rule load_word_cong) (use field_addr_bounds [of l f] lay' that in \<open>auto simp: d_def\<close>)
  have len1: "get_field l Rtboot_length ?m1 = get_field l Rtboot_length m" by (simp add: relocation_setup_fields)
  have f1: "get_field l Relocation_base ?m1 = base" "unat (get_field l Rtboot_length ?m1) = L"
    "get_field l New_gp ?m1 = gp + off" "get_field l Relocation_offset ?m1 = off"
    "get_field l Start_stack_base ?m1 = get_field l Start_stack_base m"
    by (simp_all add: relocation_setup_fields base_def L_def off_def)
  have f3: "get_field l f m3 = get_field l f ?m1" for f by (rule fld) (auto intro: m3(3) simp: outside_def)
  define m4 where "m4 = relocation_clear l m3"
  have a4: "unat (rtboot_data_end l + off) = unat base + (unat (rtboot_data_end l) - B)"
    unfolding off_def B_def using lay' by (intro unat_moved [where L = L]) (auto simp: B_def word_le_nat_alt)
  have n4: "unat (rtboot_end l - rtboot_data_end l) = B + L - unat (rtboot_data_end l)"
    using lay' by (simp add: unat_sub)
  have m4: "m4 = mem_fill (unat base + (unat (rtboot_data_end l) - B)) 0 (B + L - unat (rtboot_data_end l)) m3"
    by (simp add: m4_def relocation_clear_def f3 f1 a4 n4 rt_memset_fill)
  have le: "unat (rtboot_data_end l) \<le> B + L" "B \<le> unat (rtboot_data_end l)" "B \<le> d" "d + ?n \<le> B + L" "108 \<le> ?n" "B + L \<le> unat base"
    using lay' by (simp_all add: word_le_nat_alt)
  have b4: "m4 x = ?m1 x" if "x < unat base \<or> unat base + L \<le> x" for x
    using that le m3(3) [of x] by (auto simp: m4 mem_fill_def outside_def)
  have f4: "get_field l f m4 = get_field l f ?m1" for f by (rule fld) (simp add: b4)
  define m5 where "m5 = relocation_copy_data l m4"
  have a5: "unat (rtboot_data l + off) = unat base + (d - B)"
    unfolding off_def B_def d_def using lay' by (intro unat_moved [where L = L]) (auto simp: B_def d_def)
  have m5: "m5 = mem_copy (unat base + (d - B)) d ?n m4"
    unfolding m5_def relocation_copy_data_def f4 f1 a5 d_def [symmetric] using le by (intro rt_memcpy_copy) auto
  have b5: "m5 x = ?m1 x" if "x < unat base \<or> unat base + L \<le> x" for x
    using that le b4 [of x] by (auto simp: m5 mem_copy_def)
  have f5: "get_field l f m5 = get_field l f ?m1" for f by (rule fld) (simp add: b5)
  have c1: "get_field l f ?m1 = get_field l f m" if "field_index f \<ge> 14" for f
    using that by (cases f) (simp_all add: relocation_setup_fields)
  have ok5: "caches_ok l m5" using lay' by (simp add: caches_ok_def f5 c1)
  have lt5: "unat base + unat (get_field l Rtboot_length m) + 256 \<le> 2 ^ 32" using lay' by (simp add: L_def)
  obtain ops where ops: "arch_cache_flush l base (get_field l Rtboot_length m) m5 = Some ops"
    "get_field l Icache_size m \<noteq> 0 \<and> get_field l Dcache_size m \<noteq> 0 \<longrightarrow>
      (\<forall>x. (flushed 0x15 (get_field l Dcache_line_size m) ops x \<longleftrightarrow> in_lines (get_field l Dcache_line_size m) base (get_field l Rtboot_length m) x) \<and>
           (flushed 0x10 (get_field l Icache_line_size m) ops x \<longleftrightarrow> in_lines (get_field l Icache_line_size m) base (get_field l Rtboot_length m) x))"
    using cache_flush_lines [OF ok5 lt5] by (auto simp: f5 c1)
  have fl: "flushed 0x15 (get_field l Dcache_line_size m) ops x \<and> flushed 0x10 (get_field l Icache_line_size m) ops x"
    if "get_field l Icache_size m \<noteq> 0 \<and> get_field l Dcache_size m \<noteq> 0" "unat base \<le> x" "x < unat base + L" for x
    using ops(2) that aligned_lines [of l m base x "get_field l Rtboot_length m"] lay' by (simp add: L_def)
  have "arch_relocation l gp m = Some \<lparr>start_gp = gp + off, start_sp = get_field l Start_stack_base m,
      start_pc = system_late_init l + off, start_mem = m5, start_cache = ops\<rparr>"
    using m3(1) ops(1) by (simp add: arch_relocation_def Let_def f1 B_def [symmetric] m4_def [symmetric] m5_def [symmetric] f4 f5 len1 L_def [symmetric])
  moreover have "load_word (unat base + 4 * k) m5 = relocated_image l gp off m rs k"
    if "B + 4 * k + 4 \<le> unat (rtboot_data_end l)" "B + 4 * k + 4 \<le> d \<or> d + ?n \<le> B + 4 * k" for k
  proof -
    have "load_word (unat base + 4 * k) m5 = load_word (unat base + 4 * k) m3"
      by (rule load_word_cong) (use that le in \<open>auto simp: m5 m4 mem_copy_def mem_fill_def\<close>)
    then show ?thesis using m3(2) [of k] that le by auto
  qed
  moreover have "m5 (unat base + i) = 0"
    if "unat (rtboot_data_end l) \<le> B + i" "i < L" "B + i < d \<or> d + ?n \<le> B + i" for i
    using that le by (auto simp: m5 m4 mem_copy_def mem_fill_def)
  moreover have "m5 (unat base + (d - B) + i) = ?m1 (d + i)" if "i < ?n" for i
    using that le b4 [of "d + i"] by (auto simp: m5 mem_copy_def)
  ultimately show ?thesis
    by (intro exI [of _ "\<lparr>start_gp = gp + off, start_sp = get_field l Start_stack_base m,
      start_pc = system_late_init l + off, start_mem = m5, start_cache = ops\<rparr>"]) (simp add: b5 fl)
qed

section \<open>Collecting the entries\<close>

definition reloc_buf_ok :: "reloc_buf \<Rightarrow> bool" where
  "reloc_buf_ok b \<longleftrightarrow>
     length (relocs b) \<le> relocs_sz b \<and> (\<forall>r \<in> set (relocs b). rel_type r = ucast R_MIPS_32 \<and> unat (rel_offset r) < 2 ^ 32)"

lemma parse_mips32_rel_ok:
  "reloc_buf_ok b \<Longrightarrow> reloc_buf_ok (snd (parse_mips32_rel can_grow is_be text_base elf rel b))"
proof -
  assume b: "reloc_buf_ok b"
  have "unat (ucast (w :: u32) :: u64) < 2 ^ 32" for w
    using unsigned_less [of w, where 'a = nat] by (simp add: unsigned_ucast_eq take_bit_nat_eq_self)
  with b show ?thesis
    by (auto simp: parse_mips32_rel_def add_reloc_def reloc_buf_ok_def Let_def)
qed

lemma parse_mips32_rel_err:
  "fst (parse_mips32_rel can_grow is_be text_base elf rel b) \<in> {0, - ENOMEM}"
  "(\<And>n. can_grow n) \<Longrightarrow> fst (parse_mips32_rel can_grow is_be text_base elf rel b) = 0"
  by (auto simp: parse_mips32_rel_def add_reloc_def Let_def)

section \<open>Properties\<close>

text \<open>A small image: an offset table with one entry of its own and two listed words.\<close>

definition small_link :: link where
  "small_link = \<lparr>CFG_MONITOR_BASE = 0x1000, rtboot_data_end = 0x1030, rtboot_end = 0x10c0, got_start = 0x1010,
     got_end = 0x101c, rel_table_start = 0x1020, rtboot_data = 0x1040, sizeof_system_boot_data = 108,
     system_late_init = 0x100c\<rparr>"

lemma small_sel:
  "CFG_MONITOR_BASE small_link = 0x1000" "rtboot_data_end small_link = 0x1030" "rtboot_end small_link = 0x10c0"
  "got_start small_link = 0x1010" "got_end small_link = 0x101c" "rel_table_start small_link = 0x1020"
  "rtboot_data small_link = 0x1040" "sizeof_system_boot_data small_link = 108" "system_late_init small_link = 0x100c"
  by (simp_all add: small_link_def)

definition small_relocs :: "mips_reloc list" where
  "small_relocs = [\<lparr>rel_type = 2, rel_offset = 8\<rparr>, \<lparr>rel_type = 2, rel_offset = 4\<rparr>]"

definition small_mem :: memory where
  "small_mem =
     store_word 0x1060 0x2000 (store_word 0x1050 0xc0 (store_word 0x1064 0x8000 (store_word 0x1074 0x1000
       (store_word 0x1018 0x1004 (store_word 0x1004 0x1000 (store_word 0x1008 0x1010
         ((\<lambda>_. 0)(0x1020 := 2, 0x1021 := 1, 0x1022 := 2, 0x1023 := 1)))))))) "

lemma small_table: "reloc_section 16 small_relocs = Some (Inr [2, 1, 2, 1, 0])"
  by code_simp

lemma small_fields:
  "get_field small_link Relocation_base small_mem = 0x2000"
  "get_field small_link Rtboot_length small_mem = 0xc0"
  "get_field small_link Start_stack_base small_mem = 0x8000"
  "get_field small_link Relocation_offset small_mem = 0x1000"
  by (simp_all add: get_field_def field_addr_def small_link_def small_mem_def)

lemma small_bytes: "bytes_at small_mem 0x1020 [2, 1, 2, 1, 0]"
  by (simp add: small_mem_def store_word_def)

lemma small_good: "\<forall>r \<in> set small_relocs. good_reloc 0xc0 r" "distinct (map rel_offset small_relocs)"
  by (simp_all add: small_relocs_def good_reloc_def R_MIPS_32_def)

lemma small_loads: "load_word 0x1004 small_mem = 0x1000" "load_word 0x1018 small_mem = 0x1004"
   "load_word 0x1008 small_mem = 0x1010"
  by (simp_all add: small_mem_def)

text \<open>
  C31: The table of the host tool is decoded as it was meant.  If \<open>reloc_section\<close> writes the table for a list
  of distinct word-aligned places inside the image, and the table lies in memory apart from the new image,
  then \<open>arch_table_relocation\<close> ends, adds the relocation offset to exactly the words of the list and
  changes no byte outside the new image.
\<close>

theorem reloc_table_roundtrip:
  assumes "reloc_section n rs = Some (Inr tbl)" "bytes_at m (unat (rel_table_start l)) tbl"
    and "\<forall>r \<in> set rs. good_reloc L r" "distinct (map rel_offset rs)"
    and "L \<le> 2 ^ 31" "unat (get_field l Relocation_base m) + L \<le> 2 ^ 32"
    and "outside (get_field l Relocation_base m) L (unat (rel_table_start l)) (length tbl)"
    and "outside (get_field l Relocation_base m) L (field_addr l Relocation_offset) 4"
  shows "\<exists>m'. arch_table_relocation l m = Some m' \<and>
    (\<forall>k. load_word (unat (get_field l Relocation_base m) + 4 * k) m' =
       load_word (unat (get_field l Relocation_base m) + 4 * k) m +
       (if \<exists>r \<in> set rs. unat (rel_offset r) = 4 * k then get_field l Relocation_offset m else 0)) \<and>
    (\<forall>x. outside (get_field l Relocation_base m) L x 1 \<longrightarrow> m' x = m x)"
  using assms by (rule table_roundtrip_aux)

theorem reloc_table_roundtrip_witness:
  "\<exists>m'. arch_table_relocation small_link (small_mem(0x2004 := 7)) = Some m' \<and>
     load_word 0x2004 m' = 0x07001000 \<and> load_word 0x200c m' = 0"
proof -
  let ?m = "small_mem(0x2004 := 7)"
  have f: "get_field small_link f ?m = get_field small_link f small_mem" for f
    by (cases f) (simp_all add: get_field_def field_addr_def small_sel load_word_def)
  have b: "bytes_at ?m (unat (rel_table_start small_link)) [2, 1, 2, 1, 0]"
    using small_bytes by (simp add: small_sel)
  have l: "load_word 0x2004 ?m = 0x07000000" "load_word 0x200c ?m = 0"
    by (simp_all add: small_mem_def load_word_def store_word_def)
  obtain m' where m': "arch_table_relocation small_link ?m = Some m'"
    "\<And>k. load_word (0x2000 + 4 * k) m' = load_word (0x2000 + 4 * k) ?m +
       (if \<exists>r \<in> set small_relocs. unat (rel_offset r) = 4 * k then 0x1000 else 0)"
    using reloc_table_roundtrip [OF small_table b small_good]
    by (auto simp: f small_fields outside_def small_sel field_addr_def)
  from m'(1) m'(2) [of 1] m'(2) [of 3] show ?thesis by (simp add: l small_relocs_def)
qed

text \<open>
  C32: The tool's array of relocations stays well-formed whatever the ELF file holds: it never has more entries
  than it was grown to, every entry is of the one kind the loader applies and its offset fits 32 bits; the
  scan of a section reports no error but \<open>ENOMEM\<close>, and that one only if the array cannot grow.
\<close>

theorem parse_entries_ok:
  assumes "reloc_buf_ok b"
    and "parse_entries (parse_mips32_rel can_grow is_be text_base elf) sh_offset sh_entsize n b = (err, b')"
  shows "reloc_buf_ok b' \<and> err \<in> {0, - ENOMEM} \<and> ((\<forall>k. can_grow k) \<longrightarrow> err = 0)"
  using assms
proof (induction n arbitrary: sh_offset b)
  case (Suc n)
  obtain e b1 where r: "parse_mips32_rel can_grow is_be text_base elf sh_offset b = (e, b1)" by (metis surj_pair)
  have "reloc_buf_ok b1" "e \<in> {0, - ENOMEM}" "(\<forall>k. can_grow k) \<longrightarrow> e = 0"
    using parse_mips32_rel_ok [OF Suc.prems(1), of can_grow is_be text_base elf sh_offset]
      parse_mips32_rel_err [of can_grow is_be text_base elf sh_offset b] by (auto simp: r)
  with Suc show ?case by (auto simp: r split: if_splits)
qed simp

theorem parse_entries_ok_witness:
  "reloc_buf_ok (snd (parse_entries (parse_mips32_rel (\<lambda>_. True) True 0 (\<lambda>a. if a = 7 then 2 else 0)) 0 8 1
     \<lparr>relocs = [], relocs_sz = 0\<rparr>)) \<and>
   fst (parse_entries (parse_mips32_rel (\<lambda>_. True) True 0 (\<lambda>a. if a = 7 then 2 else 0)) 0 8 1
     \<lparr>relocs = [], relocs_sz = 0\<rparr>) = 0"
proof -
  have "reloc_buf_ok \<lparr>relocs = [], relocs_sz = 0\<rparr>" by (simp add: reloc_buf_ok_def)
  from parse_entries_ok [OF this, of "\<lambda>_. True" True 0 "\<lambda>a. if a = 7 then 2 else 0" 0 8 1]
  show ?thesis by (metis (no_types, lifting) prod.collapse)
qed

section \<open>From the first instruction to the relocated code\<close>

text \<open>
  What the linker script and the first stage provide: the parts of the image and the table lie inside the
  image, and the image lies below the areas that \<open>arch_early_init\<close> reserves at the top of the memory.
\<close>

definition image_layout :: "link \<Rightarrow> u32 \<Rightarrow> u32 \<Rightarrow> memory \<Rightarrow> u8 list \<Rightarrow> bool" where
  "image_layout l gp bootflag m tbl \<longleftrightarrow>
     (let B = unat (CFG_MONITOR_BASE l); E = unat (rtboot_end l); L = E - B; d = unat (rtboot_data l);
          n = sizeof_system_boot_data l; t = unat (rel_table_start l)
      in B \<le> E \<and> L + 0x200000 \<le> unat bootflag \<and> unat bootflag \<le> 0x1fff0000 \<and>
         E + L + 0x187000 \<le> 0x80000000 + unat bootflag \<and>
         B \<le> unat (rtboot_data_end l) \<and> unat (rtboot_data_end l) \<le> E \<and>
         B \<le> d \<and> d + n \<le> E \<and> 108 \<le> n \<and>
         B \<le> unat gp \<and> 4 dvd (unat gp - B) \<and> unat gp + 4 * (unat (got_end l - got_start l) div 4) \<le> E \<and>
         B \<le> t \<and> t + length tbl \<le> E \<and> (t + length tbl \<le> d \<or> d + n \<le> t) \<and> bytes_at m t tbl)"

lemma early_boot_layout:
  fixes l bootflag m cfg
  defines "m' \<equiv> board_early_init l cfg (set_field l System_memsize bootflag m)"
  defines "L \<equiv> unat (rtboot_end l) - unat (CFG_MONITOR_BASE l)"
  assumes lay: "image_layout l gp bootflag m tbl"
  shows "boot_layout l gp m' tbl" "get_field l Relocation_base m' = part_base l bootflag"
    "unat (get_field l Rtboot_length m') = L" "get_field l Start_stack_base m' = part_stack_start l bootflag"
    "x < unat (rtboot_end l) \<Longrightarrow> x < unat (rtboot_data l) \<or> unat (rtboot_data l) + 108 \<le> x \<Longrightarrow> m' x = m x"
proof -
  let ?m = "set_field l System_memsize bootflag m" and ?s = "part_stack_start l bootflag"
  note lay' = lay [unfolded image_layout_def Let_def, folded L_def]
  have lx: "unat (CFG_MONITOR_BASE l) \<le> unat (rtboot_end l)" "L + 0x200000 \<le> unat bootflag" "unat bootflag \<le> 0x1fff0000"
    "unat (rtboot_end l) + L + 0x187000 \<le> 0x80000000 + unat bootflag"
    "unat (rtboot_data l) + sizeof_system_boot_data l \<le> unat (rtboot_end l)" "108 \<le> sizeof_system_boot_data l"
    using lay' by blast+
  have s: "get_field l System_memsize ?m = bootflag" by (simp add: get_set_field)
  have ar: "unat (part_base l bootflag) + L \<le> 0x80000000 + unat bootflag" "16384 dvd unat (part_base l bootflag)"
    "unat ?s + 0x181018 = unat (part_base l bootflag)"
    "0x80000000 + unat bootflag < unat (part_base l bootflag) + L + 0x5000"
  proof -
    have h: "unat (rtboot_end l) - unat (CFG_MONITOR_BASE l) + 0x200000 \<le> unat bootflag" "unat bootflag \<le> 0x20000000"
      "CFG_MONITOR_BASE l \<le> rtboot_end l"
      using lx unfolding L_def word_le_nat_alt by linarith+
    note p = part_arith [OF h]
    show "unat (part_base l bootflag) + L \<le> 0x80000000 + unat bootflag" "16384 dvd unat (part_base l bootflag)"
      "0x80000000 + unat bootflag < unat (part_base l bootflag) + L + 0x5000"
      using p(1,2,9) by (simp_all add: L_def)
    show "unat ?s + 0x181018 = unat (part_base l bootflag)" using p(3,5,6,7) by linarith
  qed
  have top: "unat (rtboot_end l) \<le> unat ?s" using ar lx by linarith
  have dl: "unat (rtboot_data l) + 108 \<le> unat (rtboot_end l)" using lx by linarith
  have apart: "unat ?s + 8 \<le> unat (rtboot_data l) \<or> unat (rtboot_data l) + 108 \<le> unat ?s" using top dl by linarith
  note e = early_init_fields [of l ?m, unfolded s, OF apart]
  have m': "m' = arch_early_init l cfg ?m" by (simp add: m'_def board_early_init_def soc_early_init_def)
  show f: "get_field l Relocation_base m' = part_base l bootflag"
    "get_field l Start_stack_base m' = part_stack_start l bootflag" by (simp_all add: m' e(1))
  show len: "unat (get_field l Rtboot_length m') = L"
    using lx(1) by (simp add: m' e(1) L_def unat_sub word_le_nat_alt)
  show mem: "m' x = m x" if "x < unat (rtboot_end l)" "x < unat (rtboot_data l) \<or> unat (rtboot_data l) + 108 \<le> x" for x
    using e(3) [OF that(2)] that top by (simp add: m' set_field_other)
  have "bytes_at m' (unat (rel_table_start l)) tbl"
    by (rule bytes_at_cong [of m]) (use lay' in \<open>auto intro!: mem\<close>)
  moreover have "256 dvd unat (part_base l bootflag)" by (rule dvd_trans [OF _ ar(2)]) simp
  moreover have "unat (CFG_MONITOR_BASE l) + L = unat (rtboot_end l)" using lx(1) by (simp add: L_def)
  ultimately show "boot_layout l gp m' tbl"
    unfolding boot_layout_def Let_def f len using lay' ar(1,3) top e(2) [of cfg]
    by (simp add: word_le_nat_alt m')
qed

text \<open>
  C20: The boot loader moves itself correctly.  On an image laid out as by the linker script below the areas
  reserved at the top of the memory, \<open>system_early_init\<close> ends and starts the copy with the moved \<open>gp\<close>, the
  new stack and the moved entry.  Every word of the initialised part of the copy is the old word, moved if it is
  a non-zero entry of the offset table or listed in the relocation table; the rest of the copy is zero but for the
  boot data, which are those of the old image; nothing else of the memory below the copy changes but the old
  boot data and eight bytes of the new stack; and with both caches present every byte of the copy is flushed.
\<close>

theorem system_early_init_correct:
  fixes l gp bootflag m
  defines "base \<equiv> part_base l bootflag" and "L \<equiv> unat (rtboot_end l) - unat (CFG_MONITOR_BASE l)"
  defines "off \<equiv> base - CFG_MONITOR_BASE l"
  defines "B \<equiv> unat (CFG_MONITOR_BASE l)" and "d \<equiv> unat (rtboot_data l)" and "n \<equiv> sizeof_system_boot_data l"
  assumes "image_layout l gp bootflag m tbl" and "reloc_section k rs = Some (Inr tbl)"
    and "\<forall>r \<in> set rs. good_reloc L r" "distinct (map rel_offset rs)"
  shows "\<exists>st. system_early_init l cfg gp bootflag m = Some st \<and>
    start_gp st = gp + off \<and> start_sp st = part_stack_start l bootflag \<and> start_pc st = system_late_init l + off \<and>
    (\<forall>k. B + 4 * k + 4 \<le> unat (rtboot_data_end l) \<longrightarrow> (B + 4 * k + 4 \<le> d \<or> d + n \<le> B + 4 * k) \<longrightarrow>
       load_word (unat base + 4 * k) (start_mem st) = relocated_image l gp off m rs k) \<and>
    (\<forall>i. unat (rtboot_data_end l) \<le> B + i \<longrightarrow> i < L \<longrightarrow> (B + i < d \<or> d + n \<le> B + i) \<longrightarrow>
       start_mem st (unat base + i) = 0) \<and>
    (\<forall>i < n. start_mem st (unat base + (d - B) + i) = start_mem st (d + i)) \<and>
    (\<forall>x < B + L. x < d \<or> d + 108 \<le> x \<longrightarrow> start_mem st x = m x) \<and>
    (get_field l Icache_size (start_mem st) \<noteq> 0 \<and> get_field l Dcache_size (start_mem st) \<noteq> 0 \<longrightarrow>
      (\<forall>x. unat base \<le> x \<longrightarrow> x < unat base + L \<longrightarrow>
         flushed 0x15 (get_field l Dcache_line_size (start_mem st)) (start_cache st) x \<and>
         flushed 0x10 (get_field l Icache_line_size (start_mem st)) (start_cache st) x))"
proof -
  define m' where "m' = board_early_init l cfg (set_field l System_memsize bootflag m)"
  note e = early_boot_layout [OF assms(7), where cfg = cfg, folded m'_def]
  have L: "unat (get_field l Rtboot_length m') = L" and base: "get_field l Relocation_base m' = base"
    using e(2,3) by (simp_all add: L_def base_def)
  have lx: "B + L = unat (rtboot_end l)" "B \<le> d" "d + n \<le> unat (rtboot_end l)" "108 \<le> n"
    "unat (rtboot_data_end l) \<le> unat (rtboot_end l)"
    using assms(7) unfolding image_layout_def Let_def by (auto simp: B_def L_def d_def n_def)
  have bl: "B + L \<le> unat base"
    using e(1) unfolding boot_layout_def Let_def L base B_def [symmetric] by blast
  obtain st where st: "arch_relocation l gp m' = Some st"
    "start_gp st = gp + off" "start_sp st = get_field l Start_stack_base m'" "start_pc st = system_late_init l + off"
    "\<And>k. B + 4 * k + 4 \<le> unat (rtboot_data_end l) \<Longrightarrow> B + 4 * k + 4 \<le> d \<or> d + n \<le> B + 4 * k \<Longrightarrow>
       load_word (unat base + 4 * k) (start_mem st) = relocated_image l gp off m' rs k"
    "\<And>i. unat (rtboot_data_end l) \<le> B + i \<Longrightarrow> i < L \<Longrightarrow> B + i < d \<or> d + n \<le> B + i \<Longrightarrow> start_mem st (unat base + i) = 0"
    "\<And>i. i < n \<Longrightarrow> start_mem st (unat base + (d - B) + i) = relocation_setup l gp m' (d + i)"
    "\<And>x. x < unat base \<or> unat base + L \<le> x \<Longrightarrow> start_mem st x = relocation_setup l gp m' x"
    "get_field l Icache_size m' \<noteq> 0 \<and> get_field l Dcache_size m' \<noteq> 0 \<Longrightarrow> unat base \<le> x \<Longrightarrow> x < unat base + L \<Longrightarrow>
       flushed 0x15 (get_field l Dcache_line_size m') (start_cache st) x \<and>
       flushed 0x10 (get_field l Icache_line_size m') (start_cache st) x" for x
    using arch_relocation_aux [OF e(1) assms(8), unfolded L base] assms(9,10)
    unfolding off_def B_def d_def n_def by blast
  have old: "m' x = m x" if "x < B + L" "x < d \<or> d + 108 \<le> x" for x
    using e(5) that lx by (simp add: d_def)
  have img: "relocated_image l gp off m' rs k = relocated_image l gp off m rs k"
    if "B + 4 * k + 4 \<le> unat (rtboot_data_end l)" "B + 4 * k + 4 \<le> d \<or> d + n \<le> B + 4 * k" for k
  proof -
    have "load_word (B + 4 * k) m' = load_word (B + 4 * k) m"
      by (rule load_word_cong) (use that lx in \<open>auto intro!: old\<close>)
    then show ?thesis by (simp add: relocated_image_def B_def)
  qed
  have fld: "get_field l f (start_mem st) = get_field l f m'" if "14 \<le> field_index f" for f
  proof -
    have "get_field l f (start_mem st) = get_field l f (relocation_setup l gp m')"
      unfolding get_field_def by (rule load_word_cong)
        (use field_addr_bounds [of l f] lx bl in \<open>auto intro!: st(8) simp: d_def\<close>)
    then show ?thesis using that by (cases f) (simp_all add: relocation_setup_fields)
  qed
  have "start_mem st x = m x" if "x < B + L" "x < d \<or> d + 108 \<le> x" for x
    using st(8) [of x] old [OF that] that bl relocation_setup_other [of x l gp m'] by (simp add: d_def)
  moreover have "start_mem st (unat base + (d - B) + i) = start_mem st (d + i)" if "i < n" for i
    using st(7) [OF that] st(8) [of "d + i"] that lx bl by simp
  moreover have "system_early_init l cfg gp bootflag m = Some st"
    using st(1) by (simp add: system_early_init_def m'_def)
  ultimately show ?thesis
    using st(2-6,9) img by (intro exI [of _ st]) (simp add: fld e(4))
qed

text \<open>The small image once more, at its place in a memory of 64 MB.\<close>

definition boot_link :: link where
  "boot_link = \<lparr>CFG_MONITOR_BASE = 0x80010000, rtboot_data_end = 0x80010030, rtboot_end = 0x800100c0,
     got_start = 0x80010010, got_end = 0x8001001c, rel_table_start = 0x80010020, rtboot_data = 0x80010040,
     sizeof_system_boot_data = 108, system_late_init = 0x8001000c\<rparr>"

definition boot_mem :: memory where
  "boot_mem =
     store_word 0x80010018 0x80010004 (store_word 0x80010004 0x80010000 (store_word 0x80010008 0x80010010
       ((\<lambda>_. 0)(0x80010020 := 2, 0x80010021 := 1, 0x80010022 := 2, 0x80010023 := 1))))"

lemma boot_layout_small: "image_layout boot_link 0x80010010 0x4000000 boot_mem [2, 1, 2, 1, 0]"
  by (simp add: image_layout_def boot_link_def boot_mem_def)

lemma boot_base: "part_base boot_link 0x4000000 = 0x83ffc000"
  by (simp add: part_base_def boot_link_def CFG_SDRAM_BASE_def)

theorem system_early_init_correct_witness:
  "\<exists>st. system_early_init boot_link 0x00201000 0x80010010 0x4000000 boot_mem = Some st \<and>
     start_gp st = 0x83ffc010 \<and> start_pc st = 0x83ffc00c \<and>
     load_word 0x83ffc004 (start_mem st) = 0x83ffc000 \<and> load_word 0x83ffc018 (start_mem st) = 0x83ffc004 \<and>
     start_mem st 0x83ffc030 = 0"
proof -
  have sel: "rtboot_end boot_link = 0x800100c0" "CFG_MONITOR_BASE boot_link = 0x80010000"
    "rtboot_data_end boot_link = 0x80010030" "rtboot_data boot_link = 0x80010040" "system_late_init boot_link = 0x8001000c"
    "got_end boot_link - got_start boot_link = 0xc"
    by (simp_all add: boot_link_def)
  obtain st where st: "system_early_init boot_link 0x00201000 0x80010010 0x4000000 boot_mem = Some st"
    "start_gp st = 0x83ffc010" "start_pc st = 0x83ffc00c"
    "\<And>k. 4 * k + 4 \<le> 0x30 \<Longrightarrow>
       load_word (0x83ffc000 + 4 * k) (start_mem st) = relocated_image boot_link 0x80010010 0x3fec000 boot_mem small_relocs k"
    "\<And>i. 0x30 \<le> i \<Longrightarrow> i < 0x40 \<Longrightarrow> start_mem st (0x83ffc000 + i) = 0"
    using system_early_init_correct [OF boot_layout_small small_table, where cfg = "0x00201000", unfolded boot_base sel] small_good
    by auto
  have "load_word 0x80010004 boot_mem = 0x80010000" "load_word 0x80010018 boot_mem = 0x80010004"
    by (simp_all add: boot_mem_def)
  then have "relocated_image boot_link 0x80010010 0x3fec000 boot_mem small_relocs 1 = 0x83ffc000"
    "relocated_image boot_link 0x80010010 0x3fec000 boot_mem small_relocs 6 = 0x83ffc004"
    by (simp_all add: relocated_image_def Let_def sel small_relocs_def)
  with st(1-3) st(4) [of 1] st(4) [of 6] st(5) [of "0x30"] show ?thesis by auto
qed

end
