(* ===== verification/Spec2Isabelle.thy ===== *)
theory Spec2Isabelle
  imports Crc32 Env RingBuffer RtList Startup Relocation
begin

text \<open>
  A verification development of rt-boot, a boot loader for MIPS routers built on the
  RT-Thread kernel (sources under src/rt-boot).
\<close>

end
